(* ===== verification/Prelude.thy ===== *)
theory Prelude
  imports Main
    "HOL-Library.Word"
    "HOL-Library.Sublist"
    "HOL-Library.List_Lexorder"
    "HOL-Library.Product_Lexorder"
    "HOL-Library.Char_ord"
begin

text \<open>
  Shared vocabulary of the development: the result type of fallible Rust functions with its
  sequencing operators, the fixed-width integers, generic lemmas on lists, and the contract of
  a state machine with an invariant, which the stateful components interpret.
\<close>

section \<open>Collections of facts\<close>

named_theorems str_simps \<open>evaluation of the Rust string operations\<close>
named_theorems res_simps \<open>sequencing of fallible computations\<close>
named_theorems inv_intros \<open>introduction rules for component invariants\<close>

section \<open>Machine integers\<close>

type_synonym u8 = "8 word"
type_synonym u32 = "32 word"
type_synonym u64 = "64 word"

section \<open>Fallible computations\<close>

text \<open>A Rust \<open>Result<T, E>\<close> is a sum: \<open>Inl\<close> carries the error, \<open>Inr\<close> the value.\<close>

definition res_bind :: "'e + 'a \<Rightarrow> ('a \<Rightarrow> 'e + 'b) \<Rightarrow> 'e + 'b" where
  "res_bind m f = (case m of Inl e \<Rightarrow> Inl e | Inr x \<Rightarrow> f x)"

definition res_map :: "('a \<Rightarrow> 'b) \<Rightarrow> 'e + 'a \<Rightarrow> 'e + 'b" where
  "res_map f m = (case m of Inl e \<Rightarrow> Inl e | Inr x \<Rightarrow> Inr (f x))"

definition ok_or :: "'e \<Rightarrow> 'a option \<Rightarrow> 'e + 'a" where
  "ok_or e x = (case x of None \<Rightarrow> Inl e | Some y \<Rightarrow> Inr y)"

fun res_traverse :: "('a \<Rightarrow> 'e + 'b) \<Rightarrow> 'a list \<Rightarrow> 'e + 'b list" where
  "res_traverse f [] = Inr []"
| "res_traverse f (x # xs) =
     (case f x of
        Inl e \<Rightarrow> Inl e
      | Inr y \<Rightarrow> (case res_traverse f xs of Inl e \<Rightarrow> Inl e | Inr ys \<Rightarrow> Inr (y # ys)))"

fun res_fold :: "('a \<Rightarrow> 's \<Rightarrow> 'e + 's) \<Rightarrow> 'a list \<Rightarrow> 's \<Rightarrow> 'e + 's" where
  "res_fold f [] s = Inr s"
| "res_fold f (x # xs) s = (case f x s of Inl e \<Rightarrow> Inl e | Inr s' \<Rightarrow> res_fold f xs s')"

lemma res_bind_simps [simp, res_simps]:
  "res_bind (Inl e) f = Inl e"
  "res_bind (Inr x) f = f x"
  by (simp_all add: res_bind_def)

lemma res_map_simps [simp, res_simps]:
  "res_map f (Inl e) = Inl e"
  "res_map f (Inr x) = Inr (f x)"
  by (simp_all add: res_map_def)

lemma ok_or_simps [simp, res_simps]:
  "ok_or e None = Inl e"
  "ok_or e (Some x) = Inr x"
  by (simp_all add: ok_or_def)

lemma res_bind_eq_Inr [res_simps]: "res_bind m f = Inr y \<longleftrightarrow> (\<exists>x. m = Inr x \<and> f x = Inr y)"
  by (cases m) auto

lemma res_map_eq_Inr [res_simps]: "res_map f m = Inr y \<longleftrightarrow> (\<exists>x. m = Inr x \<and> y = f x)"
  by (cases m) auto

lemma ok_or_eq_Inr [res_simps]: "ok_or e x = Inr y \<longleftrightarrow> x = Some y"
  by (cases x) auto

lemma res_traverse_eq_Inr:
  "res_traverse f xs = Inr ys \<longleftrightarrow> list_all2 (\<lambda>x y. f x = Inr y) xs ys"
proof (induction xs arbitrary: ys)
  case Nil
  then show ?case by auto
next
  case step: (Cons x xs)
  show ?case
  proof (cases ys)
    case Nil
    then show ?thesis by (simp split: sum.splits)
  next
    case (Cons b bs)
    then show ?thesis
      using step.IH [of bs] by (cases "f x"; cases "res_traverse f xs") auto
  qed
qed

lemma res_traverse_length: "res_traverse f xs = Inr ys \<Longrightarrow> length ys = length xs"
  by (auto simp: res_traverse_eq_Inr dest: list_all2_lengthD)

lemma res_traverse_all:
  "(\<And>x. x \<in> set xs \<Longrightarrow> f x = Inr (g x)) \<Longrightarrow> res_traverse f xs = Inr (map g xs)"
  by (induction xs) auto

lemma res_traverse_append:
  "res_traverse f (xs @ ys) =
     (case res_traverse f xs of
        Inl e \<Rightarrow> Inl e
      | Inr as \<Rightarrow> (case res_traverse f ys of Inl e \<Rightarrow> Inl e | Inr bs \<Rightarrow> Inr (as @ bs)))"
  by (induction xs) (auto split: sum.splits)

lemma res_fold_append:
  "res_fold f (xs @ ys) s =
     (case res_fold f xs s of Inl e \<Rightarrow> Inl e | Inr s' \<Rightarrow> res_fold f ys s')"
  by (induction xs arbitrary: s) (auto split: sum.splits)

lemma res_fold_invariant:
  assumes "res_fold f xs s = Inr t" and "P s"
    and "\<And>x s s'. x \<in> set xs \<Longrightarrow> P s \<Longrightarrow> f x s = Inr s' \<Longrightarrow> P s'"
  shows "P t"
  using assms
proof (induction xs arbitrary: s)
  case Nil
  then show ?case by simp
next
  case (Cons x xs)
  from Cons.prems(1) obtain s' where step: "f x s = Inr s'" and rest: "res_fold f xs s' = Inr t"
    by (auto split: sum.splits)
  from Cons.prems(3) [of x s s'] Cons.prems(2) step have "P s'" by simp
  show ?case
    by (rule Cons.IH [OF rest \<open>P s'\<close>]) (use Cons.prems(3) in auto)
qed

section \<open>Decimal notation\<close>

fun dec_digits :: "nat \<Rightarrow> nat list" where
  "dec_digits n = (if n < 10 then [n] else dec_digits (n div 10) @ [n mod 10])"

declare dec_digits.simps [simp del]

section \<open>State machines with an invariant\<close>

text \<open>
  A component with state is an initial state, a deterministic step per event and an
  invariant. What every run keeps is proved once here.
\<close>

fun run_steps :: "('s \<Rightarrow> 'e \<Rightarrow> 's) \<Rightarrow> 's \<Rightarrow> 'e list \<Rightarrow> 's" where
  "run_steps step s [] = s"
| "run_steps step s (e # es) = run_steps step (step s e) es"

lemma run_steps_append: "run_steps step s (xs @ ys) = run_steps step (run_steps step s xs) ys"
  by (induction xs arbitrary: s) auto

locale invariant_machine =
  fixes init :: 's
    and step :: "'s \<Rightarrow> 'e \<Rightarrow> 's"
    and inv :: "'s \<Rightarrow> bool"
  assumes inv_init: "inv init"
    and inv_step: "inv s \<Longrightarrow> inv (step s e)"
begin

lemma inv_from: "inv s \<Longrightarrow> inv (run_steps step s es)"
  by (induction es arbitrary: s) (auto intro: inv_step)

lemma inv_run: "inv (run_steps step init es)"
  by (rule inv_from) (rule inv_init)

lemma inv_after_run: "inv (step (run_steps step init es) e)"
  by (rule inv_step) (rule inv_run)

end

section \<open>Machines with choice\<close>

text \<open>
  Where threads or the environment choose, a component is a labelled step relation. A run is a
  finite sequence of steps with its labels; what every step keeps holds in every reachable state.
\<close>

inductive lts_run :: "('s \<Rightarrow> 'e \<Rightarrow> 's \<Rightarrow> bool) \<Rightarrow> 's \<Rightarrow> 'e list \<Rightarrow> 's \<Rightarrow> bool"
  for step where
  lts_nil: "lts_run step s [] s"
| lts_cons: "step s e t \<Longrightarrow> lts_run step t es u \<Longrightarrow> lts_run step s (e # es) u"

inductive_simps lts_run_Nil [simp]: "lts_run step s [] t"
inductive_cases lts_run_ConsE: "lts_run step s (e # es) u"

lemma lts_run_append: "lts_run step s xs t \<Longrightarrow> lts_run step t ys u \<Longrightarrow> lts_run step s (xs @ ys) u"
  by (induction rule: lts_run.induct) (auto intro: lts_run.intros)

lemma lts_run_snoc: "lts_run step s es t \<Longrightarrow> step t e u \<Longrightarrow> lts_run step s (es @ [e]) u"
  by (rule lts_run_append) (auto intro: lts_run.intros)

lemma lts_run_invariant:
  assumes "lts_run step s es t" and "P s"
    and "\<And>s e t. e \<in> set es \<Longrightarrow> step s e t \<Longrightarrow> P s \<Longrightarrow> P t"
  shows "P t"
  using assms by (induction rule: lts_run.induct) auto

locale relational_machine =
  fixes init :: 's
    and step :: "'s \<Rightarrow> 'e \<Rightarrow> 's \<Rightarrow> bool"
    and inv :: "'s \<Rightarrow> bool"
  assumes inv_init: "inv init"
    and inv_step: "inv s \<Longrightarrow> step s e t \<Longrightarrow> inv t"
begin

lemma inv_from: "lts_run step s es t \<Longrightarrow> inv s \<Longrightarrow> inv t"
  by (induction rule: lts_run.induct) (auto intro: inv_step)

lemma inv_reached: "lts_run step init es t \<Longrightarrow> inv t"
  by (rule inv_from [OF _ inv_init])

lemma inv_forever:
  assumes "\<sigma> 0 = init" and "\<And>i. step (\<sigma> i) (\<epsilon> i) (\<sigma> (Suc i))"
  shows "inv (\<sigma> i)"
proof (induction i)
  case 0
  from assms(1) inv_init show ?case by simp
next
  case (Suc i)
  from inv_step [OF Suc assms(2)] show ?case .
qed

end

end
