(* ===== verification/Rust_Str.thy ===== *)
theory Rust_Str
  imports Prelude
begin

text \<open>
  Rust strings. A \<open>&str\<close> is the list of its UTF-8 bytes, so lengths, offsets and slices are
  those of the source; a Rust \<open>char\<close> is the list of its one to four bytes. The UTF-8 table
  is that of \<open>core::str::from_utf8\<close>. The lemmas show that cutting at char
  boundaries keeps strings valid and that the chars of a string concatenate to it.
\<close>

section \<open>Bytes\<close>

type_synonym byte = char
type_synonym rstr = "byte list"
type_synonym rchar = "byte list"

abbreviation code :: "byte \<Rightarrow> nat" where
  "code \<equiv> of_char"

definition is_ascii_digit :: "byte \<Rightarrow> bool" where
  "is_ascii_digit b \<longleftrightarrow> CHR ''0'' \<le> b \<and> b \<le> CHR ''9''"

definition is_ascii_uppercase :: "byte \<Rightarrow> bool" where
  "is_ascii_uppercase b \<longleftrightarrow> CHR ''A'' \<le> b \<and> b \<le> CHR ''Z''"

definition is_ascii_lowercase :: "byte \<Rightarrow> bool" where
  "is_ascii_lowercase b \<longleftrightarrow> CHR ''a'' \<le> b \<and> b \<le> CHR ''z''"

definition is_ascii_alphanumeric :: "byte \<Rightarrow> bool" where
  "is_ascii_alphanumeric b \<longleftrightarrow> is_ascii_digit b \<or> is_ascii_uppercase b \<or> is_ascii_lowercase b"

definition byte_lower :: "byte \<Rightarrow> byte" where
  "byte_lower b = (if is_ascii_uppercase b then char_of (code b + 32) else b)"

definition byte_upper :: "byte \<Rightarrow> byte" where
  "byte_upper b = (if is_ascii_lowercase b then char_of (code b - 32) else b)"

definition to_ascii_lowercase :: "rstr \<Rightarrow> rstr" where
  "to_ascii_lowercase s = map byte_lower s"

definition to_ascii_uppercase :: "rstr \<Rightarrow> rstr" where
  "to_ascii_uppercase s = map byte_upper s"

definition eq_ignore_ascii_case :: "rstr \<Rightarrow> rstr \<Rightarrow> bool" where
  "eq_ignore_ascii_case a b \<longleftrightarrow> to_ascii_lowercase a = to_ascii_lowercase b"

lemmas ascii_class_defs [str_simps] =
  is_ascii_digit_def is_ascii_uppercase_def is_ascii_lowercase_def is_ascii_alphanumeric_def

lemma length_ascii_case [simp]:
  "length (to_ascii_lowercase s) = length s"
  "length (to_ascii_uppercase s) = length s"
  by (simp_all add: to_ascii_lowercase_def to_ascii_uppercase_def)

section \<open>UTF-8\<close>

definition is_cont :: "byte \<Rightarrow> bool" where
  "is_cont b \<longleftrightarrow> 128 \<le> code b \<and> code b < 192"

text \<open>
  Decodes the first scalar value of a byte sequence and its width in bytes; \<open>None\<close> on
  a malformed sequence (overlong forms, surrogates and values past U+10FFFF included).
\<close>

fun utf8_head :: "rstr \<Rightarrow> (nat \<times> nat) option" where
  "utf8_head [] = None"
| "utf8_head (a # s) =
    (let x = code a in
     if x < 128 then Some (x, 1)
     else if x < 194 then None
     else if x < 224 then
       (case s of
          b # _ \<Rightarrow>
            (if is_cont b then Some ((x - 192) * 64 + (code b - 128), 2) else None)
        | _ \<Rightarrow> None)
     else if x < 240 then
       (case s of
          b # c # _ \<Rightarrow>
            (if is_cont b \<and> is_cont c \<and> (x = 224 \<longrightarrow> 160 \<le> code b) \<and> (x = 237 \<longrightarrow> code b < 160)
             then Some ((x - 224) * 4096 + (code b - 128) * 64 + (code c - 128), 3) else None)
        | _ \<Rightarrow> None)
     else if x < 245 then
       (case s of
          b # c # d # _ \<Rightarrow>
            (if is_cont b \<and> is_cont c \<and> is_cont d
                \<and> (x = 240 \<longrightarrow> 144 \<le> code b) \<and> (x = 244 \<longrightarrow> code b < 144)
             then Some ((x - 240) * 262144 + (code b - 128) * 4096 + (code c - 128) * 64
                        + (code d - 128), 4) else None)
        | _ \<Rightarrow> None)
     else None)"

lemma utf8_head_bounds:
  assumes "utf8_head s = Some (c, n)"
  shows "0 < n \<and> n \<le> length s"
  using assms
  by (cases s) (auto simp: Let_def split: if_splits list.splits)

lemma utf8_head_prefix:
  assumes "utf8_head s = Some (c, n)"
  shows "utf8_head (take n s @ t) = Some (c, n)"
  using assms
  by (cases s) (auto simp: Let_def split: if_splits list.splits)

lemma utf8_head_append:
  assumes "utf8_head s = Some (c, n)"
  shows "utf8_head (s @ t) = Some (c, n)"
  using utf8_head_prefix [OF assms, of "drop n s @ t"]
  by (metis append.assoc append_take_drop_id)

lemma utf8_head_conts:
  assumes "utf8_head s = Some (c, n)" and "0 < i" and "i < n"
  shows "is_cont (s ! i)"
proof -
  have "n \<le> 4"
    using assms(1) by (cases s) (auto simp: Let_def split: if_splits list.splits)
  with assms(2,3) consider "i = 1" | "i = 2" | "i = 3" by linarith
  then show ?thesis
    using assms by cases (cases s; auto simp: Let_def split: if_splits list.splits)+
qed

lemma utf8_head_not_cont:
  assumes "utf8_head (a # s) = Some p"
  shows "\<not> is_cont a"
  using assms by (auto simp: Let_def is_cont_def split: if_splits list.splits)

declare utf8_head.simps(2) [simp del]

text \<open>The chars of a byte sequence; \<open>None\<close> where \<open>from_utf8\<close> fails.\<close>

function utf8_chars :: "rstr \<Rightarrow> rchar list option" where
  "utf8_chars s =
     (if s = [] then Some []
      else case utf8_head s of
          None \<Rightarrow> None
        | Some (c, n) \<Rightarrow> map_option (\<lambda>cs. take n s # cs) (utf8_chars (drop n s)))"
  by pat_completeness auto
termination
  by (relation "measure length") (auto dest: utf8_head_bounds)

declare utf8_chars.simps [simp del]

definition is_utf8 :: "rstr \<Rightarrow> bool" where
  "is_utf8 s \<longleftrightarrow> utf8_chars s \<noteq> None"

definition chars :: "rstr \<Rightarrow> rchar list" where
  "chars s = (case utf8_chars s of Some cs \<Rightarrow> cs | None \<Rightarrow> [])"

definition char_code :: "rchar \<Rightarrow> nat" where
  "char_code c = (case utf8_head c of Some (x, _) \<Rightarrow> x | None \<Rightarrow> 0)"

definition is_char_boundary :: "rstr \<Rightarrow> nat \<Rightarrow> bool" where
  "is_char_boundary s n \<longleftrightarrow> n = 0 \<or> n = length s \<or> (n < length s \<and> \<not> is_cont (s ! n))"

definition from_utf8 :: "rstr \<Rightarrow> rstr option" where
  "from_utf8 s = (if is_utf8 s then Some s else None)"

lemma utf8_chars_Nil [simp]: "utf8_chars [] = Some []"
  by (simp add: utf8_chars.simps)

lemma is_utf8_Nil [simp]: "is_utf8 []"
  by (simp add: is_utf8_def)

lemma utf8_chars_step:
  assumes "utf8_head s = Some (c, n)"
  shows "utf8_chars s = map_option (\<lambda>cs. take n s # cs) (utf8_chars (drop n s))"
  using assms by (cases "s = []") (simp_all add: utf8_chars.simps [of s])

lemma is_utf8_step:
  assumes "utf8_head s = Some (c, n)"
  shows "is_utf8 s \<longleftrightarrow> is_utf8 (drop n s)"
  by (simp add: is_utf8_def utf8_chars_step [OF assms])

lemma is_utf8_head: "is_utf8 s \<Longrightarrow> s \<noteq> [] \<Longrightarrow> \<exists>c n. utf8_head s = Some (c, n)"
  by (auto simp: is_utf8_def utf8_chars.simps [of s] split: option.splits)

lemma utf8_induct [consumes 1, case_names Nil step]:
  assumes "is_utf8 s" and "P []"
    and "\<And>s c n. utf8_head s = Some (c, n) \<Longrightarrow> is_utf8 (drop n s) \<Longrightarrow> P (drop n s) \<Longrightarrow> P s"
  shows "P s"
  using assms(1)
proof (induction s rule: length_induct)
  case (1 s)
  show ?case
  proof (cases "s = []")
    case True
    with assms(2) show ?thesis by simp
  next
    case False
    with "1.prems" obtain c n where h: "utf8_head s = Some (c, n)"
      using is_utf8_head by blast
    with "1.prems" have d: "is_utf8 (drop n s)" by (simp add: is_utf8_step [OF h])
    moreover have "length (drop n s) < length s"
      using utf8_head_bounds [OF h] unfolding length_drop by linarith
    ultimately show ?thesis using "1.IH" assms(3) [OF h d] by blast
  qed
qed

lemma concat_chars: "is_utf8 s \<Longrightarrow> concat (chars s) = s"
proof (induction s rule: utf8_induct)
  case Nil
  then show ?case by (simp add: chars_def)
next
  case (step s c n)
  then obtain cs where "utf8_chars (drop n s) = Some cs" by (auto simp: is_utf8_def)
  with step show ?case by (simp add: chars_def utf8_chars_step [OF step.hyps(1)])
qed

lemma utf8_chars_append:
  assumes "is_utf8 a"
  shows "utf8_chars (a @ b) = map_option ((@) (chars a)) (utf8_chars b)"
  using assms
proof (induction a rule: utf8_induct)
  case Nil
  then show ?case by (simp add: chars_def option.map_ident)
next
  case (step s c n)
  have n: "n \<le> length s" using utf8_head_bounds [OF step.hyps(1)] by simp
  obtain cs where cs: "utf8_chars (drop n s) = Some cs"
    using step.hyps(2) by (auto simp: is_utf8_def)
  have "utf8_chars (s @ b) = map_option (\<lambda>cs. take n s # cs) (utf8_chars (drop n s @ b))"
    using utf8_chars_step [OF utf8_head_append [OF step.hyps(1), of b]] n by simp
  then show ?case
    using step.IH cs
    by (cases "utf8_chars b") (simp_all add: chars_def utf8_chars_step [OF step.hyps(1)])
qed

lemma is_utf8_append: "is_utf8 a \<Longrightarrow> is_utf8 (a @ b) \<longleftrightarrow> is_utf8 b"
  by (simp add: is_utf8_def utf8_chars_append)

lemma chars_append: "is_utf8 a \<Longrightarrow> is_utf8 b \<Longrightarrow> chars (a @ b) = chars a @ chars b"
  by (auto simp: chars_def [of "a @ b"] utf8_chars_append is_utf8_def chars_def [of b])

lemma boundary_0 [simp]: "is_char_boundary s 0"
  by (simp add: is_char_boundary_def)

lemma boundary_length [simp]: "is_char_boundary s (length s)"
  by (simp add: is_char_boundary_def)

text \<open>Cutting a valid string at a char boundary gives two valid strings.\<close>

lemma is_utf8_split:
  assumes "is_utf8 s" and "is_char_boundary s k"
  shows "is_utf8 (take k s) \<and> is_utf8 (drop k s)"
  using assms
proof (induction s arbitrary: k rule: utf8_induct)
  case Nil
  then show ?case by simp
next
  case (step s c n)
  have n: "0 < n" "n \<le> length s" using utf8_head_bounds [OF step.hyps(1)] by simp_all
  consider "k = 0" | "0 < k" "k < n" | "n \<le> k" by linarith
  then show ?case
  proof cases
    case 1
    then show ?thesis by (simp add: is_utf8_step [OF step.hyps(1)] step.hyps(2))
  next
    case 2
    then have "is_cont (s ! k)" by (rule utf8_head_conts [OF step.hyps(1)])
    with 2 n step.prems show ?thesis by (auto simp: is_char_boundary_def)
  next
    case 3
    have "is_char_boundary (drop n s) (k - n)"
      using step.prems 3 n by (auto simp: is_char_boundary_def)
    then have IH: "is_utf8 (take (k - n) (drop n s))" "is_utf8 (drop (k - n) (drop n s))"
      using step.IH by blast+
    have "take k s = take n s @ take (k - n) (drop n s)"
      using 3 by (simp flip: take_add)
    moreover have "utf8_head (take n s @ take (k - n) (drop n s)) = Some (c, n)"
      by (rule utf8_head_prefix [OF step.hyps(1)])
    ultimately have "is_utf8 (take k s)"
      using IH(1) n by (metis append_take_drop_id is_utf8_step append_eq_conv_conj length_take
          min_absorb2)
    with IH(2) 3 show ?thesis by simp
  qed
qed

lemma boundary_drop:
  assumes "is_utf8 s" and "is_char_boundary s i" and "i \<le> j" and "is_char_boundary s j"
  shows "is_char_boundary (drop i s) (j - i)"
  using assms by (auto simp: is_char_boundary_def)

lemma is_utf8_slice:
  assumes "is_utf8 s" and "is_char_boundary s i" and "is_char_boundary s j" and "i \<le> j"
  shows "is_utf8 (drop i (take j s))"
proof -
  have "is_utf8 (drop i s)" using is_utf8_split [OF assms(1,2)] by simp
  moreover have "is_char_boundary (drop i s) (j - i)" using assms by (intro boundary_drop)
  ultimately have "is_utf8 (take (j - i) (drop i s))" using is_utf8_split by blast
  then show ?thesis by (simp add: drop_take)
qed

lemma is_utf8_append_iff:
  assumes "is_utf8 (a @ b)" and "b = [] \<or> \<not> is_cont (hd b)"
  shows "is_utf8 a \<and> is_utf8 b"
proof -
  have "is_char_boundary (a @ b) (length a)"
    using assms(2) by (cases b) (auto simp: is_char_boundary_def nth_append)
  from is_utf8_split [OF assms(1) this] show ?thesis by simp
qed

lemma is_utf8_ascii: "list_all (\<lambda>b. code b < 128) s \<Longrightarrow> is_utf8 s"
proof (induction s)
  case Nil
  then show ?case by simp
next
  case (Cons a s)
  then have "utf8_head (a # s) = Some (code a, 1)" by (simp add: utf8_head.simps)
  from is_utf8_step [OF this] Cons show ?case by simp
qed

section \<open>String operations of the standard library\<close>

definition starts_with :: "rstr \<Rightarrow> rstr \<Rightarrow> bool" where
  "starts_with p s \<longleftrightarrow> take (length p) s = p"

definition ends_with :: "rstr \<Rightarrow> rstr \<Rightarrow> bool" where
  "ends_with p s \<longleftrightarrow> length p \<le> length s \<and> drop (length s - length p) s = p"

definition strip_prefix :: "rstr \<Rightarrow> rstr \<Rightarrow> rstr option" where
  "strip_prefix p s = (if starts_with p s then Some (drop (length p) s) else None)"

definition strip_suffix :: "rstr \<Rightarrow> rstr \<Rightarrow> rstr option" where
  "strip_suffix p s = (if ends_with p s then Some (take (length s - length p) s) else None)"

text \<open>Offset of the first occurrence of a needle.\<close>

fun find_str :: "rstr \<Rightarrow> rstr \<Rightarrow> nat option" where
  "find_str p [] = (if p = [] then Some 0 else None)"
| "find_str p (c # s) =
     (if starts_with p (c # s) then Some 0 else map_option Suc (find_str p s))"

definition contains_str :: "rstr \<Rightarrow> rstr \<Rightarrow> bool" where
  "contains_str p s \<longleftrightarrow> find_str p s \<noteq> None"

definition split_once :: "rstr \<Rightarrow> rstr \<Rightarrow> (rstr \<times> rstr) option" where
  "split_once d s =
     (case find_str d s of None \<Rightarrow> None | Some i \<Rightarrow> Some (take i s, drop (i + length d) s))"

text \<open>\<open>split(c)\<close> on a single byte: always at least one piece.\<close>

fun split_byte :: "byte \<Rightarrow> rstr \<Rightarrow> rstr list" where
  "split_byte d [] = [[]]"
| "split_byte d (c # s) =
     (if c = d then [] # split_byte d s
      else case split_byte d s of [] \<Rightarrow> [[c]] | x # xs \<Rightarrow> (c # x) # xs)"

fun join_byte :: "byte \<Rightarrow> rstr list \<Rightarrow> rstr" where
  "join_byte d [] = []"
| "join_byte d [x] = x"
| "join_byte d (x # y # zs) = x @ d # join_byte d (y # zs)"

definition trim_start_byte :: "byte \<Rightarrow> rstr \<Rightarrow> rstr" where
  "trim_start_byte d s = dropWhile (\<lambda>c. c = d) s"

definition trim_end_byte :: "byte \<Rightarrow> rstr \<Rightarrow> rstr" where
  "trim_end_byte d s = rev (dropWhile (\<lambda>c. c = d) (rev s))"

definition trim_byte :: "byte \<Rightarrow> rstr \<Rightarrow> rstr" where
  "trim_byte d s = trim_end_byte d (trim_start_byte d s)"

text \<open>The Unicode \<open>White_Space\<close> property, by scalar value.\<close>

definition is_whitespace_code :: "nat \<Rightarrow> bool" where
  "is_whitespace_code x \<longleftrightarrow>
     (9 \<le> x \<and> x \<le> 13) \<or> x = 32 \<or> x = 133 \<or> x = 160 \<or> x = 5760 \<or> (8192 \<le> x \<and> x \<le> 8202)
     \<or> x = 8232 \<or> x = 8233 \<or> x = 8239 \<or> x = 8287 \<or> x = 12288"

lemma is_whitespace_code_ascii [code]:
  "is_whitespace_code x \<longleftrightarrow>
     (if x < 128 then (9 \<le> x \<and> x \<le> 13) \<or> x = 32
      else x = 133 \<or> x = 160 \<or> x = 5760 \<or> (8192 \<le> x \<and> x \<le> 8202)
        \<or> x = 8232 \<or> x = 8233 \<or> x = 8239 \<or> x = 8287 \<or> x = 12288)"
  by (auto simp: is_whitespace_code_def)

definition is_whitespace :: "rchar \<Rightarrow> bool" where
  "is_whitespace c \<longleftrightarrow> is_whitespace_code (char_code c)"

definition is_control :: "rchar \<Rightarrow> bool" where
  "is_control c \<longleftrightarrow> char_code c < 32 \<or> (127 \<le> char_code c \<and> char_code c < 160)"

definition trim :: "rstr \<Rightarrow> rstr" where
  "trim s = concat (rev (dropWhile is_whitespace (rev (dropWhile is_whitespace (chars s)))))"

lemma starts_with_iff: "starts_with p s \<longleftrightarrow> (\<exists>t. s = p @ t)"
  by (metis append_eq_conv_conj append_take_drop_id starts_with_def)

lemma ends_with_iff: "ends_with p s \<longleftrightarrow> (\<exists>t. s = t @ p)"
proof
  assume "ends_with p s"
  then show "\<exists>t. s = t @ p"
    by (metis append_take_drop_id ends_with_def)
next
  assume "\<exists>t. s = t @ p"
  then show "ends_with p s" by (auto simp: ends_with_def)
qed

lemma strip_prefix_eq_Some: "strip_prefix p s = Some t \<longleftrightarrow> s = p @ t"
  by (auto simp: strip_prefix_def starts_with_iff)

lemma strip_suffix_eq_Some: "strip_suffix p s = Some t \<longleftrightarrow> s = t @ p"
  by (auto simp: strip_suffix_def ends_with_iff)

lemma strip_prefix_eq_None: "strip_prefix p s = None \<longleftrightarrow> \<not> starts_with p s"
  by (auto simp: strip_prefix_def)

lemma strip_suffix_eq_None: "strip_suffix p s = None \<longleftrightarrow> \<not> ends_with p s"
  by (auto simp: strip_suffix_def)

lemma find_str_Some:
  assumes "find_str p s = Some i"
  shows "i + length p \<le> length s \<and> take (length p) (drop i s) = p
    \<and> (\<forall>j < i. \<not> starts_with p (drop j s))"
  using assms
proof (induction s arbitrary: i)
  case Nil
  then show ?case by (simp split: if_splits)
next
  case (Cons c s)
  show ?case
  proof (cases "starts_with p (c # s)")
    case True
    with Cons.prems have "i = 0" by simp
    moreover have "length p \<le> length (c # s)"
      using True by (metis append_eq_conv_conj length_append le_add1 starts_with_iff)
    ultimately show ?thesis using True by (simp add: starts_with_def)
  next
    case False
    with Cons.prems obtain k where k: "find_str p s = Some k" and i: "i = Suc k" by auto
    from Cons.IH [OF k] False i show ?thesis
      by (auto simp: less_Suc_eq_0_disj)
  qed
qed

lemma find_str_None: "find_str p s = None \<longleftrightarrow> (\<forall>j \<le> length s. \<not> starts_with p (drop j s))"
proof (induction s)
  case Nil
  then show ?case by (auto simp: starts_with_def)
next
  case (Cons c s)
  have "(\<forall>j \<le> length (c # s). \<not> starts_with p (drop j (c # s)))
      \<longleftrightarrow> \<not> starts_with p (c # s) \<and> (\<forall>j \<le> length s. \<not> starts_with p (drop j s))"
    by (metis Suc_le_mono drop0 drop_Suc_Cons length_Cons not0_implies_Suc zero_le)
  with Cons.IH show ?case by simp
qed

lemma split_byte_nonempty [simp]: "split_byte d s \<noteq> []"
  by (induction s) (auto split: list.splits)

lemma split_byte_no_sep: "x \<in> set (split_byte d s) \<Longrightarrow> d \<notin> set x"
  by (induction s arbitrary: x) (fastforce split: list.splits if_splits)+

lemma join_split_byte: "join_byte d (split_byte d s) = s"
proof (induction s)
  case Nil
  then show ?case by simp
next
  case (Cons c s)
  then show ?case
    by (cases "split_byte d s" rule: list.exhaust; cases "tl (split_byte d s)")
       (auto split: list.splits)
qed

lemma split_byte_single: "d \<notin> set x \<Longrightarrow> split_byte d x = [x]"
  by (induction x) auto

lemma split_byte_append: "d \<notin> set x \<Longrightarrow> split_byte d (x @ d # s) = x # split_byte d s"
  by (induction x) auto

lemma split_join_byte:
  assumes "xs \<noteq> []" and "\<forall>x \<in> set xs. d \<notin> set x"
  shows "split_byte d (join_byte d xs) = xs"
  using assms
  by (induction xs rule: join_byte.induct) (auto simp: split_byte_single split_byte_append)

lemma trim_byte_hd: "trim_byte d s \<noteq> [] \<Longrightarrow> hd (trim_byte d s) \<noteq> d"
proof -
  assume ne: "trim_byte d s \<noteq> []"
  let ?u = "dropWhile (\<lambda>c. c = d) s"
  obtain v where v: "?u = trim_byte d s @ v"
    unfolding trim_byte_def trim_end_byte_def trim_start_byte_def
    by (metis rev_append rev_rev_ident takeWhile_dropWhile_id)
  have "?u \<noteq> []" using v ne by auto
  then have "hd ?u \<noteq> d" by (rule hd_dropWhile)
  then show ?thesis using v ne by simp
qed

lemma trim_byte_last: "trim_byte d s \<noteq> [] \<Longrightarrow> last (trim_byte d s) \<noteq> d"
  by (metis (mono_tags, lifting) hd_dropWhile last_rev rev_is_Nil_conv trim_byte_def
      trim_end_byte_def)

end
