(* ===== verification/Siv.thy ===== *)
theory Siv
  imports Rust_Str
begin

text \<open>
  The deterministic encryption core of \<open>crates/pii-engine/src/siv.rs\<close>: the key type with its
  hex decoder, sealing and opening a value under a category, and the payload encoding. The
  AES-128-SIV cipher (crate \<open>aes_siv\<close>) and the base64 engine (crate \<open>base64\<close>) are the
  record \<open>crypto\<close> of parameters; \<open>crypto_ok\<close> states what their documentation promises.
\<close>

section \<open>The third-party cipher and encoder\<close>

record crypto =
  siv_encrypt :: "byte list \<Rightarrow> byte list list \<Rightarrow> byte list \<Rightarrow> byte list option"
  siv_decrypt :: "byte list \<Rightarrow> byte list list \<Rightarrow> byte list \<Rightarrow> byte list option"
  b64url_encode :: "byte list \<Rightarrow> rstr"
  b64url_decode :: "rstr \<Rightarrow> byte list option"

section \<open>Keys and errors\<close>

type_synonym engine_key = "byte list"

datatype siv_error = Crypto | Encoding

text \<open>\<open>char::to_digit(16)\<close> on a byte.\<close>

definition hex_digit :: "byte \<Rightarrow> nat option" where
  "hex_digit b =
     (if is_ascii_digit b then Some (code b - 48)
      else if CHR ''a'' \<le> b \<and> b \<le> CHR ''f'' then Some (code b - 87)
      else if CHR ''A'' \<le> b \<and> b \<le> CHR ''F'' then Some (code b - 55)
      else None)"

text \<open>The digit loop of \<open>u8::from_str_radix(_, 16)\<close>: a step past 255 is an overflow error.\<close>

fun u8_hex_loop :: "rstr \<Rightarrow> nat \<Rightarrow> nat option" where
  "u8_hex_loop [] acc = Some acc"
| "u8_hex_loop (b # s) acc =
     (case hex_digit b of
        None \<Rightarrow> None
      | Some d \<Rightarrow> (if acc * 16 + d < 256 then u8_hex_loop s (acc * 16 + d) else None))"

text \<open>\<open>u8::from_str_radix(_, 16)\<close>: one leading plus sign is accepted before the digits.\<close>

definition u8_from_hex :: "rstr \<Rightarrow> nat option" where
  "u8_from_hex s =
     (case s of
        [] \<Rightarrow> None
      | b # r \<Rightarrow>
          (if r = [] \<and> (b = CHR ''+'' \<or> b = CHR ''-'') then None
           else if b = CHR ''+'' then u8_hex_loop r 0
           else u8_hex_loop s 0))"

fun chunks2 :: "rstr \<Rightarrow> rstr list" where
  "chunks2 (a # b # s) = [a, b] # chunks2 s"
| "chunks2 [a] = [[a]]"
| "chunks2 [] = []"

definition key_byte :: "rstr \<Rightarrow> siv_error + byte" where
  "key_byte chunk =
     (case from_utf8 chunk of
        None \<Rightarrow> Inl Encoding
      | Some pair \<Rightarrow>
          (case u8_from_hex pair of None \<Rightarrow> Inl Encoding | Some n \<Rightarrow> Inr (char_of n)))"

definition from_hex :: "rstr \<Rightarrow> siv_error + engine_key" where
  "from_hex s =
     (let trimmed = trim s in
      if length trimmed \<noteq> 64 then Inl Encoding else res_traverse key_byte (chunks2 trimmed))"

definition seal :: "crypto \<Rightarrow> engine_key \<Rightarrow> rstr \<Rightarrow> byte list \<Rightarrow> siv_error + byte list" where
  "seal C key category v = ok_or Crypto (siv_encrypt C key [category] v)"

definition open_sealed :: "crypto \<Rightarrow> engine_key \<Rightarrow> rstr \<Rightarrow> byte list \<Rightarrow> siv_error + byte list" where
  "open_sealed C key category ct = ok_or Crypto (siv_decrypt C key [category] ct)"

definition encode_payload :: "crypto \<Rightarrow> byte list \<Rightarrow> rstr" where
  "encode_payload C ct = b64url_encode C ct"

definition decode_payload :: "crypto \<Rightarrow> rstr \<Rightarrow> siv_error + byte list" where
  "decode_payload C s = ok_or Encoding (b64url_decode C s)"

section \<open>What the cipher and the encoder promise\<close>

definition is_payload_byte :: "byte \<Rightarrow> bool" where
  "is_payload_byte b \<longleftrightarrow> is_ascii_alphanumeric b \<or> b = CHR ''_'' \<or> b = CHR ''-''"

text \<open>
  RFC 5297 decryption inverts encryption under the same key and associated data, and a
  ciphertext holds a 16-byte tag; the URL-safe alphabet without padding encodes every
  byte sequence, and decoding inverts it.
\<close>

definition crypto_ok :: "crypto \<Rightarrow> bool" where
  "crypto_ok C \<longleftrightarrow>
     (\<forall>k h v ct. siv_encrypt C k h v = Some ct \<longrightarrow> siv_decrypt C k h ct = Some v \<and> ct \<noteq> [])
   \<and> (\<forall>ct. b64url_decode C (b64url_encode C ct) = Some ct)
   \<and> (\<forall>ct. list_all is_payload_byte (b64url_encode C ct))
   \<and> (\<forall>ct. ct \<noteq> [] \<longrightarrow> b64url_encode C ct \<noteq> [])"

lemma crypto_ok_open:
  assumes "crypto_ok C" and "seal C key category v = Inr ct"
  shows "open_sealed C key category ct = Inr v \<and> ct \<noteq> []"
  using assms by (auto simp: crypto_ok_def seal_def open_sealed_def res_simps)

lemma crypto_ok_payload:
  assumes "crypto_ok C"
  shows "decode_payload C (encode_payload C ct) = Inr ct"
    and "list_all is_payload_byte (encode_payload C ct)"
    and "ct \<noteq> [] \<Longrightarrow> encode_payload C ct \<noteq> []"
  using assms by (auto simp: crypto_ok_def encode_payload_def decode_payload_def)

text \<open>A cipher and an encoder with these properties, for concrete evaluation.\<close>

definition hex_char :: "nat \<Rightarrow> byte" where
  "hex_char n = ''0123456789abcdef'' ! n"

fun hex_encode :: "byte list \<Rightarrow> rstr" where
  "hex_encode [] = []"
| "hex_encode (b # s) = hex_char (code b div 16) # hex_char (code b mod 16) # hex_encode s"

fun hex_decode :: "rstr \<Rightarrow> byte list option" where
  "hex_decode [] = Some []"
| "hex_decode [a] = None"
| "hex_decode (a # b # s) =
     (case (hex_digit a, hex_digit b) of
        (Some x, Some y) \<Rightarrow> map_option ((#) (char_of (x * 16 + y))) (hex_decode s)
      | _ \<Rightarrow> None)"

definition demo_tag :: "byte list \<Rightarrow> byte list list \<Rightarrow> byte list" where
  "demo_tag k h = k @ concat h @ ''#''"

definition demo_crypto :: crypto where
  "demo_crypto =
     \<lparr> siv_encrypt = (\<lambda>k h v. Some (demo_tag k h @ v)),
       siv_decrypt = (\<lambda>k h ct. strip_prefix (demo_tag k h) ct),
       b64url_encode = hex_encode,
       b64url_decode = hex_decode \<rparr>"

lemma hex_char_all:
  "\<forall>n \<in> set [0..<16]. hex_digit (hex_char n) = Some n \<and> is_payload_byte (hex_char n)"
  by code_simp

lemma hex_char_digit: "n < 16 \<Longrightarrow> hex_digit (hex_char n) = Some n"
  using hex_char_all by simp

lemma hex_char_payload: "n < 16 \<Longrightarrow> is_payload_byte (hex_char n)"
  using hex_char_all by simp

lemma byte_nibbles: "code (b :: byte) div 16 < 16" "code (b :: byte) mod 16 < 16"
  using nat_of_char_less_256 [of b] by (simp_all add: less_mult_imp_div_less)

lemma hex_decode_encode: "hex_decode (hex_encode s) = Some s"
  by (induction s) (simp_all add: hex_char_digit byte_nibbles)

lemma hex_encode_payload: "list_all is_payload_byte (hex_encode s)"
  by (induction s) (simp_all add: hex_char_payload byte_nibbles)

lemma demo_crypto_ok: "crypto_ok demo_crypto"
proof -
  have "hex_encode ct \<noteq> []" if "ct \<noteq> []" for ct
    using that by (cases ct) simp_all
  then show ?thesis
    by (simp add: crypto_ok_def demo_crypto_def demo_tag_def strip_prefix_eq_Some
        hex_decode_encode hex_encode_payload)
qed

section \<open>Key decoding\<close>

lemma chunks2_length: "length (chunks2 s) = (length s + 1) div 2"
  by (induction s rule: chunks2.induct) auto

lemma from_hex_length: "from_hex s = Inr key \<Longrightarrow> length key = 32"
  by (auto simp: from_hex_def Let_def chunks2_length dest!: res_traverse_length split: if_splits)

lemma hex_digit_ascii: "hex_digit b = Some d \<Longrightarrow> code b < 128 \<and> d < 16 \<and> 32 < code b"
  by (auto simp: hex_digit_def is_ascii_digit_def less_eq_char_def split: if_splits)

lemma hex_digit_sign: "hex_digit b = Some d \<Longrightarrow> b \<noteq> CHR ''+''"
  by (auto simp: hex_digit_def is_ascii_digit_def split: if_splits)

lemma key_byte_digits:
  assumes "hex_digit a = Some x" and "hex_digit b = Some y"
  shows "key_byte [a, b] = Inr (char_of (x * 16 + y))"
proof -
  have "is_utf8 [a, b]"
    using hex_digit_ascii [OF assms(1)] hex_digit_ascii [OF assms(2)] by (intro is_utf8_ascii) simp
  moreover have "x * 16 + y < 256" and "x < 256"
    using hex_digit_ascii [OF assms(1)] hex_digit_ascii [OF assms(2)] by auto
  ultimately show ?thesis
    using assms hex_digit_sign [OF assms(1)] by (simp add: key_byte_def from_utf8_def u8_from_hex_def)
qed

lemma from_hex_chunks:
  assumes "hex_decode s = Some key"
  shows "res_traverse key_byte (chunks2 s) = Inr key"
  using assms
  by (induction s arbitrary: key rule: hex_decode.induct)
    (auto simp: key_byte_digits split: option.splits)

lemma u8_from_hex_pair:
  "u8_from_hex [a, b] = Some n \<longleftrightarrow>
     (\<exists>x y. hex_digit a = Some x \<and> hex_digit b = Some y \<and> n = x * 16 + y)
     \<or> (a = CHR ''+'' \<and> hex_digit b = Some n)"
proof (cases "a = CHR ''+''")
  case True
  then show ?thesis
    by (auto simp: u8_from_hex_def split: option.splits dest: hex_digit_ascii hex_digit_sign)
next
  case False
  then show ?thesis
    by (auto simp: u8_from_hex_def split: option.splits dest!: hex_digit_ascii)
qed

lemma key_byte_pair:
  "key_byte [a, b] = Inr k \<longleftrightarrow>
     (\<exists>n. u8_from_hex [a, b] = Some n \<and> k = char_of n)"
proof -
  have "is_utf8 [a, b]" if "u8_from_hex [a, b] = Some n" for n
  proof -
    from that have "code a < 128 \<and> code b < 128"
      by (auto simp: u8_from_hex_pair dest!: hex_digit_ascii)
    then show ?thesis by (intro is_utf8_ascii) simp
  qed
  then show ?thesis by (auto simp: key_byte_def from_utf8_def split: option.splits)
qed

lemma trim_ascii_padding:
  assumes "list_all (\<lambda>b. is_whitespace_code (code b) \<and> code b < 128) w"
    and "list_all (\<lambda>b. is_whitespace_code (code b) \<and> code b < 128) w'"
    and "list_all (\<lambda>b. code b < 128 \<and> 32 < code b \<and> \<not> is_whitespace_code (code b)) s"
  shows "trim (w @ s @ w') = s"
proof -
  have single: "chars u = map (\<lambda>b. [b]) u" if "list_all (\<lambda>b. code b < 128) u" for u
    using that
  proof (induction u)
    case Nil
    then show ?case by (simp add: chars_def)
  next
    case (Cons b u)
    then have "is_utf8 u" by (intro is_utf8_ascii) simp
    moreover have "utf8_head (b # u) = Some (code b, 1)"
      using Cons.prems by (simp add: utf8_head.simps)
    ultimately show ?case
      using Cons by (auto simp: chars_def utf8_chars_step is_utf8_def)
  qed
  have ws: "is_whitespace [b] = is_whitespace_code (code b)" if "code b < 128" for b
    using that by (simp add: is_whitespace_def char_code_def utf8_head.simps)
  have "list_all (\<lambda>b. code b < 128) (w @ s @ w')"
    using assms by (auto simp: list_all_iff)
  note chars = single [OF this]
  have skip: "dropWhile is_whitespace (map (\<lambda>b. [b]) (u @ v)) = map (\<lambda>b. [b]) v"
    if "list_all (\<lambda>b. is_whitespace_code (code b) \<and> code b < 128) u"
      and "v = [] \<or> (code (hd v) < 128 \<and> \<not> is_whitespace_code (code (hd v)))" for u v
    using that by (induction u) (cases v; auto simp: ws)+
  show ?thesis
  proof (cases "s = []")
    case True
    have "dropWhile is_whitespace (map (\<lambda>b. [b]) (w @ w')) = []"
      using assms(1,2) skip [of "w @ w'" "[]"] by simp
    moreover have "chars (w @ s @ w') = map (\<lambda>b. [b]) (w @ w')" using True chars by simp
    ultimately show ?thesis unfolding trim_def by (simp only: True rev.simps dropWhile.simps concat.simps)
  next
    case False
    with assms(3) have hd: "code (hd s) < 128 \<and> \<not> is_whitespace_code (code (hd s))"
      and last: "code (last s) < 128 \<and> \<not> is_whitespace_code (code (last s))"
      by (auto simp: list_all_iff)
    have "dropWhile is_whitespace (chars (w @ s @ w')) = map (\<lambda>b. [b]) (s @ w')"
      unfolding chars using assms(1) hd False by (intro skip) (auto simp: hd_append)
    moreover have "dropWhile is_whitespace (map (\<lambda>b. [b]) (rev w' @ rev s)) = map (\<lambda>b. [b]) (rev s)"
      using assms(2) last False by (intro skip) (auto simp: hd_rev list_all_iff)
    ultimately show ?thesis by (simp add: trim_def rev_map)
  qed
qed

lemma hex_decode_printable:
  "hex_decode s = Some key \<Longrightarrow>
     list_all (\<lambda>b. code b < 128 \<and> 32 < code b \<and> \<not> is_whitespace_code (code b)) s"
proof (induction s arbitrary: key rule: hex_decode.induct)
  case (3 a b s)
  have digit: "code c < 128 \<and> 32 < code c \<and> \<not> is_whitespace_code (code c)"
    if "hex_digit c = Some d" for c d
    using hex_digit_ascii [OF that] by (auto simp: is_whitespace_code_def)
  from 3 show ?case by (auto split: option.splits dest: digit)
qed auto

lemma hex_decode_length: "hex_decode s = Some key \<Longrightarrow> length s = 2 * length key"
  by (induction s arbitrary: key rule: hex_decode.induct) (auto split: option.splits)

section \<open>Properties\<close>

text \<open>Key decoding is total on valid key files: 64 hex digits of either case, with any
  blanks or newlines around them, decode to exactly the 32 bytes they spell.\<close>

theorem from_hex_decodes:
  assumes "hex_decode s = Some key" and "length key = 32"
    and "list_all (\<lambda>b. b = CHR '' '' \<or> b = CHR 0x0A) w"
    and "list_all (\<lambda>b. b = CHR '' '' \<or> b = CHR 0x0A) w'"
  shows "from_hex (w @ s @ w') = Inr key"
proof -
  have ws: "list_all (\<lambda>b. is_whitespace_code (code b) \<and> code b < 128) u"
    if "list_all (\<lambda>b. b = CHR '' '' \<or> b = CHR 0x0A) u" for u
  proof -
    have "is_whitespace_code (code b) \<and> code b < 128" if "b = CHR '' '' \<or> b = CHR 0x0A" for b
      using that by (elim disjE) (simp_all add: is_whitespace_code_def)
    with that show ?thesis by (auto simp only: list_all_iff)
  qed
  have "trim (w @ s @ w') = s"
    using hex_decode_printable [OF assms(1)] ws [OF assms(3)] ws [OF assms(4)]
    by (intro trim_ascii_padding)
  moreover have "length s = 64" using hex_decode_length [OF assms(1)] assms(2) by simp
  ultimately show ?thesis by (simp only: from_hex_def Let_def from_hex_chunks [OF assms(1)] refl)
      (simp only: if_False not_True_eq_False simp_thms)
qed

lemma from_hex_decodes_witness:
  "from_hex ('' '' @ concat (replicate 32 ''aB'') @ [CHR 0x0A]) = Inr (replicate 32 (CHR 0xAB))"
  by (rule from_hex_decodes) code_simp+

text \<open>The decoder is laxer than its comment says: \<open>u8::from_str_radix\<close> takes a leading plus
  sign, so 32 repetitions of \<open>+f\<close>, which are not hex digits, decode to a key.\<close>

theorem from_hex_accepts_plus_signs:
  "from_hex (concat (replicate 32 ''+f'')) = Inr (replicate 32 (CHR 0x0F))"
  by code_simp
end
