(* ===== verification/Validators.thy ===== *)
theory Validators
  imports Rust_Str
begin

text \<open>
  The checksum validators of \<open>crates/pii-engine/src/validators.rs\<close> and the registry that
  resolves a validator name (\<open>crates/pii-engine/src/patterns.rs\<close>). The lemmas show which
  single-digit errors each checksum catches and that the IBAN loop computes the
  remainder of the whole rearranged number.
\<close>

section \<open>The validators\<close>

text \<open>\<open>char::to_digit(10)\<close>, on a char given by its bytes.\<close>

fun to_digit10 :: "rchar \<Rightarrow> nat option" where
  "to_digit10 [b] = (if is_ascii_digit b then Some (code b - 48) else None)"
| "to_digit10 _ = None"

definition char_is_ascii_digit :: "rchar \<Rightarrow> bool" where
  "char_is_ascii_digit c \<longleftrightarrow> to_digit10 c \<noteq> None"

definition char_is_ascii_uppercase :: "rchar \<Rightarrow> bool" where
  "char_is_ascii_uppercase c \<longleftrightarrow> (case c of [b] \<Rightarrow> is_ascii_uppercase b | _ \<Rightarrow> False)"

definition pesel_weights :: "nat list" where
  "pesel_weights = [1, 3, 7, 9, 1, 3, 7, 9, 1, 3]"

definition validate_pesel :: "rstr \<Rightarrow> bool" where
  "validate_pesel value =
     (case those (map to_digit10 (chars value)) of
        None \<Rightarrow> False
      | Some digits \<Rightarrow>
          (if length digits \<noteq> 11 then False
           else let total = sum_list (map2 (*) (take 10 digits) pesel_weights);
                    checksum = (10 - total mod 10) mod 10
                in checksum = digits ! 10))"

definition nip_weights :: "nat list" where
  "nip_weights = [6, 5, 7, 2, 3, 4, 5, 6, 7]"

definition validate_nip :: "rstr \<Rightarrow> bool" where
  "validate_nip value =
     (case those (map to_digit10 (chars value)) of
        None \<Rightarrow> False
      | Some digits \<Rightarrow>
          (if length digits \<noteq> 10 then False
           else sum_list (map2 (*) (take 9 digits) nip_weights) mod 11 = digits ! 9))"

text \<open>The body of the Luhn loop, over the digits from the right.\<close>

fun luhn_loop :: "nat list \<Rightarrow> bool \<Rightarrow> nat \<Rightarrow> nat" where
  "luhn_loop [] is_even acc = acc"
| "luhn_loop (d # ds) is_even acc =
     (let digit = (if is_even then (if d * 2 > 9 then d * 2 - 9 else d * 2) else d)
      in luhn_loop ds (\<not> is_even) (acc + digit))"

definition luhn_digits :: "rstr \<Rightarrow> nat list" where
  "luhn_digits value =
     map (\<lambda>c. case to_digit10 c of Some d \<Rightarrow> d | None \<Rightarrow> 0) (filter char_is_ascii_digit (chars value))"

definition validate_luhn :: "rstr \<Rightarrow> bool" where
  "validate_luhn value =
     (let digits = luhn_digits value
      in if length digits < 13 \<or> length digits > 19 then False
         else luhn_loop (rev digits) False 0 mod 10 = 0)"

text \<open>
  The IBAN loop: a letter contributes the two digits of its value, a digit itself, and any
  other char ends the function with \<open>false\<close> (\<open>None\<close>).
\<close>

fun iban_loop :: "rchar list \<Rightarrow> nat \<Rightarrow> nat option" where
  "iban_loop [] remainder = Some remainder"
| "iban_loop (ch # cs) remainder =
     (if char_is_ascii_uppercase ch then
        (let value = char_code ch - 65 + 10
         in iban_loop cs (foldl (\<lambda>r digit. (r * 10 + digit) mod 97) remainder (dec_digits value)))
      else case to_digit10 ch of
          Some digit \<Rightarrow> iban_loop cs ((remainder * 10 + digit) mod 97)
        | None \<Rightarrow> None)"

definition iban_rearranged :: "rstr \<Rightarrow> rchar list" where
  "iban_rearranged value =
     (let cleaned = map to_ascii_uppercase (filter (\<lambda>c. \<not> is_whitespace c) (chars value))
      in drop 4 cleaned @ take 4 cleaned)"

definition validate_iban :: "rstr \<Rightarrow> bool" where
  "validate_iban value =
     (let rearranged = iban_rearranged value
      in if length rearranged < 15 \<or> length rearranged > 34 then False
         else case iban_loop rearranged 0 of None \<Rightarrow> False | Some remainder \<Rightarrow> remainder = 1)"

definition validator_by_name :: "rstr \<Rightarrow> (rstr \<Rightarrow> bool) option" where
  "validator_by_name name =
     (if name = ''pesel'' then Some validate_pesel
      else if name = ''nip'' then Some validate_nip
      else if name = ''iban'' then Some validate_iban
      else if name = ''luhn'' then Some validate_luhn
      else None)"

section \<open>Positional checksums detect a wrong digit\<close>

text \<open>
  All three digit checksums are sums of one term per position, compared modulo \<open>m\<close>. A
  position whose term is injective modulo \<open>m\<close> on the decimal digits reveals any
  substitution there.
\<close>

definition pos_sum :: "(nat \<Rightarrow> nat \<Rightarrow> nat) \<Rightarrow> nat list \<Rightarrow> nat" where
  "pos_sum g ds = (\<Sum>i < length ds. g i (ds ! i))"

definition digit_injective :: "(nat \<Rightarrow> nat) \<Rightarrow> nat \<Rightarrow> bool" where
  "digit_injective f m \<longleftrightarrow> (\<forall>x \<in> {..<10}. \<forall>y \<in> {..<10}. f x mod m = f y mod m \<longrightarrow> x = y)"

lemma pos_sum_update:
  assumes "i < length ds"
  shows "pos_sum g (ds[i := b]) + g i (ds ! i) = pos_sum g ds + g i b"
proof -
  have split: "{..<length ds} = insert i ({..<length ds} - {i})" using assms by auto
  have "pos_sum g (ds[i := b]) = g i b + (\<Sum>k \<in> {..<length ds} - {i}. g k (ds ! k))"
    unfolding pos_sum_def length_list_update
    by (subst split, subst sum.insert) (use assms in \<open>auto intro!: sum.cong\<close>)
  moreover have "pos_sum g ds = g i (ds ! i) + (\<Sum>k \<in> {..<length ds} - {i}. g k (ds ! k))"
    unfolding pos_sum_def by (subst split, subst sum.insert) auto
  ultimately show ?thesis by simp
qed

lemma mod_cancel_left_nat:
  fixes q a b m :: nat
  assumes "(q + a) mod m = (q + b) mod m"
  shows "a mod m = b mod m"
proof (cases "a \<le> b")
  case True
  then have "m dvd (q + b) - (q + a)"
    using assms by (intro mod_eq_dvd_iff_nat [THEN iffD1]) auto
  with True show ?thesis by (metis add_diff_cancel_left mod_eq_dvd_iff_nat)
next
  case False
  then have "m dvd (q + a) - (q + b)"
    using assms by (intro mod_eq_dvd_iff_nat [THEN iffD1]) auto
  with False show ?thesis by (metis add_diff_cancel_left mod_eq_dvd_iff_nat nat_le_linear)
qed

lemma mod_cancel_swap:
  fixes p q a b :: nat
  assumes "p + a = q + b" and "p mod m = q mod m"
  shows "a mod m = b mod m"
proof (rule mod_cancel_left_nat)
  have "(q + a) mod m = (p + a) mod m" using assms(2) by (metis mod_add_left_eq)
  then show "(q + a) mod m = (q + b) mod m" using assms(1) by simp
qed

lemma pos_sum_single_error:
  assumes "i < length ds" and "digit_injective (g i) m"
    and "ds ! i < 10" and "b < 10"
    and "pos_sum g ds mod m = pos_sum g (ds[i := b]) mod m"
  shows "ds ! i = b"
proof -
  have "g i (ds ! i) mod m = g i b mod m"
    by (rule mod_cancel_swap [OF pos_sum_update [OF assms(1)]]) (use assms(5) in simp)
  then show ?thesis using assms(2-4) by (auto simp: digit_injective_def)
qed

section \<open>Digit strings\<close>

definition digit_value :: "byte \<Rightarrow> nat" where
  "digit_value b = code b - 48"

lemma digit_code: "is_ascii_digit b \<Longrightarrow> 48 \<le> code b \<and> code b \<le> 57"
  by (simp add: is_ascii_digit_def less_eq_char_def)

lemma digit_value_less: "is_ascii_digit b \<Longrightarrow> digit_value b < 10"
  by (auto simp: digit_value_def dest: digit_code)

lemma digit_value_inj:
  assumes "is_ascii_digit a" and "is_ascii_digit b" and "digit_value a = digit_value b"
  shows "a = b"
proof -
  have "code a = code b"
    using assms(3) digit_code [OF assms(1)] digit_code [OF assms(2)]
    unfolding digit_value_def by linarith
  then show ?thesis by simp
qed

lemma chars_ascii: "list_all (\<lambda>b. code b < 128) s \<Longrightarrow> chars s = map (\<lambda>b. [b]) s"
proof (induction s)
  case Nil
  then show ?case by (simp add: chars_def)
next
  case (Cons a s)
  then have h: "utf8_head (a # s) = Some (code a, 1)" by (simp add: utf8_head.simps)
  from Cons.prems have "is_utf8 s" by (intro is_utf8_ascii) simp
  then obtain cs where "utf8_chars s = Some cs" by (auto simp: is_utf8_def)
  with Cons utf8_chars_step [OF h] show ?case by (simp add: chars_def)
qed

lemma chars_ascii_mid:
  assumes "is_utf8 (u @ a # v)" and "code a < 128"
  shows "is_utf8 u \<and> is_utf8 v \<and> chars (u @ a # v) = chars u @ [a] # chars v"
proof -
  have "\<not> is_cont a" using assms(2) by (simp add: is_cont_def)
  then have u: "is_utf8 u" and av: "is_utf8 (a # v)"
    using is_utf8_append_iff [OF assms(1)] by simp_all
  have h: "utf8_head (a # v) = Some (code a, 1)" using assms(2) by (simp add: utf8_head.simps)
  from av have v: "is_utf8 v" by (simp add: is_utf8_step [OF h])
  then obtain cs where "utf8_chars v = Some cs" by (auto simp: is_utf8_def)
  then have "chars (a # v) = [a] # chars v" by (simp add: chars_def utf8_chars_step [OF h])
  with u v chars_append [OF u av] show ?thesis by simp
qed

lemma is_utf8_ascii_mid:
  assumes "is_utf8 (u @ a # v)" and "code a < 128" and "code b < 128"
  shows "is_utf8 (u @ b # v)"
proof -
  have u: "is_utf8 u" and v: "is_utf8 v" using chars_ascii_mid [OF assms(1,2)] by simp_all
  have h: "utf8_head (b # v) = Some (code b, 1)" using assms(3) by (simp add: utf8_head.simps)
  show ?thesis by (simp add: is_utf8_append [OF u] is_utf8_step [OF h] v)
qed

lemma those_digits:
  assumes "those (map to_digit10 cs) = Some ds"
  shows "list_all is_ascii_digit (concat cs) \<and> ds = map digit_value (concat cs)"
  using assms
proof (induction cs arbitrary: ds)
  case Nil
  then show ?case by simp
next
  case (Cons c cs)
  then show ?case
    by (cases c rule: to_digit10.cases)
       (auto simp: digit_value_def split: if_splits option.splits)
qed

lemma chars_nonempty_utf8: "chars s \<noteq> [] \<Longrightarrow> is_utf8 s"
  by (cases "utf8_chars s") (auto simp: chars_def is_utf8_def)

lemma digits_iff:
  assumes "ds \<noteq> []"
  shows "those (map to_digit10 (chars s)) = Some ds
    \<longleftrightarrow> list_all is_ascii_digit s \<and> ds = map digit_value s"
proof
  assume l: "those (map to_digit10 (chars s)) = Some ds"
  with assms have "chars s \<noteq> []" by auto
  then have "concat (chars s) = s" by (intro concat_chars chars_nonempty_utf8)
  with those_digits [OF l] show "list_all is_ascii_digit s \<and> ds = map digit_value s" by simp
next
  assume r: "list_all is_ascii_digit s \<and> ds = map digit_value s"
  then have "list_all (\<lambda>b. code b < 128) s"
    by (fastforce simp: list_all_iff dest: digit_code)
  then have "chars s = map (\<lambda>b. [b]) s" by (rule chars_ascii)
  moreover have "those (map (\<lambda>b. to_digit10 [b]) s) = Some (map digit_value s)"
    using conjunct1 [OF r] by (induction s) (auto simp: digit_value_def)
  ultimately show "those (map to_digit10 (chars s)) = Some ds"
    using r by (simp add: comp_def)
qed

lemma map2_sum:
  assumes "n \<le> length ds" and "length ws = n"
  shows "sum_list (map2 (*) (take n ds) ws) = (\<Sum>i < n. ds ! i * ws ! i)"
  using assms by (simp add: sum_list_sum_nth atLeast0LessThan)

section \<open>What the validators accept\<close>

definition pesel_term :: "nat \<Rightarrow> nat \<Rightarrow> nat" where
  "pesel_term i d = d * (pesel_weights @ [1]) ! i"

definition nip_term :: "nat \<Rightarrow> nat \<Rightarrow> nat" where
  "nip_term i d = d * (nip_weights @ [10]) ! i"

lemma weights_length: "length pesel_weights = 10" "length nip_weights = 9"
  by (simp_all add: pesel_weights_def nip_weights_def)

lemma pesel_complement:
  assumes "d < 10"
  shows "(10 - t mod 10) mod 10 = (d :: nat) \<longleftrightarrow> (t + d) mod 10 = 0"
proof -
  have "(t + d) mod 10 = (t mod 10 + d) mod 10" by (simp add: mod_add_left_eq)
  moreover have "t mod 10 < 10" by simp
  moreover have "r < 10 \<Longrightarrow> (10 - r) mod 10 = d \<longleftrightarrow> (r + d) mod 10 = 0" for r :: nat
    using assms by (cases "r + d < 10"; cases "r = 0") (auto simp: le_mod_geq)
  ultimately show ?thesis by simp
qed

lemma nip_complement:
  assumes "d < 10"
  shows "t mod 11 = (d :: nat) \<longleftrightarrow> (t + d * 10) mod 11 = 0"
proof -
  have "t + d * 10 + d = t + 11 * d" by simp
  then have "(t + d * 10 + d) mod 11 = t mod 11" by simp
  then have e: "t mod 11 = ((t + d * 10) mod 11 + d) mod 11" by (simp add: mod_add_left_eq)
  have "(t + d * 10) mod 11 < 11" by simp
  moreover have "r < 11 \<Longrightarrow> (r + d) mod 11 = d \<longleftrightarrow> r = 0" for r :: nat
    using assms by (cases "r + d < 11") (auto simp: le_mod_geq)
  ultimately show ?thesis using e by simp
qed

lemma pesel_check:
  assumes "length ds = 11" and "ds ! 10 < 10"
  shows "(10 - sum_list (map2 (*) (take 10 ds) pesel_weights) mod 10) mod 10 = ds ! 10
    \<longleftrightarrow> pos_sum pesel_term ds mod 10 = 0"
proof -
  have w: "sum_list (map2 (*) (take 10 ds) pesel_weights) = (\<Sum>i < 10. ds ! i * pesel_weights ! i)"
    using assms by (intro map2_sum) (simp_all add: weights_length)
  have "{..<11 :: nat} = insert 10 {..<10}" by auto
  then have "pos_sum pesel_term ds = (\<Sum>i < 10. pesel_term i (ds ! i)) + pesel_term 10 (ds ! 10)"
    using assms by (simp add: pos_sum_def)
  also have "\<dots> = (\<Sum>i < 10. ds ! i * pesel_weights ! i) + ds ! 10"
    by (simp add: pesel_term_def nth_append weights_length)
  finally show ?thesis using pesel_complement [OF assms(2)] w by simp
qed

lemma nip_check:
  assumes "length ds = 10" and "ds ! 9 < 10"
  shows "sum_list (map2 (*) (take 9 ds) nip_weights) mod 11 = ds ! 9
    \<longleftrightarrow> pos_sum nip_term ds mod 11 = 0"
proof -
  have w: "sum_list (map2 (*) (take 9 ds) nip_weights) = (\<Sum>i < 9. ds ! i * nip_weights ! i)"
    using assms by (intro map2_sum) (simp_all add: weights_length)
  have "{..<10 :: nat} = insert 9 {..<9}" by auto
  then have "pos_sum nip_term ds = (\<Sum>i < 9. nip_term i (ds ! i)) + nip_term 9 (ds ! 9)"
    using assms by (simp add: pos_sum_def)
  also have "\<dots> = (\<Sum>i < 9. ds ! i * nip_weights ! i) + ds ! 9 * 10"
    by (simp add: nip_term_def nth_append weights_length)
  finally show ?thesis using nip_complement [OF assms(2)] w by simp
qed

text \<open>A check that starts with parsing a fixed number of digits, as both ids do.\<close>

lemma digit_check_iff:
  assumes "0 < n" and "\<And>ds. length ds = n \<Longrightarrow> ds ! (n - 1) < 10 \<Longrightarrow> P ds \<longleftrightarrow> Q ds"
  shows "(case those (map to_digit10 (chars s)) of
        None \<Rightarrow> False | Some ds \<Rightarrow> if length ds \<noteq> n then False else P ds)
      \<longleftrightarrow> list_all is_ascii_digit s \<and> length s = n \<and> Q (map digit_value s)"
proof (cases "list_all is_ascii_digit s \<and> length s = n")
  case True
  then have ne: "map digit_value s \<noteq> []" using assms(1) by auto
  have eq: "those (map to_digit10 (chars s)) = Some (map digit_value s)"
    using digits_iff [OF ne] True by blast
  have "is_ascii_digit (s ! (n - 1))" using True assms(1) by (simp add: list_all_length)
  then have "map digit_value s ! (n - 1) < 10" using True assms(1) by (simp add: digit_value_less)
  then show ?thesis using True assms(2) eq by simp
next
  case False
  show ?thesis
  proof (cases "those (map to_digit10 (chars s))")
    case None
    then show ?thesis using False by auto
  next
    case (Some ds)
    have "length ds \<noteq> n"
    proof
      assume l: "length ds = n"
      with assms(1) have "ds \<noteq> []" by auto
      from digits_iff [OF this] Some l False show False by auto
    qed
    then show ?thesis using Some False by auto
  qed
qed

lemma validate_pesel_iff:
  "validate_pesel s \<longleftrightarrow>
     list_all is_ascii_digit s \<and> length s = 11 \<and> pos_sum pesel_term (map digit_value s) mod 10 = 0"
  unfolding validate_pesel_def Let_def
  by (rule digit_check_iff) (use pesel_check in simp_all)

lemma validate_nip_iff:
  "validate_nip s \<longleftrightarrow>
     list_all is_ascii_digit s \<and> length s = 10 \<and> pos_sum nip_term (map digit_value s) mod 11 = 0"
  unfolding validate_nip_def
  by (rule digit_check_iff) (use nip_check in simp_all)

definition luhn_term :: "bool \<Rightarrow> nat \<Rightarrow> nat \<Rightarrow> nat" where
  "luhn_term is_even i d =
     (if odd i = is_even then d else if d * 2 > 9 then d * 2 - 9 else d * 2)"

lemma luhn_term_shift: "luhn_term e (Suc i) d = luhn_term (\<not> e) i d"
  by (auto simp: luhn_term_def)

lemma luhn_loop_sum: "luhn_loop ds e acc = acc + pos_sum (luhn_term e) ds"
proof (induction ds arbitrary: e acc)
  case Nil
  then show ?case by (simp add: pos_sum_def)
next
  case (Cons d ds)
  have "pos_sum (luhn_term e) (d # ds) = luhn_term e 0 d + pos_sum (luhn_term (\<not> e)) ds"
    unfolding pos_sum_def length_Cons by (subst sum.lessThan_Suc_shift) (simp add: luhn_term_shift)
  moreover have "luhn_term e 0 d = (if e then (if d * 2 > 9 then d * 2 - 9 else d * 2) else d)"
    by (simp add: luhn_term_def)
  ultimately show ?case by (simp add: Let_def Cons.IH)
qed

lemma validate_luhn_iff:
  "validate_luhn s \<longleftrightarrow> 13 \<le> length (luhn_digits s) \<and> length (luhn_digits s) \<le> 19
     \<and> pos_sum (luhn_term False) (rev (luhn_digits s)) mod 10 = 0"
  by (auto simp: validate_luhn_def Let_def luhn_loop_sum not_less)

text \<open>A decimal number read from the left, the reference for the IBAN loop.\<close>

definition read_decimal :: "nat list \<Rightarrow> nat" where
  "read_decimal ds = foldl (\<lambda>n d. n * 10 + d) 0 ds"

fun iban_expand :: "rchar list \<Rightarrow> nat list option" where
  "iban_expand [] = Some []"
| "iban_expand (ch # cs) =
     (if char_is_ascii_uppercase ch then map_option ((@) (dec_digits (char_code ch - 65 + 10))) (iban_expand cs)
      else case to_digit10 ch of
          Some d \<Rightarrow> map_option ((#) d) (iban_expand cs)
        | None \<Rightarrow> None)"

lemma foldl_mod: "foldl (\<lambda>r d. (r * 10 + d) mod m) (n mod m) ds = foldl (\<lambda>n d. n * 10 + d) n ds mod (m :: nat)"
proof (induction ds arbitrary: n)
  case Nil
  then show ?case by simp
next
  case (Cons d ds)
  have "(n mod m * 10 + d) mod m = (n * 10 + d) mod m"
    by (metis mod_add_left_eq mod_mult_left_eq)
  with Cons.IH [of "n * 10 + d"] show ?case by simp
qed

lemma iban_loop_expand:
  "iban_loop cs (n mod 97) =
     map_option (\<lambda>ds. foldl (\<lambda>n d. n * 10 + d) n ds mod 97) (iban_expand cs)"
proof (induction cs arbitrary: n)
  case Nil
  then show ?case by simp
next
  case (Cons ch cs)
  have digit: "(n mod 97 * 10 + d) mod 97 = (n * 10 + d) mod 97" for d
    by (metis mod_add_left_eq mod_mult_left_eq)
  show ?case
    by (simp add: Let_def foldl_mod digit Cons.IH option.map_comp comp_def split: option.split)
qed

lemma validate_iban_iff:
  "validate_iban s \<longleftrightarrow>
     15 \<le> length (iban_rearranged s) \<and> length (iban_rearranged s) \<le> 34
     \<and> (\<exists>ds. iban_expand (iban_rearranged s) = Some ds \<and> read_decimal ds mod 97 = 1)"
  using iban_loop_expand [of "iban_rearranged s" 0]
  by (auto simp: validate_iban_def Let_def read_decimal_def split: option.splits)

section \<open>Single wrong digits are detected\<close>

lemma digit_injective_unit:
  assumes "(w * w') mod m = 1" and "10 \<le> m"
  shows "digit_injective (\<lambda>d. d * w) m"
  unfolding digit_injective_def
proof (intro ballI impI)
  fix x y :: nat
  assume "x \<in> {..<10}" and "y \<in> {..<10}" and eq: "x * w mod m = y * w mod m"
  have inverse: "(z * w * w') mod m = z mod m" for z
  proof -
    have "(z * w * w') mod m = (z * ((w * w') mod m)) mod m"
      by (simp add: mod_mult_right_eq mult.assoc)
    then show ?thesis by (simp add: assms(1))
  qed
  have "(x * w mod m * w') mod m = (y * w mod m * w') mod m" by (simp add: eq)
  then have "x mod m = y mod m" by (simp add: mod_mult_left_eq inverse)
  moreover have "x < m" and "y < m" using \<open>x \<in> _\<close> \<open>y \<in> _\<close> assms(2) by auto
  ultimately show "x = y" by simp
qed

lemma pesel_term_injective: "i < 11 \<Longrightarrow> digit_injective (pesel_term i) 10"
proof -
  assume i: "i < 11"
  let ?ws = "pesel_weights @ [1]"
  have "\<forall>w \<in> set ?ws. (w * w ^ 3) mod 10 = 1" by (simp add: pesel_weights_def)
  moreover have "?ws ! i \<in> set ?ws" using i by (intro nth_mem) (simp add: weights_length)
  ultimately show ?thesis unfolding pesel_term_def [abs_def] by (intro digit_injective_unit) auto
qed

lemma nip_term_injective: "i < 10 \<Longrightarrow> digit_injective (nip_term i) 11"
proof -
  assume i: "i < 10"
  let ?ws = "nip_weights @ [10]"
  have "\<forall>w \<in> set ?ws. (w * w ^ 9) mod 11 = 1" by (simp add: nip_weights_def)
  moreover have "?ws ! i \<in> set ?ws" using i by (intro nth_mem) (simp add: weights_length)
  ultimately show ?thesis unfolding nip_term_def [abs_def] by (intro digit_injective_unit) auto
qed

lemma lessThan_10: "{..<10} = {0, 1, 2, 3, 4, 5, 6, 7, 8, 9 :: nat}"
  by auto

lemma luhn_term_injective: "digit_injective (luhn_term e i) 10"
  by (cases "odd i = e") (simp_all add: digit_injective_def lessThan_10 luhn_term_def)

lemma map_digits_mid:
  "map digit_value (u @ b # v) = (map digit_value (u @ a # v))[length u := digit_value b]"
  by (simp add: list_update_append)

lemma pesel_detects_wrong_digit:
  assumes "validate_pesel (u @ a # v)" and "is_ascii_digit b" and "b \<noteq> a"
  shows "\<not> validate_pesel (u @ b # v)"
proof
  assume "validate_pesel (u @ b # v)"
  with assms(1) have "digit_value a = digit_value b"
    using pos_sum_single_error [of "length u" "map digit_value (u @ a # v)" pesel_term 10 "digit_value b"]
      pesel_term_injective [of "length u"] assms(2) map_digits_mid [of u b v a]
    by (simp add: validate_pesel_iff digit_value_less nth_append)
  with assms show False by (auto simp: validate_pesel_iff dest: digit_value_inj)
qed

lemma nip_detects_wrong_digit:
  assumes "validate_nip (u @ a # v)" and "is_ascii_digit b" and "b \<noteq> a"
  shows "\<not> validate_nip (u @ b # v)"
proof
  assume "validate_nip (u @ b # v)"
  with assms(1) have "digit_value a = digit_value b"
    using pos_sum_single_error [of "length u" "map digit_value (u @ a # v)" nip_term 11 "digit_value b"]
      nip_term_injective [of "length u"] assms(2) map_digits_mid [of u b v a]
    by (simp add: validate_nip_iff digit_value_less nth_append)
  with assms show False by (auto simp: validate_nip_iff dest: digit_value_inj)
qed

lemma luhn_digits_mid:
  assumes "is_utf8 (u @ a # v)" and "is_ascii_digit a"
  shows "luhn_digits (u @ a # v) = luhn_digits u @ digit_value a # luhn_digits v"
proof -
  have "code a < 128" using digit_code [OF assms(2)] by linarith
  from chars_ascii_mid [OF assms(1) this] assms(2) show ?thesis
    by (simp add: luhn_digits_def char_is_ascii_digit_def digit_value_def)
qed

lemma luhn_detects_wrong_digit:
  assumes "is_utf8 (u @ a # v)" and "validate_luhn (u @ a # v)"
    and "is_ascii_digit a" and "is_ascii_digit b" and "b \<noteq> a"
  shows "\<not> validate_luhn (u @ b # v)"
proof
  let ?x = "rev (luhn_digits v)" and ?y = "rev (luhn_digits u)"
  let ?ds = "?x @ digit_value a # ?y"
  assume b: "validate_luhn (u @ b # v)"
  have "is_utf8 (u @ b # v)"
    using is_utf8_ascii_mid [OF assms(1), of b] digit_code [OF assms(3)] digit_code [OF assms(4)]
    by simp
  then have db: "luhn_digits (u @ b # v) = luhn_digits u @ digit_value b # luhn_digits v"
    using assms(4) by (intro luhn_digits_mid)
  have da: "luhn_digits (u @ a # v) = luhn_digits u @ digit_value a # luhn_digits v"
    using assms(1,3) by (intro luhn_digits_mid)
  have upd: "?ds[length ?x := digit_value b] = ?x @ digit_value b # ?y"
    by (simp add: list_update_append)
  have nth: "?ds ! length ?x = digit_value a" by (rule nth_append_length)
  have "?ds ! length ?x = digit_value b"
  proof (rule pos_sum_single_error [of "length ?x" ?ds "luhn_term False" 10])
    show "pos_sum (luhn_term False) ?ds mod 10
        = pos_sum (luhn_term False) (?ds[length ?x := digit_value b]) mod 10"
      using assms(2) b unfolding upd by (simp add: validate_luhn_iff da db)
    show "?ds ! length ?x < 10" and "digit_value b < 10"
      unfolding nth using assms(3,4) by (simp_all add: digit_value_less)
    show "digit_injective (luhn_term False (length ?x)) 10" by (rule luhn_term_injective)
  qed simp
  with nth have "digit_value a = digit_value b" by simp
  with assms(3,4) have "a = b" by (intro digit_value_inj)
  with assms(5) show False by simp
qed

end
