(* ===== verification/Policy.thy ===== *)
theory Policy
  imports Validators
begin

text \<open>
  The policy compiler of \<open>crates/pii-engine/src/policy.rs\<close>: the deserialised \<open>policy.json\<close>
  v3 document, its limits and identifier grammars, and the compiled rules and keywords. The
  regex crate is a parameter: a compiled regex is its \<open>find_iter\<close> (the byte ranges of its
  matches, in order), and building one is a partial function of the source and the case flag.
  So is the JSON deserialiser, whose errors carry a line and a column.
\<close>

section \<open>Limits and identifier grammars\<close>

definition MAX_RULES :: nat where "MAX_RULES = 256"
definition MAX_PATTERNS :: nat where "MAX_PATTERNS = 1024"
definition MAX_KEYWORDS :: nat where "MAX_KEYWORDS = 256"
definition MAX_PATTERN_LEN :: nat where "MAX_PATTERN_LEN = 512"
definition KEYWORD_MIN_CHARS :: nat where "KEYWORD_MIN_CHARS = 3"
definition KEYWORD_MAX_CHARS :: nat where "KEYWORD_MAX_CHARS = 128"

text \<open>\<open>^[A-Z][A-Z0-9_]{0,63}$\<close>\<close>

definition is_category_byte :: "byte \<Rightarrow> bool" where
  "is_category_byte b \<longleftrightarrow> is_ascii_uppercase b \<or> is_ascii_digit b \<or> b = CHR ''_''"

definition is_valid_rule_id :: "rstr \<Rightarrow> bool" where
  "is_valid_rule_id s =
     (case s of
        [] \<Rightarrow> False
      | b # r \<Rightarrow> is_ascii_uppercase b \<and> list_all is_category_byte r \<and> length r \<le> 63)"

text \<open>\<open>^[A-Za-z][A-Za-z0-9]*$\<close>, with the length bound of the caller.\<close>

definition alias_format_valid :: "rstr \<Rightarrow> bool" where
  "alias_format_valid s \<longleftrightarrow>
     length (chars s) \<le> KEYWORD_MAX_CHARS
     \<and> (case s of
          [] \<Rightarrow> False
        | b # r \<Rightarrow> (is_ascii_uppercase b \<or> is_ascii_lowercase b) \<and> list_all is_ascii_alphanumeric r)"

section \<open>The document and its compiled form\<close>

type_synonym regex = "rstr \<Rightarrow> (nat \<times> nat) list"
type_synonym regex_builder = "rstr \<Rightarrow> bool \<Rightarrow> regex option"

record category_flags =
  tokenize :: bool
  log_hits :: bool

record compiled_rule =
  category :: rstr
  patterns :: "regex list"
  validator :: "(rstr \<Rightarrow> bool) option"
  flags :: category_flags

record compiled_keyword =
  match_text :: rstr
  kw_alias :: rstr
  kw_case_sensitive :: bool

record compiled_policy =
  policy_rules :: "compiled_rule list"
  policy_keywords :: "compiled_keyword list"

record rule_v3 =
  rule_id :: rstr
  display_name :: rstr
  rule_patterns :: "rstr list"
  rule_validator :: "rstr option"
  rule_case_sensitive :: bool
  rule_tokenize :: bool
  rule_log :: bool

record keyword_v3 =
  kv_match :: rstr
  kv_alias :: rstr
  kv_case_sensitive :: bool

record source_meta =
  src_policies :: "rstr list"
  src_forced :: "rstr list"

record policy_file_v3 =
  version :: u32
  source_of :: source_meta
  file_rules :: "rule_v3 list"
  file_keywords :: "keyword_v3 list"

text \<open>One constructor per message of the source; none carries the offending value.\<close>

datatype semantic_error =
    UnsupportedVersion u32
  | TooManyRules nat
  | TooManyPatterns nat
  | TooManyKeywords nat
  | InvalidRuleId rstr
  | NoPatterns rstr
  | PatternTooLong rstr nat
  | PatternInvalid rstr nat
  | UnknownValidator rstr rstr
  | KeywordMatchLength
  | KeywordAliasLength
  | KeywordSameAlias
  | InvalidAlias rstr

datatype policy_error = Parse nat nat | Semantic semantic_error

section \<open>Compilation\<close>

fun compile_patterns ::
  "regex_builder \<Rightarrow> rstr \<Rightarrow> bool \<Rightarrow> nat \<Rightarrow> rstr list \<Rightarrow> policy_error + regex list" where
  "compile_patterns build rid case_sensitive i [] = Inr []"
| "compile_patterns build rid case_sensitive i (p # ps) =
     (if length p > MAX_PATTERN_LEN then Inl (Semantic (PatternTooLong rid i))
      else case build p (\<not> case_sensitive) of
          None \<Rightarrow> Inl (Semantic (PatternInvalid rid i))
        | Some re \<Rightarrow>
            res_map ((#) re) (compile_patterns build rid case_sensitive (i + 1) ps))"

definition compile_validator :: "rule_v3 \<Rightarrow> policy_error + (rstr \<Rightarrow> bool) option" where
  "compile_validator r =
     (case rule_validator r of
        Some name \<Rightarrow>
          res_map Some (ok_or (Semantic (UnknownValidator name (rule_id r)))
            (validator_by_name name))
      | None \<Rightarrow> Inr None)"

text \<open>\<open>None\<close> is a rule with both flags off, which the loop checks and then leaves out.\<close>

definition compile_rule :: "regex_builder \<Rightarrow> rule_v3 \<Rightarrow> policy_error + compiled_rule option" where
  "compile_rule build r =
     (if \<not> is_valid_rule_id (rule_id r) then Inl (Semantic (InvalidRuleId (rule_id r)))
      else if rule_patterns r = [] then Inl (Semantic (NoPatterns (rule_id r)))
      else res_bind (compile_patterns build (rule_id r) (rule_case_sensitive r) 0 (rule_patterns r))
        (\<lambda>ps. res_bind (compile_validator r)
        (\<lambda>v. Inr
          (if rule_tokenize r \<or> rule_log r
           then Some \<lparr> category = rule_id r, patterns = ps, validator = v,
                       flags = \<lparr> tokenize = rule_tokenize r, log_hits = rule_log r \<rparr> \<rparr>
           else None))))"

fun compile_rules :: "regex_builder \<Rightarrow> rule_v3 list \<Rightarrow> policy_error + compiled_rule list" where
  "compile_rules build [] = Inr []"
| "compile_rules build (r # rs) =
     res_bind (compile_rule build r)
       (\<lambda>c. res_map (\<lambda>cs. (case c of None \<Rightarrow> cs | Some x \<Rightarrow> x # cs)) (compile_rules build rs))"

definition keyword_chars_ok :: "rstr \<Rightarrow> bool" where
  "keyword_chars_ok s \<longleftrightarrow>
     KEYWORD_MIN_CHARS \<le> length (chars s) \<and> length (chars s) \<le> KEYWORD_MAX_CHARS"

definition compile_keyword :: "keyword_v3 \<Rightarrow> policy_error + compiled_keyword" where
  "compile_keyword kw =
     (if \<not> keyword_chars_ok (kv_match kw) then Inl (Semantic KeywordMatchLength)
      else if \<not> keyword_chars_ok (kv_alias kw) then Inl (Semantic KeywordAliasLength)
      else if kv_match kw = kv_alias kw then Inl (Semantic KeywordSameAlias)
      else if \<not> alias_format_valid (kv_alias kw) then Inl (Semantic (InvalidAlias (kv_alias kw)))
      else Inr \<lparr> match_text = kv_match kw, kw_alias = kv_alias kw,
                 kw_case_sensitive = kv_case_sensitive kw \<rparr>)"

definition compile_keywords :: "keyword_v3 list \<Rightarrow> policy_error + compiled_keyword list" where
  "compile_keywords kws = res_traverse compile_keyword kws"

definition pattern_count :: "policy_file_v3 \<Rightarrow> nat" where
  "pattern_count file = sum_list (map (\<lambda>r. length (rule_patterns r)) (file_rules file))"

definition compile_policy_v3 ::
  "(rstr \<Rightarrow> (nat \<times> nat) + policy_file_v3) \<Rightarrow> regex_builder \<Rightarrow> rstr
     \<Rightarrow> policy_error + compiled_policy" where
  "compile_policy_v3 from_json build json =
     (case from_json json of
        Inl (line, column) \<Rightarrow> Inl (Parse line column)
      | Inr file \<Rightarrow>
          (if version file \<noteq> 3 then Inl (Semantic (UnsupportedVersion (version file)))
           else if length (file_rules file) > MAX_RULES then
             Inl (Semantic (TooManyRules (length (file_rules file))))
           else if pattern_count file > MAX_PATTERNS then
             Inl (Semantic (TooManyPatterns (pattern_count file)))
           else if length (file_keywords file) > MAX_KEYWORDS then
             Inl (Semantic (TooManyKeywords (length (file_keywords file))))
           else res_bind (compile_rules build (file_rules file))
             (\<lambda>rs. res_bind (compile_keywords (file_keywords file))
             (\<lambda>ks. Inr \<lparr> policy_rules = rs, policy_keywords = ks \<rparr>))))"

section \<open>The contract of a compiled policy\<close>

text \<open>A match range lies in the text, on char boundaries; the ranges need not be disjoint here.\<close>

definition regex_ok :: "regex \<Rightarrow> bool" where
  "regex_ok re \<longleftrightarrow>
     (\<forall>s. is_utf8 s \<longrightarrow>
        (\<forall>(i, j) \<in> set (re s). i \<le> j \<and> j \<le> length s \<and> is_char_boundary s i \<and> is_char_boundary s j))"

definition rule_ok :: "compiled_rule \<Rightarrow> bool" where
  "rule_ok r \<longleftrightarrow>
     is_valid_rule_id (category r) \<and> patterns r \<noteq> [] \<and> length (patterns r) \<le> MAX_PATTERNS
     \<and> (\<forall>re \<in> set (patterns r). regex_ok re) \<and> (tokenize (flags r) \<or> log_hits (flags r))"

definition keyword_ok :: "compiled_keyword \<Rightarrow> bool" where
  "keyword_ok k \<longleftrightarrow>
     keyword_chars_ok (match_text k) \<and> keyword_chars_ok (kw_alias k)
     \<and> match_text k \<noteq> kw_alias k \<and> alias_format_valid (kw_alias k)"

definition policy_ok :: "compiled_policy \<Rightarrow> bool" where
  "policy_ok p \<longleftrightarrow>
     (\<forall>r \<in> set (policy_rules p). rule_ok r) \<and> (\<forall>k \<in> set (policy_keywords p). keyword_ok k)
     \<and> length (policy_rules p) \<le> MAX_RULES \<and> length (policy_keywords p) \<le> MAX_KEYWORDS"

definition builder_ok :: "regex_builder \<Rightarrow> bool" where
  "builder_ok build \<longleftrightarrow> (\<forall>src ci re. build src ci = Some re \<longrightarrow> regex_ok re)"

lemma compile_patterns_spec:
  assumes "compile_patterns build rid cs i ps = Inr res"
  shows "length res = length ps \<and> (\<forall>p \<in> set ps. length p \<le> MAX_PATTERN_LEN)
    \<and> (\<forall>re \<in> set res. \<exists>p \<in> set ps. build p (\<not> cs) = Some re)"
  using assms
proof (induction ps arbitrary: i res)
  case Nil
  then show ?case by simp
next
  case (Cons p ps)
  then obtain re res' where "build p (\<not> cs) = Some re" and "length p \<le> MAX_PATTERN_LEN"
    and rest: "compile_patterns build rid cs (i + 1) ps = Inr res'" and "res = re # res'"
    by (auto simp: res_simps split: if_splits option.splits)
  with Cons.IH [OF rest] show ?case by auto
qed

lemma compile_rule_ok:
  assumes "builder_ok build" and "compile_rule build r = Inr (Some c)"
    and "length (rule_patterns r) \<le> MAX_PATTERNS"
  shows "rule_ok c \<and> category c = rule_id r"
proof -
  from assms(2) obtain ps v where
    ps: "compile_patterns build (rule_id r) (rule_case_sensitive r) 0 (rule_patterns r) = Inr ps"
    and c: "c = \<lparr> category = rule_id r, patterns = ps, validator = v,
          flags = \<lparr> tokenize = rule_tokenize r, log_hits = rule_log r \<rparr> \<rparr>"
    and flags: "rule_tokenize r \<or> rule_log r" and rid: "is_valid_rule_id (rule_id r)"
    and ne: "rule_patterns r \<noteq> []"
    by (auto simp: compile_rule_def res_simps split: if_splits)
  note spec = compile_patterns_spec [OF ps]
  have "regex_ok re" if "re \<in> set ps" for re
    using spec that assms(1) unfolding builder_ok_def by blast
  moreover have "length ps \<le> MAX_PATTERNS" and "ps \<noteq> []" using spec assms(3) ne by auto
  ultimately show ?thesis using flags rid by (simp add: c rule_ok_def)
qed

lemma compile_rules_ok:
  assumes "builder_ok build" and "compile_rules build rs = Inr cs"
    and "sum_list (map (\<lambda>r. length (rule_patterns r)) rs) \<le> MAX_PATTERNS"
  shows "(\<forall>c \<in> set cs. rule_ok c) \<and> length cs \<le> length rs
    \<and> map category cs = map rule_id (filter (\<lambda>r. rule_tokenize r \<or> rule_log r) rs)"
  using assms(2,3)
proof (induction rs arbitrary: cs)
  case Nil
  then show ?case by simp
next
  case (Cons r rs)
  then obtain c cs' where c: "compile_rule build r = Inr c" and cs': "compile_rules build rs = Inr cs'"
    and cs: "cs = (case c of None \<Rightarrow> cs' | Some x \<Rightarrow> x # cs')"
    by (auto simp: res_simps)
  from Cons.IH [OF cs'] Cons.prems(2) have IH: "\<forall>c \<in> set cs'. rule_ok c" "length cs' \<le> length rs"
    "map category cs' = map rule_id (filter (\<lambda>r. rule_tokenize r \<or> rule_log r) rs)" by auto
  have "rule_ok x \<and> category x = rule_id r" if "c = Some x" for x
    using that c Cons.prems(2) by (intro compile_rule_ok [OF assms(1)]) auto
  moreover have "c = None \<longleftrightarrow> \<not> (rule_tokenize r \<or> rule_log r)"
    using c by (auto simp: compile_rule_def res_simps split: if_splits)
  ultimately show ?case using IH cs by (cases c) auto
qed

lemma compile_keyword_ok: "compile_keyword kw = Inr k \<Longrightarrow> keyword_ok k"
  by (auto simp: compile_keyword_def keyword_ok_def split: if_splits)

lemma compile_keywords_ok:
  assumes "compile_keywords kws = Inr ks"
  shows "(\<forall>k \<in> set ks. keyword_ok k) \<and> length ks = length kws"
  using assms
  by (auto simp: compile_keywords_def res_traverse_eq_Inr list_all2_conv_all_nth in_set_conv_nth
      dest!: compile_keyword_ok)

text \<open>What a rule of the file compiles to: its id, each of its patterns in order built with its case flag, the
  validator of its name, and its two flags.\<close>

definition compiled_as :: "regex_builder \<Rightarrow> rule_v3 \<Rightarrow> compiled_rule \<Rightarrow> bool" where
  "compiled_as build r c \<longleftrightarrow>
     category c = rule_id r
     \<and> list_all2 (\<lambda>src re. length src \<le> MAX_PATTERN_LEN \<and> build src (\<not> rule_case_sensitive r) = Some re)
         (rule_patterns r) (patterns c)
     \<and> (case rule_validator r of
          None \<Rightarrow> validator c = None
        | Some name \<Rightarrow> validator_by_name name \<noteq> None \<and> validator c = validator_by_name name)
     \<and> tokenize (flags c) = rule_tokenize r \<and> log_hits (flags c) = rule_log r"

lemma compile_patterns_each:
  assumes "compile_patterns build rid cs i ps = Inr res"
  shows "list_all2 (\<lambda>src re. length src \<le> MAX_PATTERN_LEN \<and> build src (\<not> cs) = Some re) ps res"
  using assms
proof (induction ps arbitrary: i res)
  case (Cons p ps)
  then obtain re res' where "build p (\<not> cs) = Some re" and "length p \<le> MAX_PATTERN_LEN"
    and rest: "compile_patterns build rid cs (i + 1) ps = Inr res'" and "res = re # res'"
    by (auto simp: res_simps split: if_splits option.splits)
  with Cons.IH [OF rest] show ?case by simp
qed simp

lemma compile_rule_as:
  assumes "compile_rule build r = Inr c"
  shows "case c of None \<Rightarrow> \<not> (rule_tokenize r \<or> rule_log r)
    | Some x \<Rightarrow> (rule_tokenize r \<or> rule_log r) \<and> compiled_as build r x"
proof -
  from assms obtain ps v where
    ps: "compile_patterns build (rule_id r) (rule_case_sensitive r) 0 (rule_patterns r) = Inr ps"
    and v: "compile_validator r = Inr v"
    and c: "c = (if rule_tokenize r \<or> rule_log r
           then Some \<lparr> category = rule_id r, patterns = ps, validator = v,
                       flags = \<lparr> tokenize = rule_tokenize r, log_hits = rule_log r \<rparr> \<rparr>
           else None)"
    unfolding compile_rule_def by (auto simp: res_simps split: if_splits)
  have "case rule_validator r of None \<Rightarrow> v = None
      | Some name \<Rightarrow> validator_by_name name \<noteq> None \<and> v = validator_by_name name"
    using v by (auto simp: compile_validator_def res_simps split: option.splits)
  then show ?thesis using compile_patterns_each [OF ps] by (cases "rule_validator r") (simp_all add: c compiled_as_def)
qed

lemma compile_rules_as:
  assumes "compile_rules build rs = Inr cs"
  shows "list_all2 (compiled_as build) (filter (\<lambda>r. rule_tokenize r \<or> rule_log r) rs) cs"
  using assms
proof (induction rs arbitrary: cs)
  case (Cons r rs)
  then obtain c cs' where c: "compile_rule build r = Inr c" and cs': "compile_rules build rs = Inr cs'"
    and cs: "cs = (case c of None \<Rightarrow> cs' | Some x \<Rightarrow> x # cs')"
    by (auto simp: res_simps)
  with compile_rule_as [OF c] Cons.IH [OF cs'] show ?case by (auto split: option.splits)
qed simp

lemma compile_keywords_as:
  assumes "compile_keywords kws = Inr ks"
  shows "ks = map (\<lambda>k. \<lparr> match_text = kv_match k, kw_alias = kv_alias k, kw_case_sensitive = kv_case_sensitive k \<rparr>) kws"
proof -
  from assms have "list_all2 (\<lambda>k c. compile_keyword k = Inr c) kws ks"
    by (simp add: compile_keywords_def res_traverse_eq_Inr)
  then show ?thesis by induction (auto simp: compile_keyword_def split: if_splits)
qed

lemma compile_policy_v3_eq_Inr:
  "compile_policy_v3 from_json build json = Inr p \<longleftrightarrow>
     (\<exists>file. from_json json = Inr file \<and> version file = 3
        \<and> length (file_rules file) \<le> MAX_RULES \<and> pattern_count file \<le> MAX_PATTERNS
        \<and> length (file_keywords file) \<le> MAX_KEYWORDS
        \<and> compile_rules build (file_rules file) = Inr (policy_rules p)
        \<and> compile_keywords (file_keywords file) = Inr (policy_keywords p))"
  by (cases p) (auto simp: compile_policy_v3_def res_simps split: sum.splits)

section \<open>A literal regex builder\<close>

text \<open>The matches of a literal pattern, leftmost and non-overlapping, for concrete evaluation.\<close>

function literal_matches :: "rstr \<Rightarrow> nat \<Rightarrow> rstr \<Rightarrow> (nat \<times> nat) list" where
  "literal_matches p i s =
     (if s = [] \<or> p = [] then []
      else if starts_with p s then
        (i, i + length p) # literal_matches p (i + length p) (drop (length p) s)
      else literal_matches p (i + 1) (tl s))"
  by pat_completeness auto
termination by (relation "measure (\<lambda>(p, i, s). length s)") auto

declare literal_matches.simps [simp del]

definition ascii_only :: "rstr \<Rightarrow> bool" where
  "ascii_only s \<longleftrightarrow> list_all (\<lambda>b. code b < 128) s"

definition literal_regex :: "rstr \<Rightarrow> regex" where
  "literal_regex p s = (if ascii_only s then literal_matches p 0 s else [])"

definition literal_builder :: regex_builder where
  "literal_builder p ci = Some (literal_regex p)"

lemma literal_matches_bounds:
  "(a, b) \<in> set (literal_matches p i s) \<Longrightarrow> i \<le> a \<and> a \<le> b \<and> b \<le> i + length s"
proof (induction p i s rule: literal_matches.induct)
  case (1 p i s)
  show ?case
  proof (cases "s = [] \<or> p = []")
    case True
    with "1.prems" show ?thesis by (subst (asm) literal_matches.simps) auto
  next
    case False
    have "length p \<le> length s" if "starts_with p s"
      using that by (auto simp: starts_with_iff)
    moreover have "length (tl s) = length s - 1" and "0 < length s" using False by auto
    moreover note eq = literal_matches.simps [of p i s]
    ultimately show ?thesis
      using "1.IH"(1) [OF False] "1.IH"(2) [OF False] "1.prems" False
      by (cases s; cases "starts_with p s") (simp_all add: eq, fastforce+)
  qed
qed

lemma ascii_boundary: "ascii_only s \<Longrightarrow> n \<le> length s \<Longrightarrow> is_char_boundary s n"
  by (auto simp: is_char_boundary_def ascii_only_def is_cont_def list_all_length not_less le_less)

lemma literal_regex_ok: "regex_ok (literal_regex p)"
  by (auto simp: regex_ok_def literal_regex_def dest!: literal_matches_bounds intro!: ascii_boundary)

lemma literal_builder_ok: "builder_ok literal_builder"
  by (auto simp: builder_ok_def literal_builder_def literal_regex_ok)

section \<open>Properties\<close>

text \<open>C39. A policy that compiles satisfies the contract its consumers rely on: every rule has a
  well-formed id, at least one pattern whose matches are slices of the text, and a flag on;
  every keyword and alias has 3 to 128 chars and they differ; the documented limits hold. The
  compiled rules are exactly the rules of the file with a flag on, in file order, each with its
  id, its patterns in order built with its case flag, the validator of its name and its two
  flags; the keywords are those of the file, unchanged and in order.\<close>

theorem compile_policy_v3_sound:
  assumes "builder_ok build" and "compile_policy_v3 from_json build json = Inr p"
  shows "policy_ok p
    \<and> (\<exists>doc. from_json json = Inr doc \<and> version doc = 3
         \<and> list_all2 (compiled_as build) (filter (\<lambda>r. rule_tokenize r \<or> rule_log r) (file_rules doc)) (policy_rules p)
         \<and> policy_keywords p = map (\<lambda>k. \<lparr> match_text = kv_match k, kw_alias = kv_alias k,
             kw_case_sensitive = kv_case_sensitive k \<rparr>) (file_keywords doc))"
proof -
  from assms(2) obtain doc where json: "from_json json = Inr doc" "version doc = 3"
    and limits: "length (file_rules doc) \<le> MAX_RULES" "pattern_count doc \<le> MAX_PATTERNS"
      "length (file_keywords doc) \<le> MAX_KEYWORDS"
    and rs: "compile_rules build (file_rules doc) = Inr (policy_rules p)"
    and ks: "compile_keywords (file_keywords doc) = Inr (policy_keywords p)"
    unfolding compile_policy_v3_eq_Inr by blast
  note R = compile_rules_ok [OF assms(1) rs limits(2) [unfolded pattern_count_def]]
  note K = compile_keywords_ok [OF ks]
  have "policy_ok p" using R K limits by (simp add: policy_ok_def)
  with json compile_rules_as [OF rs] compile_keywords_as [OF ks] show ?thesis by blast
qed

definition demo_rule :: "rstr \<Rightarrow> rstr \<Rightarrow> bool \<Rightarrow> bool \<Rightarrow> rule_v3" where
  "demo_rule rid pat tok lg =
     \<lparr> rule_id = rid, display_name = ''demo'', rule_patterns = [pat], rule_validator = None,
       rule_case_sensitive = True, rule_tokenize = tok, rule_log = lg \<rparr>"

definition demo_file :: policy_file_v3 where
  "demo_file =
     \<lparr> version = 3, source_of = \<lparr> src_policies = [], src_forced = [] \<rparr>,
       file_rules = [demo_rule ''EMAIL'' ''ann@x.pl'' True False,
                     demo_rule ''OFF'' ''zzz'' False False,
                     demo_rule ''PHONE'' ''12345'' False True],
       file_keywords = [\<lparr> kv_match = ''Acme'', kv_alias = ''Brandex'', kv_case_sensitive = False \<rparr>] \<rparr>"

definition demo_policy :: compiled_policy where
  "demo_policy =
     \<lparr> policy_rules =
         [\<lparr> category = ''EMAIL'', patterns = [literal_regex ''ann@x.pl''], validator = None,
            flags = \<lparr> tokenize = True, log_hits = False \<rparr> \<rparr>,
          \<lparr> category = ''PHONE'', patterns = [literal_regex ''12345''], validator = None,
            flags = \<lparr> tokenize = False, log_hits = True \<rparr> \<rparr>],
       policy_keywords = [\<lparr> match_text = ''Acme'', kw_alias = ''Brandex'', kw_case_sensitive = False \<rparr>] \<rparr>"

lemma demo_chars: "length (chars ''Acme'') = 4" "length (chars ''Brandex'') = 7"
  by code_simp+

lemma demo_policy_ok: "policy_ok demo_policy"
  by (simp add: policy_ok_def demo_policy_def rule_ok_def keyword_ok_def literal_regex_ok
      MAX_RULES_def MAX_KEYWORDS_def MAX_PATTERNS_def KEYWORD_MIN_CHARS_def KEYWORD_MAX_CHARS_def
      is_valid_rule_id_def is_category_byte_def ascii_class_defs keyword_chars_ok_def demo_chars
      alias_format_valid_def)

lemma demo_policy_compiles:
  "compile_policy_v3 (\<lambda>_. Inr demo_file) literal_builder [] = Inr demo_policy"
  by (simp add: compile_policy_v3_def demo_file_def demo_rule_def demo_policy_def pattern_count_def
      MAX_RULES_def MAX_PATTERNS_def MAX_KEYWORDS_def MAX_PATTERN_LEN_def KEYWORD_MIN_CHARS_def
      KEYWORD_MAX_CHARS_def compile_rule_def compile_validator_def literal_builder_def
      is_valid_rule_id_def is_category_byte_def ascii_class_defs compile_keywords_def
      compile_keyword_def keyword_chars_ok_def alias_format_valid_def demo_chars)

lemma compile_policy_v3_sound_witness: "policy_ok demo_policy"
  using compile_policy_v3_sound [OF literal_builder_ok demo_policy_compiles] by (rule conjunct1)

lemma compile_rules_append:
  "compile_rules build (xs @ ys) =
     res_bind (compile_rules build xs) (\<lambda>as. res_map (\<lambda>bs. as @ bs) (compile_rules build ys))"
proof (induction xs)
  case Nil
  then show ?case by (cases "compile_rules build ys") simp_all
next
  case (Cons x xs)
  then show ?case
    by (cases "compile_rule build x"; cases "compile_rules build xs"; cases "compile_rules build ys")
      (auto split: option.splits)
qed

text \<open>Compilation reports the first defective rule of the file: with every rule before it
  valid, its own error is the result, whatever follows it and whatever the keywords are.\<close>

theorem compile_policy_v3_first_bad_rule:
  assumes "from_json json = Inr file" and "version file = 3"
    and "length (file_rules file) \<le> MAX_RULES" and "pattern_count file \<le> MAX_PATTERNS"
    and "length (file_keywords file) \<le> MAX_KEYWORDS"
    and "file_rules file = good @ r # rest"
    and "compile_rules build good = Inr cs" and "compile_rule build r = Inl e"
  shows "compile_policy_v3 from_json build json = Inl e"
  using assms by (simp add: compile_policy_v3_def compile_rules_append)

lemma compile_policy_v3_first_bad_rule_witness:
  "compile_policy_v3
     (\<lambda>_. Inr (demo_file \<lparr> file_rules := [demo_rule ''EMAIL'' ''x'' True False,
        demo_rule ''email'' ''x'' True False, demo_rule ''1'' ''x'' True False] \<rparr>)) literal_builder []
   = Inl (Semantic (InvalidRuleId ''email''))"
  by (rule compile_policy_v3_first_bad_rule [OF refl, where good = "[demo_rule ''EMAIL'' ''x'' True False]"
        and r = "demo_rule ''email'' ''x'' True False" and rest = "[demo_rule ''1'' ''x'' True False]"])
    (simp_all add: demo_file_def demo_rule_def pattern_count_def MAX_RULES_def MAX_PATTERNS_def
      MAX_KEYWORDS_def MAX_PATTERN_LEN_def compile_rule_def compile_validator_def
      literal_builder_def is_valid_rule_id_def is_category_byte_def ascii_class_defs)

end
