(* ===== verification/Token_Span.thy ===== *)
theory Token_Span
  imports Siv Policy
begin

text \<open>
  The token-span grammar of \<open>crates/pii-engine/src/scan.rs\<close>: the matcher of
  \<open>TOKEN_SPAN_RE\<close> and its \<open>find_iter\<close>, the incremental prefix scan, masking, building and
  resolving one token, and detokenisation. The lemmas show that segment lists without
  adjacent or span-carrying plain text are exactly the parses of their rendering.
\<close>

section \<open>The grammar \<open>\[[A-Z0-9_]+:TOKEN_[A-Za-z0-9_-]+\]\<close>\<close>

definition TOKEN_SEP :: rstr where "TOKEN_SEP = '':TOKEN_''"

text \<open>
  Length of the match of \<open>TOKEN_SPAN_RE\<close> anchored at the start of the text. Neither class
  contains the byte that follows it, so the greedy runs are the only possible match.
\<close>

definition span_match :: "rstr \<Rightarrow> nat option" where
  "span_match s =
     (case s of
        [] \<Rightarrow> None
      | b # r \<Rightarrow>
          (if b \<noteq> CHR ''['' then None
           else let cat = takeWhile is_category_byte r in
             if cat = [] then None
             else case strip_prefix TOKEN_SEP (dropWhile is_category_byte r) of
                 None \<Rightarrow> None
               | Some q \<Rightarrow>
                   let payload = takeWhile is_payload_byte q in
                   if payload = [] then None
                   else case dropWhile is_payload_byte q of
                       [] \<Rightarrow> None
                     | c # _ \<Rightarrow>
                         (if c = CHR '']''
                          then Some (1 + length cat + length TOKEN_SEP + length payload + 1)
                          else None)))"

definition mk_span :: "rstr \<Rightarrow> rstr \<Rightarrow> rstr" where
  "mk_span cat payload = CHR ''['' # cat @ TOKEN_SEP @ payload @ '']''"

definition is_span_of :: "rstr \<Rightarrow> rstr \<Rightarrow> bool" where
  "is_span_of cat payload \<longleftrightarrow>
     cat \<noteq> [] \<and> list_all is_category_byte cat \<and> payload \<noteq> [] \<and> list_all is_payload_byte payload"

lemma takeWhile_run:
  "list_all P xs \<Longrightarrow> \<not> P y \<Longrightarrow> takeWhile P (xs @ y # ys) = xs \<and> dropWhile P (xs @ y # ys) = y # ys"
  by (induction xs) auto

lemma dropWhile_stops: "dropWhile P xs = [] \<or> \<not> P (hd (dropWhile P xs))"
  by (metis hd_dropWhile)

lemma takeWhile_all: "list_all P (takeWhile P xs)"
  by (auto simp: list_all_iff dest: set_takeWhileD)

lemma not_category_bytes [simp]: "\<not> is_category_byte CHR '':''" "\<not> is_category_byte CHR ''[''"
  by (simp_all add: is_category_byte_def ascii_class_defs)

lemma not_payload_bytes [simp]: "\<not> is_payload_byte CHR '']''" "\<not> is_payload_byte CHR ''[''"
  by (simp_all add: is_payload_byte_def ascii_class_defs)

lemma length_mk_span: "length (mk_span cat payload) = 1 + length cat + 7 + length payload + 1"
  by (simp add: mk_span_def TOKEN_SEP_def)

lemma span_match_mk_span:
  assumes "is_span_of cat payload"
  shows "span_match (mk_span cat payload @ t) = Some (length (mk_span cat payload))"
proof -
  have "takeWhile is_category_byte (cat @ CHR '':'' # u) = cat"
    "dropWhile is_category_byte (cat @ CHR '':'' # u) = CHR '':'' # u" for u
    using assms takeWhile_run [of is_category_byte cat] by (auto simp: is_span_of_def)
  moreover have "takeWhile is_payload_byte (payload @ CHR '']'' # u) = payload"
    "dropWhile is_payload_byte (payload @ CHR '']'' # u) = CHR '']'' # u" for u
    using assms takeWhile_run [of is_payload_byte payload] by (auto simp: is_span_of_def)
  ultimately show ?thesis
    using assms
    by (simp add: span_match_def mk_span_def TOKEN_SEP_def is_span_of_def strip_prefix_def
        starts_with_def Let_def)
qed

lemma span_match_Some:
  assumes "span_match s = Some n"
  obtains cat payload t where "s = mk_span cat payload @ t" and "is_span_of cat payload"
    and "n = length (mk_span cat payload)"
proof -
  from assms obtain r where s: "s = CHR ''['' # r" by (auto simp: span_match_def split: list.splits if_splits)
  let ?cat = "takeWhile is_category_byte r"
  from assms s obtain q where q: "strip_prefix TOKEN_SEP (dropWhile is_category_byte r) = Some q"
    and cat: "?cat \<noteq> []"
    by (auto simp: span_match_def Let_def split: if_splits option.splits)
  let ?payload = "takeWhile is_payload_byte q"
  from assms s q obtain t where t: "dropWhile is_payload_byte q = CHR '']'' # t"
    and payload: "?payload \<noteq> []"
    and n: "n = 1 + length ?cat + length TOKEN_SEP + length ?payload + 1"
    by (auto simp: span_match_def Let_def split: if_splits option.splits list.splits)
  have "r = ?cat @ TOKEN_SEP @ q"
    using q unfolding strip_prefix_eq_Some by (metis takeWhile_dropWhile_id)
  moreover have "q = ?payload @ CHR '']'' # t" using t by (metis takeWhile_dropWhile_id)
  ultimately have "s = mk_span ?cat ?payload @ t" using s by (simp add: mk_span_def)
  moreover have "is_span_of ?cat ?payload"
    using cat payload by (auto simp: is_span_of_def list_all_iff dest: set_takeWhileD)
  moreover have "n = length (mk_span ?cat ?payload)" by (simp add: n mk_span_def)
  ultimately show thesis by (rule that)
qed

lemma span_match_bounds: "span_match s = Some n \<Longrightarrow> 0 < n \<and> n \<le> length s"
  by (erule span_match_Some) (simp add: mk_span_def)

lemma span_match_append: "span_match s = Some n \<Longrightarrow> span_match (s @ t) = Some n"
  by (erule span_match_Some) (simp add: span_match_mk_span)

lemma span_match_take: "span_match s = Some n \<Longrightarrow> span_match (take n s) = Some n"
  by (erule span_match_Some) (use span_match_mk_span [where t = "[]"] in auto)

lemma span_match_head: "span_match s = Some n \<Longrightarrow> \<exists>r. s = CHR ''['' # r"
  by (erule span_match_Some) (simp add: mk_span_def)

lemma span_byte_cases: "b \<in> set (mk_span cat payload) \<Longrightarrow> is_span_of cat payload \<Longrightarrow> code b < 128"
proof -
  have cat: "code b < 128" if "is_category_byte b" for b
    using that by (auto simp: is_category_byte_def ascii_class_defs less_eq_char_def)
  have payload: "code b < 128" if "is_payload_byte b" for b
    using that by (auto simp: is_payload_byte_def ascii_class_defs less_eq_char_def)
  assume "b \<in> set (mk_span cat payload)" and "is_span_of cat payload"
  then show ?thesis
    by (auto simp: mk_span_def is_span_of_def TOKEN_SEP_def list_all_iff intro: cat payload)
qed

lemma span_match_Nil [simp]: "span_match [] = None"
  by (simp add: span_match_def)

text \<open>Inside a span there is no second opening bracket.\<close>

lemma mk_span_no_bracket:
  assumes "is_span_of cat payload"
  shows "CHR ''['' \<notin> set (tl (mk_span cat payload))"
  using assms by (auto simp: is_span_of_def mk_span_def TOKEN_SEP_def list_all_iff)

section \<open>\<open>find_iter\<close> of the grammar\<close>

function span_find_from :: "nat \<Rightarrow> rstr \<Rightarrow> (nat \<times> nat) list" where
  "span_find_from i s =
     (if s = [] then []
      else case span_match s of
          Some n \<Rightarrow> (i, i + n) # span_find_from (i + n) (drop n s)
        | None \<Rightarrow> span_find_from (i + 1) (tl s))"
  by pat_completeness auto
termination
  by (relation "measure (\<lambda>(i, s). length s)") (auto dest: span_match_bounds)

declare span_find_from.simps [simp del]

definition span_find_iter :: "rstr \<Rightarrow> (nat \<times> nat) list" where
  "span_find_iter s = span_find_from 0 s"

text \<open>\<open>text[i..j]\<close>\<close>

definition slice :: "rstr \<Rightarrow> nat \<Rightarrow> nat \<Rightarrow> rstr" where
  "slice s i j = drop i (take j s)"

section \<open>Masking\<close>

datatype segment = Plain rstr nat | Masked rstr

fun seg_text :: "segment \<Rightarrow> rstr" where
  "seg_text (Plain t _) = t"
| "seg_text (Masked t) = t"

fun mask_loop :: "rstr \<Rightarrow> nat \<Rightarrow> (nat \<times> nat) list \<Rightarrow> segment list" where
  "mask_loop text prev [] =
     (if prev < length text then [Plain (slice text prev (length text)) prev] else [])"
| "mask_loop text prev ((i, j) # ms) =
     (if i > prev then [Plain (slice text prev i) prev] else [])
     @ Masked (slice text i j) # mask_loop text j ms"

definition mask_spans :: "rstr \<Rightarrow> segment list" where
  "mask_spans text = mask_loop text 0 (span_find_iter text)"

definition render_segs :: "segment list \<Rightarrow> rstr" where
  "render_segs segs = concat (map seg_text segs)"

section \<open>The incremental prefix scan\<close>

datatype prefix_scan = Viable | Complete nat | Invalid

definition TOKEN_MARKER :: rstr where "TOKEN_MARKER = ''TOKEN_''"

text \<open>\<open>while i < bytes.len() && P(bytes[i])\<close>\<close>

function skip_while :: "(byte \<Rightarrow> bool) \<Rightarrow> rstr \<Rightarrow> nat \<Rightarrow> nat" where
  "skip_while P bytes i =
     (if i < length bytes \<and> P (bytes ! i) then skip_while P bytes (i + 1) else i)"
  by pat_completeness auto
termination by (relation "measure (\<lambda>(P, bytes, i). length bytes - i)") auto

declare skip_while.simps [simp del]

text \<open>The \<open>for &expected in MARKER\<close> loop: \<open>Inl\<close> is its early return.\<close>

fun marker_loop :: "rstr \<Rightarrow> rstr \<Rightarrow> nat \<Rightarrow> prefix_scan + nat" where
  "marker_loop [] bytes i = Inr i"
| "marker_loop (e # es) bytes i =
     (if i \<ge> length bytes then Inl Viable
      else if bytes ! i \<noteq> e then Inl Invalid
      else marker_loop es bytes (i + 1))"

definition span_prefix_scan :: "rstr \<Rightarrow> prefix_scan" where
  "span_prefix_scan bytes =
     (let category_start = 1;
          i = skip_while is_category_byte bytes category_start
      in if i \<ge> length bytes then Viable
         else if bytes ! i \<noteq> CHR '':'' \<or> i = category_start then Invalid
         else case marker_loop TOKEN_MARKER bytes (i + 1) of
             Inl r \<Rightarrow> r
           | Inr payload_start \<Rightarrow>
               let j = skip_while is_payload_byte bytes payload_start
               in if j \<ge> length bytes then Viable
                  else if bytes ! j = CHR '']'' \<and> j > payload_start then Complete (j + 1)
                  else Invalid)"

fun position :: "('a \<Rightarrow> bool) \<Rightarrow> 'a list \<Rightarrow> nat option" where
  "position P [] = None"
| "position P (x # xs) = (if P x then Some 0 else map_option Suc (position P xs))"

lemma position_Some: "position P xs = Some i \<Longrightarrow> i < length xs \<and> P (xs ! i) \<and> (\<forall>j < i. \<not> P (xs ! j))"
  by (induction xs arbitrary: i) (auto simp: less_Suc_eq_0_disj split: if_splits)

lemma position_None: "position P xs = None \<longleftrightarrow> (\<forall>x \<in> set xs. \<not> P x)"
  by (induction xs) auto

lemma skip_while_eq: "i \<le> length bytes \<Longrightarrow>
    skip_while P bytes i = i + length (takeWhile P (drop i bytes))"
proof (induction P bytes i rule: skip_while.induct)
  case (1 P bytes i)
  show ?case
  proof (cases "i < length bytes \<and> P (bytes ! i)")
    case True
    with "1.IH" [OF True] show ?thesis
      by (simp add: skip_while.simps [of P bytes i] flip: Cons_nth_drop_Suc)
  next
    case False
    then have "skip_while P bytes i = i" by (subst skip_while.simps) auto
    moreover have "takeWhile P (drop i bytes) = []"
      using False by (cases "i < length bytes") (simp_all flip: Cons_nth_drop_Suc)
    ultimately show ?thesis by simp
  qed
qed

lemma marker_loop_not_complete: "marker_loop es bytes i \<noteq> Inl (Complete n)"
  by (induction es bytes i rule: marker_loop.induct) auto

lemma span_prefix_scan_complete_bounds:
  assumes "span_prefix_scan bytes = Complete n"
  shows "0 < n"
  using assms
  by (auto simp: span_prefix_scan_def Let_def marker_loop_not_complete split: if_splits sum.splits)

text \<open>\<open>bytes.get(pos..)?\<close> ends the search past the end of the text.\<close>

function incomplete_from :: "rstr \<Rightarrow> nat \<Rightarrow> nat option" where
  "incomplete_from bytes pos =
     (if pos > length bytes then None
      else case position (\<lambda>b. b = CHR ''['') (drop pos bytes) of
          None \<Rightarrow> None
        | Some open_rel \<Rightarrow>
            let start = pos + open_rel in
            (case span_prefix_scan (drop start bytes) of
               Viable \<Rightarrow> Some start
             | Complete len \<Rightarrow> incomplete_from bytes (start + len)
             | Invalid \<Rightarrow> incomplete_from bytes (start + 1)))"
  by pat_completeness auto
termination
  by (relation "measure (\<lambda>(bytes, pos). Suc (length bytes) - pos)")
    (auto dest!: span_prefix_scan_complete_bounds position_Some)

declare incomplete_from.simps [simp del]

definition incomplete_token_span_start :: "rstr \<Rightarrow> nat option" where
  "incomplete_token_span_start text = incomplete_from text 0"

section \<open>Building, resolving and detokenising\<close>

datatype scan_error =
    ScanTokenPatternInvalid
  | SealFailed rstr
  | ExternalSpanCount nat nat

datatype detokenize_error =
    DetokTokenPatternInvalid
  | VerificationFailed rstr nat

definition build_token :: "crypto \<Rightarrow> engine_key \<Rightarrow> rstr \<Rightarrow> rstr \<Rightarrow> scan_error + rstr" where
  "build_token C key cat v =
     (case seal C key cat v of
        Inl _ \<Rightarrow> Inl (SealFailed cat)
      | Inr ct \<Rightarrow> Inr (CHR ''['' # cat @ '':TOKEN_'' @ encode_payload C ct @ '']''))"

definition parse_token_span :: "rstr \<Rightarrow> (rstr \<times> rstr) option" where
  "parse_token_span span =
     (case strip_prefix ''['' span of
        None \<Rightarrow> None
      | Some r \<Rightarrow> (case strip_suffix '']'' r of None \<Rightarrow> None | Some inner \<Rightarrow> split_once '':TOKEN_'' inner))"

definition resolve_span :: "crypto \<Rightarrow> engine_key \<Rightarrow> rstr \<Rightarrow> rstr option" where
  "resolve_span C key span =
     (case parse_token_span span of
        None \<Rightarrow> None
      | Some (cat, payload) \<Rightarrow>
          (case decode_payload C payload of
             Inl _ \<Rightarrow> None
           | Inr ct \<Rightarrow>
               (case open_sealed C key cat ct of Inl _ \<Rightarrow> None | Inr bytes \<Rightarrow> from_utf8 bytes)))"

definition failed_category :: "rstr \<Rightarrow> rstr" where
  "failed_category span = (case parse_token_span span of None \<Rightarrow> ''unknown'' | Some (c, _) \<Rightarrow> c)"

fun detok_loop ::
  "crypto \<Rightarrow> engine_key \<Rightarrow> (rstr \<Rightarrow> rstr) \<Rightarrow> rstr \<Rightarrow> nat \<Rightarrow> nat \<Rightarrow> (nat \<times> nat) list
     \<Rightarrow> detokenize_error + rstr" where
  "detok_loop C key render text prev index [] = Inr (slice text prev (length text))"
| "detok_loop C key render text prev index ((i, j) # ms) =
     (case resolve_span C key (slice text i j) of
        None \<Rightarrow> Inl (VerificationFailed (failed_category (slice text i j)) index)
      | Some plaintext \<Rightarrow>
          res_map (\<lambda>r. slice text prev i @ render plaintext @ r)
            (detok_loop C key render text j (index + 1) ms))"

definition detokenize_text_with ::
  "crypto \<Rightarrow> engine_key \<Rightarrow> rstr \<Rightarrow> (rstr \<Rightarrow> rstr) \<Rightarrow> detokenize_error + rstr" where
  "detokenize_text_with C key text render =
     detok_loop C key render text 0 0 (span_find_iter text)"

definition detokenize_text :: "crypto \<Rightarrow> engine_key \<Rightarrow> rstr \<Rightarrow> detokenize_error + rstr" where
  "detokenize_text C key text = detokenize_text_with C key text (\<lambda>p. p)"

fun lossy_loop ::
  "crypto \<Rightarrow> engine_key \<Rightarrow> rstr \<Rightarrow> nat \<Rightarrow> (nat \<times> nat) list \<Rightarrow> rstr" where
  "lossy_loop C key text prev [] = slice text prev (length text)"
| "lossy_loop C key text prev ((i, j) # ms) =
     slice text prev i
     @ (case resolve_span C key (slice text i j) of Some p \<Rightarrow> p | None \<Rightarrow> slice text i j)
     @ lossy_loop C key text j ms"

definition detokenize_text_lossy :: "crypto \<Rightarrow> engine_key \<Rightarrow> rstr \<Rightarrow> rstr" where
  "detokenize_text_lossy C key text = lossy_loop C key text 0 (span_find_iter text)"

section \<open>Segment lists are parses\<close>

definition span_free :: "rstr \<Rightarrow> bool" where
  "span_free s \<longleftrightarrow> (\<forall>k \<le> length s. span_match (drop k s) = None)"

definition is_token_span :: "rstr \<Rightarrow> bool" where
  "is_token_span s \<longleftrightarrow> span_match s = Some (length s)"

fun segs_wf :: "segment list \<Rightarrow> bool" where
  "segs_wf [] \<longleftrightarrow> True"
| "segs_wf (Masked t # r) \<longleftrightarrow> is_token_span t \<and> segs_wf r"
| "segs_wf [Plain t _] \<longleftrightarrow> t \<noteq> [] \<and> span_free t"
| "segs_wf (Plain t _ # Plain _ _ # r) \<longleftrightarrow> False"
| "segs_wf (Plain t _ # Masked m # r) \<longleftrightarrow> t \<noteq> [] \<and> span_free t \<and> is_token_span m \<and> segs_wf r"

lemma render_segs_simps [simp]:
  "render_segs [] = []"
  "render_segs (x # xs) = seg_text x @ render_segs xs"
  "render_segs (xs @ ys) = render_segs xs @ render_segs ys"
  by (simp_all add: render_segs_def)

lemma is_token_span_iff: "is_token_span s \<longleftrightarrow> (\<exists>cat payload. s = mk_span cat payload \<and> is_span_of cat payload)"
proof
  assume "is_token_span s"
  then obtain cat payload t where "s = mk_span cat payload @ t" "is_span_of cat payload"
    and "length s = length (mk_span cat payload)"
    unfolding is_token_span_def by (rule span_match_Some)
  then show "\<exists>cat payload. s = mk_span cat payload \<and> is_span_of cat payload" by auto
next
  assume "\<exists>cat payload. s = mk_span cat payload \<and> is_span_of cat payload"
  then show "is_token_span s"
    using span_match_mk_span [where t = "[]"] by (auto simp: is_token_span_def)
qed

lemma token_span_head: "is_token_span t \<Longrightarrow> \<exists>r. t = CHR ''['' # r"
  by (auto simp: is_token_span_iff mk_span_def)

lemma span_match_token: "is_token_span t \<Longrightarrow> span_match (t @ r) = Some (length t)"
  by (auto simp: is_token_span_iff span_match_mk_span)

text \<open>A match never reaches across the opening bracket of the next token.\<close>

lemma span_match_before_bracket:
  assumes "span_match (a @ r) = Some n" and "r = [] \<or> hd r = CHR ''[''" and "a \<noteq> []"
  shows "span_match a = Some n"
proof -
  obtain cat payload t where eq: "a @ r = mk_span cat payload @ t" and sp: "is_span_of cat payload"
    and n: "n = length (mk_span cat payload)"
    using span_match_Some [OF assms(1)] .
  have "n \<le> length a"
  proof (rule ccontr)
    assume "\<not> n \<le> length a"
    then have lt: "length a < length (mk_span cat payload)" using n by simp
    then have "r \<noteq> []" using eq by (auto dest: arg_cong [where f = length])
    moreover have "mk_span cat payload ! length a = (a @ r) ! length a"
      using lt by (simp add: eq nth_append)
    ultimately have "mk_span cat payload ! length a = CHR ''[''"
      using assms(2) by (cases r) simp_all
    moreover have "mk_span cat payload ! length a = tl (mk_span cat payload) ! (length a - 1)"
      using lt assms(3) by (cases a) (simp_all add: nth_tl)
    moreover have "length a - 1 < length (tl (mk_span cat payload))" using lt assms(3) by (cases a) auto
    ultimately have "CHR ''['' \<in> set (tl (mk_span cat payload))" by (metis nth_mem)
    with mk_span_no_bracket [OF sp] show False by simp
  qed
  then have "a = mk_span cat payload @ drop n a"
    using eq n by (metis append_eq_append_conv_if append_take_drop_id take_append)
  then show ?thesis using span_match_mk_span [OF sp, of "drop n a"] n by simp
qed

lemma span_find_from_plain:
  assumes "span_free p" and "r = [] \<or> hd r = CHR ''[''"
  shows "span_find_from i (p @ r) = span_find_from (i + length p) r"
  using assms(1)
proof (induction p arbitrary: i)
  case Nil
  then show ?case by simp
next
  case (Cons a p)
  have none: "span_match (a # p) = None" using Cons.prems by (auto simp: span_free_def dest: spec [of _ 0])
  have "span_match ((a # p) @ r) = None"
  proof (rule ccontr)
    assume "span_match ((a # p) @ r) \<noteq> None"
    then obtain n where "span_match ((a # p) @ r) = Some n" by blast
    from span_match_before_bracket [OF this assms(2)] none show False by simp
  qed
  moreover have "span_free p" using Cons.prems by (force simp: span_free_def)
  ultimately show ?case using Cons.IH by (simp add: span_find_from.simps [of i "a # _"])
qed

lemma span_find_from_token:
  assumes "is_token_span t"
  shows "span_find_from i (t @ r) = (i, i + length t) # span_find_from (i + length t) r"
proof -
  have "t \<noteq> []" using token_span_head [OF assms] by auto
  then show ?thesis using span_match_token [OF assms] by (simp add: span_find_from.simps [of i "t @ r"])
qed

text \<open>The matches found in a rendered segment list are its masked segments.\<close>

fun seg_positions :: "nat \<Rightarrow> segment list \<Rightarrow> (nat \<times> nat) list" where
  "seg_positions i [] = []"
| "seg_positions i (Plain t _ # r) = seg_positions (i + length t) r"
| "seg_positions i (Masked t # r) = (i, i + length t) # seg_positions (i + length t) r"

lemma span_find_from_Nil [simp]: "span_find_from i [] = []"
  by (simp add: span_find_from.simps)

lemma span_find_render:
  "segs_wf segs \<Longrightarrow> span_find_from i (render_segs segs) = seg_positions i segs"
proof (induction segs arbitrary: i rule: segs_wf.induct)
  case (3 t u)
  then show ?case using span_find_from_plain [of t "[]"] by simp
next
  case (5 t u m r)
  then have m: "is_token_span m" by simp
  then have "hd (m @ render_segs r) = CHR ''[''" using token_span_head by fastforce
  with 5 m show ?case by (simp add: span_find_from_plain span_find_from_token)
qed (simp_all add: span_find_from_token)

lemma slice_mid [simp]: "slice (a @ b @ c) (length a) (length a + length b) = b"
  by (simp add: slice_def)

lemma slice_mid' : "p = a @ b @ c \<Longrightarrow> i = length a \<Longrightarrow> j = i + length b \<Longrightarrow> slice p i j = b"
  by (simp add: slice_def)

lemma slice_same [simp]: "slice s i i = []"
  by (simp add: slice_def)

fun seg_strip :: "segment \<Rightarrow> segment" where
  "seg_strip (Plain t _) = Plain t 0"
| "seg_strip (Masked t) = Masked t"

lemma mask_loop_render:
  assumes "segs_wf segs" and "text = pre @ render_segs segs"
  shows "map seg_strip (mask_loop text (length pre) (seg_positions (length pre) segs)) = map seg_strip segs"
  using assms
proof (induction segs arbitrary: pre rule: segs_wf.induct)
  case (2 t r)
  then show ?case using "2.IH" [of "pre @ t"] by (simp add: slice_mid' [where b = t])
next
  case (3 t u)
  then show ?case by (simp add: slice_def)
next
  case (5 t u m r)
  then show ?case
    using "5.IH" [of "pre @ t @ m"]
    by (simp add: slice_mid' [where b = t] slice_mid' [where a = "pre @ t" and b = m] add.assoc)
qed simp_all

lemma mask_spans_render:
  assumes "segs_wf segs"
  shows "map seg_strip (mask_spans (render_segs segs)) = map seg_strip segs"
  using mask_loop_render [OF assms, of _ "[]"] span_find_render [OF assms]
  by (simp add: mask_spans_def span_find_iter_def)

lemma span_free_Nil [simp]: "span_free []"
  by (simp add: span_free_def)

lemma segs_wf_plain_cons:
  assumes "segs_wf r" and "t \<noteq> []" and "span_free t" and "\<forall>p u r'. r \<noteq> Plain p u # r'"
  shows "segs_wf (Plain t k # r)"
  using assms by (cases r rule: segs_wf.cases) auto

lemma slice_span_free:
  assumes "prev \<le> i" and "i \<le> length text"
    and "\<forall>k. prev \<le> k \<and> k < i \<longrightarrow> span_match (drop k text) = None"
  shows "span_free (slice text prev i)"
  unfolding span_free_def
proof (intro allI impI)
  fix k assume "k \<le> length (slice text prev i)"
  then have k: "prev + k \<le> i" using assms(1,2) by (simp add: slice_def)
  show "span_match (drop k (slice text prev i)) = None"
  proof (rule ccontr)
    assume "span_match (drop k (slice text prev i)) \<noteq> None"
    then obtain n where n: "span_match (drop k (slice text prev i)) = Some n" by blast
    then have ne: "drop k (slice text prev i) \<noteq> []" by (auto dest: span_match_bounds)
    have "prev + k < i"
    proof (rule ccontr)
      assume "\<not> prev + k < i"
      then have "drop k (slice text prev i) = []" using assms(2) by (simp add: slice_def)
      with ne show False by simp
    qed
    moreover have "drop (prev + k) text = drop k (slice text prev i) @ drop i text"
      using k by (simp add: slice_def) (metis append_take_drop_id drop_take add.commute
          drop_drop le_add_diff_inverse2 take_drop)
    then have "span_match (drop (prev + k) text) = Some n" using span_match_append [OF n] by simp
    ultimately show False using assms(3) by (auto dest: spec [of _ "prev + k"])
  qed
qed

lemma slice_append: "i \<le> j \<Longrightarrow> j \<le> k \<Longrightarrow> slice s i j @ slice s j k = slice s i k"
  using take_add [of "j - i" "k - j" "drop i s"] by (simp add: slice_def drop_take)

lemma slice_to_end [simp]: "slice s i (length s) = drop i s"
  by (simp add: slice_def)

lemma slice_eq_Nil: "j \<le> length s \<Longrightarrow> slice s i j = [] \<longleftrightarrow> j \<le> i"
  by (auto simp: slice_def)

lemma mask_loop_parse:
  assumes "prev \<le> i" and "i \<le> length text"
    and "\<forall>k. prev \<le> k \<and> k < i \<longrightarrow> span_match (drop k text) = None"
  shows "segs_wf (mask_loop text prev (span_find_from i (drop i text)))
    \<and> render_segs (mask_loop text prev (span_find_from i (drop i text))) = drop prev text"
  using assms
proof (induction "length text - i" arbitrary: i prev rule: less_induct)
  case less
  note free = slice_span_free [OF less.prems]
  show ?case
  proof (cases "drop i text = []")
    case True
    with less.prems have "i = length text" by simp
    with free show ?thesis by simp
  next
    case False
    show ?thesis
    proof (cases "span_match (drop i text)")
      case None
      have eq: "span_find_from i (drop i text) = span_find_from (i + 1) (drop (i + 1) text)"
        using False None by (subst span_find_from.simps) (simp add: drop_Suc tl_drop)
      have "\<forall>k. prev \<le> k \<and> k < i + 1 \<longrightarrow> span_match (drop k text) = None"
        using less.prems(3) None by (metis less_antisym Suc_eq_plus1)
      then show ?thesis
        unfolding eq using less.prems False by (intro less.hyps) auto
    next
      case (Some n)
      note n = span_match_bounds [OF Some]
      have eq: "span_find_from i (drop i text) = (i, i + n) # span_find_from (i + n) (drop (i + n) text)"
        using False Some by (subst span_find_from.simps) (simp add: add.commute)
      let ?rest = "mask_loop text (i + n) (span_find_from (i + n) (drop (i + n) text))"
      have IH: "segs_wf ?rest" "render_segs ?rest = drop (i + n) text"
        using less.hyps [of "i + n" "i + n"] n False
        by (simp_all add: le_diff_conv2 add.commute [of i] diff_less_mono2)
      have tok: "slice text i (i + n) = take n (drop i text)" by (simp add: slice_def take_drop add.commute)
      then have "is_token_span (slice text i (i + n))"
        using span_match_take [OF Some] n by (simp add: is_token_span_def)
      moreover have "slice text prev i \<noteq> []" if "prev < i"
        using that less.prems(2) by (simp add: slice_eq_Nil)
      moreover have "slice text prev i @ slice text i (i + n) @ drop (i + n) text = drop prev text"
        if "prev \<le> i" "i + n \<le> length text"
        using slice_append [of prev i "i + n" "text"] slice_append [of prev "i + n" "length text" "text"]
          that by simp (metis append_assoc)
      moreover have "i + n \<le> length text" using n less.prems(2) by (simp add: le_diff_conv2 add.commute)
      ultimately show ?thesis
        unfolding eq using IH free less.prems(1) by auto
    qed
  qed
qed

lemma mask_spans_wf: "segs_wf (mask_spans text)"
  and render_mask_spans: "render_segs (mask_spans text) = text"
  using mask_loop_parse [of 0 0 "text"] by (simp_all add: mask_spans_def span_find_iter_def)

text \<open>A parse of a text fixes its masked segments and, up to the recorded offsets, its plain ones.\<close>

section \<open>Detokenisation on parses\<close>

fun detok_segs ::
  "crypto \<Rightarrow> engine_key \<Rightarrow> (rstr \<Rightarrow> rstr) \<Rightarrow> nat \<Rightarrow> segment list \<Rightarrow> detokenize_error + rstr" where
  "detok_segs C key render index [] = Inr []"
| "detok_segs C key render index (Plain t _ # r) = res_map ((@) t) (detok_segs C key render index r)"
| "detok_segs C key render index (Masked m # r) =
     (case resolve_span C key m of
        None \<Rightarrow> Inl (VerificationFailed (failed_category m) index)
      | Some p \<Rightarrow> res_map ((@) (render p)) (detok_segs C key render (index + 1) r))"

lemma detok_loop_render:
  assumes "segs_wf segs" and "text = pre @ render_segs segs"
  shows "detok_loop C key render text (length pre) index (seg_positions (length pre) segs)
    = detok_segs C key render index segs"
  using assms
proof (induction segs arbitrary: pre index rule: segs_wf.induct)
  case (2 t r)
  then show ?case
    using "2.IH" [of "pre @ t" "index + 1"]
    by (auto simp: slice_mid' [where b = t] res_map_def fun_eq_iff split: option.splits sum.splits)
next
  case (5 t u m r)
  then show ?case
    using "5.IH" [of "pre @ t @ m" "index + 1"]
    by (auto simp: slice_mid' [where b = t] slice_mid' [where a = "pre @ t" and b = m] add.assoc
        res_map_def split: option.splits sum.splits)
qed (simp_all add: slice_def)

lemma detokenize_render:
  assumes "segs_wf segs"
  shows "detokenize_text_with C key (render_segs segs) render = detok_segs C key render 0 segs"
  using detok_loop_render [OF assms, of _ "[]"] span_find_render [OF assms]
  by (simp add: detokenize_text_with_def span_find_iter_def)

lemma detokenize_masked:
  "detokenize_text_with C key text render = detok_segs C key render 0 (mask_spans text)"
  using detokenize_render [OF mask_spans_wf, of C key "text" render] by (simp add: render_mask_spans)

fun seg_value :: "crypto \<Rightarrow> engine_key \<Rightarrow> (rstr \<Rightarrow> rstr) \<Rightarrow> segment \<Rightarrow> rstr option" where
  "seg_value C key render (Plain t _) = Some t"
| "seg_value C key render (Masked m) = map_option render (resolve_span C key m)"

fun all_some :: "'a option list \<Rightarrow> 'a list option" where
  "all_some [] = Some []"
| "all_some (None # xs) = None"
| "all_some (Some x # xs) = map_option ((#) x) (all_some xs)"

lemma all_some_append:
  "all_some (xs @ ys) =
     (case all_some xs of None \<Rightarrow> None | Some as \<Rightarrow> map_option ((@) as) (all_some ys))"
  by (induction xs rule: all_some.induct; cases "all_some ys") (auto split: option.splits)

lemma all_some_None: "all_some xs = None \<longleftrightarrow> None \<in> set xs"
  by (induction xs rule: all_some.induct) auto

definition detok_value :: "crypto \<Rightarrow> engine_key \<Rightarrow> (rstr \<Rightarrow> rstr) \<Rightarrow> segment list \<Rightarrow> rstr option" where
  "detok_value C key render segs = map_option concat (all_some (map (seg_value C key render) segs))"

lemma detok_value_simps [simp]:
  "detok_value C key render [] = Some []"
  "detok_value C key render (x # xs) =
     (case seg_value C key render x of
        None \<Rightarrow> None
      | Some p \<Rightarrow> map_option ((@) p) (detok_value C key render xs))"
  by (auto simp: detok_value_def option.map_comp comp_def split: option.splits)

lemma detok_value_append:
  "detok_value C key render (xs @ ys) =
     (case detok_value C key render xs of
        None \<Rightarrow> None
      | Some a \<Rightarrow> map_option ((@) a) (detok_value C key render ys))"
  by (auto simp: detok_value_def all_some_append option.map_comp comp_def split: option.splits)

lemma detok_segs_value:
  "(case detok_segs C key render i segs of Inl _ \<Rightarrow> None | Inr u \<Rightarrow> Some u) = detok_value C key render segs"
proof (induction segs arbitrary: i)
  case (Cons x xs)
  then show ?case
  proof (cases x)
    case (Plain t k)
    then show ?thesis
      using Cons.IH [of i] by (cases "detok_segs C key render i xs") (simp_all flip: Cons.IH [of i])
  next
    case (Masked m)
    then show ?thesis
      using Cons.IH [of "i + 1"]
      by (cases "resolve_span C key m"; cases "detok_segs C key render (i + 1) xs")
        (simp_all flip: Cons.IH [of "Suc i"])
  qed
qed simp

lemma detok_segs_Inr: "detok_segs C key render i segs = Inr u \<longleftrightarrow> detok_value C key render segs = Some u"
  using detok_segs_value [of C key render i segs] by (auto split: sum.splits)

lemma detokenize_Inr:
  "segs_wf segs \<Longrightarrow>
     detokenize_text_with C key (render_segs segs) render = Inr u \<longleftrightarrow> detok_value C key render segs = Some u"
  by (simp add: detokenize_render detok_segs_Inr)

text \<open>The failing span is the first one that does not resolve.\<close>

fun masked_of :: "segment list \<Rightarrow> rstr list" where
  "masked_of [] = []"
| "masked_of (Plain _ _ # r) = masked_of r"
| "masked_of (Masked m # r) = m # masked_of r"

lemma detok_segs_Inl:
  "detok_segs C key render i segs = Inl e \<longleftrightarrow>
     (\<exists>k < length (masked_of segs).
        resolve_span C key (masked_of segs ! k) = None
        \<and> (\<forall>j < k. resolve_span C key (masked_of segs ! j) \<noteq> None)
        \<and> e = VerificationFailed (failed_category (masked_of segs ! k)) (i + k))"
    (is "?lhs i segs \<longleftrightarrow> ?rhs i segs")
proof (induction segs arbitrary: i)
  case Nil
  then show ?case by simp
next
  case (Cons x xs)
  show ?case
  proof (cases x)
    case (Plain t k)
    then show ?thesis using Cons.IH [of i] by (cases "detok_segs C key render i xs") auto
  next
    case (Masked m)
    show ?thesis
    proof (cases "resolve_span C key m")
      case None
      then have "?rhs i (x # xs) \<longleftrightarrow> e = VerificationFailed (failed_category m) i"
        using Masked by (auto simp: nth_Cons' intro: exI [of _ 0])
      with None Masked show ?thesis by auto
    next
      case (Some p)
      have "?lhs i (x # xs) \<longleftrightarrow> ?lhs (i + 1) xs"
        using Masked Some by (cases "detok_segs C key render (Suc i) xs") auto
      also have "\<dots> \<longleftrightarrow> ?rhs (i + 1) xs" by (rule Cons.IH)
      also have "\<dots> \<longleftrightarrow> ?rhs i (x # xs)"
        using Masked Some by (simp add: Ex_less_Suc2 All_less_Suc2)
      finally show ?thesis .
    qed
  qed
qed

section \<open>The prefix scan decides the grammar\<close>

definition span_prefix :: "rstr \<Rightarrow> bool" where
  "span_prefix s \<longleftrightarrow> (\<exists>t. is_token_span (s @ t))"

lemma marker_loop_eq:
  "i \<le> length bytes \<Longrightarrow>
     marker_loop es bytes i =
       (if starts_with es (drop i bytes) then Inr (i + length es)
        else if starts_with (drop i bytes) es then Inl Viable
        else Inl Invalid)"
proof (induction es bytes i rule: marker_loop.induct)
  case (1 bytes i)
  then show ?case by (simp add: starts_with_def)
next
  case (2 e es bytes i)
  show ?case
  proof (cases "i < length bytes")
    case True
    then have "drop i bytes = bytes ! i # drop (i + 1) bytes" by (simp add: Cons_nth_drop_Suc)
    with 2 True show ?thesis by (auto simp: starts_with_def)
  next
    case False
    with 2 show ?thesis by (simp add: starts_with_def)
  qed
qed

lemma span_prefix_I:
  "is_span_of cat payload \<Longrightarrow> mk_span cat payload = s @ t \<Longrightarrow> span_prefix s"
  unfolding span_prefix_def is_token_span_iff by metis

lemma run_split:
  assumes "r @ t = xs @ y # ys" and "list_all P xs" and "\<not> P y" and "dropWhile P r \<noteq> []"
  shows "takeWhile P r = xs \<and> dropWhile P r @ t = y # ys"
proof -
  have tw: "takeWhile P (r @ t) = takeWhile P r" and dw: "dropWhile P (r @ t) = dropWhile P r @ t"
    using assms(4) by (metis dropWhile_eq_Nil_conv takeWhile_append1 dropWhile_append1)+
  show ?thesis using tw dw takeWhile_run [OF assms(2,3), of ys] by (simp add: assms(1))
qed

lemma demo_span_of:
  "is_span_of ''A'' ''a''" "list_all is_category_byte c \<Longrightarrow> c \<noteq> [] \<Longrightarrow> is_span_of c ''a''"
  by (simp_all add: is_span_of_def is_category_byte_def is_payload_byte_def ascii_class_defs)

lemma skip_category:
  assumes "list_all is_category_byte c" and "d = [] \<or> \<not> is_category_byte (hd d)"
  shows "skip_while is_category_byte (CHR ''['' # c @ d) 1 = 1 + length c"
    and "takeWhile is_category_byte (c @ d) = c" and "dropWhile is_category_byte (c @ d) = d"
proof -
  show "takeWhile is_category_byte (c @ d) = c" and "dropWhile is_category_byte (c @ d) = d"
    using assms takeWhile_run [of is_category_byte c]
    by (cases d; simp add: list_all_iff)+
  then show "skip_while is_category_byte (CHR ''['' # c @ d) 1 = 1 + length c"
    by (simp add: skip_while_eq)
qed

text \<open>What a span that extends \<open>[c x..\<close> looks like, where \<open>x\<close> ends the category.\<close>

lemma span_prefix_category:
  assumes "list_all is_category_byte c" and "\<not> is_category_byte x"
    and "span_prefix (CHR ''['' # c @ x # e)"
  obtains t payload where "x = CHR '':''" and "c \<noteq> []" and "is_span_of c payload"
    and "e @ t = TOKEN_MARKER @ payload @ '']''"
proof -
  from assms(3) obtain t cat payload where eq: "(CHR ''['' # c @ x # e) @ t = mk_span cat payload"
    and sp: "is_span_of cat payload"
    by (auto simp: span_prefix_def is_token_span_iff)
  then have "(c @ x # e) @ t = cat @ CHR '':'' # TOKEN_MARKER @ payload @ '']''"
    by (simp add: mk_span_def TOKEN_SEP_def TOKEN_MARKER_def)
  from run_split [OF this, of is_category_byte] skip_category(2,3) [OF assms(1), of "x # e"]
  have "c = cat \<and> (x # e) @ t = CHR '':'' # TOKEN_MARKER @ payload @ '']''"
    using sp assms(2) by (simp add: is_span_of_def)
  then show thesis using sp by (intro that [of payload t]) (auto simp: is_span_of_def)
qed

lemma scan_category_end:
  assumes "list_all is_category_byte c"
  shows "span_prefix_scan (CHR ''['' # c) = Viable" and "span_match (CHR ''['' # c) = None"
    and "span_prefix (CHR ''['' # c)"
proof -
  note skip = skip_category [OF assms disjI1 [OF refl], unfolded append_Nil2]
  show "span_prefix_scan (CHR ''['' # c) = Viable"
    using skip(1) by (simp add: span_prefix_scan_def Let_def)
  show "span_match (CHR ''['' # c) = None"
    by (simp add: span_match_def skip strip_prefix_def starts_with_def TOKEN_SEP_def Let_def)
  show "span_prefix (CHR ''['' # c)"
  proof (cases "c = []")
    case True
    then show ?thesis
      by (intro span_prefix_I [OF demo_span_of(1), of _ "''A:TOKEN_a]''"])
        (simp add: mk_span_def TOKEN_SEP_def)
  next
    case False
    then show ?thesis
      by (intro span_prefix_I [OF demo_span_of(2) [OF assms], of _ "'':TOKEN_a]''"])
        (simp_all add: mk_span_def TOKEN_SEP_def)
  qed
qed

lemma scan_bad_separator:
  assumes "list_all is_category_byte c" and "\<not> is_category_byte x" and "x \<noteq> CHR '':'' \<or> c = []"
  shows "span_prefix_scan (CHR ''['' # c @ x # e) = Invalid"
    and "span_match (CHR ''['' # c @ x # e) = None" and "\<not> span_prefix (CHR ''['' # c @ x # e)"
proof -
  note skip = skip_category [OF assms(1), of "x # e", simplified, OF assms(2)]
  show "span_prefix_scan (CHR ''['' # c @ x # e) = Invalid"
    using assms(3) skip by (auto simp: span_prefix_scan_def nth_append)
  show "span_match (CHR ''['' # c @ x # e) = None"
    using assms(3)
    by (auto simp: span_match_def skip strip_prefix_def starts_with_def TOKEN_SEP_def Let_def)
  show "\<not> span_prefix (CHR ''['' # c @ x # e)"
    using assms span_prefix_category by metis
qed

lemma scan_separator:
  assumes "list_all is_category_byte c" and "c \<noteq> []"
  shows "span_prefix_scan (CHR ''['' # c @ CHR '':'' # e) =
    (if starts_with TOKEN_MARKER e then
       (let s = CHR ''['' # c @ CHR '':'' # e;
            j = skip_while is_payload_byte s (8 + length c)
        in if j \<ge> length s then Viable
           else if s ! j = CHR '']'' \<and> j > 8 + length c then Complete (j + 1) else Invalid)
     else if starts_with e TOKEN_MARKER then Viable else Invalid)"
proof -
  note skip = skip_category [OF assms(1), of "CHR '':'' # e", simplified]
  have "marker_loop TOKEN_MARKER (CHR ''['' # c @ CHR '':'' # e) (Suc (Suc (length c))) =
      (if starts_with TOKEN_MARKER e then Inr (8 + length c)
       else if starts_with e TOKEN_MARKER then Inl Viable else Inl Invalid)"
    by (subst marker_loop_eq) (simp_all add: TOKEN_MARKER_def)
  then show ?thesis using assms(2) skip by (simp add: span_prefix_scan_def Let_def)
qed

lemma scan_marker:
  assumes "list_all is_category_byte c" and "c \<noteq> []" and "\<not> starts_with TOKEN_MARKER e"
  shows "span_match (CHR ''['' # c @ CHR '':'' # e) = None"
    and "span_prefix (CHR ''['' # c @ CHR '':'' # e) \<longleftrightarrow> starts_with e TOKEN_MARKER"
proof -
  note skip = skip_category [OF assms(1), of "CHR '':'' # e", simplified]
  show "span_match (CHR ''['' # c @ CHR '':'' # e) = None"
    using assms(3)
    by (simp add: span_match_def skip strip_prefix_def starts_with_def TOKEN_SEP_def TOKEN_MARKER_def
        Let_def)
  show "span_prefix (CHR ''['' # c @ CHR '':'' # e) \<longleftrightarrow> starts_with e TOKEN_MARKER"
  proof
    assume "span_prefix (CHR ''['' # c @ CHR '':'' # e)"
    then obtain t payload where "e @ t = TOKEN_MARKER @ payload @ '']''"
      by (rule span_prefix_category [OF assms(1) not_category_bytes(1)]) blast
    with assms(3) show "starts_with e TOKEN_MARKER"
      by (auto simp: starts_with_iff append_eq_append_conv2) (metis)
  next
    assume "starts_with e TOKEN_MARKER"
    then obtain t where "TOKEN_MARKER = e @ t" by (auto simp: starts_with_iff)
    then show "span_prefix (CHR ''['' # c @ CHR '':'' # e)"
      by (intro span_prefix_I [OF demo_span_of(2) [OF assms(1,2)], of _ "t @ ''a]''"])
        (simp add: mk_span_def TOKEN_SEP_def TOKEN_MARKER_def)
  qed
qed

lemma scan_payload:
  assumes "list_all is_category_byte c" and "c \<noteq> []" and "list_all is_payload_byte p"
    and "f = [] \<or> \<not> is_payload_byte (hd f)"
  shows "span_prefix_scan (CHR ''['' # c @ TOKEN_SEP @ p @ f) =
      (if f = [] then Viable
       else if hd f = CHR '']'' \<and> p \<noteq> [] then Complete (9 + length c + length p) else Invalid)"
    and "span_match (CHR ''['' # c @ TOKEN_SEP @ p @ f) =
      (if p \<noteq> [] \<and> f \<noteq> [] \<and> hd f = CHR '']'' then Some (9 + length c + length p) else None)"
proof -
  have sep: "TOKEN_SEP @ u = CHR '':'' # TOKEN_MARKER @ u" for u
    by (simp add: TOKEN_SEP_def TOKEN_MARKER_def)
  have run: "takeWhile is_payload_byte (p @ f) = p" "dropWhile is_payload_byte (p @ f) = f"
    using assms(3,4) takeWhile_run [of is_payload_byte p] by (cases f; simp add: list_all_iff)+
  moreover have "drop (8 + length c) (CHR ''['' # c @ TOKEN_SEP @ p @ f) = p @ f"
    using drop_append [of "8 + length c" "CHR ''['' # c @ TOKEN_SEP" "p @ f"]
    by (simp add: TOKEN_SEP_def)
  ultimately have "skip_while is_payload_byte (CHR ''['' # c @ TOKEN_SEP @ p @ f) (8 + length c)
      = 8 + length c + length p"
    by (subst skip_while_eq) (simp_all add: TOKEN_SEP_def)
  note skip = this [unfolded sep]
  have nth: "(CHR ''['' # c @ CHR '':'' # TOKEN_MARKER @ p @ f) ! (8 + length c + length p) = hd f"
    if "f \<noteq> []"
    using that by (cases f) (simp_all add: nth_append TOKEN_MARKER_def)
  show "span_prefix_scan (CHR ''['' # c @ TOKEN_SEP @ p @ f) =
      (if f = [] then Viable
       else if hd f = CHR '']'' \<and> p \<noteq> [] then Complete (9 + length c + length p) else Invalid)"
    unfolding sep scan_separator [OF assms(1,2)] skip Let_def using nth
    by (cases "f = []") (auto simp: starts_with_def TOKEN_MARKER_def)
  show "span_match (CHR ''['' # c @ TOKEN_SEP @ p @ f) =
      (if p \<noteq> [] \<and> f \<noteq> [] \<and> hd f = CHR '']'' then Some (9 + length c + length p) else None)"
  proof -
    have d: "TOKEN_SEP @ p @ f = [] \<or> \<not> is_category_byte (hd (TOKEN_SEP @ p @ f))"
      by (simp add: TOKEN_SEP_def)
    have strip: "strip_prefix TOKEN_SEP (TOKEN_SEP @ u) = Some u" for u
      by (simp add: strip_prefix_eq_Some)
    show ?thesis
      using assms(2) unfolding span_match_def list.case Let_def skip_category(2,3) [OF assms(1) d]
        strip option.case run
      by (cases f) (simp_all add: TOKEN_SEP_def)
  qed
qed

lemma payload_prefix:
  assumes "list_all is_category_byte c" and "c \<noteq> []" and "list_all is_payload_byte p"
    and "f = [] \<or> \<not> is_payload_byte (hd f)" and "f \<noteq> [] \<Longrightarrow> hd f = CHR '']'' \<Longrightarrow> p = []"
  shows "span_prefix (CHR ''['' # c @ TOKEN_SEP @ p @ f) \<longleftrightarrow> f = []"
proof
  assume pre: "span_prefix (CHR ''['' # c @ TOKEN_SEP @ p @ f)"
  have "CHR ''['' # c @ TOKEN_SEP @ p @ f = CHR ''['' # c @ CHR '':'' # TOKEN_MARKER @ p @ f"
    by (simp add: TOKEN_SEP_def TOKEN_MARKER_def)
  with pre have "span_prefix (CHR ''['' # c @ CHR '':'' # TOKEN_MARKER @ p @ f)" by simp
  then obtain t payload where sp: "is_span_of c payload"
    and "(TOKEN_MARKER @ p @ f) @ t = TOKEN_MARKER @ payload @ '']''"
    by (rule span_prefix_category [OF assms(1) not_category_bytes(1)]) blast
  then have eq: "(p @ f) @ t = payload @ CHR '']'' # []" by simp
  have run: "takeWhile is_payload_byte (p @ f) = p" "dropWhile is_payload_byte (p @ f) = f"
    using assms(3,4) takeWhile_run [of is_payload_byte p] by (cases f; simp add: list_all_iff)+
  show "f = []"
  proof (rule ccontr)
    assume f: "f \<noteq> []"
    then have "dropWhile is_payload_byte (p @ f) \<noteq> []" by (simp only: run not_False_eq_True)
    from run_split [OF eq _ not_payload_bytes(1) this] sp
    have "p = payload" and "f @ t = '']''" unfolding run is_span_of_def by blast+
    with f sp assms(5) show False by (cases f) (auto simp: is_span_of_def)
  qed
next
  assume "f = []"
  have "is_span_of c (if p = [] then ''a'' else p)"
    using assms(1-3) by (simp add: is_span_of_def is_payload_byte_def ascii_class_defs)
  then show "span_prefix (CHR ''['' # c @ TOKEN_SEP @ p @ f)"
    by (rule span_prefix_I [where t = "if p = [] then ''a]'' else '']''"])
      (simp add: mk_span_def \<open>f = []\<close>)
qed

lemma span_prefix_scan_eq:
  "span_prefix_scan (CHR ''['' # r) =
     (case span_match (CHR ''['' # r) of
        Some n \<Rightarrow> Complete n
      | None \<Rightarrow> (if span_prefix (CHR ''['' # r) then Viable else Invalid))"
proof -
  let ?P = is_category_byte and ?Q = is_payload_byte
  define c d where "c = takeWhile ?P r" and "d = dropWhile ?P r"
  have r: "r = c @ d" by (simp add: c_def d_def)
  have c: "list_all ?P c" unfolding c_def by (rule takeWhile_all)
  have d: "d = [] \<or> \<not> ?P (hd d)" unfolding d_def by (rule dropWhile_stops)
  consider "d = []" | x e where "d = x # e" "x \<noteq> CHR '':'' \<or> c = []"
    | e where "d = CHR '':'' # e" "c \<noteq> []" "\<not> starts_with TOKEN_MARKER e"
    | q where "d = TOKEN_SEP @ q" "c \<noteq> []"
    by (cases d) (auto simp: starts_with_iff TOKEN_SEP_def TOKEN_MARKER_def)
  then show ?thesis
  proof cases
    case 1
    then show ?thesis using scan_category_end [OF c] r by simp
  next
    case (2 x e)
    then show ?thesis using scan_bad_separator [OF c, of x e] r d by simp
  next
    case (3 e)
    then show ?thesis
      using scan_marker [OF c, of e] scan_separator [OF c, of e] r by simp
  next
    case (4 q)
    have q: "q = takeWhile ?Q q @ dropWhile ?Q q" by simp
    have qs: "list_all ?Q (takeWhile ?Q q)" "dropWhile ?Q q = [] \<or> \<not> ?Q (hd (dropWhile ?Q q))"
      by (rule takeWhile_all dropWhile_stops)+
    have "CHR ''['' # r = CHR ''['' # c @ TOKEN_SEP @ takeWhile ?Q q @ dropWhile ?Q q"
      using r 4 by simp
    then show ?thesis
      using scan_payload [OF c 4(2) qs] payload_prefix [OF c 4(2) qs] by auto
  qed
qed

section \<open>Cutting a stream at the incomplete span\<close>

lemma span_match_append_cases:
  assumes "span_match (s @ x) = Some n"
  shows "span_match s = Some n \<or> span_prefix s"
proof -
  obtain cat payload t where eq: "s @ x = mk_span cat payload @ t" and sp: "is_span_of cat payload"
    and n: "n = length (mk_span cat payload)"
    using span_match_Some [OF assms] .
  then consider u where "s = mk_span cat payload @ u" | u where "mk_span cat payload = s @ u"
    by (metis append_eq_append_conv2)
  then show ?thesis
  proof cases
    case 1
    then show ?thesis using span_match_mk_span [OF sp] n by simp
  next
    case 2
    then show ?thesis using span_prefix_I [OF sp] by blast
  qed
qed

lemma span_find_step_None:
  "span_match (c # r) = None \<Longrightarrow> span_find_from i (c # r) = span_find_from (i + 1) r"
  by (simp add: span_find_from.simps [of i "c # r"])

lemma span_find_step_Some:
  "span_match s = Some n \<Longrightarrow> span_find_from i s = (i, i + n) # span_find_from (i + n) (drop n s)"
  by (subst span_find_from.simps) auto

lemma span_match_no_bracket: "c \<noteq> CHR ''['' \<Longrightarrow> span_match (c # r) = None"
  by (auto simp: span_match_def)

text \<open>The same search without offsets, as a recursion over the suffix.\<close>

function cut_point :: "rstr \<Rightarrow> nat option" where
  "cut_point s =
     (case s of
        [] \<Rightarrow> None
      | c # r \<Rightarrow>
          (if c \<noteq> CHR ''['' then map_option Suc (cut_point r)
           else case span_prefix_scan s of
               Viable \<Rightarrow> Some 0
             | Complete n \<Rightarrow> map_option (\<lambda>k. k + n) (cut_point (drop n s))
             | Invalid \<Rightarrow> map_option Suc (cut_point r)))"
  by pat_completeness auto
termination
  by (relation "measure length") (auto dest!: span_prefix_scan_complete_bounds)

declare cut_point.simps [simp del]

lemma cut_point_position:
  "cut_point s =
     (case position (\<lambda>b. b = CHR ''['') s of
        None \<Rightarrow> None
      | Some rel \<Rightarrow> map_option (\<lambda>k. k + rel) (cut_point (drop rel s)))"
proof (induction s)
  case Nil
  then show ?case by (simp add: cut_point.simps)
next
  case (Cons c r)
  show ?case
  proof (cases "c = CHR ''[''")
    case True
    then show ?thesis by (simp add: option.map_ident)
  next
    case False
    then have "cut_point (c # r) = map_option Suc (cut_point r)" by (simp add: cut_point.simps)
    with False Cons.IH show ?thesis
      by (cases "position (\<lambda>b. b = CHR ''['') r")
        (auto simp: option.map_comp comp_def intro: option.map_cong0)
  qed
qed

lemma incomplete_from_cut_point:
  "pos \<le> length s \<Longrightarrow> incomplete_from s pos = map_option (\<lambda>k. k + pos) (cut_point (drop pos s))"
proof (induction s pos rule: incomplete_from.induct)
  case (1 s pos)
  note unfold = incomplete_from.simps [of s pos] cut_point_position [of "drop pos s"]
  show ?case
  proof (cases "position (\<lambda>b. b = CHR ''['') (drop pos s)")
    case None
    with "1.prems" show ?thesis by (simp add: unfold)
  next
    case (Some rel)
    have rel: "pos + rel < length s" "s ! (pos + rel) = CHR ''[''"
      using position_Some [OF Some] "1.prems" by auto
    let ?d = "drop (pos + rel) s"
    have d: "?d = CHR ''['' # drop (pos + rel + 1) s"
      using rel by (metis Cons_nth_drop_Suc Suc_eq_plus1)
    have cut: "cut_point ?d =
        (case span_prefix_scan ?d of
           Viable \<Rightarrow> Some 0
         | Complete n \<Rightarrow> map_option (\<lambda>k. k + n) (cut_point (drop n ?d))
         | Invalid \<Rightarrow> map_option Suc (cut_point (drop (pos + rel + 1) s)))"
      by (subst cut_point.simps) (simp add: d cong: prefix_scan.case_cong)
    have "incomplete_from s pos =
        (case span_prefix_scan ?d of
           Viable \<Rightarrow> Some (pos + rel)
         | Complete n \<Rightarrow> incomplete_from s (pos + rel + n)
         | Invalid \<Rightarrow> incomplete_from s (pos + rel + 1))"
      using "1.prems" Some by (simp add: unfold(1) Let_def)
    also have "\<dots> = map_option (\<lambda>k. k + (pos + rel)) (cut_point ?d)"
    proof (cases "span_prefix_scan ?d")
      case Viable
      then show ?thesis by (simp add: cut)
    next
      case (Complete n)
      then have "span_match ?d = Some n"
        by (auto simp: d span_prefix_scan_eq split: option.splits if_splits)
      then have n: "pos + rel + n \<le> length s"
        using span_match_bounds [of ?d n] rel unfolding length_drop by linarith
      have "incomplete_from s (pos + rel + n) = map_option (\<lambda>k. k + (pos + rel + n)) (cut_point (drop n ?d))"
      proof -
        have "drop n ?d = drop (pos + rel + n) s" by (simp add: add.commute)
        with "1.IH"(1) [of rel "pos + rel" n] "1.prems" Some Complete n show ?thesis
          by (simp del: drop_drop)
      qed
      moreover have "cut_point ?d = map_option (\<lambda>k. k + n) (cut_point (drop n ?d))"
        by (simp only: cut Complete prefix_scan.case)
      ultimately show ?thesis
        using Complete by (simp add: option.map_comp comp_def ac_simps)
    next
      case Invalid
      have "incomplete_from s (pos + rel + 1) = map_option (\<lambda>k. k + (pos + rel + 1)) (cut_point (drop (pos + rel + 1) s))"
        using "1.IH"(2) [of rel "pos + rel"] "1.prems" Some Invalid rel by simp
      moreover have "cut_point ?d = map_option Suc (cut_point (drop (pos + rel + 1) s))"
        by (simp only: cut Invalid prefix_scan.case)
      ultimately show ?thesis using Invalid by (simp add: option.map_comp comp_def)
    qed
    also have "\<dots> = map_option (\<lambda>k. k + pos) (cut_point (drop pos s))"
      using Some by (simp add: unfold(2) option.map_comp comp_def ac_simps)
    finally show ?thesis .
  qed
qed

definition stable_len :: "rstr \<Rightarrow> nat" where
  "stable_len s = (case incomplete_token_span_start s of Some k \<Rightarrow> k | None \<Rightarrow> length s)"

lemma stable_len_cut: "stable_len s = (case cut_point s of Some k \<Rightarrow> k | None \<Rightarrow> length s)"
  by (auto simp: stable_len_def incomplete_token_span_start_def incomplete_from_cut_point
      option.map_ident split: option.splits)

lemma stable_len_simps:
  "stable_len [] = 0"
  "c \<noteq> CHR ''['' \<Longrightarrow> stable_len (c # r) = Suc (stable_len r)"
  "span_match s = Some n \<Longrightarrow> stable_len s = n + stable_len (drop n s)"
  "span_match (CHR ''['' # r) = None \<Longrightarrow> span_prefix (CHR ''['' # r) \<Longrightarrow> stable_len (CHR ''['' # r) = 0"
  "span_match (CHR ''['' # r) = None \<Longrightarrow> \<not> span_prefix (CHR ''['' # r) \<Longrightarrow>
     stable_len (CHR ''['' # r) = Suc (stable_len r)"
proof -
  show "stable_len [] = 0" by (simp add: stable_len_cut cut_point.simps)
  show "stable_len (c # r) = Suc (stable_len r)" if "c \<noteq> CHR ''[''"
    using that by (auto simp: stable_len_cut cut_point.simps [of "c # r"] split: option.splits)
  show "stable_len s = n + stable_len (drop n s)" if m: "span_match s = Some n"
  proof -
    obtain r where r: "s = CHR ''['' # r" using span_match_head [OF m] by blast
    then have "cut_point s = map_option (\<lambda>k. k + n) (cut_point (drop n s))"
      using m by (simp add: cut_point.simps [of "CHR ''['' # r"] span_prefix_scan_eq)
    then show ?thesis
      using span_match_bounds [OF m] by (auto simp: stable_len_cut split: option.splits)
  qed
  assume n: "span_match (CHR ''['' # r) = None"
  show "stable_len (CHR ''['' # r) = 0" if "span_prefix (CHR ''['' # r)"
    using n that by (simp add: stable_len_cut cut_point.simps [of "_ # r"] span_prefix_scan_eq)
  show "stable_len (CHR ''['' # r) = Suc (stable_len r)" if "\<not> span_prefix (CHR ''['' # r)"
    using n that
    by (auto simp: stable_len_cut cut_point.simps [of "_ # r"] span_prefix_scan_eq split: option.splits)
qed

lemma stable_len_induct [case_names Nil other token viable invalid]:
  assumes "P []"
    and "\<And>c r. c \<noteq> CHR ''['' \<Longrightarrow> P r \<Longrightarrow> P (c # r)"
    and "\<And>s n. span_match s = Some n \<Longrightarrow> P (drop n s) \<Longrightarrow> P s"
    and "\<And>r. span_match (CHR ''['' # r) = None \<Longrightarrow> span_prefix (CHR ''['' # r) \<Longrightarrow> P (CHR ''['' # r)"
    and "\<And>r. span_match (CHR ''['' # r) = None \<Longrightarrow> \<not> span_prefix (CHR ''['' # r) \<Longrightarrow> P r \<Longrightarrow> P (CHR ''['' # r)"
  shows "P s"
proof (induction s rule: length_induct)
  case (1 s)
  show ?case
  proof (cases "span_match s")
    case (Some n)
    then have "length (drop n s) < length s"
      using span_match_bounds [OF Some] unfolding length_drop by linarith
    with 1 assms(3) [OF Some] show ?thesis by blast
  next
    case None
    show ?thesis
    proof (cases s)
      case Nil
      with assms(1) show ?thesis by simp
    next
      case (Cons c r)
      with 1 have "P r" by simp
      with Cons None assms(2,4,5) show ?thesis by (cases "c = CHR ''[''") blast+
    qed
  qed
qed

lemma stable_len_le: "stable_len s \<le> length s"
proof (induction s rule: stable_len_induct)
  case (token s n)
  then show ?case
    using span_match_bounds [OF token(1)] unfolding stable_len_simps(3) [OF token(1)] length_drop
    by linarith
qed (simp_all add: stable_len_simps)

lemma stable_cut:
  "span_find_from i (s @ x) =
     span_find_from i (take (stable_len s) s)
     @ span_find_from (i + stable_len s) (drop (stable_len s) s @ x)"
proof (induction s arbitrary: i rule: stable_len_induct)
  case Nil
  then show ?case by (simp add: stable_len_simps)
next
  case (other c r)
  then show ?case by (simp add: stable_len_simps span_find_step_None span_match_no_bracket)
next
  case (token s n)
  let ?k = "stable_len (drop n s)"
  note n = span_match_bounds [OF token(1)]
  have "take (n + ?k) s = take n s @ take ?k (drop n s)" by (rule take_add)
  then have "span_match (take (n + ?k) s) = Some n"
    using span_match_append [OF span_match_take [OF token(1)]] by simp
  moreover have "drop n (take (n + ?k) s) = take ?k (drop n s)" by (simp add: drop_take)
  ultimately have "span_find_from i (take (n + ?k) s) = (i, i + n) # span_find_from (i + n) (take ?k (drop n s))"
    by (simp add: span_find_step_Some)
  moreover have "span_find_from i (s @ x) = (i, i + n) # span_find_from (i + n) (drop n s @ x)"
    using span_find_step_Some [OF span_match_append [OF token(1), of x]] n by simp
  ultimately show ?case
    using token(2) [of "i + n"] by (simp add: stable_len_simps(3) [OF token(1)] add.assoc add.commute)
next
  case (viable r)
  then show ?case by (simp add: stable_len_simps)
next
  case (invalid r)
  let ?k = "stable_len r"
  have "span_match ((CHR ''['' # r) @ x) = None"
    using span_match_append_cases [of "CHR ''['' # r" x] invalid(1,2) by (metis not_None_eq)
  moreover have "span_match (CHR ''['' # take ?k r) = None"
  proof (rule ccontr)
    assume "span_match (CHR ''['' # take ?k r) \<noteq> None"
    then obtain m where "span_match (CHR ''['' # take ?k r) = Some m" by blast
    from span_match_append [OF this, of "drop ?k r"] invalid(1) show False by simp
  qed
  ultimately show ?case
    using invalid by (simp add: stable_len_simps span_find_step_None)
qed

lemma span_find_from_shift:
  "span_find_from (i + d) s = map (\<lambda>(a, b). (a + d, b + d)) (span_find_from i s)"
proof (induction i s rule: span_find_from.induct)
  case (1 i s)
  show ?case
  proof (cases "span_match s")
    case None
    with "1.IH"(1) show ?thesis by (cases s) (simp_all add: span_find_step_None)
  next
    case (Some n)
    then have "s \<noteq> []" by auto
    with Some "1.IH"(2) show ?thesis by (simp add: span_find_step_Some ac_simps)
  qed
qed

lemma span_find_from_bounds:
  "(a, b) \<in> set (span_find_from i s) \<Longrightarrow> i \<le> a \<and> a < b \<and> b \<le> i + length s"
proof (induction i s rule: span_find_from.induct)
  case (1 i s)
  show ?case
  proof (cases "s = []")
    case False
    then have "length (tl s) < length s" by simp
    with 1 False span_match_bounds [of s] show ?thesis
      by (cases "span_match s") (fastforce simp: span_find_from.simps [of i s])+
  qed (use 1 in simp)
qed

text \<open>Detokenising a text whose matches split at a border is detokenising the two sides.\<close>

definition shift_spans :: "nat \<Rightarrow> (nat \<times> nat) list \<Rightarrow> (nat \<times> nat) list" where
  "shift_spans d ms = map (\<lambda>(a, b). (a + d, b + d)) ms"

definition spans_in :: "nat \<Rightarrow> (nat \<times> nat) list \<Rightarrow> bool" where
  "spans_in n ms \<longleftrightarrow> (\<forall>(a, b) \<in> set ms. a \<le> b \<and> b \<le> n)"

lemma slice_shift: "slice (a @ b) (i + length a) (j + length a) = slice b i j"
  by (simp add: slice_def)

lemma slice_left: "j \<le> length a \<Longrightarrow> slice (a @ b) i j = slice a i j"
  by (simp add: slice_def)

lemma slice_whole [simp]:
  "slice (a @ b) i (length a + length b) = drop i a @ drop (i - length a) b"
  by (simp add: slice_def)

lemma slice_border:
  "prev \<le> length a \<Longrightarrow> slice (a @ b) prev (j + length a) = drop prev a @ slice b 0 j"
  by (simp add: slice_def)

lemma detok_loop_right:
  "detok_loop C key render (a @ b) (prev + length a) index (shift_spans (length a) ms)
     = detok_loop C key render b prev index ms"
  by (induction ms arbitrary: prev index)
    (auto simp: shift_spans_def slice_shift split: option.splits)

lemma detok_loop_border:
  "prev \<le> length a \<Longrightarrow>
     detok_loop C key render (a @ b) prev index (shift_spans (length a) ms)
     = res_map ((@) (drop prev a)) (detok_loop C key render b 0 index ms)"
proof (cases ms)
  case Nil
  then show "prev \<le> length a \<Longrightarrow> ?thesis" by (simp add: shift_spans_def)
next
  case (Cons m ms')
  obtain i j where m: "m = (i, j)" by (cases m)
  assume "prev \<le> length a"
  then show ?thesis
    using detok_loop_right [of C key render a b j "index + 1" ms'] Cons m
    by (auto simp: shift_spans_def slice_shift slice_border res_map_def
        split: option.splits sum.splits)
qed

lemma detok_loop_split:
  assumes "spans_in (length a) ms" and "prev \<le> length a"
  shows "detok_loop C key render (a @ b) prev index (ms @ shift_spans (length a) ns) =
    (case detok_loop C key render a prev index ms of
       Inl e \<Rightarrow> Inl e
     | Inr u \<Rightarrow> res_map ((@) u) (detok_loop C key render b 0 (index + length ms) ns))"
  using assms
proof (induction ms arbitrary: prev index)
  case Nil
  then show ?case by (simp add: detok_loop_border)
next
  case (Cons m ms)
  obtain i j where m: "m = (i, j)" by (cases m)
  from Cons have "i \<le> length a" and "j \<le> length a" and "spans_in (length a) ms"
    by (auto simp: spans_in_def m)
  with Cons.IH [of j "index + 1"] show ?case
    by (auto simp: m slice_left res_map_def split: option.splits sum.splits)
qed

lemma lossy_loop_right:
  "lossy_loop C key (a @ b) (prev + length a) (shift_spans (length a) ms) = lossy_loop C key b prev ms"
  by (induction ms arbitrary: prev) (auto simp: shift_spans_def slice_shift split: option.splits)

lemma lossy_loop_split:
  assumes "spans_in (length a) ms" and "prev \<le> length a"
  shows "lossy_loop C key (a @ b) prev (ms @ shift_spans (length a) ns)
    = lossy_loop C key a prev ms @ lossy_loop C key b 0 ns"
  using assms
proof (induction ms arbitrary: prev)
  case Nil
  show ?case
  proof (cases ns)
    case Nil
    with \<open>prev \<le> length a\<close> show ?thesis by (simp add: shift_spans_def)
  next
    case (Cons n ns')
    with \<open>prev \<le> length a\<close> show ?thesis
      using lossy_loop_right [of C key a b "snd n" ns']
      by (cases n) (auto simp: shift_spans_def slice_shift slice_border split: option.splits)
  qed
next
  case (Cons m ms)
  obtain i j where m: "m = (i, j)" by (cases m)
  from Cons have "i \<le> length a" and "j \<le> length a" and "spans_in (length a) ms"
    by (auto simp: spans_in_def m)
  with Cons.IH [of j] show ?case by (auto simp: m slice_left split: option.splits)
qed

lemma span_find_iter_in: "spans_in (length s) (span_find_iter s)"
  by (auto simp: spans_in_def span_find_iter_def dest: span_find_from_bounds)

lemma stable_find_iter:
  "span_find_iter (s @ x) = span_find_iter (take (stable_len s) s)
     @ shift_spans (length (take (stable_len s) s)) (span_find_iter (drop (stable_len s) s @ x))"
  using stable_cut [of 0 s x] stable_len_le [of s]
    span_find_from_shift [of 0 "stable_len s" "drop (stable_len s) s @ x"]
  by (simp add: span_find_iter_def shift_spans_def)

lemma detok_loop_index:
  "detok_loop C key render t prev i ms = Inr u \<Longrightarrow> detok_loop C key render t prev j ms = Inr u"
proof (induction ms arbitrary: prev i j u)
  case (Cons m ms)
  obtain a b where m: "m = (a, b)" by (cases m)
  from Cons.prems obtain p r where p: "resolve_span C key (slice t a b) = Some p"
    and r: "detok_loop C key render t b (i + 1) ms = Inr r" and u: "u = slice t prev a @ render p @ r"
    by (auto simp: m res_map_def split: option.splits sum.splits)
  from Cons.IH [OF r, of "j + 1"] p u show ?case by (simp add: m)
qed simp

text \<open>The two sides of the text at the stable length, as a pair of detokenisation problems.\<close>

lemma stable_sides:
  obtains p q where "p = take (stable_len s) s" and "q = drop (stable_len s) s @ x" and "s @ x = p @ q"
    and "span_find_iter (s @ x) = span_find_iter p @ shift_spans (length p) (span_find_iter q)"
  using stable_find_iter [of s x] by simp

lemma detokenize_stable_cut:
  "detokenize_text_with C key (s @ x) render = Inr u \<longleftrightarrow>
     (\<exists>a b. detokenize_text_with C key (take (stable_len s) s) render = Inr a
        \<and> detokenize_text_with C key (drop (stable_len s) s @ x) render = Inr b \<and> u = a @ b)"
proof -
  obtain p q where pq: "p = take (stable_len s) s" "q = drop (stable_len s) s @ x" "s @ x = p @ q"
    and ms: "span_find_iter (s @ x) = span_find_iter p @ shift_spans (length p) (span_find_iter q)"
    by (rule stable_sides)
  have "detok_loop C key render (s @ x) 0 0 (span_find_iter (s @ x)) =
      (case detok_loop C key render p 0 0 (span_find_iter p) of
         Inl e \<Rightarrow> Inl e
       | Inr a \<Rightarrow> res_map ((@) a)
           (detok_loop C key render q 0 (length (span_find_iter p)) (span_find_iter q)))"
    unfolding ms unfolding pq(3)
    using detok_loop_split [OF span_find_iter_in, of 0 p C key render q 0 "span_find_iter q"]
    by (simp cong: sum.case_cong)
  then show ?thesis
    unfolding detokenize_text_with_def pq(1) [symmetric] pq(2) [symmetric]
    by (auto simp: res_simps dest: detok_loop_index split: sum.splits)
qed

lemma lossy_stable_cut:
  "detokenize_text_lossy C key (s @ x) =
     detokenize_text_lossy C key (take (stable_len s) s)
     @ detokenize_text_lossy C key (drop (stable_len s) s @ x)"
proof -
  obtain p q where pq: "p = take (stable_len s) s" "q = drop (stable_len s) s @ x" "s @ x = p @ q"
    and ms: "span_find_iter (s @ x) = span_find_iter p @ shift_spans (length p) (span_find_iter q)"
    by (rule stable_sides)
  show ?thesis
    unfolding detokenize_text_lossy_def pq(1) [symmetric] pq(2) [symmetric] ms unfolding pq(3)
    using lossy_loop_split [OF span_find_iter_in, of 0 p C key q "span_find_iter q"] by simp
qed

section \<open>The token codec\<close>

lemma find_str_first:
  assumes "d \<notin> set a"
  shows "find_str (d # p) (a @ d # p @ r) = Some (length a)"
  using assms by (induction a) (auto simp: starts_with_def)

lemma split_once_first:
  "d \<notin> set a \<Longrightarrow> split_once (d # p) (a @ d # p @ r) = Some (a, r)"
  by (simp add: split_once_def find_str_first)

lemma parse_mk_span:
  assumes "is_span_of cat payload"
  shows "parse_token_span (mk_span cat payload) = Some (cat, payload)"
proof -
  have "CHR '':'' \<notin> set cat" using assms by (auto simp: is_span_of_def list_all_iff)
  then have "split_once '':TOKEN_'' (cat @ TOKEN_SEP @ payload) = Some (cat, payload)"
    using split_once_first [of "CHR '':''" cat "''TOKEN_''" payload] by (simp add: TOKEN_SEP_def)
  moreover have "strip_prefix ''['' (mk_span cat payload) = Some (cat @ TOKEN_SEP @ payload @ '']'')"
    by (simp add: strip_prefix_eq_Some mk_span_def)
  moreover have "strip_suffix '']'' (cat @ TOKEN_SEP @ payload @ '']'') = Some (cat @ TOKEN_SEP @ payload)"
    by (simp add: strip_suffix_eq_Some)
  ultimately show ?thesis by (simp add: parse_token_span_def)
qed

text \<open>
  What the scanner needs of a codec: under a good key, a built token is one token span and
  resolves to the value it was built from.
\<close>

locale token_codec =
  fixes good :: "'k \<Rightarrow> bool"
    and build :: "'k \<Rightarrow> rstr \<Rightarrow> rstr \<Rightarrow> scan_error + rstr"
    and resolve :: "'k \<Rightarrow> rstr \<Rightarrow> rstr option"
  assumes build_span: "good k \<Longrightarrow> is_valid_rule_id c \<Longrightarrow> build k c v = Inr tok \<Longrightarrow> is_token_span tok"
    and resolve_build: "good k \<Longrightarrow> is_valid_rule_id c \<Longrightarrow> is_utf8 v \<Longrightarrow> build k c v = Inr tok \<Longrightarrow>
      resolve k tok = Some v"
begin

lemma build_inj:
  assumes "good k" and "is_valid_rule_id c" and "is_utf8 v" and "is_utf8 w"
    and "build k c v = Inr tok" and "build k c w = Inr tok"
  shows "v = w"
  using resolve_build [OF assms(1,2,3,5)] resolve_build [OF assms(1,2,4,6)] by simp

end

lemma valid_id_category: "is_valid_rule_id c \<Longrightarrow> c \<noteq> [] \<and> list_all is_category_byte c"
  by (auto simp: is_valid_rule_id_def is_category_byte_def split: list.splits)

lemma build_token_span:
  assumes "crypto_ok C" and "is_valid_rule_id c" and "build_token C key c v = Inr tok"
  shows "\<exists>ct. seal C key c v = Inr ct \<and> tok = mk_span c (encode_payload C ct)
    \<and> is_span_of c (encode_payload C ct)"
proof -
  from assms(3) obtain ct where ct: "seal C key c v = Inr ct"
    and tok: "tok = mk_span c (encode_payload C ct)"
    by (auto simp: build_token_def mk_span_def TOKEN_SEP_def split: sum.splits)
  then show ?thesis
    using crypto_ok_open [OF assms(1) ct] crypto_ok_payload [OF assms(1)] valid_id_category [OF assms(2)]
    by (auto simp: is_span_of_def)
qed

interpretation codec: token_codec "\<lambda>(C, key). crypto_ok C"
  "\<lambda>(C, key). build_token C key" "\<lambda>(C, key). resolve_span C key"
proof (unfold_locales, goal_cases)
  case (1 k c v tok)
  then show ?case by (cases k) (auto simp: is_token_span_iff dest!: build_token_span)
next
  case (2 k c v tok)
  obtain C key where k: "k = (C, key)" by (cases k)
  from 2 k have ok: "crypto_ok C" by simp
  from 2 k obtain ct where ct: "seal C key c v = Inr ct" "tok = mk_span c (encode_payload C ct)"
    "is_span_of c (encode_payload C ct)"
    using build_token_span [OF ok, of c key v tok] by auto
  with 2 k show ?case
    using crypto_ok_open [OF ok ct(1)] crypto_ok_payload(1) [OF ok, of ct]
    by (simp add: resolve_span_def parse_mk_span from_utf8_def)
qed

section \<open>Properties\<close>

text \<open>C38. The incremental scan of a text that starts with an opening bracket decides the token
  grammar: it answers with the length of the span when the text starts with one, that more
  input is needed exactly when some continuation completes a span, and otherwise that none can.\<close>

theorem span_prefix_scan_decides:
  "span_prefix_scan (CHR ''['' # r) =
     (case span_match (CHR ''['' # r) of
        Some n \<Rightarrow> Complete n
      | None \<Rightarrow> (if \<exists>t. is_token_span (CHR ''['' # r @ t) then Viable else Invalid))"
  by (simp add: span_prefix_scan_eq span_prefix_def cong: option.case_cong)

text \<open>Cutting a stream is transparent: whatever arrives later, detokenising the text up to the
  earliest incomplete span, and then the rest with the new input, succeeds exactly when
  detokenising the whole text does, with the same result.\<close>

theorem detokenize_text_stable_cut:
  "detokenize_text C key (s @ x) = Inr u \<longleftrightarrow>
     (\<exists>a b. detokenize_text C key (take (stable_len s) s) = Inr a
        \<and> detokenize_text C key (drop (stable_len s) s @ x) = Inr b \<and> u = a @ b)"
  unfolding detokenize_text_def by (rule detokenize_stable_cut)

text \<open>C28. Detokenisation fails closed: it fails exactly when some token span of the text does not
  verify, and then reports the first such span, its category and its index.\<close>

theorem detokenize_text_error:
  "detokenize_text C key s = Inl e \<longleftrightarrow>
     (\<exists>k < length (span_find_iter s).
        let span = (\<lambda>j. case span_find_iter s ! j of (a, b) \<Rightarrow> slice s a b) in
        resolve_span C key (span k) = None \<and> (\<forall>j < k. resolve_span C key (span j) \<noteq> None)
        \<and> e = VerificationFailed (failed_category (span k)) k)"
proof -
  have masked: "masked_of (mask_loop s prev ms) = map (\<lambda>(a, b). slice s a b) ms" for prev ms
    by (induction ms arbitrary: prev) auto
  show ?thesis
    unfolding detokenize_text_def detokenize_masked detok_segs_Inl mask_spans_def masked
    by (auto simp: Let_def split_beta)
qed

definition demo_key :: engine_key where
  "demo_key = ''k''"

definition demo_bad_text :: rstr where
  "demo_bad_text = ''hi [EMAIL:TOKEN_ff] x''"

lemma demo_bad_detokenize:
  "detokenize_text demo_crypto demo_key demo_bad_text = Inl (VerificationFailed ''EMAIL'' 0)"
  by code_simp

lemma detokenize_text_error_witness:
  "(\<exists>k < length (span_find_iter demo_bad_text).
        let span = (\<lambda>j. case span_find_iter demo_bad_text ! j of (a, b) \<Rightarrow> slice demo_bad_text a b) in
        resolve_span demo_crypto demo_key (span k) = None
        \<and> (\<forall>j < k. resolve_span demo_crypto demo_key (span j) \<noteq> None)
        \<and> VerificationFailed ''EMAIL'' 0 = VerificationFailed (failed_category (span k)) k)"
  by (rule detokenize_text_error [THEN iffD1, OF demo_bad_detokenize])

end
