(* ===== verification/Scan.thy ===== *)
theory Scan
  imports Token_Span
begin

text \<open>
  The scanner of \<open>crates/pii-engine/src/scan.rs\<close>: rule hits and external spans sealed
  into tokens over the segments of one text. Counts are 32-bit words. The lemmas show that
  sealing only ever replaces slices of the original text by tokens that resolve to them.
\<close>

section \<open>Outcomes\<close>

datatype detection_action = Tokenized | Passed

record detection =
  det_category :: rstr
  det_action :: detection_action
  det_count :: u32

record scan_outcome =
  out_text :: rstr
  out_detections :: "detection list"

record external_span =
  ext_start :: nat
  ext_end :: nat
  ext_category :: rstr

record external_scan_outcome =
  eso_text :: rstr
  eso_detections :: "detection list"
  eso_external :: "detection list"

section \<open>One rule over one segment\<close>

type_synonym hit = "nat \<times> nat \<times> rstr"

text \<open>The greedy pass over sorted ranges: one that starts before the last kept end is dropped.\<close>

fun keep_disjoint :: "('a \<Rightarrow> nat) \<Rightarrow> ('a \<Rightarrow> nat) \<Rightarrow> nat \<Rightarrow> 'a list \<Rightarrow> 'a list" where
  "keep_disjoint st en last_end [] = []"
| "keep_disjoint st en last_end (x # xs) =
     (if st x < last_end then keep_disjoint st en last_end xs
      else x # keep_disjoint st en (en x) xs)"

definition validated :: "compiled_rule \<Rightarrow> rstr \<Rightarrow> bool" where
  "validated rule v = (case validator rule of None \<Rightarrow> True | Some f \<Rightarrow> f v)"

definition rule_candidates :: "compiled_rule \<Rightarrow> rstr \<Rightarrow> hit list" where
  "rule_candidates rule segment =
     concat (map (\<lambda>re. filter (\<lambda>(i, j, v). validated rule v)
       (map (\<lambda>(i, j). (i, j, slice segment i j)) (re segment))) (patterns rule))"

definition rule_hits :: "compiled_rule \<Rightarrow> rstr \<Rightarrow> hit list" where
  "rule_hits rule segment =
     keep_disjoint (\<lambda>(i, j, v). i) (\<lambda>(i, j, v). j) 0
       (sort_key (\<lambda>(i, j, v). (int i, - int j)) (rule_candidates rule segment))"

text \<open>A token per distinct value, remembered in \<open>cache\<close>.\<close>

fun seal_hits ::
  "crypto \<Rightarrow> engine_key \<Rightarrow> rstr \<Rightarrow> rstr \<Rightarrow> nat \<Rightarrow> nat \<Rightarrow> (rstr \<rightharpoonup> rstr) \<Rightarrow> hit list
     \<Rightarrow> scan_error + segment list" where
  "seal_hits C key cat segment origin prev cache [] =
     Inr (if prev < length segment
          then [Plain (slice segment prev (length segment)) (origin + prev)] else [])"
| "seal_hits C key cat segment origin prev cache ((i, j, v) # hits) =
     (let before = (if i > prev then [Plain (slice segment prev i) (origin + prev)] else []) in
      case cache v of
        Some t \<Rightarrow>
          res_map (\<lambda>r. before @ Masked t # r) (seal_hits C key cat segment origin j cache hits)
      | None \<Rightarrow>
          (case build_token C key cat v of
             Inl e \<Rightarrow> Inl e
           | Inr t \<Rightarrow>
               res_map (\<lambda>r. before @ Masked t # r)
                 (seal_hits C key cat segment origin j (cache(v \<mapsto> t)) hits)))"

definition tokenize_segment ::
  "crypto \<Rightarrow> engine_key \<Rightarrow> compiled_rule \<Rightarrow> rstr \<Rightarrow> nat \<Rightarrow> scan_error + segment list \<times> u32" where
  "tokenize_segment C key rule segment origin =
     (let hits = rule_hits rule segment;
          count = word_of_nat (length hits) :: u32
      in if count = 0 \<or> \<not> tokenize (flags rule) then Inr ([Plain segment origin], count)
         else res_map (\<lambda>segs. (segs, count))
           (seal_hits C key (category rule) segment origin 0 Map.empty hits))"

fun apply_rule ::
  "crypto \<Rightarrow> engine_key \<Rightarrow> compiled_rule \<Rightarrow> segment list \<Rightarrow> scan_error + segment list \<times> u32" where
  "apply_rule C key rule [] = Inr ([], 0)"
| "apply_rule C key rule (Masked s # segs) =
     res_map (\<lambda>(r, total). (Masked s # r, total)) (apply_rule C key rule segs)"
| "apply_rule C key rule (Plain t origin # segs) =
     (case tokenize_segment C key rule t origin of
        Inl e \<Rightarrow> Inl e
      | Inr (produced, count) \<Rightarrow>
          res_map (\<lambda>(r, total). (produced @ r, count + total)) (apply_rule C key rule segs))"

section \<open>External spans\<close>

definition external_valid :: "rstr \<Rightarrow> external_span \<Rightarrow> bool" where
  "external_valid s sp \<longleftrightarrow>
     ext_start sp < ext_end sp \<and> ext_end sp \<le> length s
     \<and> is_char_boundary s (ext_start sp) \<and> is_char_boundary s (ext_end sp)
     \<and> is_valid_rule_id (ext_category sp)"

definition normalize_external :: "rstr \<Rightarrow> external_span list \<Rightarrow> external_span list" where
  "normalize_external s spans =
     keep_disjoint ext_start ext_end 0
       (sort_key (\<lambda>sp. (int (ext_start sp), - int (ext_end sp))) (filter (external_valid s) spans))"

fun count_hit :: "detection list \<Rightarrow> rstr \<Rightarrow> detection_action \<Rightarrow> detection list" where
  "count_hit [] cat act = [\<lparr> det_category = cat, det_action = act, det_count = 1 \<rparr>]"
| "count_hit (d # ds) cat act =
     (if det_category d = cat then d \<lparr> det_count := det_count d + 1 \<rparr> # ds
      else d # count_hit ds cat act)"

type_synonym ext_cache = "rstr \<times> rstr \<rightharpoonup> rstr"

text \<open>
  The spans of one plain segment: the pieces pushed, the detections and the cache. An
  observation-mode hit only counts and does not move \<open>prev\<close>.
\<close>

fun external_loop ::
  "crypto \<Rightarrow> engine_key \<Rightarrow> rstr list \<Rightarrow> rstr \<Rightarrow> nat \<Rightarrow> nat \<Rightarrow> external_span list
     \<Rightarrow> detection list \<Rightarrow> ext_cache \<Rightarrow> scan_error + segment list \<times> detection list \<times> ext_cache" where
  "external_loop C key observe s origin prev [] dets cache =
     Inr (if prev < length s then [Plain (slice s prev (length s)) (origin + prev)] else [], dets, cache)"
| "external_loop C key observe s origin prev (sp # spans) dets cache =
     (let i = ext_start sp - origin; j = ext_end sp - origin; cat = ext_category sp in
      if i < prev then external_loop C key observe s origin prev spans dets cache
      else if cat \<in> set observe then
        external_loop C key observe s origin prev spans (count_hit dets cat Passed) cache
      else
        (let before = (if i > prev then [Plain (slice s prev i) (origin + prev)] else []);
             v = slice s i j
         in case (case cache (cat, v) of Some t \<Rightarrow> Inr t | None \<Rightarrow> build_token C key cat v) of
              Inl e \<Rightarrow> Inl e
            | Inr t \<Rightarrow>
                res_map (\<lambda>(r, d). (before @ Masked t # r, d))
                  (external_loop C key observe s origin j spans (count_hit dets cat Tokenized)
                    (cache((cat, v) \<mapsto> t)))))"

definition spans_within :: "external_span list \<Rightarrow> nat \<Rightarrow> nat \<Rightarrow> external_span list" where
  "spans_within spans origin segment_end =
     filter (\<lambda>sp. ext_start sp \<ge> origin \<and> ext_end sp \<le> segment_end) spans"

fun external_segments ::
  "crypto \<Rightarrow> engine_key \<Rightarrow> rstr list \<Rightarrow> external_span list \<Rightarrow> segment list
     \<Rightarrow> detection list \<Rightarrow> ext_cache \<Rightarrow> scan_error + segment list \<times> detection list" where
  "external_segments C key observe spans [] dets cache = Inr ([], dets)"
| "external_segments C key observe spans (Masked m # segs) dets cache =
     res_map (\<lambda>(r, d). (Masked m # r, d)) (external_segments C key observe spans segs dets cache)"
| "external_segments C key observe spans (Plain t origin # segs) dets cache =
     (case external_loop C key observe t origin 0 (spans_within spans origin (origin + length t)) dets cache of
        Inl e \<Rightarrow> Inl e
      | Inr (pieces, dets', cache') \<Rightarrow>
          res_map (\<lambda>(r, d). (pieces @ r, d)) (external_segments C key observe spans segs dets' cache'))"

definition observe_only :: "compiled_policy \<Rightarrow> rstr list" where
  "observe_only policy =
     map category (filter (\<lambda>r. \<not> tokenize (flags r)) (policy_rules policy))"

definition apply_external ::
  "crypto \<Rightarrow> engine_key \<Rightarrow> compiled_policy \<Rightarrow> segment list \<Rightarrow> external_span list
     \<Rightarrow> scan_error + segment list \<times> detection list" where
  "apply_external C key policy segs spans =
     external_segments C key (observe_only policy) spans segs [] Map.empty"

section \<open>Scanning one text\<close>

fun apply_rules ::
  "crypto \<Rightarrow> engine_key \<Rightarrow> compiled_rule list \<Rightarrow> segment list \<Rightarrow> detection list
     \<Rightarrow> scan_error + segment list \<times> detection list" where
  "apply_rules C key [] segs dets = Inr (segs, dets)"
| "apply_rules C key (rule # rs) segs dets =
     (case apply_rule C key rule segs of
        Inl e \<Rightarrow> Inl e
      | Inr (segs', count) \<Rightarrow>
          apply_rules C key rs segs'
            (if count > 0
             then dets @ [\<lparr> det_category = category rule,
                            det_action = (if tokenize (flags rule) then Tokenized else Passed),
                            det_count = count \<rparr>]
             else dets))"

definition scan_text_with_external ::
  "crypto \<Rightarrow> engine_key \<Rightarrow> compiled_policy \<Rightarrow> rstr \<Rightarrow> external_span list
     \<Rightarrow> scan_error + external_scan_outcome" where
  "scan_text_with_external C key policy s external =
     (case apply_rules C key (policy_rules policy) (mask_spans s) [] of
        Inl e \<Rightarrow> Inl e
      | Inr (segs, dets) \<Rightarrow>
          (case apply_external C key policy segs (normalize_external s external) of
             Inl e \<Rightarrow> Inl e
           | Inr (segs', ext_dets) \<Rightarrow>
               Inr \<lparr> eso_text = render_segs segs', eso_detections = dets, eso_external = ext_dets \<rparr>))"

definition scan_text ::
  "crypto \<Rightarrow> engine_key \<Rightarrow> compiled_policy \<Rightarrow> rstr \<Rightarrow> scan_error + scan_outcome" where
  "scan_text C key policy s =
     res_map (\<lambda>o'. \<lparr> out_text = eso_text o', out_detections = eso_detections o' \<rparr>)
       (scan_text_with_external C key policy s [])"

section \<open>Sealed texts\<close>

text \<open>
  \<open>sealed C key t segs\<close>: the pieces \<open>segs\<close> are \<open>t\<close> with some slices
  replaced by tokens built from them, and no two plain pieces are adjacent.
\<close>

inductive sealed :: "crypto \<Rightarrow> engine_key \<Rightarrow> rstr \<Rightarrow> segment list \<Rightarrow> bool"
  for C :: crypto and key :: engine_key where
  sealed_nil: "sealed C key [] []"
| sealed_end: "t \<noteq> [] \<Longrightarrow> sealed C key t [Plain t k]"
| sealed_token:
    "is_utf8 v \<Longrightarrow> is_valid_rule_id cat \<Longrightarrow> build_token C key cat v = Inr tok \<Longrightarrow> sealed C key s r \<Longrightarrow>
       sealed C key (v @ s) (Masked tok # r)"
| sealed_plain:
    "t \<noteq> [] \<Longrightarrow> is_utf8 v \<Longrightarrow> is_valid_rule_id cat \<Longrightarrow> build_token C key cat v = Inr tok \<Longrightarrow>
       sealed C key s r \<Longrightarrow> sealed C key (t @ v @ s) (Plain t k # Masked tok # r)"

lemma token_resolves:
  assumes "crypto_ok C" and "is_utf8 v" and "is_valid_rule_id cat" and "build_token C key cat v = Inr tok"
  shows "is_token_span tok" and "resolve_span C key tok = Some v"
  using codec.build_span [of "(C, key)" cat v tok] codec.resolve_build [of "(C, key)" cat v tok] assms
  by auto

lemma span_free_sub: "span_free (a @ t @ b) \<Longrightarrow> span_free t"
  unfolding span_free_def
proof (intro allI impI)
  fix k assume free: "\<forall>k \<le> length (a @ t @ b). span_match (drop k (a @ t @ b)) = None" and "k \<le> length t"
  then have "length a + k \<le> length (a @ t @ b)" by simp
  with free have "span_match (drop (length a + k) (a @ t @ b)) = None" by blast
  moreover have "drop (length a + k) (a @ t @ b) = drop k t @ b" using \<open>k \<le> length t\<close> by simp
  ultimately show "span_match (drop k t) = None"
    using span_match_append [of "drop k t" _ b] by (cases "span_match (drop k t)") auto
qed

lemma span_free_left: "span_free (t @ b) \<Longrightarrow> span_free t"
  using span_free_sub [of "[]"] by simp

lemma span_free_right: "span_free (a @ t) \<Longrightarrow> span_free t"
  using span_free_sub [of a t "[]"] by simp

lemma sealed_wf: "sealed C key t segs \<Longrightarrow> crypto_ok C \<Longrightarrow> span_free t \<Longrightarrow> segs_wf segs"
proof (induction rule: sealed.induct)
  case (sealed_token v cat tok s r)
  then show ?case using token_resolves(1) span_free_right by auto
next
  case (sealed_plain t v cat tok s r k)
  then have "span_free t" "span_free (v @ s)" by (auto dest: span_free_left span_free_right)
  with sealed_plain show ?case using token_resolves(1) span_free_right by auto
qed simp_all

lemma sealed_value:
  "sealed C key t segs \<Longrightarrow> crypto_ok C \<Longrightarrow> detok_value C key (\<lambda>p. p) segs = Some t"
  by (induction rule: sealed.induct) (auto simp: token_resolves)

lemma sealed_count:
  "sealed C key t segs \<Longrightarrow> masked_of segs = [] \<Longrightarrow> segs = [] \<or> (\<exists>k. segs = [Plain t k])"
  by (induction rule: sealed.induct) auto

text \<open>Replacing every plain segment of a parse by a sealing of it.\<close>

lemma segs_wf_append_masked:
  "segs_wf zs \<Longrightarrow> segs_wf (Masked m # r) \<Longrightarrow> segs_wf (zs @ Masked m # r)"
  by (induction zs rule: segs_wf.induct) auto

definition reseal :: "(rstr \<Rightarrow> nat \<Rightarrow> segment list) \<Rightarrow> segment list \<Rightarrow> segment list" where
  "reseal f segs = concat (map (\<lambda>x. case x of Plain t k \<Rightarrow> f t k | Masked m \<Rightarrow> [Masked m]) segs)"

inductive resealed :: "crypto \<Rightarrow> engine_key \<Rightarrow> segment list \<Rightarrow> segment list \<Rightarrow> bool"
  for C :: crypto and key :: engine_key where
  resealed_nil: "resealed C key [] []"
| resealed_masked: "resealed C key segs r \<Longrightarrow> resealed C key (Masked m # segs) (Masked m # r)"
| resealed_plain:
    "sealed C key t zs \<Longrightarrow> resealed C key segs r \<Longrightarrow> resealed C key (Plain t k # segs) (zs @ r)"

inductive_simps resealed_simps:
  "resealed C key [] r"
  "resealed C key (Masked m # segs) r"
  "resealed C key (Plain t k # segs) r"

lemma resealed_wf:
  "segs_wf segs \<Longrightarrow> resealed C key segs r \<Longrightarrow> crypto_ok C \<Longrightarrow> segs_wf r"
proof (induction segs arbitrary: r rule: segs_wf.induct)
  case (3 t u)
  then show ?case by (auto simp: resealed_simps intro: sealed_wf)
next
  case (5 t u m segs)
  then obtain zs r' where r: "r = zs @ Masked m # r'" and zs: "sealed C key t zs"
    and r': "resealed C key segs r'"
    by (auto simp: resealed_simps)
  have "segs_wf zs" using zs 5 by (auto intro: sealed_wf)
  moreover have "segs_wf (Masked m # r')" using 5 r' by auto
  ultimately show ?case unfolding r by (rule segs_wf_append_masked)
qed (auto simp: resealed_simps)

lemma resealed_value:
  "resealed C key segs r \<Longrightarrow> crypto_ok C \<Longrightarrow>
     detok_value C key (\<lambda>p. p) r = detok_value C key (\<lambda>p. p) segs"
proof (induction rule: resealed.induct)
  case (resealed_plain t zs segs r k)
  then show ?case by (simp add: detok_value_append sealed_value)
qed (auto cong: option.case_cong)

lemma masked_of_append [simp]: "masked_of (xs @ ys) = masked_of xs @ masked_of ys"
  by (induction xs rule: masked_of.induct) auto

lemma resealed_masked_of: "resealed C key segs r \<Longrightarrow> subseq (masked_of segs) (masked_of r)"
proof (induction rule: resealed.induct)
  case (resealed_plain t zs segs r k)
  then show ?case by (simp add: list_emb_append2)
qed auto

section \<open>Offsets of plain segments\<close>

definition plain_at :: "rstr \<Rightarrow> rstr \<Rightarrow> nat \<Rightarrow> bool" where
  "plain_at orig t k \<longleftrightarrow>
     (\<exists>u v. orig = u @ t @ v \<and> length u = k \<and> is_utf8 u \<and> is_utf8 t \<and> is_utf8 v)"

fun seg_at :: "rstr \<Rightarrow> segment \<Rightarrow> bool" where
  "seg_at orig (Plain t k) \<longleftrightarrow> plain_at orig t k"
| "seg_at orig (Masked m) \<longleftrightarrow> True"

definition segs_at :: "rstr \<Rightarrow> segment list \<Rightarrow> bool" where
  "segs_at orig segs \<longleftrightarrow> list_all (seg_at orig) segs"

lemma segs_at_simps [simp]:
  "segs_at orig []"
  "segs_at orig (x # xs) \<longleftrightarrow> seg_at orig x \<and> segs_at orig xs"
  "segs_at orig (xs @ ys) \<longleftrightarrow> segs_at orig xs \<and> segs_at orig ys"
  by (simp_all add: segs_at_def)

lemma plain_at_utf8: "plain_at orig t k \<Longrightarrow> is_utf8 t"
  by (auto simp: plain_at_def)

lemma length_slice: "j \<le> length s \<Longrightarrow> length (slice s i j) = j - i"
  by (simp add: slice_def)

lemma slice_parts: "i \<le> j \<Longrightarrow> j \<le> length s \<Longrightarrow> s = take i s @ slice s i j @ drop j s"
  using slice_append [of 0 i j s] slice_append [of 0 j "length s" s]
  by (simp add: slice_def) (metis append_assoc append_take_drop_id)

lemma slice_utf8:
  assumes "is_utf8 s" and "is_char_boundary s i" and "is_char_boundary s j" and "i \<le> j"
  shows "is_utf8 (slice s i j)"
  using is_utf8_slice [OF assms] by (simp add: slice_def)

lemma plain_at_slice:
  assumes "plain_at orig t k" and "is_char_boundary t i" and "is_char_boundary t j"
    and "i \<le> j" and "j \<le> length t"
  shows "plain_at orig (slice t i j) (k + i)"
proof -
  obtain u v where uv: "orig = u @ t @ v" "length u = k" "is_utf8 u" "is_utf8 t" "is_utf8 v"
    using assms(1) by (auto simp: plain_at_def)
  have "orig = (u @ take i t) @ slice t i j @ (drop j t @ v)"
    using slice_parts [OF assms(4,5)] uv(1) by (metis append_assoc)
  moreover have "length (u @ take i t) = k + i" using assms(4,5) uv(2) by simp
  moreover have "is_utf8 (take i t)" "is_utf8 (drop j t)"
    using is_utf8_split [OF uv(4)] assms(2,3) by blast+
  ultimately show ?thesis
    using slice_utf8 [OF uv(4) assms(2,3,4)] uv unfolding plain_at_def
    by (metis is_utf8_append)
qed

lemma plain_at_boundary:
  assumes "plain_at orig t k" and "is_char_boundary orig (k + i)" and "i \<le> length t"
  shows "is_char_boundary t i"
  using assms by (auto simp: plain_at_def is_char_boundary_def nth_append)

lemma span_utf8: "is_token_span m \<Longrightarrow> is_utf8 m"
proof -
  assume "is_token_span m"
  then have "list_all (\<lambda>b. code b < 128) m"
    by (auto simp: is_token_span_iff list_all_iff dest: span_byte_cases)
  then show ?thesis by (rule is_utf8_ascii)
qed

text \<open>A parse of a valid text has valid plain segments: a span starts and ends on ASCII bytes.\<close>

lemma segs_wf_utf8:
  "segs_wf segs \<Longrightarrow> is_utf8 (render_segs segs) \<Longrightarrow> \<forall>x \<in> set segs. is_utf8 (seg_text x)"
proof (induction segs rule: segs_wf.induct)
  case (2 t r)
  then show ?case using span_utf8 is_utf8_append by auto
next
  case (5 t u m r)
  then obtain m' where m: "m = CHR ''['' # m'" using token_span_head [of m] by auto
  have um: "is_utf8 m" using 5 by (auto intro: span_utf8)
  have "is_utf8 t \<and> is_utf8 (m @ render_segs r)"
    using 5 m by (intro is_utf8_append_iff) (auto simp: is_cont_def)
  with um is_utf8_append have "is_utf8 t" "is_utf8 (render_segs r)" by blast+
  with 5 um show ?case by auto
qed auto

fun origins_from :: "nat \<Rightarrow> segment list \<Rightarrow> bool" where
  "origins_from n [] \<longleftrightarrow> True"
| "origins_from n (Plain t k # r) \<longleftrightarrow> k = n \<and> origins_from (n + length t) r"
| "origins_from n (Masked m # r) \<longleftrightarrow> origins_from (n + length m) r"

lemma origins_mask_loop:
  assumes "segs_wf segs" and "s = pre @ render_segs segs"
  shows "origins_from (length pre) (mask_loop s (length pre) (seg_positions (length pre) segs))"
  using assms
proof (induction segs arbitrary: pre rule: segs_wf.induct)
  case (2 t r)
  then show ?case using "2.IH" [of "pre @ t"] by (simp add: slice_mid' [where b = t])
next
  case (5 t u m r)
  then show ?case
    using "5.IH" [of "pre @ t @ m"]
    by (simp add: slice_mid' [where b = t] slice_mid' [where a = "pre @ t" and b = m] add.assoc)
qed simp_all

lemma origins_mask_spans: "origins_from 0 (mask_spans s)"
proof -
  have "span_find_from 0 s = seg_positions 0 (mask_spans s)"
    using span_find_render [OF mask_spans_wf, of 0 s] by (simp add: render_mask_spans)
  then have "mask_spans s = mask_loop s 0 (seg_positions 0 (mask_spans s))"
    by (metis mask_spans_def span_find_iter_def)
  with origins_mask_loop [OF mask_spans_wf, of s "[]" s] show ?thesis
    by (simp add: render_mask_spans)
qed

lemma segs_at_render:
  assumes "\<forall>x \<in> set segs. is_utf8 (seg_text x)" and "is_utf8 pre" and "origins_from (length pre) segs"
  shows "segs_at (pre @ render_segs segs) segs"
  using assms
proof (induction segs arbitrary: pre)
  case (Cons x xs)
  have "is_utf8 (render_segs xs)"
    using Cons.prems(1) by (induction xs) (auto simp: is_utf8_append)
  with Cons.prems have "seg_at (pre @ render_segs (x # xs)) x"
    by (cases x) (auto simp: plain_at_def)
  moreover have "origins_from (length (pre @ seg_text x)) xs"
    using Cons.prems(3) by (cases x) auto
  then have "segs_at ((pre @ seg_text x) @ render_segs xs) xs"
    using Cons.prems(1,2) by (intro Cons.IH) (auto simp: is_utf8_append)
  ultimately show ?case by simp
qed simp

lemma mask_spans_at:
  assumes "is_utf8 s"
  shows "segs_at s (mask_spans s)"
  using segs_at_render [of "mask_spans s" "[]"] segs_wf_utf8 [OF mask_spans_wf, of s] assms
  by (simp add: render_mask_spans origins_mask_spans)

section \<open>Sealing the hits of a rule\<close>

fun chained :: "('a \<Rightarrow> nat) \<Rightarrow> ('a \<Rightarrow> nat) \<Rightarrow> nat \<Rightarrow> 'a list \<Rightarrow> bool" where
  "chained st en n [] \<longleftrightarrow> True"
| "chained st en n (x # xs) \<longleftrightarrow> n \<le> st x \<and> chained st en (en x) xs"

lemma keep_disjoint_chained: "chained st en n (keep_disjoint st en n xs)"
  by (induction xs arbitrary: n) auto

lemma keep_disjoint_subseq: "subseq (keep_disjoint st en n xs) xs"
  by (induction xs arbitrary: n) auto

lemma keep_disjoint_set: "set (keep_disjoint st en n xs) \<subseteq> set xs"
  by (induction xs arbitrary: n) (auto dest: subsetD)

definition hit_ok :: "rstr \<Rightarrow> hit \<Rightarrow> bool" where
  "hit_ok s = (\<lambda>(i, j, v). i \<le> j \<and> j \<le> length s \<and> is_char_boundary s i \<and> is_char_boundary s j
     \<and> v = slice s i j)"

lemma rule_hits_ok:
  assumes "is_utf8 s" and "rule_ok rule"
  shows "\<forall>h \<in> set (rule_hits rule s). hit_ok s h"
proof
  fix h assume "h \<in> set (rule_hits rule s)"
  then have "h \<in> set (rule_candidates rule s)"
    using keep_disjoint_set by (fastforce simp: rule_hits_def)
  then obtain re i j where re: "re \<in> set (patterns rule)" and ij: "(i, j) \<in> set (re s)"
    and h: "h = (i, j, slice s i j)"
    by (auto simp: rule_candidates_def)
  from re assms(2) have "regex_ok re" by (simp add: rule_ok_def)
  with ij assms(1) show "hit_ok s h" by (auto simp: regex_ok_def hit_ok_def h)
qed

definition cache_ok :: "crypto \<Rightarrow> engine_key \<Rightarrow> rstr \<Rightarrow> (rstr \<rightharpoonup> rstr) \<Rightarrow> bool" where
  "cache_ok C key cat cache \<longleftrightarrow> (\<forall>v t. cache v = Some t \<longrightarrow> build_token C key cat v = Inr t)"

lemma cache_ok_empty [simp]: "cache_ok C key cat Map.empty"
  by (simp add: cache_ok_def)

lemma cache_ok_upd: "cache_ok C key cat cache \<Longrightarrow> build_token C key cat v = Inr t \<Longrightarrow>
    cache_ok C key cat (cache(v \<mapsto> t))"
  by (auto simp: cache_ok_def)

text \<open>The cache only saves work: looking a value up gives the token that building it gives.\<close>

lemma seal_hits_step:
  assumes "cache_ok C key cat cache"
  shows "seal_hits C key cat s origin prev cache ((i, j, v) # hits) =
    (case build_token C key cat v of
       Inl e \<Rightarrow> Inl e
     | Inr t \<Rightarrow> res_map
         (\<lambda>r. (if i > prev then [Plain (slice s prev i) (origin + prev)] else []) @ Masked t # r)
         (seal_hits C key cat s origin j (cache(v \<mapsto> t)) hits))"
  using assms by (auto simp: Let_def cache_ok_def map_upd_triv split: option.splits)

lemma seal_hits_sealed:
  assumes "seal_hits C key cat s origin prev cache hits = Inr segs"
    and "is_utf8 s" and "is_valid_rule_id cat" and "cache_ok C key cat cache"
    and "\<forall>h \<in> set hits. hit_ok s h" and "chained (\<lambda>(i, j, v). i) (\<lambda>(i, j, v). j) prev hits"
    and "prev \<le> length s" and "is_char_boundary s prev" and "plain_at orig s origin"
  shows "sealed C key (drop prev s) segs \<and> segs_at orig segs \<and> length (masked_of segs) = length hits"
  using assms(1,4,5,6,7,8)
proof (induction hits arbitrary: segs prev cache)
  case Nil
  have "plain_at orig (slice s prev (length s)) (origin + prev)"
    using assms(9) Nil.prems by (intro plain_at_slice) auto
  with Nil show ?case by (cases "prev < length s") (auto simp: sealed_nil sealed_end)
next
  case (Cons h hits)
  obtain i j v where h: "h = (i, j, v)" by (cases h) auto
  from Cons.prems(1) obtain t r where t: "build_token C key cat v = Inr t"
    and r: "seal_hits C key cat s origin j (cache(v \<mapsto> t)) hits = Inr r"
    and segs: "segs = (if i > prev then [Plain (slice s prev i) (origin + prev)] else []) @ Masked t # r"
    unfolding h seal_hits_step [OF Cons.prems(2)] by (auto simp: res_simps split: sum.splits)
  have hit: "i \<le> j" "j \<le> length s" "is_char_boundary s i" "is_char_boundary s j" "v = slice s i j"
    "prev \<le> i"
    using Cons.prems(3,4) by (simp_all add: h hit_ok_def)
  have IH: "sealed C key (drop j s) r \<and> segs_at orig r \<and> length (masked_of r) = length hits"
    using Cons.prems(3,4) hit by (intro Cons.IH [OF r cache_ok_upd [OF Cons.prems(2) t]]) (auto simp: h)
  have v: "is_utf8 v" using slice_utf8 [OF assms(2) hit(3,4,1)] hit(5) by simp
  have parts: "drop prev s = slice s prev i @ v @ drop j s"
    using slice_append [of prev i j s] slice_append [of prev j "length s" s] hit
    by (simp add: hit(5)) (metis append_assoc)
  show ?case
  proof (cases "prev < i")
    case True
    then have "slice s prev i \<noteq> []" using hit by (simp add: slice_eq_Nil)
    moreover have "plain_at orig (slice s prev i) (origin + prev)"
      using assms(9) hit Cons.prems(6) by (intro plain_at_slice) auto
    ultimately show ?thesis
      using True IH sealed_plain [OF _ v assms(3) t] by (simp add: segs parts)
  next
    case False
    then have "slice s prev i = []" using hit by (simp add: slice_eq_Nil)
    with False show ?thesis using IH sealed_token [OF v assms(3) t] by (simp add: segs parts)
  qed
qed

lemma tokenize_segment_sealed:
  assumes "tokenize_segment C key rule s origin = Inr (segs, count)"
    and "rule_ok rule" and "s \<noteq> []" and "plain_at orig s origin"
  shows "sealed C key s segs \<and> segs_at orig segs
    \<and> (tokenize (flags rule) \<longrightarrow> word_of_nat (length (masked_of segs)) = count)
    \<and> (\<not> tokenize (flags rule) \<longrightarrow> masked_of segs = [])"
proof -
  have utf: "is_utf8 s" using assms(4) by (rule plain_at_utf8)
  let ?hits = "rule_hits rule s"
  consider "segs = [Plain s origin]" "count = word_of_nat (length ?hits)"
      "count = 0 \<or> \<not> tokenize (flags rule)"
    | "seal_hits C key (category rule) s origin 0 Map.empty ?hits = Inr segs"
      "count = word_of_nat (length ?hits)" "tokenize (flags rule)"
    using assms(1) by (auto simp: tokenize_segment_def Let_def res_simps split: if_splits)
  then show ?thesis
  proof cases
    case 1
    then show ?thesis using assms(3,4) by (auto simp: sealed_end)
  next
    case 2
    have "sealed C key (drop 0 s) segs \<and> segs_at orig segs \<and> length (masked_of segs) = length ?hits"
    proof (rule seal_hits_sealed [OF 2(1) utf])
      show "is_valid_rule_id (category rule)" using assms(2) by (simp add: rule_ok_def)
      show "chained (\<lambda>(i, j, v). i) (\<lambda>(i, j, v). j) 0 ?hits"
        by (simp add: rule_hits_def keep_disjoint_chained)
    qed (use rule_hits_ok [OF utf assms(2)] assms(4) in auto)
    then show ?thesis using 2 by auto
  qed
qed

lemma segs_wf_nonempty: "segs_wf segs \<Longrightarrow> \<forall>x \<in> set segs. seg_text x \<noteq> []"
  by (induction segs rule: segs_wf.induct) (auto dest: token_span_head)

lemma apply_rule_resealed:
  assumes "apply_rule C key rule segs = Inr (segs', count)" and "rule_ok rule"
    and "\<forall>x \<in> set segs. seg_text x \<noteq> []" and "segs_at orig segs"
  shows "resealed C key segs segs' \<and> segs_at orig segs'
    \<and> (of_nat (length (masked_of segs')) :: u32)
      = of_nat (length (masked_of segs)) + (if tokenize (flags rule) then count else 0)"
  using assms
proof (induction segs arbitrary: segs' count)
  case Nil
  then show ?case by (auto simp: resealed_simps)
next
  case (Cons x segs)
  show ?case
  proof (cases x)
    case (Masked m)
    with Cons.prems(1) obtain r where "apply_rule C key rule segs = Inr (r, count)"
      and segs': "segs' = Masked m # r"
      by (auto simp: res_simps)
    from Cons.IH [OF this(1)] Cons.prems(2-4) Masked show ?thesis
      by (auto simp: resealed_simps segs')
  next
    case (Plain t k)
    with Cons.prems(1) obtain p c r tot where p: "tokenize_segment C key rule t k = Inr (p, c)"
      and r: "apply_rule C key rule segs = Inr (r, tot)" and segs': "segs' = p @ r" "count = c + tot"
      by (auto simp: res_simps split: sum.splits)
    have "t \<noteq> []" "plain_at orig t k" using Cons.prems(3,4) Plain by auto
    from tokenize_segment_sealed [OF p Cons.prems(2) this] Cons.IH [OF r] Cons.prems(2-4) Plain
    show ?thesis by (auto simp: resealed_simps segs' ac_simps)
  qed
qed

lemma apply_rules_resealed:
  assumes "apply_rules C key rs segs dets = Inr (segs', dets')" and "\<forall>r \<in> set rs. rule_ok r"
    and "segs_wf segs" and "segs_at orig segs" and "crypto_ok C"
  shows "segs_wf segs' \<and> segs_at orig segs'
    \<and> detok_value C key (\<lambda>p. p) segs' = detok_value C key (\<lambda>p. p) segs
    \<and> subseq (masked_of segs) (masked_of segs')"
  using assms
proof (induction rs arbitrary: segs dets)
  case (Cons rule rs)
  from Cons.prems(1) obtain mid c where mid: "apply_rule C key rule segs = Inr (mid, c)"
    and rest: "\<exists>d. apply_rules C key rs mid d = Inr (segs', dets')"
    by (auto split: sum.splits)
  have R: "resealed C key segs mid" "segs_at orig mid"
    using apply_rule_resealed [OF mid _ segs_wf_nonempty [OF Cons.prems(3)] Cons.prems(4)] Cons.prems(2)
    by auto
  have "segs_wf mid" by (rule resealed_wf [OF Cons.prems(3) R(1) Cons.prems(5)])
  with rest R Cons.prems Cons.IH [of mid]
  show ?case using resealed_value [OF R(1) Cons.prems(5)] resealed_masked_of [OF R(1)]
    by (auto intro: subseq_order.trans)
qed simp

section \<open>Sealing external spans\<close>

definition ext_cache_ok :: "crypto \<Rightarrow> engine_key \<Rightarrow> ext_cache \<Rightarrow> bool" where
  "ext_cache_ok C key cache \<longleftrightarrow>
     (\<forall>cat v t. cache (cat, v) = Some t \<longrightarrow> build_token C key cat v = Inr t)"

lemma normalize_external_spec:
  "chained ext_start ext_end 0 (normalize_external s spans)
   \<and> (\<forall>sp \<in> set (normalize_external s spans). external_valid s sp \<and> sp \<in> set spans)"
  using keep_disjoint_set by (fastforce simp: normalize_external_def keep_disjoint_chained)

lemma spans_within_valid:
  "sp \<in> set (spans_within spans i j) \<Longrightarrow> i \<le> ext_start sp \<and> ext_end sp \<le> j \<and> sp \<in> set spans"
  by (auto simp: spans_within_def)

lemma external_loop_sealed:
  assumes "external_loop C key observe s origin prev spans dets cache = Inr (segs, dets', cache')"
    and "\<forall>sp \<in> set spans. external_valid orig sp \<and> origin \<le> ext_start sp \<and> ext_end sp \<le> origin + length s"
    and "ext_cache_ok C key cache" and "prev \<le> length s" and "is_char_boundary s prev"
    and "plain_at orig s origin"
  shows "sealed C key (drop prev s) segs \<and> segs_at orig segs \<and> ext_cache_ok C key cache'"
  using assms(1-5)
proof (induction spans arbitrary: prev dets cache segs dets' cache')
  case Nil
  have "plain_at orig (slice s prev (length s)) (origin + prev)"
    using assms(6) Nil.prems by (intro plain_at_slice) auto
  with Nil show ?case by (cases "prev < length s") (auto simp: sealed_nil sealed_end)
next
  case (Cons sp spans)
  let ?i = "ext_start sp - origin" and ?j = "ext_end sp - origin" and ?cat = "ext_category sp"
  show ?case
  proof (cases "?i < prev \<or> ?cat \<in> set observe")
    case True
    then obtain d where "external_loop C key observe s origin prev spans d cache = Inr (segs, dets', cache')"
      using Cons.prems(1) by (auto simp: Let_def split: if_splits)
    from Cons.IH [OF this] Cons.prems(2-5) show ?thesis by simp
  next
    case False
    let ?v = "slice s ?i ?j"
    from False Cons.prems(1) obtain t r where
      t: "(case cache (?cat, ?v) of Some t \<Rightarrow> Inr t | None \<Rightarrow> build_token C key ?cat ?v) = Inr t"
      and r: "external_loop C key observe s origin ?j spans (count_hit dets ?cat Tokenized)
          (cache((?cat, ?v) \<mapsto> t)) = Inr (r, dets', cache')"
      and segs: "segs = (if ?i > prev then [Plain (slice s prev ?i) (origin + prev)] else []) @ Masked t # r"
      by (auto simp: Let_def res_simps split: sum.splits if_splits)
    have build: "build_token C key ?cat ?v = Inr t"
      using t Cons.prems(3) by (auto simp: ext_cache_ok_def split: option.splits)
    have valid: "external_valid orig sp" "origin \<le> ext_start sp" "ext_end sp \<le> origin + length s"
      using Cons.prems(2) by auto
    then have ij: "prev \<le> ?i" "?i \<le> ?j" "?j \<le> length s" "is_valid_rule_id ?cat"
      using False by (auto simp: external_valid_def)
    have bs: "is_char_boundary s ?i" "is_char_boundary s ?j"
      using valid ij plain_at_boundary [OF assms(6)] by (auto simp: external_valid_def)
    have cache: "ext_cache_ok C key (cache((?cat, ?v) \<mapsto> t))"
      using Cons.prems(3) build by (auto simp: ext_cache_ok_def)
    have IH: "sealed C key (drop ?j s) r" "segs_at orig r" "ext_cache_ok C key cache'"
      using Cons.IH [OF r _ cache ij(3) bs(2)] Cons.prems(2) by auto
    have v: "is_utf8 ?v" using slice_utf8 [OF plain_at_utf8 [OF assms(6)] bs ij(2)] .
    have parts: "drop prev s = slice s prev ?i @ ?v @ drop ?j s"
      using slice_append [of prev ?i ?j s] slice_append [of prev ?j "length s" s] ij
      by simp (metis append_assoc)
    show ?thesis
    proof (cases "prev < ?i")
      case True
      then have "slice s prev ?i \<noteq> []" using ij by (simp add: slice_eq_Nil)
      moreover have "plain_at orig (slice s prev ?i) (origin + prev)"
        using assms(6) ij bs Cons.prems(5) by (intro plain_at_slice) auto
      ultimately show ?thesis
        using True IH sealed_plain [OF _ v ij(4) build] by (simp add: segs parts)
    next
      case False
      then have "slice s prev ?i = []" using ij by (simp add: slice_eq_Nil)
      with False show ?thesis using IH sealed_token [OF v ij(4) build] by (simp add: segs parts)
    qed
  qed
qed

lemma external_segments_resealed:
  assumes "external_segments C key observe spans segs dets cache = Inr (segs', dets')"
    and "\<forall>sp \<in> set spans. external_valid orig sp" and "ext_cache_ok C key cache" and "segs_at orig segs"
  shows "resealed C key segs segs' \<and> segs_at orig segs'"
  using assms
proof (induction segs arbitrary: segs' dets cache)
  case (Cons x segs)
  show ?case
  proof (cases x)
    case (Masked m)
    with Cons.prems(1) obtain r where "external_segments C key observe spans segs dets cache = Inr (r, dets')"
      and segs': "segs' = Masked m # r"
      by (auto simp: res_simps)
    from Cons.IH [OF this(1)] Cons.prems(2-4) Masked show ?thesis by (auto simp: resealed_simps segs')
  next
    case (Plain t k)
    let ?sps = "spans_within spans k (k + length t)"
    from Plain Cons.prems(1) obtain p d c r where
      p: "external_loop C key observe t k 0 ?sps dets cache = Inr (p, d, c)"
      and r: "external_segments C key observe spans segs d c = Inr (r, dets')" and segs': "segs' = p @ r"
      by (auto simp: res_simps split: sum.splits)
    have "\<forall>sp \<in> set ?sps. external_valid orig sp \<and> k \<le> ext_start sp \<and> ext_end sp \<le> k + length t"
      using Cons.prems(2) spans_within_valid by blast
    from external_loop_sealed [OF p this Cons.prems(3)] Cons.prems(4) Plain
    have P: "sealed C key t p" "segs_at orig p" "ext_cache_ok C key c" by auto
    from Cons.IH [OF r Cons.prems(2) P(3)] P Cons.prems(4) Plain show ?thesis
      by (auto simp: resealed_simps segs')
  qed
qed (auto simp: resealed_simps)

text \<open>Everything a scan does, as one statement over segment lists.\<close>

lemma scan_resealed:
  assumes "scan_text_with_external C key policy s external = Inr out"
    and "crypto_ok C" and "policy_ok policy" and "is_utf8 s"
  obtains segs where "eso_text out = render_segs segs" and "segs_wf segs" and "segs_at s segs"
    and "detok_value C key (\<lambda>p. p) segs = detok_value C key (\<lambda>p. p) (mask_spans s)"
    and "subseq (masked_of (mask_spans s)) (masked_of segs)"
proof -
  from assms(1) obtain mid dets segs d where
    mid: "apply_rules C key (policy_rules policy) (mask_spans s) [] = Inr (mid, dets)"
    and segs: "external_segments C key (observe_only policy) (normalize_external s external) mid [] Map.empty
      = Inr (segs, d)"
    and out: "eso_text out = render_segs segs"
    by (auto simp: scan_text_with_external_def apply_external_def split: sum.splits)
  have rules: "\<forall>r \<in> set (policy_rules policy). rule_ok r" using assms(3) by (simp add: policy_ok_def)
  note M = apply_rules_resealed [OF mid rules mask_spans_wf mask_spans_at [OF assms(4)] assms(2)]
  have "\<forall>sp \<in> set (normalize_external s external). external_valid s sp"
    using normalize_external_spec by blast
  moreover have "ext_cache_ok C key Map.empty" by (simp add: ext_cache_ok_def)
  ultimately have R: "resealed C key mid segs" "segs_at s segs"
    using external_segments_resealed [OF segs] M by auto
  show thesis
  proof (rule that [OF out])
    show "segs_wf segs" using resealed_wf [OF _ R(1) assms(2)] M by blast
    show "segs_at s segs" by (rule R(2))
    show "detok_value C key (\<lambda>p. p) segs = detok_value C key (\<lambda>p. p) (mask_spans s)"
      using M resealed_value [OF R(1) assms(2)] by simp
    show "subseq (masked_of (mask_spans s)) (masked_of segs)"
      using M resealed_masked_of [OF R(1)] by (auto intro: subseq_order.trans)
  qed
qed

lemma masked_of_mask_spans: "masked_of (mask_spans s) = map (\<lambda>(a, b). slice s a b) (span_find_iter s)"
proof -
  have "masked_of (mask_loop s prev ms) = map (\<lambda>(a, b). slice s a b) ms" for prev ms
    by (induction ms arbitrary: prev) auto
  then show ?thesis by (simp add: mask_spans_def)
qed

lemma masked_of_strip [simp]: "masked_of (map seg_strip segs) = masked_of segs"
  by (induction segs rule: masked_of.induct) auto

lemma masked_of_render: "segs_wf segs \<Longrightarrow> masked_of (mask_spans (render_segs segs)) = masked_of segs"
  using arg_cong [OF mask_spans_render, of segs masked_of] by simp

text \<open>The token spans of a text, in order.\<close>

definition spans_of :: "rstr \<Rightarrow> rstr list" where
  "spans_of s = map (\<lambda>(a, b). slice s a b) (span_find_iter s)"

lemma keep_disjoint_covers:
  assumes "sorted_wrt R xs" and "x \<in> set xs"
  shows "x \<in> set (keep_disjoint st en n xs)
    \<or> (\<exists>k \<in> set (keep_disjoint st en n xs). st x < en k \<and> R k x) \<or> st x < n"
  using assms by (induction xs arbitrary: n) fastforce+

lemma chained_disjoint:
  assumes "chained st en n xs" and "\<forall>x \<in> set xs. st x \<le> en x"
  shows "sorted_wrt (\<lambda>a b. en a \<le> st b) xs \<and> (\<forall>x \<in> set xs. n \<le> st x)"
  using assms by (induction xs arbitrary: n) fastforce+

section \<open>Properties\<close>

text \<open>C1. Tokenisation is lossless and adds no forgery: with a valid policy and working cipher, the
  scanned text detokenises to \<open>u\<close> exactly when the original text does. In particular a text
  whose own token spans verify comes back from a scan followed by detokenisation as it would
  have been detokenised itself, whatever rules and external spans were applied.\<close>

theorem scan_detokenize_roundtrip:
  assumes "crypto_ok C" and "policy_ok policy" and "is_utf8 s"
    and "scan_text_with_external C key policy s external = Inr out"
  shows "detokenize_text C key (eso_text out) = Inr u \<longleftrightarrow> detokenize_text C key s = Inr u"
proof -
  obtain segs where "eso_text out = render_segs segs" "segs_wf segs"
    and "detok_value C key (\<lambda>p. p) segs = detok_value C key (\<lambda>p. p) (mask_spans s)"
    using scan_resealed [OF assms(4,1,2,3)] .
  then show ?thesis
    using detokenize_Inr [OF mask_spans_wf, of C key s "\<lambda>p. p"]
    by (simp add: detokenize_text_def detokenize_Inr render_mask_spans)
qed

text \<open>C25. Tokens that are already in a text survive a scan untouched and in order: they form a
  subsequence of the token spans of the scanned text.\<close>

theorem scan_preserves_tokens:
  assumes "crypto_ok C" and "policy_ok policy" and "is_utf8 s"
    and "scan_text_with_external C key policy s external = Inr out"
  shows "subseq (spans_of s) (spans_of (eso_text out))"
proof -
  obtain segs where "eso_text out = render_segs segs" "segs_wf segs"
    and "subseq (masked_of (mask_spans s)) (masked_of segs)"
    using scan_resealed [OF assms(4,1,2,3)] .
  then show ?thesis
    using masked_of_render [of segs] masked_of_mask_spans [of s] masked_of_mask_spans [of "eso_text out"]
    by (simp add: spans_of_def)
qed

text \<open>External spans are normalised greedily: what is kept is well-formed, in order and
  pairwise disjoint, and every well-formed span that was dropped overlaps a kept one that
  starts no later and, at the same start, is at least as long.\<close>

theorem normalize_external_greedy:
  "sorted_wrt (\<lambda>a b. ext_end a \<le> ext_start b) (normalize_external s spans)
   \<and> set (normalize_external s spans) \<subseteq> {sp. sp \<in> set spans \<and> external_valid s sp}
   \<and> (\<forall>sp \<in> set spans. external_valid s sp \<longrightarrow> sp \<in> set (normalize_external s spans)
        \<or> (\<exists>k \<in> set (normalize_external s spans).
             ext_start k \<le> ext_start sp \<and> ext_start sp < ext_end k
             \<and> (ext_start k = ext_start sp \<longrightarrow> ext_end sp \<le> ext_end k)))"
proof -
  let ?key = "\<lambda>sp. (int (ext_start sp), - int (ext_end sp))"
  let ?sorted = "sort_key ?key (filter (external_valid s) spans)"
  let ?kept = "normalize_external s spans"
  note spec = normalize_external_spec [of s spans]
  have "sorted_wrt (\<lambda>a b. ext_end a \<le> ext_start b) ?kept"
    using chained_disjoint [of ext_start ext_end 0 ?kept] spec by (force simp: external_valid_def)
  moreover have "sp \<in> set ?kept \<or> (\<exists>k \<in> set ?kept. ext_start k \<le> ext_start sp
      \<and> ext_start sp < ext_end k \<and> (ext_start k = ext_start sp \<longrightarrow> ext_end sp \<le> ext_end k))"
    if "sp \<in> set spans" and "external_valid s sp" for sp
  proof -
    have "sorted_wrt (\<lambda>a b. ?key a \<le> ?key b) ?sorted"
      using sorted_sort_key [of ?key] by (simp add: sorted_map)
    moreover have "sp \<in> set ?sorted" using that by simp
    ultimately have "sp \<in> set ?kept \<or> (\<exists>k \<in> set ?kept. ext_start sp < ext_end k \<and> ?key k \<le> ?key sp)"
      using keep_disjoint_covers [of "\<lambda>a b. ?key a \<le> ?key b" ?sorted sp ext_start ext_end 0]
      by (simp add: normalize_external_def)
    then show ?thesis by (fastforce simp: less_eq_prod_def)
  qed
  ultimately show ?thesis using spec by blast
qed

definition demo_text :: rstr where
  "demo_text = ''to ann@x.pl and bob''"

definition demo_span :: external_span where
  "demo_span = \<lparr> ext_start = 16, ext_end = 19, ext_category = ''NAME'' \<rparr>"

definition demo_scanned :: rstr where
  "demo_scanned = ''to [EMAIL:TOKEN_6b454d41494c23616e6e40782e706c] and [NAME:TOKEN_6b4e414d4523626f62]''"

lemma demo_scan:
  "scan_text_with_external demo_crypto demo_key demo_policy demo_text [demo_span] =
     Inr \<lparr> eso_text = demo_scanned,
           eso_detections = [\<lparr> det_category = ''EMAIL'', det_action = Tokenized, det_count = 1 \<rparr>],
           eso_external = [\<lparr> det_category = ''NAME'', det_action = Tokenized, det_count = 1 \<rparr>] \<rparr>"
  by code_simp

lemma demo_utf8: "is_utf8 demo_text" "is_utf8 demo_bad_text"
  by code_simp+

lemma demo_detokenize: "detokenize_text demo_crypto demo_key demo_text = Inr demo_text"
  by code_simp

lemma scan_detokenize_roundtrip_witness:
  "detokenize_text demo_crypto demo_key demo_scanned = Inr demo_text"
  using scan_detokenize_roundtrip [OF demo_crypto_ok demo_policy_ok demo_utf8(1) demo_scan, of demo_text]
    demo_detokenize by simp

lemma demo_scan_bad:
  "scan_text_with_external demo_crypto demo_key demo_policy demo_bad_text [] =
     Inr \<lparr> eso_text = demo_bad_text, eso_detections = [], eso_external = [] \<rparr>"
  by code_simp

lemma scan_preserves_tokens_witness: "subseq (spans_of demo_bad_text) (spans_of demo_bad_text)"
  using scan_preserves_tokens [OF demo_crypto_ok demo_policy_ok demo_utf8(2) demo_scan_bad] by simp

lemma normalize_external_greedy_witness:
  "demo_span \<in> set (normalize_external demo_text [demo_span]) \<or>
    (\<exists>k \<in> set (normalize_external demo_text [demo_span]).
       ext_start k \<le> ext_start demo_span \<and> ext_start demo_span < ext_end k
       \<and> (ext_start k = ext_start demo_span \<longrightarrow> ext_end demo_span \<le> ext_end k))"
proof -
  have "external_valid demo_text demo_span" by code_simp
  then show ?thesis using normalize_external_greedy [of demo_text "[demo_span]"] by simp
qed

end
