(* ===== verification/Json.thy ===== *)
theory Json
  imports Scan
begin

text \<open>
  JSON values and the string-leaf passes of \<open>crates/pii-engine/src/scan.rs\<close>: collecting
  the leaves with their keys, scanning a tree in place and detokenising it, both all or
  nothing. An object is its list of flds in key order (the crate builds \<open>serde_json\<close> with its
  ordered map); a number is its literal. The three tree recursions of the source share one
  traversal, which the lemmas relate to the list of leaves.
\<close>

section \<open>Values and leaves\<close>

datatype json =
    JNull
  | JBool bool
  | JNum rstr
  | JStr rstr
  | JArr "json list"
  | JObj "(rstr \<times> json) list"

record string_leaf =
  leaf_text :: rstr
  leaf_key :: "rstr option"

text \<open>An array passes the key it hangs under on to its elements.\<close>

fun collect_leaves :: "json \<Rightarrow> rstr option \<Rightarrow> string_leaf list"
  and collect_items :: "json list \<Rightarrow> rstr option \<Rightarrow> string_leaf list"
  and collect_fields :: "(rstr \<times> json) list \<Rightarrow> string_leaf list"
where
  "collect_leaves (JStr s) key = [\<lparr> leaf_text = s, leaf_key = key \<rparr>]"
| "collect_leaves (JArr items) key = collect_items items key"
| "collect_leaves (JObj flds) key = collect_fields flds"
| "collect_leaves JNull key = []"
| "collect_leaves (JBool b) key = []"
| "collect_leaves (JNum n) key = []"
| "collect_items [] key = []"
| "collect_items (v # vs) key = collect_leaves v key @ collect_items vs key"
| "collect_fields [] = []"
| "collect_fields ((k, v) # fs) = collect_leaves v (Some k) @ collect_fields fs"

definition collect_string_leaves_with_keys :: "json \<Rightarrow> string_leaf list" where
  "collect_string_leaves_with_keys v = collect_leaves v None"

definition collect_string_leaves :: "json \<Rightarrow> rstr list" where
  "collect_string_leaves v = map leaf_text (collect_string_leaves_with_keys v)"

section \<open>Traversing the leaves with a state\<close>

fun json_traverse :: "(rstr \<Rightarrow> 's \<Rightarrow> 'e + rstr \<times> 's) \<Rightarrow> json \<Rightarrow> 's \<Rightarrow> 'e + json \<times> 's"
  and items_traverse :: "(rstr \<Rightarrow> 's \<Rightarrow> 'e + rstr \<times> 's) \<Rightarrow> json list \<Rightarrow> 's \<Rightarrow> 'e + json list \<times> 's"
  and fields_traverse ::
    "(rstr \<Rightarrow> 's \<Rightarrow> 'e + rstr \<times> 's) \<Rightarrow> (rstr \<times> json) list \<Rightarrow> 's \<Rightarrow> 'e + (rstr \<times> json) list \<times> 's"
where
  "json_traverse f (JStr s) st = res_map (\<lambda>(t, st'). (JStr t, st')) (f s st)"
| "json_traverse f (JArr items) st = res_map (\<lambda>(vs, st'). (JArr vs, st')) (items_traverse f items st)"
| "json_traverse f (JObj flds) st = res_map (\<lambda>(fs, st'). (JObj fs, st')) (fields_traverse f flds st)"
| "json_traverse f JNull st = Inr (JNull, st)"
| "json_traverse f (JBool b) st = Inr (JBool b, st)"
| "json_traverse f (JNum n) st = Inr (JNum n, st)"
| "items_traverse f [] st = Inr ([], st)"
| "items_traverse f (v # vs) st =
     res_bind (json_traverse f v st) (\<lambda>(w, st'). res_map (\<lambda>(ws, st''). (w # ws, st'')) (items_traverse f vs st'))"
| "fields_traverse f [] st = Inr ([], st)"
| "fields_traverse f ((k, v) # fs) st =
     res_bind (json_traverse f v st)
       (\<lambda>(w, st'). res_map (\<lambda>(ws, st''). ((k, w) # ws, st'')) (fields_traverse f fs st'))"

fun leaf_fold :: "(rstr \<Rightarrow> 's \<Rightarrow> 'e + rstr \<times> 's) \<Rightarrow> rstr list \<Rightarrow> 's \<Rightarrow> 'e + rstr list \<times> 's" where
  "leaf_fold f [] st = Inr ([], st)"
| "leaf_fold f (t # ts) st =
     res_bind (f t st) (\<lambda>(u, st'). res_map (\<lambda>(us, st''). (u # us, st'')) (leaf_fold f ts st'))"

text \<open>The texts of the leaves, and the tree without them.\<close>

fun leaves :: "json \<Rightarrow> rstr list" where
  "leaves (JStr s) = [s]"
| "leaves (JArr items) = concat (map leaves items)"
| "leaves (JObj flds) = concat (map (\<lambda>(k, v). leaves v) flds)"
| "leaves _ = []"

fun skeleton :: "json \<Rightarrow> json" where
  "skeleton (JStr s) = JStr []"
| "skeleton (JArr items) = JArr (map skeleton items)"
| "skeleton (JObj flds) = JObj (map (\<lambda>(k, v). (k, skeleton v)) flds)"
| "skeleton v = v"

lemma collect_leaves_texts:
  "map leaf_text (collect_leaves v key) = leaves v"
  "map leaf_text (collect_items vs key) = concat (map leaves vs)"
  "map leaf_text (collect_fields fs) = concat (map (\<lambda>(k, v). leaves v) fs)"
  by (induction v key and vs key and fs rule: collect_leaves_collect_items_collect_fields.induct) auto

lemma collect_string_leaves_eq: "collect_string_leaves v = leaves v"
  by (simp add: collect_string_leaves_def collect_string_leaves_with_keys_def collect_leaves_texts)

lemma leaf_fold_append:
  "leaf_fold f (xs @ ys) st =
     res_bind (leaf_fold f xs st) (\<lambda>(us, st'). res_map (\<lambda>(vs, st''). (us @ vs, st'')) (leaf_fold f ys st'))"
proof (induction xs arbitrary: st)
  case Nil
  show ?case by (cases "leaf_fold f ys st") auto
next
  case (Cons x xs)
  show ?case
  proof (cases "f x st")
    case (Inr p)
    obtain u st' where p: "p = (u, st')" by (cases p)
    show ?thesis
    proof (cases "leaf_fold f xs st'")
      case (Inr q)
      obtain us st'' where "q = (us, st'')" by (cases q)
      with Inr \<open>f x st = Inr p\<close> p Cons show ?thesis by (cases "leaf_fold f ys st''") auto
    qed (use Inr p Cons in auto)
  qed auto
qed

lemma leaf_fold_length: "leaf_fold f xs st = Inr (ys, st') \<Longrightarrow> length ys = length xs"
  by (induction xs arbitrary: st ys) (auto simp: res_simps)

text \<open>A traversal is a fold over the leaves that keeps the skeleton.\<close>

lemma traverse_Inr:
  "json_traverse f v st = Inr (w, st') \<Longrightarrow>
     skeleton w = skeleton v \<and> leaf_fold f (leaves v) st = Inr (leaves w, st')"
  "items_traverse f vs st = Inr (ws, st') \<Longrightarrow>
     map skeleton ws = map skeleton vs
     \<and> leaf_fold f (concat (map leaves vs)) st = Inr (concat (map leaves ws), st')"
  "fields_traverse f fs st = Inr (gs, st') \<Longrightarrow>
     map (\<lambda>(k, v). (k, skeleton v)) gs = map (\<lambda>(k, v). (k, skeleton v)) fs
     \<and> leaf_fold f (concat (map (\<lambda>(k, v). leaves v) fs)) st = Inr (concat (map (\<lambda>(k, v). leaves v) gs), st')"
proof (induction f v st and f vs st and f fs st arbitrary: w st' and ws st' and gs st'
    rule: json_traverse_items_traverse_fields_traverse.induct)
  case (1 f s st)
  then show ?case by (auto simp: res_simps)
next
  case (8 f v vs st)
  then obtain x st1 xs where "json_traverse f v st = Inr (x, st1)" "items_traverse f vs st1 = Inr (xs, st')"
    "ws = x # xs"
    by (auto simp: res_simps)
  with 8 show ?case by (force simp: leaf_fold_append)
next
  case (10 f k v fs st)
  then obtain x st1 xs where "json_traverse f v st = Inr (x, st1)" "fields_traverse f fs st1 = Inr (xs, st')"
    "gs = (k, x) # xs"
    by (auto simp: res_simps)
  with 10 show ?case by (force simp: leaf_fold_append)
qed (auto simp: res_simps)

lemma traverse_Inl:
  "json_traverse f v st = Inl e \<Longrightarrow> leaf_fold f (leaves v) st = Inl e"
  "items_traverse f vs st = Inl e \<Longrightarrow> leaf_fold f (concat (map leaves vs)) st = Inl e"
  "fields_traverse f fs st = Inl e \<Longrightarrow> leaf_fold f (concat (map (\<lambda>(k, v). leaves v) fs)) st = Inl e"
proof (induction f v st and f vs st and f fs st
    rule: json_traverse_items_traverse_fields_traverse.induct)
  case (8 f v vs st)
  show ?case
  proof (cases "json_traverse f v st")
    case (Inl a)
    with 8 show ?thesis by (auto simp: leaf_fold_append)
  next
    case (Inr p)
    obtain x st1 where p: "p = (x, st1)" by (cases p)
    from Inr 8 p have "items_traverse f vs st1 = Inl e" by (cases "items_traverse f vs st1") auto
    with 8(2) [of st1] traverse_Inr(1) Inr p show ?thesis by (force simp: leaf_fold_append)
  qed
next
  case (10 f k v fs st)
  show ?case
  proof (cases "json_traverse f v st")
    case (Inl a)
    with 10 show ?thesis by (auto simp: leaf_fold_append)
  next
    case (Inr p)
    obtain x st1 where p: "p = (x, st1)" by (cases p)
    from Inr 10 p have "fields_traverse f fs st1 = Inl e" by (cases "fields_traverse f fs st1") auto
    with 10(2) [of st1] traverse_Inr(1) Inr p show ?thesis by (force simp: leaf_fold_append)
  qed
qed (auto simp: res_map_def split: sum.splits)

lemma leaves_length_skeleton: "skeleton v = skeleton w \<Longrightarrow> length (leaves v) = length (leaves w)"
proof (induction v arbitrary: w rule: leaves.induct)
  case (2 items)
  then obtain items' where w: "w = JArr items'" and eq: "map skeleton items = map skeleton items'"
    by (cases w) auto
  from eq have "list_all2 (\<lambda>a b. skeleton a = skeleton b) items items'"
    by (simp add: list_all2_map1 list_all2_map2 flip: list.rel_eq)
  then have "list_all2 (\<lambda>a b. length (leaves a) = length (leaves b)) items items'"
    using "2.IH" by (auto elim: list.rel_mono_strong)
  then show ?case unfolding w by (induction rule: list_all2_induct) auto
next
  case (3 flds)
  then obtain flds' where w: "w = JObj flds'"
    and eq: "map (\<lambda>(k, v). (k, skeleton v)) flds = map (\<lambda>(k, v). (k, skeleton v)) flds'"
    by (cases w) auto
  from eq have "list_all2 (\<lambda>a b. fst a = fst b \<and> skeleton (snd a) = skeleton (snd b)) flds flds'"
    by (auto simp: list_all2_map1 list_all2_map2 split_beta prod_eq_iff simp flip: list.rel_eq
        elim: list.rel_mono_strong)
  then have "list_all2 (\<lambda>a b. length (leaves (snd a)) = length (leaves (snd b))) flds flds'"
    using "3.IH" by (auto elim!: list.rel_mono_strong)
  then show ?case unfolding w by (induction rule: list_all2_induct) (auto split: prod.splits)
qed (case_tac [!] w; simp)+

lemma concat_leaves_inj:
  assumes "list_all2 (\<lambda>a b. length (g a) = length (g b) \<and> (g a = g b \<longrightarrow> h a = h b)) xs ys"
    and "concat (map g xs) = concat (map g ys)"
  shows "map h xs = map h ys"
  using assms by (induction rule: list_all2_induct) auto

lemma skeleton_leaves_inj: "skeleton v = skeleton w \<Longrightarrow> leaves v = leaves w \<Longrightarrow> v = w"
proof (induction v arbitrary: w rule: leaves.induct)
  case (2 items)
  then obtain items' where w: "w = JArr items'" and eq: "map skeleton items = map skeleton items'"
    by (cases w) auto
  from eq have "list_all2 (\<lambda>a b. skeleton a = skeleton b) items items'"
    by (simp add: list_all2_map1 list_all2_map2 flip: list.rel_eq)
  then have "list_all2 (\<lambda>a b. length (leaves a) = length (leaves b) \<and> (leaves a = leaves b \<longrightarrow> a = b)) items items'"
    using "2.IH" by (auto elim!: list.rel_mono_strong intro: leaves_length_skeleton)
  from concat_leaves_inj [OF this] "2.prems"(2) show ?case by (simp add: w)
next
  case (3 flds)
  then obtain flds' where w: "w = JObj flds'"
    and eq: "map (\<lambda>(k, v). (k, skeleton v)) flds = map (\<lambda>(k, v). (k, skeleton v)) flds'"
    by (cases w) auto
  from eq have "list_all2 (\<lambda>a b. fst a = fst b \<and> skeleton (snd a) = skeleton (snd b)) flds flds'"
    by (auto simp: list_all2_map1 list_all2_map2 split_beta prod_eq_iff simp flip: list.rel_eq
        elim: list.rel_mono_strong)
  then have "list_all2 (\<lambda>a b. length (leaves (snd a)) = length (leaves (snd b))
      \<and> (leaves (snd a) = leaves (snd b) \<longrightarrow> a = b)) flds flds'"
    using "3.IH" by (fastforce elim!: list.rel_mono_strong intro: leaves_length_skeleton simp: prod_eq_iff)
  from concat_leaves_inj [OF this] "3.prems"(2) show ?case
    by (simp add: w case_prod_unfold)
qed (case_tac [!] w; simp)+

lemma traverse_iff:
  "json_traverse f v st = Inr (w, st') \<longleftrightarrow>
     skeleton w = skeleton v \<and> leaf_fold f (leaves v) st = Inr (leaves w, st')"
proof
  assume eq: "skeleton w = skeleton v \<and> leaf_fold f (leaves v) st = Inr (leaves w, st')"
  then obtain x st1 where x: "json_traverse f v st = Inr (x, st1)"
    using traverse_Inl(1) [of f v st] by (cases "json_traverse f v st") auto
  from traverse_Inr(1) [OF x] eq skeleton_leaves_inj [of x w] x
  show "json_traverse f v st = Inr (w, st')" by simp
qed (rule traverse_Inr(1))

section \<open>Scanning a tree\<close>

record scan_report =
  rep_detections :: "detection list"
  rep_external :: "detection list"

definition empty_report :: scan_report where
  "empty_report = \<lparr> rep_detections = [], rep_external = [] \<rparr>"

fun merge_one :: "detection list \<Rightarrow> detection \<Rightarrow> detection list" where
  "merge_one [] d = [d]"
| "merge_one (e # es) d =
     (if det_category e = det_category d then e \<lparr> det_count := det_count e + det_count d \<rparr> # es
      else e # merge_one es d)"

definition merge_detections :: "detection list \<Rightarrow> detection list \<Rightarrow> detection list" where
  "merge_detections agg extra = foldl merge_one agg extra"

text \<open>The state of the recursion: the next leaf's index and the report.\<close>

type_synonym scan_state = "nat \<times> scan_report"

definition leaf_spans :: "external_span list list option \<Rightarrow> nat \<Rightarrow> external_span list" where
  "leaf_spans external n =
     (case external of
        None \<Rightarrow> []
      | Some spans \<Rightarrow> (if n < length spans then spans ! n else []))"

definition scan_leaf ::
  "crypto \<Rightarrow> engine_key \<Rightarrow> compiled_policy \<Rightarrow> external_span list list option \<Rightarrow> rstr \<Rightarrow> scan_state
     \<Rightarrow> scan_error + rstr \<times> scan_state" where
  "scan_leaf C key policy external s st =
     (case st of (next_leaf, report) \<Rightarrow>
        (case scan_text_with_external C key policy s (leaf_spans external next_leaf) of
           Inl e \<Rightarrow> Inl e
         | Inr out \<Rightarrow>
             Inr (eso_text out,
               (next_leaf + 1,
                \<lparr> rep_detections = merge_detections (rep_detections report) (eso_detections out),
                  rep_external = merge_detections (rep_external report) (eso_external out) \<rparr>))))"

definition scan_json_value ::
  "crypto \<Rightarrow> engine_key \<Rightarrow> compiled_policy \<Rightarrow> external_span list list option \<Rightarrow> json \<Rightarrow> scan_state
     \<Rightarrow> scan_error + json \<times> scan_state" where
  "scan_json_value C key policy external = json_traverse (scan_leaf C key policy external)"

text \<open>The tree is rewritten in place: the result is returned with the value left behind.\<close>

definition scan_json ::
  "crypto \<Rightarrow> engine_key \<Rightarrow> compiled_policy \<Rightarrow> json \<Rightarrow> (scan_error + detection list) \<times> json" where
  "scan_json C key policy v =
     (case scan_json_value C key policy None v (0, empty_report) of
        Inl e \<Rightarrow> (Inl e, v)
      | Inr (clone, (_, report)) \<Rightarrow> (Inr (rep_detections report), clone))"

definition scan_json_with_external ::
  "crypto \<Rightarrow> engine_key \<Rightarrow> compiled_policy \<Rightarrow> json \<Rightarrow> external_span list list
     \<Rightarrow> (scan_error + scan_report) \<times> json" where
  "scan_json_with_external C key policy v external =
     (let expected = length (collect_string_leaves v) in
      if length external \<noteq> expected then (Inl (ExternalSpanCount expected (length external)), v)
      else case scan_json_value C key policy (Some external) v (0, empty_report) of
          Inl e \<Rightarrow> (Inl e, v)
        | Inr (clone, (_, report)) \<Rightarrow> (Inr report, clone))"

definition detok_leaf :: "crypto \<Rightarrow> engine_key \<Rightarrow> rstr \<Rightarrow> unit \<Rightarrow> detokenize_error + rstr \<times> unit" where
  "detok_leaf C key s st = res_map (\<lambda>t. (t, st)) (detokenize_text C key s)"

definition detokenize_json_value :: "crypto \<Rightarrow> engine_key \<Rightarrow> json \<Rightarrow> detokenize_error + json" where
  "detokenize_json_value C key v =
     res_map fst (json_traverse (detok_leaf C key) v ())"

definition detokenize_json :: "crypto \<Rightarrow> engine_key \<Rightarrow> json \<Rightarrow> (detokenize_error + unit) \<times> json" where
  "detokenize_json C key v =
     (case detokenize_json_value C key v of
        Inl e \<Rightarrow> (Inl e, v)
      | Inr clone \<Rightarrow> (Inr (), clone))"

lemma scan_leaf_Inr:
  "scan_leaf C key policy external t (n, rep) = Inr x \<longleftrightarrow>
     (\<exists>out. scan_text_with_external C key policy t (leaf_spans external n) = Inr out
        \<and> x = (eso_text out,
               (n + 1,
                \<lparr> rep_detections = merge_detections (rep_detections rep) (eso_detections out),
                  rep_external = merge_detections (rep_external rep) (eso_external out) \<rparr>)))"
  by (auto simp: scan_leaf_def split: sum.splits)

lemma scan_fold_spec:
  "leaf_fold (scan_leaf C key policy external) ts (n, rep) = Inr (us, st') \<Longrightarrow>
     length us = length ts
     \<and> (\<forall>i < length ts. \<exists>out.
          scan_text_with_external C key policy (ts ! i) (leaf_spans external (n + i)) = Inr out
          \<and> us ! i = eso_text out)"
proof (induction ts arbitrary: n rep us)
  case Nil
  then show ?case by simp
next
  case (Cons t ts)
  from Cons.prems obtain out rep' us' where
    out: "scan_text_with_external C key policy t (leaf_spans external n) = Inr out"
    and rest: "leaf_fold (scan_leaf C key policy external) ts (n + 1, rep') = Inr (us', st')"
    and us: "us = eso_text out # us'"
    by (auto simp: scan_leaf_Inr res_simps)
  from Cons.IH [OF rest] out show ?case
    by (auto simp: us nth_Cons less_Suc_eq_0_disj split: nat.splits)
qed

lemma detok_fold:
  "leaf_fold (detok_leaf C key) ts () = Inr (us, ()) \<longleftrightarrow>
     list_all2 (\<lambda>t u. detokenize_text C key t = Inr u) ts us"
proof (induction ts arbitrary: us)
  case (Cons t ts)
  show ?case
  proof (cases us)
    case (Cons u us')
    then show ?thesis using Cons.IH [of us'] by (auto simp: detok_leaf_def res_simps)
  qed (auto simp: detok_leaf_def res_simps)
qed auto

lemma detokenize_json_value_Inr:
  "detokenize_json_value C key v = Inr w \<longleftrightarrow>
     skeleton w = skeleton v \<and> list_all2 (\<lambda>t u. detokenize_text C key t = Inr u) (leaves v) (leaves w)"
  by (auto simp: detokenize_json_value_def res_simps traverse_iff detok_fold)

section \<open>Aggregated counts\<close>

definition det_total :: "rstr \<Rightarrow> detection list \<Rightarrow> u32" where
  "det_total cat ds = sum_list (map det_count (filter (\<lambda>d. det_category d = cat) ds))"

lemma det_total_simps [simp]:
  "det_total cat [] = 0"
  "det_total cat (d # ds) = (if det_category d = cat then det_count d else 0) + det_total cat ds"
  by (simp_all add: det_total_def)

lemma det_total_merge_one: "det_total cat (merge_one ds d) = det_total cat ds + det_total cat [d]"
  by (induction ds d rule: merge_one.induct) auto

lemma det_total_merge:
  "det_total cat (merge_detections ds extra) = det_total cat ds + det_total cat extra"
proof (induction extra arbitrary: ds)
  case Nil
  then show ?case by (simp add: merge_detections_def)
next
  case (Cons d extra)
  then have "det_total cat (merge_detections (merge_one ds d) extra)
      = det_total cat (merge_one ds d) + det_total cat extra" by simp
  then show ?case by (simp add: merge_detections_def det_total_merge_one add.assoc)
qed

lemma merge_one_categories:
  "map det_category (merge_one ds d) =
     (if det_category d \<in> det_category ` set ds then map det_category ds
      else map det_category ds @ [det_category d])"
  by (induction ds d rule: merge_one.induct) auto

lemma merge_distinct:
  "distinct (map det_category ds) \<Longrightarrow> distinct (map det_category (merge_detections ds extra))"
proof (induction extra arbitrary: ds)
  case (Cons d extra)
  then have "distinct (map det_category (merge_one ds d))" by (auto simp: merge_one_categories)
  with Cons.IH show ?case by (simp add: merge_detections_def)
qed (simp add: merge_detections_def)

fun leaf_outcomes ::
  "crypto \<Rightarrow> engine_key \<Rightarrow> compiled_policy \<Rightarrow> rstr list \<Rightarrow> external_span list list
     \<Rightarrow> external_scan_outcome list" where
  "leaf_outcomes C key policy (t # ts) (sp # sps) =
     (case scan_text_with_external C key policy t sp of
        Inl e \<Rightarrow> []
      | Inr out \<Rightarrow> out # leaf_outcomes C key policy ts sps)"
| "leaf_outcomes C key policy _ _ = []"

lemma scan_fold_report:
  assumes "leaf_fold (scan_leaf C key policy (Some external)) ts (n, rep) = Inr (us, (m, rep'))"
    and "n + length ts = length external"
  shows "det_total cat (rep_detections rep') = det_total cat (rep_detections rep)
      + sum_list (map (det_total cat \<circ> eso_detections) (leaf_outcomes C key policy ts (drop n external)))
    \<and> det_total cat (rep_external rep') = det_total cat (rep_external rep)
      + sum_list (map (det_total cat \<circ> eso_external) (leaf_outcomes C key policy ts (drop n external)))
    \<and> (distinct (map det_category (rep_detections rep)) \<longrightarrow> distinct (map det_category (rep_detections rep')))"
  using assms
proof (induction ts arbitrary: n rep us)
  case Nil
  then show ?case by simp
next
  case (Cons t ts)
  have n: "n < length external" using Cons.prems(2) by simp
  then have sp: "leaf_spans (Some external) n = external ! n"
    and drop: "drop n external = external ! n # drop (n + 1) external"
    by (simp_all add: leaf_spans_def Cons_nth_drop_Suc)
  from Cons.prems(1) obtain out rep1 us' where
    out: "scan_text_with_external C key policy t (external ! n) = Inr out"
    and rep1: "rep1 = \<lparr> rep_detections = merge_detections (rep_detections rep) (eso_detections out),
                  rep_external = merge_detections (rep_external rep) (eso_external out) \<rparr>"
    and rest: "leaf_fold (scan_leaf C key policy (Some external)) ts (n + 1, rep1) = Inr (us', (m, rep'))"
    by (auto simp: scan_leaf_Inr sp res_simps)
  from Cons.IH [OF rest] Cons.prems(2) show ?case
    by (simp add: drop out rep1 det_total_merge merge_distinct add.assoc)
qed

section \<open>Properties\<close>

text \<open>Scanning a JSON tree is all or nothing and touches only its string leaves: on an error the
  value is the one passed in; otherwise the tree has the same shape and keys, and every leaf is
  the scan of the old leaf with the span list supplied for it, in the order in which
  \<open>collect_string_leaves\<close> lists them.\<close>

theorem scan_json_leafwise:
  "case scan_json_with_external C key policy v external of
     (Inl e, w) \<Rightarrow> w = v
   | (Inr report, w) \<Rightarrow>
       skeleton w = skeleton v \<and> length external = length (collect_string_leaves v)
       \<and> length (collect_string_leaves w) = length (collect_string_leaves v)
       \<and> (\<forall>i < length external. \<exists>out.
            scan_text_with_external C key policy (collect_string_leaves v ! i) (external ! i) = Inr out
            \<and> collect_string_leaves w ! i = eso_text out)"
proof (cases "scan_json_with_external C key policy v external")
  case (Pair r w)
  show ?thesis
  proof (cases r)
    case (Inl e)
    with Pair show ?thesis
      by (auto simp: scan_json_with_external_def Let_def split: if_splits sum.splits)
  next
    case (Inr report)
    with Pair have len: "length external = length (leaves v)"
      by (auto simp: scan_json_with_external_def Let_def collect_string_leaves_eq split: if_splits)
    from Inr Pair len obtain n where
      "scan_json_value C key policy (Some external) v (0, empty_report) = Inr (w, (n, report))"
      by (auto simp: scan_json_with_external_def Let_def collect_string_leaves_eq split: sum.splits)
    then have sk: "skeleton w = skeleton v"
      and fold: "leaf_fold (scan_leaf C key policy (Some external)) (leaves v) (0, empty_report)
        = Inr (leaves w, (n, report))"
      by (auto simp: scan_json_value_def traverse_iff)
    from scan_fold_spec [OF fold] sk len show ?thesis
      by (simp add: Pair Inr collect_string_leaves_eq leaf_spans_def)
  qed
qed

lemma scan_json_with_external_Inr:
  "scan_json_with_external C key policy v external = (Inr report, w) \<longleftrightarrow>
     length external = length (leaves v)
     \<and> (\<exists>n. skeleton w = skeleton v
          \<and> leaf_fold (scan_leaf C key policy (Some external)) (leaves v) (0, empty_report)
            = Inr (leaves w, (n, report)))"
  by (auto simp: scan_json_with_external_def Let_def collect_string_leaves_eq scan_json_value_def
      traverse_iff [symmetric] split: sum.splits)

lemma detokenize_json_Inr:
  "detokenize_json C key v = (Inr (), w) \<longleftrightarrow>
     skeleton w = skeleton v \<and> list_all2 (\<lambda>t u. detokenize_text C key t = Inr u) (leaves v) (leaves w)"
  by (auto simp: detokenize_json_def detokenize_json_value_Inr [symmetric] split: sum.splits)

text \<open>C26. The round trip holds for whole trees: after a scan with external spans, detokenising the
  tree in place gives exactly what detokenising the original tree gives.\<close>

theorem scan_json_detokenize_roundtrip:
  assumes "crypto_ok C" and "policy_ok policy" and "\<forall>t \<in> set (collect_string_leaves v). is_utf8 t"
    and "scan_json_with_external C key policy v external = (Inr report, w)"
  shows "detokenize_json C key w = (Inr (), u) \<longleftrightarrow> detokenize_json C key v = (Inr (), u)"
proof -
  from assms(4) obtain n where sk: "skeleton w = skeleton v"
    and fold: "leaf_fold (scan_leaf C key policy (Some external)) (leaves v) (0, empty_report)
      = Inr (leaves w, (n, report))"
    by (auto simp: scan_json_with_external_Inr)
  note leafwise = scan_fold_spec [OF fold]
  have "detokenize_text C key (leaves w ! i) = Inr x \<longleftrightarrow> detokenize_text C key (leaves v ! i) = Inr x"
    if "i < length (leaves v)" for i x
  proof -
    from leafwise that obtain out where
      out: "scan_text_with_external C key policy (leaves v ! i) (leaf_spans (Some external) (0 + i)) = Inr out"
      "leaves w ! i = eso_text out" by blast
    have "is_utf8 (leaves v ! i)" using assms(3) that by (simp add: collect_string_leaves_eq)
    then obtain segs where "eso_text out = render_segs segs" "segs_wf segs"
      and "detok_value C key (\<lambda>p. p) segs = detok_value C key (\<lambda>p. p) (mask_spans (leaves v ! i))"
      by (rule scan_resealed [OF out(1) assms(1,2)])
    then show ?thesis
      using detokenize_Inr [OF mask_spans_wf, of C key "leaves v ! i" "\<lambda>p. p"] out(2)
      by (simp add: detokenize_text_def detokenize_Inr render_mask_spans)
  qed
  then show ?thesis
    using leafwise sk by (auto simp: detokenize_json_Inr list_all2_conv_all_nth)
qed

text \<open>The report of a tree scan adds up: each category's count is, in 32-bit arithmetic, the sum of
  the counts of the leaves, for rule hits and for external spans, and no category of the rule
  aggregate is listed twice.\<close>

theorem scan_json_report_totals:
  assumes "scan_json_with_external C key policy v external = (Inr report, w)"
  shows "det_total cat (rep_detections report)
      = sum_list (map (det_total cat \<circ> eso_detections) (leaf_outcomes C key policy (collect_string_leaves v) external))
    \<and> det_total cat (rep_external report)
      = sum_list (map (det_total cat \<circ> eso_external) (leaf_outcomes C key policy (collect_string_leaves v) external))
    \<and> distinct (map det_category (rep_detections report))"
  using assms scan_fold_report [of C key policy external "leaves v" 0 empty_report "leaves w" _ report cat]
  by (fastforce simp: scan_json_with_external_Inr collect_string_leaves_eq empty_report_def)

text \<open>Detokenising a tree is all or nothing: it succeeds exactly when every string leaf
  detokenises, and then only the leaves change; on the first failure the value is untouched.\<close>

theorem detokenize_json_all_or_nothing:
  "case detokenize_json C key v of
     (Inl e, w) \<Rightarrow> w = v \<and> (\<exists>t \<in> set (collect_string_leaves v). \<exists>e'. detokenize_text C key t = Inl e')
   | (Inr _, w) \<Rightarrow> skeleton w = skeleton v
       \<and> list_all2 (\<lambda>t u. detokenize_text C key t = Inr u) (collect_string_leaves v) (collect_string_leaves w)"
proof (cases "detokenize_json C key v")
  case (Pair r w)
  show ?thesis
  proof (cases r)
    case (Inr a)
    then have "detokenize_json C key v = (Inr (), w)" using Pair by simp
    note this [unfolded detokenize_json_Inr]
    then show ?thesis
      unfolding Pair Inr prod.case sum.case by (simp add: collect_string_leaves_eq)
  next
    case (Inl e)
    then have w: "w = v" using Pair by (auto simp: detokenize_json_def split: sum.splits)
    have "\<exists>t \<in> set (leaves v). \<exists>e'. detokenize_text C key t = Inl e'"
    proof (rule ccontr)
      assume none: "\<not> ?thesis"
      have "\<forall>t \<in> set ts. \<exists>u. detokenize_text C key t = Inr u \<Longrightarrow>
          \<exists>us. leaf_fold (detok_leaf C key) ts () = Inr (us, ())" for ts
        by (induction ts) (auto simp: detok_leaf_def)
      moreover have "\<forall>t \<in> set (leaves v). \<exists>u. detokenize_text C key t = Inr u"
        using none by (metis old.sum.exhaust)
      ultimately obtain us where
        "leaf_fold (detok_leaf C key) (leaves v) () = Inr (us, ())"
        by blast
      then have "json_traverse (detok_leaf C key) v () \<noteq> Inl e'" for e'
        using traverse_Inl(1) by (metis sum.distinct(1))
      then have "detokenize_json_value C key v \<noteq> Inl e'" for e'
        by (cases "json_traverse (detok_leaf C key) v ()")
          (auto simp: detokenize_json_value_def)
      with Pair Inl show False by (auto simp: detokenize_json_def split: sum.splits)
    qed
    with w show ?thesis using Pair Inl by (simp add: collect_string_leaves_eq)
  qed
qed

definition demo_json :: json where
  "demo_json = JObj [(''a'', JArr [JStr demo_text, JNull]), (''b'', JStr ''12345 12345'')]"

definition demo_json_scanned :: json where
  "demo_json_scanned = JObj [(''a'', JArr [JStr demo_scanned, JNull]), (''b'', JStr ''12345 12345'')]"

definition demo_report :: scan_report where
  "demo_report =
     \<lparr> rep_detections =
         [\<lparr> det_category = ''EMAIL'', det_action = Tokenized, det_count = 1 \<rparr>,
          \<lparr> det_category = ''PHONE'', det_action = Passed, det_count = 2 \<rparr>],
       rep_external = [\<lparr> det_category = ''NAME'', det_action = Tokenized, det_count = 1 \<rparr>] \<rparr>"

lemma demo_json_scan:
  "scan_json_with_external demo_crypto demo_key demo_policy demo_json [[demo_span], []]
     = (Inr demo_report, demo_json_scanned)"
  by code_simp

lemma demo_json_utf8: "\<forall>t \<in> set (collect_string_leaves demo_json). is_utf8 t"
  by code_simp

lemma scan_json_leafwise_witness:
  "\<exists>out. scan_text_with_external demo_crypto demo_key demo_policy (collect_string_leaves demo_json ! 0) [demo_span]
      = Inr out \<and> collect_string_leaves demo_json_scanned ! 0 = eso_text out"
  using scan_json_leafwise [where C = demo_crypto and key = demo_key and policy = demo_policy
      and v = demo_json and external = "[[demo_span], []]"]
  by (auto simp: demo_json_scan)

lemma scan_json_detokenize_roundtrip_witness:
  "detokenize_json demo_crypto demo_key demo_json_scanned = (Inr (), demo_json)"
proof -
  have "detokenize_json demo_crypto demo_key demo_json = (Inr (), demo_json)" by code_simp
  then show ?thesis
    using scan_json_detokenize_roundtrip [OF demo_crypto_ok demo_policy_ok demo_json_utf8 demo_json_scan]
    by simp
qed

lemma scan_json_report_totals_witness: "det_total ''PHONE'' (rep_detections demo_report) = 2
   \<and> distinct (map det_category (rep_detections demo_report))"
  using scan_json_report_totals [OF demo_json_scan] by (simp add: demo_report_def)

end
