(* ===== verification/Alias.thy ===== *)
theory Alias
  imports Json
begin

text \<open>
  Keyword aliases of \<open>crates/pii-engine/src/scan.rs\<close>: case patterns, the ASCII
  case-insensitive search, substitution in a text, its reverse that skips token spans, and
  both over the leaves of a JSON tree. The letter case of ASCII is defined here; for other
  chars the Unicode tables of the standard library are the parameter \<open>unicode\<close>.
\<close>

section \<open>Letter case\<close>

record unicode =
  uni_alphabetic :: "rchar \<Rightarrow> bool"
  uni_uppercase :: "rchar \<Rightarrow> bool"
  uni_lowercase :: "rchar \<Rightarrow> bool"
  uni_str_upper :: "rstr \<Rightarrow> rstr"
  uni_str_lower :: "rstr \<Rightarrow> rstr"

definition is_ascii_char :: "rchar \<Rightarrow> bool" where
  "is_ascii_char c \<longleftrightarrow> length c = 1 \<and> ascii_only c"

definition is_uppercase :: "unicode \<Rightarrow> rchar \<Rightarrow> bool" where
  "is_uppercase U c = (if is_ascii_char c then is_ascii_uppercase (hd c) else uni_uppercase U c)"

definition is_lowercase :: "unicode \<Rightarrow> rchar \<Rightarrow> bool" where
  "is_lowercase U c = (if is_ascii_char c then is_ascii_lowercase (hd c) else uni_lowercase U c)"

definition is_alphabetic :: "unicode \<Rightarrow> rchar \<Rightarrow> bool" where
  "is_alphabetic U c =
     (if is_ascii_char c then is_ascii_uppercase (hd c) \<or> is_ascii_lowercase (hd c)
      else uni_alphabetic U c)"

definition to_uppercase :: "unicode \<Rightarrow> rstr \<Rightarrow> rstr" where
  "to_uppercase U s = (if ascii_only s then to_ascii_uppercase s else uni_str_upper U s)"

definition to_lowercase :: "unicode \<Rightarrow> rstr \<Rightarrow> rstr" where
  "to_lowercase U s = (if ascii_only s then to_ascii_lowercase s else uni_str_lower U s)"

datatype case_pattern = Lowercase | Uppercase | Title | Mixed

definition detect_case_pattern :: "unicode \<Rightarrow> rstr \<Rightarrow> case_pattern" where
  "detect_case_pattern U s =
     (let alpha = filter (is_alphabetic U) (chars s) in
      if alpha = [] then Mixed
      else if list_all (is_uppercase U) alpha then Uppercase
      else if list_all (is_lowercase U) alpha then Lowercase
      else case chars s of
          [] \<Rightarrow> Mixed
        | c # cs \<Rightarrow>
            (if (\<not> is_alphabetic U c \<or> is_uppercase U c)
                \<and> list_all (\<lambda>c. \<not> is_alphabetic U c \<or> is_lowercase U c) cs
             then Title else Mixed))"

definition apply_case_pattern :: "unicode \<Rightarrow> rstr \<Rightarrow> case_pattern \<Rightarrow> rstr" where
  "apply_case_pattern U s p =
     (case p of
        Lowercase \<Rightarrow> to_lowercase U s
      | Uppercase \<Rightarrow> to_uppercase U s
      | Title \<Rightarrow>
          (case chars s of
             [] \<Rightarrow> []
           | c # cs \<Rightarrow> to_uppercase U c @ to_lowercase U (concat cs))
      | Mixed \<Rightarrow> s)"

section \<open>Case-insensitive search\<close>

fun offsets :: "nat \<Rightarrow> rchar list \<Rightarrow> (nat \<times> rchar) list" where
  "offsets n [] = []"
| "offsets n (c # cs) = (n, c) # offsets (n + length c) cs"

definition char_indices :: "rstr \<Rightarrow> (nat \<times> rchar) list" where
  "char_indices s = offsets 0 (chars s)"

text \<open>
  The loop over \<open>i\<close>, on the chars from \<open>i\<close> on; the range ends at the next char or at the end
  of the text.
\<close>

fun fci_loop :: "rchar list \<Rightarrow> nat \<Rightarrow> (nat \<times> rchar) list \<Rightarrow> (nat \<times> nat) option" where
  "fci_loop needle len [] = None"
| "fci_loop needle len (c # cs) =
     (if length needle > length (c # cs) then None
      else if map (\<lambda>(_, x). to_ascii_lowercase x) (take (length needle) (c # cs)) = needle then
        Some (fst c, (case drop (length needle) (c # cs) of [] \<Rightarrow> len | (b, _) # _ \<Rightarrow> b))
      else fci_loop needle len cs)"

definition find_case_insensitive :: "rstr \<Rightarrow> rstr \<Rightarrow> nat \<Rightarrow> (nat \<times> nat) option" where
  "find_case_insensitive s needle from_pos =
     (if chars needle = [] then None
      else fci_loop (map to_ascii_lowercase (chars needle)) (length s)
        (filter (\<lambda>(b, _). b \<ge> from_pos) (char_indices s)))"

section \<open>The search finds the first occurrence\<close>

lemma code_byte_lower: "code (byte_lower b) = (if 65 \<le> code b \<and> code b \<le> 90 then code b + 32 else code b)"
  by (auto simp: byte_lower_def is_ascii_uppercase_def less_eq_char_def)

lemma utf8_head_lower:
  assumes "utf8_head s = Some (c, n)"
  shows "\<exists>c'. utf8_head (to_ascii_lowercase s) = Some (c', n)"
proof -
  have cont: "is_cont (byte_lower b) \<longleftrightarrow> is_cont b" for b
    by (auto simp: is_cont_def code_byte_lower)
  have high: "byte_lower b = b" if "128 \<le> code b" for b
    using that by (auto simp: byte_lower_def is_ascii_uppercase_def less_eq_char_def)
  show ?thesis
  proof (cases s)
    case (Cons a r)
    show ?thesis
    proof (cases "code a < 128")
      case True
      then have "code (byte_lower a) < 128" by (simp add: code_byte_lower)
      with assms Cons True show ?thesis by (simp add: to_ascii_lowercase_def utf8_head.simps)
    next
      case False
      note h = high [of a]
      have c: "byte_lower b = b" if "is_cont b" for b using that high by (simp add: is_cont_def)
      from assms Cons False h show ?thesis
        by (auto simp: to_ascii_lowercase_def utf8_head.simps Let_def cont c
            split: if_splits list.splits)
    qed
  qed (use assms in simp)
qed

lemma lower_append: "to_ascii_lowercase (a @ b) = to_ascii_lowercase a @ to_ascii_lowercase b"
  by (simp add: to_ascii_lowercase_def)

lemma chars_lower:
  "is_utf8 s \<Longrightarrow> is_utf8 (to_ascii_lowercase s) \<and> chars (to_ascii_lowercase s) = map to_ascii_lowercase (chars s)"
proof (induction s rule: utf8_induct)
  case Nil
  then show ?case by (simp add: to_ascii_lowercase_def chars_def)
next
  case (step s c n)
  obtain c' where h: "utf8_head (to_ascii_lowercase s) = Some (c', n)"
    using utf8_head_lower [OF step.hyps(1)] by blast
  have d: "drop n (to_ascii_lowercase s) = to_ascii_lowercase (drop n s)"
    and t: "take n (to_ascii_lowercase s) = to_ascii_lowercase (take n s)"
    by (simp_all add: to_ascii_lowercase_def drop_map take_map)
  from step.hyps(2) step.IH obtain cs cs' where "utf8_chars (drop n s) = Some cs"
    "utf8_chars (to_ascii_lowercase (drop n s)) = Some cs'" "cs' = map to_ascii_lowercase cs"
    by (auto simp: is_utf8_def chars_def)
  then show ?case
    by (simp add: is_utf8_def chars_def utf8_chars_step [OF h] utf8_chars_step [OF step.hyps(1)] d t)
qed

lemma chars_prefix_iff:
  assumes "is_utf8 a" and "is_utf8 s"
  shows "(\<exists>r. chars s = chars a @ r) \<longleftrightarrow> starts_with a s"
proof
  assume "\<exists>r. chars s = chars a @ r"
  then obtain r where "chars s = chars a @ r" by blast
  then have "concat (chars s) = concat (chars a) @ concat r" by simp
  then show "starts_with a s" using assms by (simp add: concat_chars starts_with_iff)
next
  assume "starts_with a s"
  then obtain r where r: "s = a @ r" by (auto simp: starts_with_iff)
  then have "is_utf8 r" using assms is_utf8_append by blast
  then show "\<exists>r. chars s = chars a @ r" using r assms(1) chars_append by blast
qed

lemma chars_lower_prefix:
  assumes "is_utf8 needle" and "is_utf8 s"
  shows "length (chars needle) \<le> length (chars s)
      \<and> map to_ascii_lowercase (take (length (chars needle)) (chars s)) = map to_ascii_lowercase (chars needle)
    \<longleftrightarrow> starts_with (to_ascii_lowercase needle) (to_ascii_lowercase s)"
proof -
  have "starts_with (to_ascii_lowercase needle) (to_ascii_lowercase s)
      \<longleftrightarrow> (\<exists>r. map to_ascii_lowercase (chars s) = map to_ascii_lowercase (chars needle) @ r)"
    using chars_prefix_iff [of "to_ascii_lowercase needle" "to_ascii_lowercase s"]
      chars_lower [OF assms(1)] chars_lower [OF assms(2)] by simp
  also have "\<dots> \<longleftrightarrow> length (chars needle) \<le> length (chars s)
      \<and> map to_ascii_lowercase (take (length (chars needle)) (chars s)) = map to_ascii_lowercase (chars needle)"
  proof
    assume "\<exists>r. map to_ascii_lowercase (chars s) = map to_ascii_lowercase (chars needle) @ r"
    then obtain r where r: "map to_ascii_lowercase (chars s) = map to_ascii_lowercase (chars needle) @ r" ..
    then have "length (chars s) = length (chars needle) + length r"
      by (metis length_append length_map)
    with r show "length (chars needle) \<le> length (chars s)
      \<and> map to_ascii_lowercase (take (length (chars needle)) (chars s)) = map to_ascii_lowercase (chars needle)"
      by (simp flip: take_map)
  next
    assume "length (chars needle) \<le> length (chars s)
      \<and> map to_ascii_lowercase (take (length (chars needle)) (chars s)) = map to_ascii_lowercase (chars needle)"
    then show "\<exists>r. map to_ascii_lowercase (chars s) = map to_ascii_lowercase (chars needle) @ r"
      by (metis append_take_drop_id map_append)
  qed
  finally show ?thesis by simp
qed

lemma fci_loop_None_len: "length cs < length needle \<Longrightarrow> fci_loop needle len cs = None"
  by (cases cs) auto

lemma offsets_snd [simp]: "map snd (offsets n cs) = cs" "length (offsets n cs) = length cs"
  by (induction cs arbitrary: n) auto

lemma drop_offsets: "drop k (offsets n cs) = offsets (n + length (concat (take k cs))) (drop k cs)"
proof (induction cs arbitrary: n k)
  case (Cons c cs)
  then show ?case by (cases k) (simp_all add: add.assoc)
qed simp

lemma chars_length_drop:
  assumes "is_utf8 s" and "is_char_boundary s k"
  shows "length (chars (drop k s)) \<le> length (chars s)"
  using is_utf8_split [OF assms] chars_append [of "take k s" "drop k s"] by simp

lemma lower_prefix_boundary:
  assumes "is_utf8 needle" and "is_utf8 s"
    and "starts_with (to_ascii_lowercase needle) (to_ascii_lowercase s)"
  shows "is_char_boundary s (length needle) \<and> length needle \<le> length s"
proof -
  obtain r where r: "to_ascii_lowercase s = to_ascii_lowercase needle @ r"
    using assms(3) by (auto simp: starts_with_iff)
  have "is_utf8 r"
    using chars_lower [OF assms(1)] chars_lower [OF assms(2)] r is_utf8_append by metis
  have len: "length s = length needle + length r"
    using arg_cong [OF r, of length] by simp
  have "\<not> is_cont (s ! length needle)" if ne: "r \<noteq> []"
  proof -
    from ne obtain b q where q: "r = b # q" by (cases r) auto
    then have "\<not> is_cont b"
      using is_utf8_head [OF \<open>is_utf8 r\<close>] utf8_head_not_cont [of b q] by auto
    moreover have "to_ascii_lowercase s ! length needle = b" by (simp add: r q nth_append)
    then have "byte_lower (s ! length needle) = b" using len q by (simp add: to_ascii_lowercase_def)
    ultimately show ?thesis by (auto simp: is_cont_def code_byte_lower)
  qed
  with len show ?thesis by (cases r) (auto simp: is_char_boundary_def)
qed

lemma utf8_boundary_step:
  assumes "utf8_head s = Some (c, m)" and "is_char_boundary s k" and "0 < k"
  shows "m \<le> k \<and> is_char_boundary (drop m s) (k - m)"
proof -
  have m: "0 < m" "m \<le> length s" using utf8_head_bounds [OF assms(1)] by auto
  have "m \<le> k"
  proof (rule ccontr)
    assume "\<not> m \<le> k"
    with utf8_head_conts [OF assms(1,3)] m assms(2,3) show False by (auto simp: is_char_boundary_def)
  qed
  with assms m show ?thesis by (auto simp: is_char_boundary_def)
qed

text \<open>On the chars of a suffix that starts at \<open>n\<close>, the loop is a search for the lowercased needle.\<close>

definition lower_at :: "rstr \<Rightarrow> rstr \<Rightarrow> nat \<Rightarrow> bool" where
  "lower_at needle s k \<longleftrightarrow>
     is_char_boundary s k \<and> k \<le> length s
     \<and> starts_with (to_ascii_lowercase needle) (to_ascii_lowercase (drop k s))"

lemma chars_step:
  assumes "utf8_head s = Some (c, m)" and "is_utf8 (drop m s)"
  shows "chars s = take m s # chars (drop m s)"
  using assms by (auto simp: chars_def utf8_chars_step [OF assms(1)] is_utf8_def)

lemma utf8_boundary_at:
  assumes "is_utf8 (drop m s)" and "m \<le> length s"
  shows "is_char_boundary s m"
proof (cases "m = length s")
  case False
  with assms(2) have d: "drop m s = s ! m # drop (Suc m) s" by (simp add: Cons_nth_drop_Suc)
  with is_utf8_head [OF assms(1)] utf8_head_not_cont [of "s ! m" "drop (Suc m) s"] False assms(2)
  show ?thesis by (auto simp: is_char_boundary_def)
qed simp

lemma lower_at_step:
  assumes "utf8_head s = Some (c, m)" and "is_utf8 (drop m s)" and "0 < k"
  shows "lower_at needle s k \<longleftrightarrow> m \<le> k \<and> lower_at needle (drop m s) (k - m)"
proof -
  have m: "0 < m" "m \<le> length s" using utf8_head_bounds [OF assms(1)] by auto
  show ?thesis
  proof
    assume at: "lower_at needle s k"
    then show "m \<le> k \<and> lower_at needle (drop m s) (k - m)"
      using utf8_boundary_step [OF assms(1) _ assms(3)] m by (auto simp: lower_at_def)
  next
    assume "m \<le> k \<and> lower_at needle (drop m s) (k - m)"
    then show "lower_at needle s k"
      using m utf8_boundary_at [OF assms(2) m(2)]
      by (cases "m = k") (auto simp: lower_at_def is_char_boundary_def)
  qed
qed

lemma offsets_Cons: "cs \<noteq> [] \<Longrightarrow> offsets n cs = (n, hd cs) # offsets (n + length (hd cs)) (tl cs)"
  by (cases cs) auto

lemma offsets_texts: "map (\<lambda>(_, x). f x) (take k (offsets n cs)) = map f (take k cs)"
proof (induction cs arbitrary: n k)
  case (Cons c cs)
  then show ?case by (cases k) simp_all
qed simp

lemma concat_length_map:
  assumes "map to_ascii_lowercase xs = map to_ascii_lowercase ys"
  shows "length (concat xs) = length (concat ys)"
proof -
  have "map length xs = map length ys"
    using arg_cong [OF assms, of "map length"] by (simp add: comp_def)
  then show ?thesis by (simp add: length_concat)
qed

text \<open>The loop's answer when its window matches at the first char.\<close>

lemma fci_loop_hit:
  assumes "is_utf8 needle" and "is_utf8 s" and "needle \<noteq> []" and "lower_at needle s 0"
  shows "fci_loop (map to_ascii_lowercase (chars needle)) (n + length s) (offsets n (chars s))
    = Some (n, n + length needle)"
proof -
  let ?nl = "map to_ascii_lowercase (chars needle)" and ?N = "length (chars needle)" and ?cs = "chars s"
  have N: "?N \<le> length ?cs" "map to_ascii_lowercase (take ?N ?cs) = ?nl"
    using chars_lower_prefix [OF assms(1,2)] assms(4) by (auto simp: lower_at_def)
  have "chars needle \<noteq> []" using concat_chars [OF assms(1)] assms(3) by auto
  with N(1) have ne: "?cs \<noteq> []" by auto
  have len: "length (concat (take ?N ?cs)) = length needle"
    using concat_length_map [OF N(2)] concat_chars [OF assms(1)] by simp
  have "(case drop ?N (offsets n ?cs) of [] \<Rightarrow> n + length s | (b, _) # _ \<Rightarrow> b) = n + length needle"
  proof (cases "drop ?N ?cs")
    case Nil
    then have "take ?N ?cs = ?cs" by simp
    then have "length needle = length s" using len concat_chars [OF assms(2)] by simp
    with Nil show ?thesis by (simp add: drop_offsets)
  next
    case (Cons x xs)
    then show ?thesis by (simp add: drop_offsets len)
  qed
  moreover have "map (\<lambda>(_, x). to_ascii_lowercase x) (take ?N (offsets n ?cs)) = ?nl"
    using N(2) by (simp add: offsets_texts)
  moreover have "?N \<le> length (offsets n ?cs)" using N(1) by simp
  ultimately show ?thesis using offsets_Cons [OF ne, of n] by simp
qed

lemma fci_loop_miss:
  assumes "is_utf8 needle" and "is_utf8 s" and "chars s = x # cs" and "\<not> lower_at needle s 0"
    and "length (chars needle) \<le> length (chars s)"
  shows "fci_loop (map to_ascii_lowercase (chars needle)) len (offsets n (chars s))
    = fci_loop (map to_ascii_lowercase (chars needle)) len (offsets (n + length x) cs)"
proof -
  have "map to_ascii_lowercase (take (length (chars needle)) (chars s)) \<noteq> map to_ascii_lowercase (chars needle)"
    using chars_lower_prefix [OF assms(1,2)] assms(4,5) by (simp add: lower_at_def)
  then have "map (\<lambda>(_, y). to_ascii_lowercase y) (take (length (chars needle)) (offsets n (chars s)))
      \<noteq> map to_ascii_lowercase (chars needle)"
    by (simp add: offsets_texts)
  moreover have "length (chars needle) \<le> length (offsets n (chars s))" using assms(5) by simp
  moreover have "offsets n (chars s) = (n, x) # offsets (n + length x) cs" by (simp add: assms(3))
  ultimately show ?thesis by simp
qed

lemma fci_loop_short:
  assumes "is_utf8 needle" and "is_utf8 s" and "length (chars s) < length (chars needle)"
  shows "\<not> lower_at needle s k"
proof
  assume at: "lower_at needle s k"
  then have "is_utf8 (drop k s)" using is_utf8_split [OF assms(2)] by (simp add: lower_at_def)
  with at chars_lower_prefix [OF assms(1), of "drop k s"] chars_length_drop [OF assms(2), of k] assms(3)
  show False by (simp add: lower_at_def)
qed

lemma fci_loop_spec:
  assumes "is_utf8 needle" and "needle \<noteq> []" and "is_utf8 s"
  shows "case fci_loop (map to_ascii_lowercase (chars needle)) (n + length s) (offsets n (chars s)) of
      None \<Rightarrow> \<forall>k. \<not> lower_at needle s k
    | Some (i, j) \<Rightarrow> n \<le> i \<and> j = i + length needle \<and> lower_at needle s (i - n)
        \<and> (\<forall>k. n + k < i \<longrightarrow> \<not> lower_at needle s k)"
  using assms(3)
proof (induction s arbitrary: n rule: utf8_induct)
  case Nil
  then show ?case using assms(2) by (auto simp: chars_def lower_at_def starts_with_def to_ascii_lowercase_def)
next
  case (step s c m)
  have m: "0 < m" "m \<le> length s" using utf8_head_bounds [OF step.hyps(1)] by auto
  have utf: "is_utf8 s" using step.hyps is_utf8_step by blast
  have cs: "chars s = take m s # chars (drop m s)" by (rule chars_step [OF step.hyps(1,2)])
  note at = lower_at_step [OF step.hyps(1,2)]
  consider (short) "length (chars s) < length (chars needle)" | (hit) "lower_at needle s 0"
    | (miss) "length (chars needle) \<le> length (chars s)" "\<not> lower_at needle s 0"
    by linarith
  then show ?case
  proof cases
    case short
    then show ?thesis
      using fci_loop_short [OF assms(1) utf short] fci_loop_None_len [of "offsets n (chars s)"] by simp
  next
    case hit
    then show ?thesis using fci_loop_hit [OF assms(1) utf assms(2) hit] by simp
  next
    case miss
    let ?r = "fci_loop (map to_ascii_lowercase (chars needle)) (n + length s) (offsets n (chars s))"
    have r: "?r = fci_loop (map to_ascii_lowercase (chars needle)) (n + m + length (drop m s))
        (offsets (n + m) (chars (drop m s)))"
      using fci_loop_miss [OF assms(1) utf cs miss(2,1)] m by simp
    note IH = step.IH [of "n + m", folded r]
    have at': "lower_at needle s k \<longleftrightarrow> m \<le> k \<and> lower_at needle (drop m s) (k - m)" for k
      using at [of k needle] miss(2) m by (cases "k = 0") auto
    show ?thesis
    proof (cases ?r)
      case None
      with IH at' show ?thesis by simp
    next
      case (Some ij)
      obtain i j where ij: "ij = (i, j)" by (cases ij)
      from IH Some ij have I: "n + m \<le> i" "j = i + length needle" "lower_at needle (drop m s) (i - (n + m))"
        "\<forall>k. n + m + k < i \<longrightarrow> \<not> lower_at needle (drop m s) k" by auto
      have "\<not> lower_at needle s k" if "n + k < i" for k
      proof (cases "m \<le> k")
        case True
        with I(4) that have "\<not> lower_at needle (drop m s) (k - m)" by (auto dest: spec [of _ "k - m"])
        then show ?thesis by (simp add: at')
      qed (simp add: at')
      moreover have "lower_at needle s (i - n)" using I(1,3) by (simp add: at')
      ultimately show ?thesis using Some ij I by simp
    qed
  qed
qed

lemma chars_nonempty: "c \<in> set (chars s) \<Longrightarrow> c \<noteq> []"
proof -
  have "\<forall>cs. utf8_chars s = Some cs \<longrightarrow> [] \<notin> set cs"
  proof (induction s rule: utf8_chars.induct)
    case (1 s)
    show ?case
    proof (cases "s = []")
      case False
      with 1 show ?thesis
        using utf8_head_bounds [of s]
        by (auto simp: utf8_chars.simps [of s] split: option.splits)
    qed simp
  qed
  then show "c \<in> set (chars s) \<Longrightarrow> c \<noteq> []" by (auto simp: chars_def split: option.splits)
qed

lemma offsets_bounds:
  "\<forall>c \<in> set cs. c \<noteq> [] \<Longrightarrow> x \<in> set (offsets n cs) \<Longrightarrow> n \<le> fst x \<and> fst x < n + length (concat cs)"
proof (induction cs arbitrary: n)
  case (Cons c cs)
  then have "0 < length c" by simp
  show ?case
  proof (cases "x = (n, c)")
    case True
    with \<open>0 < length c\<close> show ?thesis by simp
  next
    case False
    with Cons.prems have "x \<in> set (offsets (n + length c) cs)" by simp
    with Cons.IH [of "n + length c"] Cons.prems(1) show ?thesis by simp
  qed
qed simp

lemma offsets_increasing: "\<forall>c \<in> set cs. c \<noteq> [] \<Longrightarrow> sorted_wrt (<) (map fst (offsets n cs))"
proof (induction cs arbitrary: n)
  case (Cons c cs)
  then have "n < fst x" if "x \<in> set (offsets (n + length c) cs)" for x
    using offsets_bounds [of cs x "n + length c"] that by (cases c) auto
  with Cons show ?case by auto
qed simp

lemma filter_offsets:
  assumes "is_utf8 s" and "is_char_boundary s k" and "k \<le> length s"
  shows "filter (\<lambda>(b, _). b \<ge> k) (char_indices s) = offsets k (chars (drop k s))"
proof -
  have parts: "is_utf8 (take k s)" "is_utf8 (drop k s)" using is_utf8_split [OF assms(1,2)] by auto
  have cs: "chars s = chars (take k s) @ chars (drop k s)"
    using chars_append [OF parts] by simp
  have app: "offsets n (xs @ ys) = offsets n xs @ offsets (n + length (concat xs)) ys" for n xs ys
    by (induction xs arbitrary: n) (simp_all add: add.assoc)
  have ck: "length (concat (chars (take k s))) = k" using concat_chars [OF parts(1)] assms(3) by simp
  have ne: "\<forall>c \<in> set (chars u). c \<noteq> []" for u using chars_nonempty by blast
  have "filter (\<lambda>x. fst x \<ge> k) (offsets 0 (chars (take k s))) = []"
    using offsets_bounds [OF ne, of _ 0 "take k s"] ck by (fastforce simp: filter_empty_conv)
  moreover have "filter (\<lambda>x. fst x \<ge> k) (offsets k (chars (drop k s))) = offsets k (chars (drop k s))"
    using offsets_bounds [OF ne, of _ k "drop k s"] by (simp add: filter_id_conv)
  ultimately show ?thesis by (simp add: char_indices_def cs app ck case_prod_unfold)
qed

lemma lower_at_drop:
  assumes "is_char_boundary s k" and "k \<le> length s" and "is_utf8 s"
  shows "lower_at needle (drop k s) i \<longleftrightarrow> lower_at needle s (k + i)"
proof (cases "i = 0")
  case True
  with assms show ?thesis by (simp add: lower_at_def)
next
  case False
  with assms(2) show ?thesis by (auto simp: lower_at_def is_char_boundary_def add.commute)
qed

lemma find_case_insensitive_spec:
  assumes "is_utf8 s" and "is_utf8 needle" and "needle \<noteq> []" and "is_char_boundary s p" and "p \<le> length s"
  shows "case find_case_insensitive s needle p of
      None \<Rightarrow> \<forall>k \<ge> p. \<not> lower_at needle s k
    | Some (i, j) \<Rightarrow> p \<le> i \<and> j = i + length needle \<and> lower_at needle s i
        \<and> (\<forall>k. p \<le> k \<and> k < i \<longrightarrow> \<not> lower_at needle s k)"
proof -
  have ne: "chars needle \<noteq> []" using concat_chars [OF assms(2)] assms(3) by auto
  have utf: "is_utf8 (drop p s)" using is_utf8_split [OF assms(1,4)] by simp
  have eq: "find_case_insensitive s needle p =
      fci_loop (map to_ascii_lowercase (chars needle)) (p + length (drop p s)) (offsets p (chars (drop p s)))"
    using ne assms(5) by (simp add: find_case_insensitive_def filter_offsets [OF assms(1,4,5)])
  note sp = fci_loop_spec [OF assms(2,3) utf, of p, folded eq] and at = lower_at_drop [OF assms(4,5,1)]
  show ?thesis
  proof (cases "find_case_insensitive s needle p")
    case None
    have "\<not> lower_at needle s k" if "p \<le> k" for k
      using sp at [of needle "k - p"] that by (simp add: None)
    with None show ?thesis by simp
  next
    case (Some ij)
    obtain i j where ij: "ij = (i, j)" by (cases ij)
    from sp have I: "p \<le> i" "j = i + length needle" "lower_at needle s i"
      "\<forall>k. p + k < i \<longrightarrow> \<not> lower_at needle s (p + k)"
      by (auto simp: Some ij at)
    have "\<not> lower_at needle s k" if "p \<le> k" "k < i" for k
      using I(4) that by (auto dest: spec [of _ "k - p"])
    with I Some ij show ?thesis by simp
  qed
qed

text \<open>Progress holds for every byte string, so the substitution loop terminates.\<close>

lemma fci_loop_progress:
  assumes "sorted_wrt (<) (map fst cs)" and "\<forall>b \<in> fst ` set cs. p \<le> b \<and> b < len" and "needle \<noteq> []"
    and "fci_loop needle len cs = Some (i, j)"
  shows "p \<le> i \<and> i < j"
  using assms
proof (induction cs)
  case (Cons c cs)
  show ?case
  proof (cases "fci_loop needle len (c # cs) = fci_loop needle len cs")
    case True
    with Cons show ?thesis by auto
  next
    case False
    with Cons.prems(4) have i: "i = fst c"
      and j: "j = (case drop (length needle) (c # cs) of [] \<Rightarrow> len | (b, _) # _ \<Rightarrow> b)"
      by (auto split: if_splits)
    obtain k where k: "length needle = Suc k" using Cons.prems(3) by (cases needle) auto
    have "i < j"
    proof (cases "drop k cs")
      case Nil
      with Cons.prems(2) show ?thesis by (simp add: i j k)
    next
      case (Cons x xs)
      then have "x \<in> set cs" by (metis in_set_dropD list.set_intros(1))
      with \<open>sorted_wrt (<) (map fst (c # cs))\<close> Cons show ?thesis by (auto simp: i j k split: prod.splits)
    qed
    with Cons.prems(2) i show ?thesis by auto
  qed
qed simp

lemma find_case_insensitive_progress:
  assumes "find_case_insensitive s needle p = Some (i, j)"
  shows "p \<le> i \<and> i < j"
proof -
  from assms have ne: "chars needle \<noteq> []"
    and loop: "fci_loop (map to_ascii_lowercase (chars needle)) (length s)
      (filter (\<lambda>(b, _). b \<ge> p) (char_indices s)) = Some (i, j)"
    by (auto simp: find_case_insensitive_def split: if_splits)
  have "is_utf8 s"
  proof (rule ccontr)
    assume "\<not> is_utf8 s"
    then have "chars s = []" by (simp add: chars_def is_utf8_def)
    with loop show False by (simp add: char_indices_def)
  qed
  then have "length (concat (chars s)) = length s" by (simp add: concat_chars)
  with offsets_increasing [of "chars s" 0] offsets_bounds [of "chars s" _ 0] chars_nonempty
  have inc: "sorted_wrt (<) (map fst (char_indices s))" "\<forall>b \<in> fst ` set (char_indices s). b < length s"
    by (auto simp: char_indices_def)
  have "sorted_wrt (<) (map fst (filter (\<lambda>(b, _). b \<ge> p) (char_indices s)))"
    using inc(1) by (simp add: sorted_wrt_map sorted_wrt_filter)
  then show ?thesis
    by (rule fci_loop_progress [OF _ _ _ loop]) (use inc(2) ne in auto)
qed

section \<open>Substitution\<close>

definition find_next :: "bool \<Rightarrow> rstr \<Rightarrow> rstr \<Rightarrow> nat \<Rightarrow> (nat \<times> nat) option" where
  "find_next case_sensitive s needle pos =
     (if case_sensitive
      then map_option (\<lambda>rel. (pos + rel, pos + rel + length needle)) (find_str needle (drop pos s))
      else find_case_insensitive s needle pos)"

lemma find_next_progress: "find_next cs s needle pos = Some (i, j) \<Longrightarrow> needle \<noteq> [] \<Longrightarrow> pos \<le> i \<and> i < j"
  by (auto simp: find_next_def dest: find_case_insensitive_progress split: if_splits)

text \<open>The caller returns early on an empty needle, which the loop repeats to be total.\<close>

function subst_loop ::
  "unicode \<Rightarrow> rstr \<Rightarrow> rstr \<Rightarrow> rstr \<Rightarrow> bool \<Rightarrow> (rstr \<Rightarrow> rstr) \<Rightarrow> nat \<Rightarrow> rstr" where
  "subst_loop U s needle replacement case_sensitive render pos =
     (if pos < length s \<and> needle \<noteq> [] then
        (case find_next case_sensitive s needle pos of
           Some (i, j) \<Rightarrow>
             slice s pos i
             @ render (if case_sensitive then replacement
                       else apply_case_pattern U replacement (detect_case_pattern U (slice s i j)))
             @ subst_loop U s needle replacement case_sensitive render j
         | None \<Rightarrow> drop pos s)
      else [])"
  by pat_completeness auto
termination
  by (relation "measure (\<lambda>(U, s, needle, replacement, case_sensitive, render, pos). length s - pos)")
    (auto dest!: find_next_progress)

declare subst_loop.simps [simp del]

definition substitute_preserving_case_with ::
  "unicode \<Rightarrow> rstr \<Rightarrow> rstr \<Rightarrow> rstr \<Rightarrow> bool \<Rightarrow> (rstr \<Rightarrow> rstr) \<Rightarrow> rstr" where
  "substitute_preserving_case_with U s needle replacement case_sensitive render =
     (if needle = [] then s else subst_loop U s needle replacement case_sensitive render 0)"

definition substitute_preserving_case :: "unicode \<Rightarrow> rstr \<Rightarrow> rstr \<Rightarrow> rstr \<Rightarrow> bool \<Rightarrow> rstr" where
  "substitute_preserving_case U s needle replacement case_sensitive =
     substitute_preserving_case_with U s needle replacement case_sensitive (\<lambda>x. x)"

definition alias_text :: "unicode \<Rightarrow> rstr \<Rightarrow> rstr \<Rightarrow> rstr \<Rightarrow> bool \<Rightarrow> rstr" where
  "alias_text U s match_t al case_sensitive = substitute_preserving_case U s match_t al case_sensitive"

definition unalias_text :: "unicode \<Rightarrow> rstr \<Rightarrow> rstr \<Rightarrow> rstr \<Rightarrow> bool \<Rightarrow> rstr" where
  "unalias_text U s match_t al case_sensitive = substitute_preserving_case U s al match_t case_sensitive"

definition unalias_segment ::
  "unicode \<Rightarrow> rstr \<Rightarrow> rstr \<Rightarrow> bool \<Rightarrow> (rstr \<Rightarrow> rstr) \<Rightarrow> segment \<Rightarrow> rstr" where
  "unalias_segment U match_t al case_sensitive render x =
     (case x of
        Plain t _ \<Rightarrow> substitute_preserving_case_with U t al match_t case_sensitive render
      | Masked m \<Rightarrow> m)"

definition unalias_text_preserving_tokens_with ::
  "unicode \<Rightarrow> rstr \<Rightarrow> rstr \<Rightarrow> rstr \<Rightarrow> bool \<Rightarrow> (rstr \<Rightarrow> rstr) \<Rightarrow> rstr" where
  "unalias_text_preserving_tokens_with U s match_t al case_sensitive render =
     concat (map (unalias_segment U match_t al case_sensitive render) (mask_spans s))"

definition unalias_text_preserving_tokens :: "unicode \<Rightarrow> rstr \<Rightarrow> rstr \<Rightarrow> rstr \<Rightarrow> bool \<Rightarrow> rstr" where
  "unalias_text_preserving_tokens U s match_t al case_sensitive =
     unalias_text_preserving_tokens_with U s match_t al case_sensitive (\<lambda>x. x)"

section \<open>Aliases over a JSON tree\<close>

text \<open>The recursion adds one for every leaf that changes, as a 32-bit count.\<close>

definition map_leaf :: "(rstr \<Rightarrow> rstr) \<Rightarrow> rstr \<Rightarrow> u32 \<Rightarrow> unit + rstr \<times> u32" where
  "map_leaf transform s n =
     (let rewritten = transform s in
      if rewritten = s then Inr (s, n) else Inr (rewritten, n + 1))"

definition map_json_strings :: "(rstr \<Rightarrow> rstr) \<Rightarrow> json \<Rightarrow> json \<times> u32" where
  "map_json_strings transform v =
     (case json_traverse (map_leaf transform) v 0 of Inl _ \<Rightarrow> (v, 0) | Inr r \<Rightarrow> r)"

definition alias_json :: "unicode \<Rightarrow> compiled_keyword \<Rightarrow> json \<Rightarrow> json \<times> u32" where
  "alias_json U kw v =
     map_json_strings (\<lambda>s. alias_text U s (match_text kw) (kw_alias kw) (kw_case_sensitive kw)) v"

definition unalias_json_preserving_tokens :: "unicode \<Rightarrow> compiled_keyword \<Rightarrow> json \<Rightarrow> json \<times> u32" where
  "unalias_json_preserving_tokens U kw v =
     map_json_strings
       (\<lambda>s. unalias_text_preserving_tokens U s (match_text kw) (kw_alias kw) (kw_case_sensitive kw)) v"

section \<open>Substitution as replacement\<close>

function replace_all :: "rstr \<Rightarrow> rstr \<Rightarrow> rstr \<Rightarrow> rstr" where
  "replace_all needle replacement s =
     (case find_str needle s of
        None \<Rightarrow> s
      | Some i \<Rightarrow>
          (if needle = [] then s
           else take i s @ replacement @ replace_all needle replacement (drop (i + length needle) s)))"
  by pat_completeness auto
termination
proof (relation "measure (\<lambda>(needle, replacement, s). length s)", goal_cases)
  case (2 needle replacement s i)
  with find_str_Some [OF 2(1)] show ?case by (cases needle) auto
qed simp

declare replace_all.simps [simp del]

lemma subst_loop_replace:
  "subst_loop U s needle replacement True render pos
     = (if needle = [] then [] else replace_all needle (render replacement) (drop pos s))"
proof (induction U s needle replacement "True" render pos rule: subst_loop.induct)
  case (1 U s needle replacement render pos)
  show ?case
  proof (cases "pos < length s \<and> needle \<noteq> []")
    case True
    show ?thesis
    proof (cases "find_str needle (drop pos s)")
      case None
      with True show ?thesis
        by (simp add: subst_loop.simps [of U s] replace_all.simps [of _ _ "drop pos s"] find_next_def)
    next
      case (Some i)
      have IH: "subst_loop U s needle replacement True render (pos + i + length needle)
          = replace_all needle (render replacement) (drop (pos + i + length needle) s)"
        using "1.hyps" [OF True, of "(pos + i, pos + i + length needle)" "pos + i" "pos + i + length needle"]
          True Some by (simp add: find_next_def)
      have sl: "slice s pos (pos + i) = take i (drop pos s)" by (simp add: slice_def drop_take)
      have d: "drop (i + length needle) (drop pos s) = drop (pos + i + length needle) s"
        by (simp add: ac_simps)
      have "subst_loop U s needle replacement True render pos
          = take i (drop pos s) @ render replacement
            @ replace_all needle (render replacement) (drop (pos + i + length needle) s)"
        using True Some by (subst subst_loop.simps) (simp only: find_next_def if_True option.map option.case
            prod.case sl IH simp_thms)
      moreover have "replace_all needle (render replacement) (drop pos s)
          = take i (drop pos s) @ render replacement
            @ replace_all needle (render replacement) (drop (pos + i + length needle) s)"
        using True Some by (subst replace_all.simps) (simp only: option.case if_False d simp_thms)
      ultimately show ?thesis using True by simp
    qed
  next
    case False
    have "find_str needle [] = None" if "needle \<noteq> []" using that by simp
    with False show ?thesis
      by (auto simp: subst_loop.simps [of U s] replace_all.simps [of _ _ "drop pos s"])
  qed
qed

lemma alias_text_replace: "alias_text U s m a True = (if m = [] then s else replace_all m a s)"
  by (simp add: alias_text_def substitute_preserving_case_def substitute_preserving_case_with_def
      subst_loop_replace)

lemma unalias_text_replace: "unalias_text U s m a True = (if a = [] then s else replace_all a m s)"
  by (simp add: unalias_text_def substitute_preserving_case_def substitute_preserving_case_with_def
      subst_loop_replace)

lemma replace_all_inverse:
  assumes "m \<noteq> []" and "h \<notin> set s" and "h \<notin> set r"
  shows "replace_all (h # r) m (replace_all m (h # r) s) = s"
  using assms(2)
proof (induction s rule: length_induct)
  case (1 s)
  have absent: "find_str (h # r) u = None" if "h \<notin> set u" for u
    using that by (induction u) (auto simp: starts_with_def)
  show ?case
  proof (cases "find_str m s")
    case None
    then show ?thesis using absent [OF "1.prems"] by (simp add: replace_all.simps)
  next
    case (Some i)
    note at = find_str_Some [OF Some]
    let ?rest = "drop (i + length m) s"
    have out: "replace_all m (h # r) s = take i s @ (h # r) @ replace_all m (h # r) ?rest"
      using assms(1) Some by (simp add: replace_all.simps [of m _ s])
    have "h \<notin> set (take i s)" using "1.prems" by (auto dest: in_set_takeD)
    then have found: "find_str (h # r) (replace_all m (h # r) s) = Some i"
      using find_str_first [of h "take i s" r "replace_all m (h # r) ?rest"] at by (simp add: out)
    have "length ?rest < length s" using at assms(1) by (cases m) auto
    moreover have "h \<notin> set ?rest" using "1.prems" by (auto dest: in_set_dropD)
    ultimately have IH: "replace_all (h # r) m (replace_all m (h # r) ?rest) = ?rest" using "1.IH" by blast
    have "replace_all (h # r) m (replace_all m (h # r) s) = take i s @ m @ ?rest"
      using found at IH by (subst replace_all.simps) (simp add: out)
    also have "\<dots> = s" using at by (metis append_take_drop_id drop_drop add.commute)
    finally show ?thesis .
  qed
qed

section \<open>Unmasking keeps the token spans\<close>

definition resegment :: "(rstr \<Rightarrow> rstr) \<Rightarrow> segment list \<Rightarrow> segment list" where
  "resegment f segs =
     concat (map (\<lambda>x. case x of Plain t _ \<Rightarrow> mask_spans (f t) | Masked m \<Rightarrow> [Masked m]) segs)"

lemma resegment_simps [simp]:
  "resegment f [] = []"
  "resegment f (Plain t k # r) = mask_spans (f t) @ resegment f r"
  "resegment f (Masked m # r) = Masked m # resegment f r"
  by (simp_all add: resegment_def)

lemma resegment_wf: "segs_wf segs \<Longrightarrow> segs_wf (resegment f segs)"
  by (induction segs rule: segs_wf.induct) (auto simp: mask_spans_wf intro: segs_wf_append_masked)

lemma render_resegment:
  "render_segs (resegment f segs) = concat (map (\<lambda>x. case x of Plain t _ \<Rightarrow> f t | Masked m \<Rightarrow> m) segs)"
  by (induction segs) (auto simp: render_mask_spans split: segment.splits)

lemma masked_resegment: "subseq (masked_of segs) (masked_of (resegment f segs))"
  by (induction segs rule: masked_of.induct) (auto intro: list_emb_append2)

lemma unalias_spans:
  "subseq (spans_of s) (spans_of (unalias_text_preserving_tokens_with U s m a cs render))"
proof -
  let ?f = "\<lambda>t. substitute_preserving_case_with U t a m cs render"
  have eq: "unalias_text_preserving_tokens_with U s m a cs render = render_segs (resegment ?f (mask_spans s))"
    unfolding unalias_text_preserving_tokens_with_def render_resegment
    by (rule arg_cong [where f = concat]) (auto simp: unalias_segment_def split: segment.splits)
  have "subseq (masked_of (mask_spans s)) (masked_of (mask_spans (render_segs (resegment ?f (mask_spans s)))))"
    unfolding masked_of_render [OF resegment_wf [OF mask_spans_wf]] by (rule masked_resegment)
  then show ?thesis by (simp add: eq spans_of_def flip: masked_of_mask_spans)
qed

section \<open>Counting changed leaves\<close>

lemma map_fold:
  "leaf_fold (map_leaf f) ts n
     = Inr (map f ts, n + of_nat (length (filter (\<lambda>t. f t \<noteq> t) ts)))"
  by (induction ts arbitrary: n) (auto simp: map_leaf_def Let_def ac_simps)

lemma map_json_strings_spec:
  "leaves (fst (map_json_strings f v)) = map f (leaves v)
   \<and> skeleton (fst (map_json_strings f v)) = skeleton v
   \<and> snd (map_json_strings f v) = of_nat (length (filter (\<lambda>t. f t \<noteq> t) (leaves v)))"
proof (cases "json_traverse (map_leaf f) v 0")
  case (Inl a)
  with traverse_Inl(1) [OF Inl] show ?thesis by (simp add: map_fold)
next
  case (Inr p)
  obtain w n where "p = (w, n)" by (cases p)
  with Inr traverse_Inr(1) [of "map_leaf f" v 0 w n] show ?thesis
    by (simp add: map_json_strings_def map_fold)
qed

section \<open>Properties\<close>

text \<open>The case-insensitive search returns the first occurrence at or after its start: a range as
  long as the needle, on a char boundary, equal to the needle up to ASCII case, with no such
  occurrence before it; and nothing is found only when there is none.\<close>

theorem find_case_insensitive_first:
  assumes "is_utf8 s" and "is_utf8 needle" and "needle \<noteq> []" and "is_char_boundary s p" and "p \<le> length s"
  shows "case find_case_insensitive s needle p of
      None \<Rightarrow> \<forall>k \<ge> p. \<not> lower_at needle s k
    | Some (i, j) \<Rightarrow> p \<le> i \<and> j = i + length needle \<and> lower_at needle s i
        \<and> (\<forall>k. p \<le> k \<and> k < i \<longrightarrow> \<not> lower_at needle s k)"
  by (rule find_case_insensitive_spec [OF assms])

lemma find_case_insensitive_first_witness:
  "lower_at ''Bob'' ''a bOB'' 2 \<and> \<not> lower_at ''Bob'' ''a bOB'' 1"
proof -
  have "is_utf8 ''a bOB''" "is_utf8 ''Bob''" "is_char_boundary ''a bOB'' 1"
    and "find_case_insensitive ''a bOB'' ''Bob'' 1 = Some (2, 5)"
    by code_simp+
  then show ?thesis using find_case_insensitive_first [of "''a bOB''" "''Bob''" 1] by simp
qed

text \<open>Unmasking a keyword never damages a token: the token spans of a text survive in order,
  byte for byte, whatever the alias, the text put in its place and the rendering are.\<close>

theorem unalias_preserves_tokens:
  "subseq (spans_of s) (spans_of (unalias_text_preserving_tokens_with U s m a case_sensitive render))"
  by (rule unalias_spans)

text \<open>C40. Masking and unmasking a non-empty case-sensitive keyword is the identity when the first byte of the
  alias occurs neither in the text nor again in the alias.\<close>

theorem alias_unalias_roundtrip:
  assumes "m \<noteq> []" and "h \<notin> set s" and "h \<notin> set r"
  shows "unalias_text U (alias_text U s m (h # r) True) m (h # r) True = s"
  using assms by (simp add: alias_text_replace unalias_text_replace replace_all_inverse)

definition ascii_unicode :: unicode where
  "ascii_unicode =
     \<lparr> uni_alphabetic = (\<lambda>_. False), uni_uppercase = (\<lambda>_. False), uni_lowercase = (\<lambda>_. False),
       uni_str_upper = (\<lambda>s. s), uni_str_lower = (\<lambda>s. s) \<rparr>"

lemma alias_unalias_roundtrip_witness:
  "unalias_text ascii_unicode (alias_text ascii_unicode ''see Acme, Acme'' ''Acme'' ''Brandex'' True) ''Acme'' ''Brandex'' True
     = ''see Acme, Acme''"
  by (rule alias_unalias_roundtrip) simp_all

text \<open>Aliasing a tree keeps its shape and keys, rewrites each string leaf as the text substitution
  does, and reports the number of leaves that changed.\<close>

theorem alias_json_leafwise:
  "let f = (\<lambda>s. alias_text U s (match_text kw) (kw_alias kw) (kw_case_sensitive kw));
       r = alias_json U kw v
   in skeleton (fst r) = skeleton v
      \<and> collect_string_leaves (fst r) = map f (collect_string_leaves v)
      \<and> snd r = of_nat (length (filter (\<lambda>t. f t \<noteq> t) (collect_string_leaves v)))"
  using map_json_strings_spec [of "\<lambda>s. alias_text U s (match_text kw) (kw_alias kw) (kw_case_sensitive kw)" v]
  by (simp add: Let_def alias_json_def collect_string_leaves_eq)

end
