(* ===== verification/Proxy_Pii.thy ===== *)
theory Proxy_Pii
  imports Alias
begin

text \<open>
  The proxy's use of the engine, \<open>containers/proxy/src/pii.rs\<close>: loading the policy and key,
  scanning the request body, the response transforms, and the prefix of a stream that may be
  transformed now. The file system, the JSON printer and parser and the Unicode tables are
  parameters.
\<close>

section \<open>Engine state\<close>

datatype load_failure =
    DefaultPolicyInvalid policy_error
  | PolicyUnreadable rstr
  | PolicyInvalid rstr policy_error
  | PolicyWithoutParent rstr
  | KeyUnreadable rstr
  | KeyInvalid rstr siv_error

datatype pii_engine_state = Ready compiled_policy engine_key | Failed load_failure

text \<open>What the loader reads: files, the directory of a path, the built-in policy and randomness.\<close>

record load_env =
  read_file :: "rstr \<Rightarrow> rstr option"
  sibling_key :: "rstr \<Rightarrow> rstr option"
  compile_json :: "rstr \<Rightarrow> policy_error + compiled_policy"
  default_json :: rstr
  random_key :: engine_key

definition default_state :: "load_env \<Rightarrow> pii_engine_state" where
  "default_state E =
     (case compile_json E (default_json E) of
        Inr policy \<Rightarrow> Ready policy (random_key E)
      | Inl e \<Rightarrow> Failed (DefaultPolicyInvalid e))"

definition load_from_file :: "load_env \<Rightarrow> rstr \<Rightarrow> pii_engine_state" where
  "load_from_file E policy_file =
     (case read_file E policy_file of
        None \<Rightarrow> Failed (PolicyUnreadable policy_file)
      | Some policy_json \<Rightarrow>
          (case compile_json E policy_json of
             Inl e \<Rightarrow> Failed (PolicyInvalid policy_file e)
           | Inr policy \<Rightarrow>
               (case sibling_key E policy_file of
                  None \<Rightarrow> Failed (PolicyWithoutParent policy_file)
                | Some key_path \<Rightarrow>
                    (case read_file E key_path of
                       None \<Rightarrow> Failed (KeyUnreadable key_path)
                     | Some key_hex \<Rightarrow>
                         (case from_hex (trim key_hex) of
                            Inr key \<Rightarrow> Ready policy key
                          | Inl e \<Rightarrow> Failed (KeyInvalid key_path e))))))"

definition load_engine_state_from_env :: "load_env \<Rightarrow> rstr option \<Rightarrow> pii_engine_state" where
  "load_engine_state_from_env E policy_file =
     (case policy_file of Some path \<Rightarrow> load_from_file E path | None \<Rightarrow> default_state E)"

section \<open>Fields and pointers of JSON values\<close>

definition json_get :: "rstr \<Rightarrow> json \<Rightarrow> json option" where
  "json_get k v = (case v of JObj fs \<Rightarrow> map_of fs k | _ \<Rightarrow> None)"

definition as_array :: "json \<Rightarrow> json list option" where
  "as_array v = (case v of JArr items \<Rightarrow> Some items | _ \<Rightarrow> None)"

definition as_str :: "json \<Rightarrow> rstr option" where
  "as_str v = (case v of JStr s \<Rightarrow> Some s | _ \<Rightarrow> None)"

datatype pointer_step = Key rstr | Idx nat

fun json_pointer :: "pointer_step list \<Rightarrow> json \<Rightarrow> json option" where
  "json_pointer [] v = Some v"
| "json_pointer (Key k # ps) v =
     (case json_get k v of None \<Rightarrow> None | Some w \<Rightarrow> json_pointer ps w)"
| "json_pointer (Idx i # ps) v =
     (case as_array v of
        None \<Rightarrow> None
      | Some items \<Rightarrow> (if i < length items then json_pointer ps (items ! i) else None))"

fun set_field :: "rstr \<Rightarrow> json \<Rightarrow> (rstr \<times> json) list \<Rightarrow> (rstr \<times> json) list" where
  "set_field k w [] = []"
| "set_field k w ((j, v) # fs) = (if j = k then (j, w) # fs else (j, v) # set_field k w fs)"

text \<open>Writing through \<open>pointer_mut\<close>.\<close>

fun json_set :: "pointer_step list \<Rightarrow> json \<Rightarrow> json \<Rightarrow> json" where
  "json_set [] w v = w"
| "json_set (Key k # ps) w v =
     (case v of
        JObj fs \<Rightarrow> (case map_of fs k of Some x \<Rightarrow> JObj (set_field k (json_set ps w x) fs) | None \<Rightarrow> v)
      | _ \<Rightarrow> v)"
| "json_set (Idx i # ps) w v =
     (case v of
        JArr items \<Rightarrow> (if i < length items then JArr (items[i := json_set ps w (items ! i)]) else v)
      | _ \<Rightarrow> v)"

section \<open>Scanning a request\<close>

fun merge_one_action :: "detection list \<Rightarrow> detection \<Rightarrow> detection list" where
  "merge_one_action [] d = [d]"
| "merge_one_action (e # es) d =
     (if det_category e = det_category d \<and> det_action e = det_action d
      then e \<lparr> det_count := det_count e + det_count d \<rparr> # es
      else e # merge_one_action es d)"

definition merge_action_detections :: "detection list \<Rightarrow> detection list \<Rightarrow> detection list" where
  "merge_action_detections agg extra = foldl merge_one_action agg extra"

definition NON_PROSE_LEAF_KEYS :: "rstr list" where
  "NON_PROSE_LEAF_KEYS =
     [''type'', ''id'', ''tool_use_id'', ''media_type'', ''data'', ''signature'', ''url'', ''file_id'']"

datatype scan_root = System | Content

definition SYSTEM_PTR :: "pointer_step list" where
  "SYSTEM_PTR = [Key ''system'']"

definition content_ptr :: "nat \<Rightarrow> pointer_step list" where
  "content_ptr i = [Key ''messages'', Idx i, Key ''content'']"

definition scan_roots :: "json \<Rightarrow> (scan_root \<times> pointer_step list) list" where
  "scan_roots body =
     (if json_get ''system'' body \<noteq> None then [(System, SYSTEM_PTR)] else [])
     @ (case Option.bind (json_get ''messages'' body) as_array of
          None \<Rightarrow> []
        | Some messages \<Rightarrow>
            map (\<lambda>i. (Content, content_ptr i))
              (filter (\<lambda>i. json_get ''content'' (messages ! i) \<noteq> None) [0..<length messages]))"

definition root_leaves :: "scan_root \<Rightarrow> json \<Rightarrow> rstr list" where
  "root_leaves root subtree =
     (case root of
        System \<Rightarrow> map (\<lambda>_. []) (collect_string_leaves subtree)
      | Content \<Rightarrow>
          map (\<lambda>leaf. case leaf_key leaf of
                 Some k \<Rightarrow> if k \<in> set NON_PROSE_LEAF_KEYS then [] else leaf_text leaf
               | None \<Rightarrow> leaf_text leaf)
            (collect_string_leaves_with_keys subtree))"

definition collect_scan_leaves :: "json \<Rightarrow> rstr list" where
  "collect_scan_leaves body =
     concat (map (\<lambda>(root, ptr). case json_pointer ptr body of
                     None \<Rightarrow> [] | Some subtree \<Rightarrow> root_leaves root subtree)
       (scan_roots body))"

definition mask_keywords :: "unicode \<Rightarrow> compiled_keyword list \<Rightarrow> json \<Rightarrow> json" where
  "mask_keywords U kws v = foldl (\<lambda>w kw. fst (alias_json U kw w)) v kws"

type_synonym span_queue = "external_span list list option"

text \<open>
  One subtree: the value written back, with the queue and the report. On an error the engine
  leaves the subtree unchanged and the rest of the request is not scanned.
\<close>

definition scan_subtree ::
  "crypto \<Rightarrow> unicode \<Rightarrow> compiled_policy \<Rightarrow> engine_key \<Rightarrow> json \<Rightarrow> span_queue \<Rightarrow> scan_report
     \<Rightarrow> scan_error + json \<times> span_queue \<times> scan_report" where
  "scan_subtree C U policy key subtree queue report =
     (case queue of
        None \<Rightarrow>
          (case scan_json C key policy subtree of
             (Inl e, _) \<Rightarrow> Inl e
           | (Inr dets, subtree') \<Rightarrow>
               Inr (mask_keywords U (policy_keywords policy) subtree', None,
                 report \<lparr> rep_detections := merge_action_detections (rep_detections report) dets \<rparr>))
      | Some lists_left \<Rightarrow>
          (let wanted = length (collect_string_leaves subtree);
               n = min wanted (length lists_left)
           in case scan_json_with_external C key policy subtree (take n lists_left) of
                (Inl e, _) \<Rightarrow> Inl e
              | (Inr outcome, subtree') \<Rightarrow>
                  Inr (mask_keywords U (policy_keywords policy) subtree', Some (drop n lists_left),
                    \<lparr> rep_detections =
                        merge_action_detections (rep_detections report) (rep_detections outcome),
                      rep_external =
                        merge_action_detections (rep_external report) (rep_external outcome) \<rparr>)))"

fun scan_roots_loop ::
  "crypto \<Rightarrow> unicode \<Rightarrow> compiled_policy \<Rightarrow> engine_key \<Rightarrow> (scan_root \<times> pointer_step list) list
     \<Rightarrow> json \<Rightarrow> span_queue \<Rightarrow> scan_report \<Rightarrow> (scan_error + scan_report) \<times> json" where
  "scan_roots_loop C U policy key [] body queue report = (Inr report, body)"
| "scan_roots_loop C U policy key ((_, ptr) # roots) body queue report =
     (case json_pointer ptr body of
        None \<Rightarrow> scan_roots_loop C U policy key roots body queue report
      | Some subtree \<Rightarrow>
          (case scan_subtree C U policy key subtree queue report of
             Inl e \<Rightarrow> (Inl e, body)
           | Inr (subtree', queue', report') \<Rightarrow>
               scan_roots_loop C U policy key roots (json_set ptr subtree' body) queue' report'))"

definition scan_request_with_external ::
  "crypto \<Rightarrow> unicode \<Rightarrow> compiled_policy \<Rightarrow> engine_key \<Rightarrow> json \<Rightarrow> external_span list list option
     \<Rightarrow> (scan_error + scan_report) \<times> json" where
  "scan_request_with_external C U policy key body external =
     scan_roots_loop C U policy key (scan_roots body) body external empty_report"

section \<open>Response transforms\<close>

definition unmask_keywords_text :: "unicode \<Rightarrow> rstr \<Rightarrow> compiled_keyword list \<Rightarrow> rstr" where
  "unmask_keywords_text U s kws =
     foldl (\<lambda>result kw. unalias_text_preserving_tokens U result (match_text kw) (kw_alias kw)
       (kw_case_sensitive kw)) s kws"

definition unmask_and_detokenize_response ::
  "crypto \<Rightarrow> unicode \<Rightarrow> rstr \<Rightarrow> compiled_keyword list \<Rightarrow> engine_key \<Rightarrow> detokenize_error + rstr" where
  "unmask_and_detokenize_response C U s kws key = detokenize_text C key (unmask_keywords_text U s kws)"

text \<open>The JSON printer and parser of the \<open>serde_json\<close> crate.\<close>

record serde =
  json_print :: "json \<Rightarrow> rstr"
  json_parse :: "rstr \<Rightarrow> json option"

definition json_string_escape :: "serde \<Rightarrow> rstr \<Rightarrow> rstr" where
  "json_string_escape S s = (let quoted = json_print S (JStr s) in slice quoted 1 (length quoted - 1))"

definition unmask_and_detokenize_json_fragment ::
  "crypto \<Rightarrow> unicode \<Rightarrow> serde \<Rightarrow> rstr \<Rightarrow> compiled_keyword list \<Rightarrow> engine_key \<Rightarrow> detokenize_error + rstr" where
  "unmask_and_detokenize_json_fragment C U S s kws key =
     (let result = foldl (\<lambda>r kw. unalias_text_preserving_tokens_with U r (match_text kw) (kw_alias kw)
            (kw_case_sensitive kw) (json_string_escape S)) s kws
      in detokenize_text_with C key result (json_string_escape S))"

section \<open>The prefix that may be transformed now\<close>

definition MAX_TOKEN_SPAN_LEN :: nat where "MAX_TOKEN_SPAN_LEN = 4096"

fun floor_boundary_from :: "rstr \<Rightarrow> nat \<Rightarrow> nat" where
  "floor_boundary_from s 0 = 0"
| "floor_boundary_from s (Suc i) =
     (if is_char_boundary s (Suc i) then Suc i else floor_boundary_from s i)"

definition floor_char_boundary :: "rstr \<Rightarrow> nat \<Rightarrow> nat" where
  "floor_char_boundary s at = floor_boundary_from s (min at (length s))"

definition suffix_is_proper_alias_prefix :: "rstr \<Rightarrow> rchar list \<Rightarrow> bool \<Rightarrow> bool" where
  "suffix_is_proper_alias_prefix tail alias_chars case_sensitive =
     (let tail_chars = chars tail in
      if tail_chars = [] \<or> length tail_chars \<ge> length alias_chars then False
      else list_all (\<lambda>(t, a). if case_sensitive then t = a else eq_ignore_ascii_case t a)
             (zip tail_chars alias_chars))"

fun first_alias_prefix :: "rstr \<Rightarrow> rchar list \<Rightarrow> bool \<Rightarrow> nat list \<Rightarrow> nat" where
  "first_alias_prefix s alias_chars case_sensitive [] = length s"
| "first_alias_prefix s alias_chars case_sensitive (pos # ps) =
     (if suffix_is_proper_alias_prefix (drop pos s) alias_chars case_sensitive then pos
      else first_alias_prefix s alias_chars case_sensitive ps)"

definition alias_prefix_start :: "rstr \<Rightarrow> rstr \<Rightarrow> bool \<Rightarrow> nat" where
  "alias_prefix_start s al case_sensitive =
     (let alias_chars = chars al in
      if length alias_chars < 2 then length s
      else let positions = map fst (char_indices s);
               window = length positions - (length alias_chars - 1)
           in first_alias_prefix s alias_chars case_sensitive (drop window positions))"

definition safe_prefix_len :: "rstr \<Rightarrow> compiled_keyword list \<Rightarrow> nat" where
  "safe_prefix_len s kws =
     (let safe =
        (case incomplete_token_span_start s of
           Some start \<Rightarrow> (if length s - start \<le> MAX_TOKEN_SPAN_LEN then min (length s) start else length s)
         | None \<Rightarrow> length s)
      in floor_char_boundary s
           (foldl (\<lambda>n kw. min n (alias_prefix_start s (kw_alias kw) (kw_case_sensitive kw))) safe kws))"

section \<open>Whole-body buffering\<close>

text \<open>
  \<open>String::from_utf8_lossy\<close>: each maximal ill-formed subsequence becomes U+FFFD. The skip is the
  length of the longest prefix of a well-formed sequence.
\<close>

definition lossy_skip :: "rstr \<Rightarrow> nat" where
  "lossy_skip s =
     (case s of
        a # b # c # _ \<Rightarrow>
          (let x = code a in
           if 224 \<le> x \<and> x < 245 \<and> is_cont b
              \<and> (x = 224 \<longrightarrow> 160 \<le> code b) \<and> (x = 237 \<longrightarrow> code b < 160)
              \<and> (x = 240 \<longrightarrow> 144 \<le> code b) \<and> (x = 244 \<longrightarrow> code b < 144)
           then (if 240 \<le> x \<and> is_cont c then 3 else 2) else 1)
      | [a, b] \<Rightarrow>
          (let x = code a in
           if 224 \<le> x \<and> x < 245 \<and> is_cont b
              \<and> (x = 224 \<longrightarrow> 160 \<le> code b) \<and> (x = 237 \<longrightarrow> code b < 160)
              \<and> (x = 240 \<longrightarrow> 144 \<le> code b) \<and> (x = 244 \<longrightarrow> code b < 144)
           then 2 else 1)
      | _ \<Rightarrow> 1)"

definition REPLACEMENT :: rstr where
  "REPLACEMENT = [CHR 0xEF, CHR 0xBF, CHR 0xBD]"

function from_utf8_lossy :: "rstr \<Rightarrow> rstr" where
  "from_utf8_lossy s =
     (if s = [] then []
      else case utf8_head s of
          Some (_, n) \<Rightarrow> take n s @ from_utf8_lossy (drop n s)
        | None \<Rightarrow> REPLACEMENT @ from_utf8_lossy (drop (lossy_skip s) s))"
  by pat_completeness auto
termination
proof (relation "measure length")
  fix s :: rstr
  assume "s \<noteq> []"
  moreover have "0 < lossy_skip s" by (auto simp: lossy_skip_def Let_def split: list.splits)
  ultimately show "(drop (lossy_skip s) s, s) \<in> measure length" by auto
qed (auto dest!: utf8_head_bounds)

declare from_utf8_lossy.simps [simp del]

type_synonym response_rewrite_buffer = "byte list"

definition buffer_push_chunk :: "response_rewrite_buffer \<Rightarrow> byte list \<Rightarrow> response_rewrite_buffer \<times> nat" where
  "buffer_push_chunk buf chunk = (buf @ chunk, length (buf @ chunk))"

definition buffer_finish ::
  "crypto \<Rightarrow> unicode \<Rightarrow> response_rewrite_buffer \<Rightarrow> compiled_keyword list \<Rightarrow> engine_key
     \<Rightarrow> detokenize_error + byte list" where
  "buffer_finish C U buf kws key =
     (if buf = [] then Inr []
      else unmask_and_detokenize_response C U (from_utf8_lossy buf) kws key)"

section \<open>The safe prefix\<close>

lemma floor_boundary_spec:
  "floor_boundary_from s n \<le> n \<and> is_char_boundary s (floor_boundary_from s n)
   \<and> (\<forall>k. floor_boundary_from s n < k \<and> k \<le> n \<longrightarrow> \<not> is_char_boundary s k)"
proof (induction n)
  case (Suc n)
  show ?case
  proof (cases "is_char_boundary s (Suc n)")
    case False
    have "\<not> is_char_boundary s k" if "floor_boundary_from s n < k" "k \<le> Suc n" for k
      using that Suc False by (cases "k = Suc n") auto
    with Suc False show ?thesis by auto
  qed auto
qed auto

lemma floor_boundary_id: "is_char_boundary s n \<Longrightarrow> floor_boundary_from s n = n"
  by (cases n) auto

lemma safe_prefix_len_spec: "safe_prefix_len s kws \<le> length s \<and> is_char_boundary s (safe_prefix_len s kws)"
  using floor_boundary_spec [of s "min n (length s)" for n]
  by (auto simp: safe_prefix_len_def Let_def floor_char_boundary_def intro: order_trans)

lemma cut_point_bracket: "cut_point s = Some k \<Longrightarrow> k < length s \<and> s ! k = CHR ''[''"
proof (induction s arbitrary: k rule: cut_point.induct)
  case (1 s)
  show ?case
  proof (cases s)
    case Nil
    with "1.prems" show ?thesis by (simp add: cut_point.simps)
  next
    case (Cons c r)
    show ?thesis
    proof (cases "c = CHR ''[''")
      case False
      then obtain j where "cut_point r = Some j" "k = Suc j"
        using "1.prems" Cons by (auto simp: cut_point.simps [of "c # r"])
      with "1.IH"(1) [OF Cons False] Cons show ?thesis by simp
    next
      case True
      show ?thesis
      proof (cases "span_prefix_scan s")
        case Viable
        with "1.prems" Cons True show ?thesis by (simp add: cut_point.simps [of "CHR ''['' # r"])
      next
        case (Complete n)
        then obtain j where j: "cut_point (drop n s) = Some j" "k = j + n"
          using "1.prems" Cons True by (auto simp: cut_point.simps [of "CHR ''['' # r"])
        have "j < length (drop n s) \<and> drop n s ! j = CHR ''[''"
          by (rule "1.IH"(2) [OF Cons _ Complete j(1)]) (use True in simp)
        then have "n + j < length s" "drop n s ! j = CHR ''[''" by (simp_all add: less_diff_conv add.commute)
        with j(2) show ?thesis by (simp add: add.commute)
      next
        case Invalid
        then obtain j where "cut_point r = Some j" "k = Suc j"
          using "1.prems" Cons True by (auto simp: cut_point.simps [of "CHR ''['' # r"])
        with "1.IH"(3) [OF Cons] True Invalid Cons show ?thesis by simp
      qed
    qed
  qed
qed

lemma stable_len_boundary: "is_char_boundary s (stable_len s)"
  using cut_point_bracket [of s] by (auto simp: stable_len_cut is_char_boundary_def is_cont_def split: option.splits)

lemma safe_prefix_len_no_keywords:
  assumes "length s - stable_len s \<le> MAX_TOKEN_SPAN_LEN"
  shows "safe_prefix_len s [] = stable_len s"
proof -
  have "(case incomplete_token_span_start s of
           Some start \<Rightarrow> (if length s - start \<le> MAX_TOKEN_SPAN_LEN then min (length s) start else length s)
         | None \<Rightarrow> length s) = stable_len s"
    using assms stable_len_le [of s] by (auto simp: stable_len_def split: option.splits)
  then show ?thesis
    using stable_len_le [of s] floor_boundary_id [OF stable_len_boundary]
    by (simp add: safe_prefix_len_def floor_char_boundary_def)
qed

section \<open>Held alias prefixes\<close>

text \<open>An occurrence of the alias at \<open>p\<close>, up to ASCII case unless the keyword is case-sensitive.\<close>

definition alias_at :: "rstr \<Rightarrow> bool \<Rightarrow> rstr \<Rightarrow> nat \<Rightarrow> bool" where
  "alias_at al case_sensitive s p \<longleftrightarrow>
     is_char_boundary s p \<and> p \<le> length s
     \<and> (if case_sensitive then starts_with al (drop p s)
        else starts_with (to_ascii_lowercase al) (to_ascii_lowercase (drop p s)))"

lemma offsets_append: "offsets n (xs @ ys) = offsets n xs @ offsets (n + length (concat xs)) ys"
  by (induction xs arbitrary: n) (simp_all add: add.assoc)

lemma first_alias_prefix_le:
  assumes "\<forall>q \<in> set ps. q \<le> p" and "suffix_is_proper_alias_prefix (drop p s) ac cs"
  shows "first_alias_prefix s ac cs (ps @ p # qs) \<le> p"
  using assms by (induction ps) auto

lemma proper_prefix_chars:
  assumes "is_utf8 al" and "is_utf8 t" and "t \<noteq> []" and "length t < length al"
    and "if case_sensitive then starts_with al (t @ x)
      else starts_with (to_ascii_lowercase al) (to_ascii_lowercase (t @ x))"
  shows "suffix_is_proper_alias_prefix t (chars al) case_sensitive"
proof -
  define f where "f = (if case_sensitive then (\<lambda>u. u) else to_ascii_lowercase)"
  have f_append: "f (a @ b) = f a @ f b" and f_len: "length (f a) = length a" for a b
    by (auto simp: f_def lower_append)
  have f_chars: "is_utf8 (f u) \<and> chars (f u) = map f (chars u)" if "is_utf8 u" for u
    using that chars_lower [OF that] by (auto simp: f_def)
  from assms(5) obtain y where y: "f t @ f x = f al @ y"
    by (cases case_sensitive) (auto simp: f_def starts_with_iff lower_append)
  define r where "r = drop (length t) (f al)"
  have "take (length t) (f t @ f x) = take (length t) (f al @ y)" by (simp add: y)
  then have "f t = take (length t) (f al)" using assms(4) by (simp add: f_len)
  then have al: "f al = f t @ r" by (metis append_take_drop_id r_def)
  have "is_utf8 r" using f_chars [OF assms(1)] f_chars [OF assms(2)] al is_utf8_append by metis
  then have cs: "map f (chars al) = map f (chars t) @ chars r"
    using f_chars [OF assms(1)] f_chars [OF assms(2)] al chars_append by metis
  have "r \<noteq> []" using assms(4) f_len [of al] by (simp add: r_def)
  then have "chars r \<noteq> []" using concat_chars [OF \<open>is_utf8 r\<close>] by auto
  then have len: "length (chars t) < length (chars al)"
    using arg_cong [OF cs, of length] by (cases "chars r") auto
  have "chars t \<noteq> []" using concat_chars [OF assms(2)] assms(3) by auto
  moreover have "f (chars t ! i) = f (chars al ! i)" if "i < length (chars t)" for i
    using arg_cong [OF cs, of "\<lambda>z. z ! i"] that len by (simp add: nth_append)
  ultimately show ?thesis
    using len by (auto simp: suffix_is_proper_alias_prefix_def Let_def f_def list_all_length
        eq_ignore_ascii_case_def)
qed

text \<open>An alias that the text ends inside of is never cut: the held part starts no later.\<close>

lemma alias_prefix_start_growing:
  assumes "is_utf8 s" and "is_utf8 al" and "alias_at al case_sensitive (s @ x) p"
    and "p < length s" and "length s < p + length al"
  shows "alias_prefix_start s al case_sensitive \<le> p"
proof -
  let ?t = "drop p s" and ?n = "length (chars al)"
  have b: "is_char_boundary s p"
    using assms(3,4) by (auto simp: alias_at_def is_char_boundary_def nth_append)
  have utf: "is_utf8 (take p s)" "is_utf8 ?t" using is_utf8_split [OF assms(1) b] by auto
  have "if case_sensitive then starts_with al (?t @ x)
      else starts_with (to_ascii_lowercase al) (to_ascii_lowercase (?t @ x))"
    using assms(3,4) by (auto simp: alias_at_def)
  then have pre: "suffix_is_proper_alias_prefix ?t (chars al) case_sensitive"
    using assms(4,5) utf(2) by (intro proper_prefix_chars [OF assms(2)]) auto
  then have tn: "0 < length (chars ?t)" "length (chars ?t) < ?n"
    by (auto simp: suffix_is_proper_alias_prefix_def Let_def split: if_splits)
  obtain c cs where ct: "chars ?t = c # cs" using tn(1) by (cases "chars ?t") auto
  have split: "chars s = chars (take p s) @ chars ?t" using chars_append [OF utf] by simp
  have ck: "length (concat (chars (take p s))) = p" using concat_chars [OF utf(1)] assms(4) by simp
  then have pos: "map fst (char_indices s)
      = map fst (offsets 0 (chars (take p s))) @ p # map fst (offsets (p + length c) cs)"
    by (simp add: char_indices_def split offsets_append ct)
  let ?w = "length (map fst (char_indices s)) - (?n - 1)"
  have "?w \<le> length (chars (take p s))" using tn ct by (simp add: pos)
  then have d: "drop ?w (map fst (char_indices s))
      = drop ?w (map fst (offsets 0 (chars (take p s)))) @ p # map fst (offsets (p + length c) cs)"
    by (simp add: pos)
  have le: "q \<le> p" if q: "q \<in> set (drop ?w (map fst (offsets 0 (chars (take p s)))))" for q
  proof -
    from in_set_dropD [OF q] obtain y where y: "y \<in> set (offsets 0 (chars (take p s)))" "q = fst y"
      by auto
    have "\<forall>c \<in> set (chars (take p s)). c \<noteq> []" using chars_nonempty by blast
    from offsets_bounds [OF this y(1)] y(2) ck show ?thesis by simp
  qed
  have "first_alias_prefix s (chars al) case_sensitive (drop ?w (map fst (char_indices s))) \<le> p"
    unfolding d by (rule first_alias_prefix_le [OF _ pre]) (use le in blast)
  moreover have "\<not> ?n < 2" using tn by linarith
  ultimately show ?thesis by (simp add: alias_prefix_start_def Let_def)
qed

section \<open>What a request scan leaves alone\<close>

lemma json_get_set:
  "json_get k (json_set (Key j # ps) w v) =
     (if k = j then map_option (json_set ps w) (json_get k v) else json_get k v)"
proof -
  have "map_of (set_field j x fs) k = (if k = j then map_option (\<lambda>_. x) (map_of fs k) else map_of fs k)"
    for fs x by (induction fs) auto
  then show ?thesis by (cases v) (auto simp: json_get_def split: option.splits)
qed

lemma as_array_set:
  "as_array (json_set (Idx i # ps) w v) =
     map_option (\<lambda>items. if i < length items then items[i := json_set ps w (items ! i)] else items) (as_array v)"
  by (cases v) (auto simp: as_array_def)

declare json_set.simps [simp del]

definition messages_of :: "json \<Rightarrow> json list option" where
  "messages_of body = Option.bind (json_get ''messages'' body) as_array"

text \<open>Equal outside \<open>system\<close> and the \<open>content\<close> fields of the messages.\<close>

definition same_outside :: "json \<Rightarrow> json \<Rightarrow> bool" where
  "same_outside a b \<longleftrightarrow>
     (\<forall>k. k \<noteq> ''system'' \<and> k \<noteq> ''messages'' \<longrightarrow> json_get k a = json_get k b)
     \<and> (case messages_of a of
          None \<Rightarrow> json_get ''messages'' a = json_get ''messages'' b
        | Some ms \<Rightarrow>
            (\<exists>ns. messages_of b = Some ns
               \<and> list_all2 (\<lambda>m n. \<forall>k. k \<noteq> ''content'' \<longrightarrow> json_get k m = json_get k n) ms ns))"

definition is_root :: "pointer_step list \<Rightarrow> bool" where
  "is_root ptr \<longleftrightarrow> ptr = SYSTEM_PTR \<or> (\<exists>i. ptr = content_ptr i)"

lemma same_outside_refl: "same_outside a a"
  by (auto simp: same_outside_def list_all2_refl split: option.splits)

lemma same_outside_trans:
  assumes "same_outside a b" and "same_outside b c"
  shows "same_outside a c"
proof (cases "messages_of a")
  case None
  with assms(1) have "json_get ''messages'' a = json_get ''messages'' b" by (simp add: same_outside_def)
  moreover from this None have "messages_of b = None" by (simp add: messages_of_def)
  ultimately show ?thesis using assms None by (auto simp: same_outside_def)
next
  case (Some ms)
  with assms(1) obtain ns where ns: "messages_of b = Some ns"
    "list_all2 (\<lambda>m n. \<forall>k. k \<noteq> ''content'' \<longrightarrow> json_get k m = json_get k n) ms ns"
    by (auto simp: same_outside_def)
  with assms(2) obtain os where os: "messages_of c = Some os"
    "list_all2 (\<lambda>m n. \<forall>k. k \<noteq> ''content'' \<longrightarrow> json_get k m = json_get k n) ns os"
    by (auto simp: same_outside_def)
  have "list_all2 (\<lambda>m n. \<forall>k. k \<noteq> ''content'' \<longrightarrow> json_get k m = json_get k n) ms os"
    using ns(2) os(2) by (auto simp: list_all2_conv_all_nth)
  with Some os assms show ?thesis by (auto simp: same_outside_def)
qed

lemma messages_of_set_system: "messages_of (json_set SYSTEM_PTR w b) = messages_of b"
proof -
  have "json_get ''messages'' (json_set SYSTEM_PTR w b) = json_get ''messages'' b"
    unfolding SYSTEM_PTR_def json_get_set by simp
  then show ?thesis by (simp add: messages_of_def)
qed

lemma messages_of_set_content:
  "messages_of (json_set (content_ptr i) w b) =
     map_option (\<lambda>ms. if i < length ms then ms[i := json_set [Key ''content''] w (ms ! i)] else ms) (messages_of b)"
proof -
  have "json_get ''messages'' (json_set (content_ptr i) w b)
      = map_option (json_set [Idx i, Key ''content''] w) (json_get ''messages'' b)"
    unfolding content_ptr_def json_get_set by (simp only: if_True refl)
  then show ?thesis
    by (cases "json_get ''messages'' b") (simp_all only: messages_of_def as_array_set option.map
        Option.bind.simps)
qed

lemma same_outside_set:
  assumes "is_root ptr" and "json_pointer ptr b = Some sub"
  shows "same_outside b (json_set ptr w b)"
proof (cases "ptr = SYSTEM_PTR")
  case True
  have "json_get k (json_set SYSTEM_PTR w b) = json_get k b" if "k \<noteq> ''system''" for k
    using that unfolding SYSTEM_PTR_def by (simp only: json_get_set if_False)
  note get = this
  have m: "json_get ''messages'' (json_set SYSTEM_PTR w b) = json_get ''messages'' b"
    by (rule get) simp
  show ?thesis
    unfolding same_outside_def True messages_of_set_system m
    by (cases "messages_of b") (simp_all add: get list_all2_refl)
next
  case False
  with assms(1) obtain i where ptr: "ptr = content_ptr i" by (auto simp: is_root_def)
  have get: "json_get k (json_set (content_ptr i) w b) = json_get k b" if "k \<noteq> ''messages''" for k
    using that unfolding content_ptr_def by (simp only: json_get_set if_False)
  from assms(2) obtain ms where ms: "messages_of b = Some ms" "i < length ms"
    by (cases "json_get ''messages'' b"; cases "messages_of b")
      (auto simp: ptr content_ptr_def messages_of_def split: option.splits if_splits)
  have "json_get k (json_set [Key ''content''] w m) = json_get k m" if "k \<noteq> ''content''" for k m
    using that by (simp only: json_get_set if_False)
  then have "list_all2 (\<lambda>m n. \<forall>k. k \<noteq> ''content'' \<longrightarrow> json_get k m = json_get k n) ms
      (ms[i := json_set [Key ''content''] w (ms ! i)])"
    using ms(2) by (auto simp: list_all2_conv_all_nth nth_list_update)
  with ms get show ?thesis unfolding same_outside_def ptr messages_of_set_content by simp
qed

lemma scan_roots_are_roots: "(r, ptr) \<in> set (scan_roots body) \<Longrightarrow> is_root ptr"
  by (auto simp: scan_roots_def is_root_def split: if_splits option.splits)

lemma scan_roots_loop_outside:
  assumes "\<forall>(r, ptr) \<in> set roots. is_root ptr"
  shows "same_outside body (snd (scan_roots_loop C U policy key roots body queue report))"
  using assms
proof (induction roots arbitrary: body queue report)
  case Nil
  then show ?case by (simp add: same_outside_refl)
next
  case (Cons root roots)
  obtain r ptr where root: "root = (r, ptr)" by (cases root)
  show ?case
  proof (cases "json_pointer ptr body")
    case None
    with Cons show ?thesis by (simp add: root)
  next
    case (Some sub)
    show ?thesis
    proof (cases "scan_subtree C U policy key sub queue report")
      case (Inl e)
      then show ?thesis using Some by (simp add: root same_outside_refl)
    next
      case (Inr p)
      obtain sub' queue' report' where p: "p = (sub', queue', report')" by (cases p) auto
      have "same_outside body (json_set ptr sub' body)"
        using Cons.prems Some by (intro same_outside_set) (auto simp: root)
      moreover have "same_outside (json_set ptr sub' body)
          (snd (scan_roots_loop C U policy key roots (json_set ptr sub' body) queue' report'))"
        using Cons by auto
      ultimately show ?thesis using Some Inr p by (auto simp: root intro: same_outside_trans)
    qed
  qed
qed

section \<open>Errors of a scan\<close>

definition seal_error :: "scan_error \<Rightarrow> bool" where
  "seal_error e \<longleftrightarrow> (\<exists>cat. e = SealFailed cat)"

lemma build_token_error: "build_token C key cat v = Inl e \<Longrightarrow> seal_error e"
  by (auto simp: build_token_def seal_error_def split: sum.splits)

lemma seal_hits_error: "seal_hits C key cat s origin prev cache hits = Inl e \<Longrightarrow> seal_error e"
  by (induction C key cat s origin prev cache hits rule: seal_hits.induct)
    (auto simp: Let_def res_map_def dest: build_token_error split: option.splits sum.splits)

lemma apply_rule_error: "apply_rule C key rule segs = Inl e \<Longrightarrow> seal_error e"
  by (induction C key rule segs rule: apply_rule.induct)
    (auto simp: tokenize_segment_def Let_def res_map_def dest: seal_hits_error
      split: sum.splits if_splits)

lemma apply_rules_error: "apply_rules C key rs segs dets = Inl e \<Longrightarrow> seal_error e"
  by (induction C key rs segs dets rule: apply_rules.induct)
    (auto dest: apply_rule_error split: sum.splits)

lemma external_loop_error:
  "external_loop C key obs s origin prev spans dets cache = Inl e \<Longrightarrow> seal_error e"
proof (induction spans arbitrary: prev dets cache)
  case (Cons sp spans)
  then show ?case
    by (auto simp: Let_def res_map_def dest: build_token_error split: option.splits sum.splits if_splits)
qed simp

lemma external_segments_error:
  "external_segments C key obs spans segs dets cache = Inl e \<Longrightarrow> seal_error e"
  by (induction C key obs spans segs dets cache rule: external_segments.induct)
    (auto simp: res_map_def dest: external_loop_error split: sum.splits)

lemma scan_text_error: "scan_text_with_external C key policy s external = Inl e \<Longrightarrow> seal_error e"
  by (auto simp: scan_text_with_external_def apply_external_def
      dest: apply_rules_error external_segments_error split: sum.splits)

lemma scan_fold_error: "leaf_fold (scan_leaf C key policy external) ts st = Inl e \<Longrightarrow> seal_error e"
proof (induction ts arbitrary: st)
  case (Cons t ts)
  obtain n rep where st: "st = (n, rep)" by (cases st)
  show ?case
  proof (cases "scan_leaf C key policy external t (n, rep)")
    case (Inl e')
    with Cons.prems st show ?thesis by (auto simp: scan_leaf_def dest: scan_text_error split: sum.splits)
  next
    case (Inr p)
    with Cons st show ?thesis by (cases p) (auto simp: res_map_def split: sum.splits)
  qed
qed simp

lemma scan_value_error: "scan_json_value C key policy external v st = Inl e \<Longrightarrow> seal_error e"
  using traverse_Inl(1) scan_fold_error by (fastforce simp: scan_json_value_def)

lemma scan_subtree_error:
  assumes "scan_subtree C U policy key sub queue report = Inl e"
    and "case queue of None \<Rightarrow> True | Some q \<Rightarrow> length (collect_string_leaves sub) \<le> length q"
  shows "seal_error e"
  using assms
  by (auto simp: scan_subtree_def scan_json_def scan_json_with_external_def Let_def
      dest: scan_value_error split: option.splits sum.splits prod.splits if_splits)

lemma scan_subtree_queue:
  assumes "scan_subtree C U policy key sub queue report = Inr (sub', queue', report')"
    and "case queue of None \<Rightarrow> True | Some q \<Rightarrow> length (collect_string_leaves sub) \<le> length q"
  shows "queue' = map_option (drop (length (collect_string_leaves sub))) queue"
  using assms
  by (auto simp: scan_subtree_def Let_def min_absorb1 split: option.splits sum.splits prod.splits)

section \<open>Span lists line up with the leaves\<close>

lemma json_pointer_set_other:
  assumes "is_root p" and "is_root q" and "p \<noteq> q"
  shows "json_pointer p (json_set q w b) = json_pointer p b"
proof -
  have msgs: "json_pointer (content_ptr i) b' =
      (case messages_of b' of
         None \<Rightarrow> None
       | Some ms \<Rightarrow> (if i < length ms then json_get ''content'' (ms ! i) else None))" for i b'
    by (cases "json_get ''messages'' b'")
      (auto simp: content_ptr_def messages_of_def split: option.splits)
  have system: "json_pointer SYSTEM_PTR b' = json_get ''system'' b'" for b'
    by (simp add: SYSTEM_PTR_def split: option.splits)
  consider "p = SYSTEM_PTR" "\<exists>i. q = content_ptr i" | i where "p = content_ptr i" "q = SYSTEM_PTR"
    | i j where "p = content_ptr i" "q = content_ptr j" "i \<noteq> j"
    using assms by (auto simp: is_root_def)
  then show ?thesis
  proof cases
    case 1
    then obtain i where q: "q = content_ptr i" by blast
    have "json_get ''system'' (json_set (content_ptr i) w b) = json_get ''system'' b"
      unfolding content_ptr_def json_get_set by simp
    then show ?thesis unfolding 1(1) q system .
  next
    case (2 i)
    then show ?thesis by (simp only: msgs messages_of_set_system)
  next
    case (3 i j)
    then show ?thesis by (cases "messages_of b") (simp_all add: msgs messages_of_set_content)
  qed
qed

definition root_leaf_count :: "json \<Rightarrow> (scan_root \<times> pointer_step list) list \<Rightarrow> nat" where
  "root_leaf_count body roots =
     sum_list (map (\<lambda>(_, ptr). case json_pointer ptr body of
       None \<Rightarrow> 0 | Some sub \<Rightarrow> length (collect_string_leaves sub)) roots)"

lemma root_leaf_count_set:
  assumes "is_root q" and "q \<notin> snd ` set roots" and "\<forall>(r, ptr) \<in> set roots. is_root ptr"
  shows "root_leaf_count (json_set q w b) roots = root_leaf_count b roots"
  using assms(2,3)
proof (induction roots)
  case (Cons root roots)
  obtain r ptr where root: "root = (r, ptr)" by (cases root)
  have "json_pointer ptr (json_set q w b) = json_pointer ptr b"
    using Cons.prems assms(1) root by (intro json_pointer_set_other) auto
  with Cons root show ?case by (simp add: root_leaf_count_def)
qed (simp add: root_leaf_count_def)

lemma scan_roots_loop_error:
  assumes "fst (scan_roots_loop C U policy key roots body queue report) = Inl e"
    and "case queue of None \<Rightarrow> True | Some q \<Rightarrow> length q = root_leaf_count body roots"
    and "distinct (map snd roots)" and "\<forall>(r, ptr) \<in> set roots. is_root ptr"
  shows "seal_error e"
  using assms
proof (induction roots arbitrary: body queue report)
  case (Cons root roots)
  obtain r ptr where root: "root = (r, ptr)" by (cases root)
  show ?case
  proof (cases "json_pointer ptr body")
    case None
    then have "root_leaf_count body (root # roots) = root_leaf_count body roots"
      by (simp add: root root_leaf_count_def)
    with Cons None show ?thesis by (simp add: root cong: option.case_cong)
  next
    case (Some sub)
    have q: "case queue of None \<Rightarrow> True
      | Some q \<Rightarrow> length q = length (collect_string_leaves sub) + root_leaf_count body roots"
    proof -
      have "root_leaf_count body (root # roots) = length (collect_string_leaves sub) + root_leaf_count body roots"
        using Some by (simp add: root root_leaf_count_def)
      with Cons.prems(2) show ?thesis by (simp only:)
    qed
    then have enough: "case queue of None \<Rightarrow> True | Some q \<Rightarrow> length (collect_string_leaves sub) \<le> length q"
      by (auto split: option.splits)
    show ?thesis
    proof (cases "scan_subtree C U policy key sub queue report")
      case (Inl e')
      then show ?thesis using Cons.prems(1) Some scan_subtree_error [OF _ enough] by (simp add: root)
    next
      case (Inr p)
      obtain sub' queue' report' where p: "p = (sub', queue', report')" by (cases p) auto
      have queue': "queue' = map_option (drop (length (collect_string_leaves sub))) queue"
        using scan_subtree_queue [OF _ enough] Inr p by blast
      have "root_leaf_count (json_set ptr sub' body) roots = root_leaf_count body roots"
        using Cons.prems(3,4) by (intro root_leaf_count_set) (auto simp: root)
      then have "case queue' of None \<Rightarrow> True | Some q \<Rightarrow> length q = root_leaf_count (json_set ptr sub' body) roots"
        using q by (auto simp: queue' split: option.splits)
      moreover have "fst (scan_roots_loop C U policy key roots (json_set ptr sub' body) queue' report') = Inl e"
        using Cons.prems(1) Some Inr p by (simp add: root)
      ultimately show ?thesis using Cons.IH Cons.prems(3,4) by (auto simp: root)
    qed
  qed
qed simp

lemma scan_roots_distinct: "distinct (map snd (scan_roots body))"
proof -
  have "distinct (map (snd \<circ> (\<lambda>i. (Content, content_ptr i))) (filter P [0..<n]))" for P n
    by (auto simp: distinct_map inj_on_def content_ptr_def)
  moreover have "SYSTEM_PTR \<noteq> content_ptr i" for i by (simp add: SYSTEM_PTR_def content_ptr_def)
  ultimately show ?thesis by (auto simp: scan_roots_def split: option.splits)
qed

lemma collect_scan_leaves_length: "length (collect_scan_leaves body) = root_leaf_count body (scan_roots body)"
proof -
  have "length (root_leaves root sub) = length (collect_string_leaves sub)" for root sub
    by (cases root) (simp_all add: root_leaves_def collect_string_leaves_def)
  then show ?thesis
    unfolding collect_scan_leaves_def root_leaf_count_def length_concat map_map
    by (intro arg_cong [where f = sum_list] map_cong) (auto split: option.splits)
qed

lemma scan_request_seal_error:
  assumes "case external of None \<Rightarrow> True | Some lists_left \<Rightarrow> length lists_left = length (collect_scan_leaves body)"
    and "fst (scan_request_with_external C U policy key body external) = Inl e"
  shows "\<exists>cat. e = SealFailed cat"
proof -
  have "seal_error e"
  proof (rule scan_roots_loop_error [OF assms(2) [unfolded scan_request_with_external_def]])
    show "case external of None \<Rightarrow> True | Some q \<Rightarrow> length q = root_leaf_count body (scan_roots body)"
      using assms(1) by (simp only: collect_scan_leaves_length)
    show "distinct (map snd (scan_roots body))" by (rule scan_roots_distinct)
    show "\<forall>(r, ptr) \<in> set (scan_roots body). is_root ptr" by (auto dest: scan_roots_are_roots)
  qed
  then show ?thesis by (simp add: seal_error_def)
qed

section \<open>Properties\<close>

text \<open>A request scan changes nothing but the prompt: whatever the outcome, every top-level field
  except \<open>system\<close> and \<open>messages\<close> is as it was, and when \<open>messages\<close> is an array it keeps its
  length and each message all its fields except \<open>content\<close>.\<close>

theorem scan_request_outside_unchanged:
  "same_outside body (snd (scan_request_with_external C U policy key body external))"
  unfolding scan_request_with_external_def
  by (rule scan_roots_loop_outside) (auto dest: scan_roots_are_roots)

text \<open>The span lists of the neural detector line up with the leaves it was shown: given one list per
  leaf of \<open>collect_scan_leaves\<close>, the only way a request scan can fail is that sealing a value
  fails, never a count mismatch.\<close>

theorem scan_request_span_lists_line_up:
  assumes "length external = length (collect_scan_leaves body)"
    and "fst (scan_request_with_external C U policy key body (Some external)) = Inl e"
  shows "\<exists>cat. e = SealFailed cat"
  using scan_request_seal_error [where external = "Some external"] assms by simp

definition broken_crypto :: crypto where
  "broken_crypto = demo_crypto \<lparr> siv_encrypt := (\<lambda>_ _ _. None) \<rparr>"

definition demo_body :: json where
  "demo_body = JObj [(''messages'', JArr [JObj [(''content'', JStr demo_text), (''role'', JStr ''user'')]]),
     (''model'', JStr ''m''), (''system'', JStr ''be kind'')]"

lemma scan_request_span_lists_line_up_witness:
  "\<exists>cat. SealFailed ''EMAIL'' = SealFailed cat"
proof (rule scan_request_span_lists_line_up [of "[[], [demo_span]]" demo_body])
  show "length [[], [demo_span]] = length (collect_scan_leaves demo_body)" by code_simp
  show "fst (scan_request_with_external broken_crypto ascii_unicode demo_policy demo_key demo_body
      (Some [[], [demo_span]])) = Inl (SealFailed ''EMAIL'')"
    by code_simp
qed

text \<open>Transforming a stream at its safe prefix is exact when no keyword is configured: as long as the
  held tail is within the documented 4096 bytes, transforming the prefix now and the tail with
  whatever arrives later gives what one pass over the whole text gives, failures included.\<close>

theorem safe_prefix_transparent:
  assumes "length s - stable_len s \<le> MAX_TOKEN_SPAN_LEN"
  shows "unmask_and_detokenize_response C U (s @ x) [] key = Inr u \<longleftrightarrow>
     (\<exists>a b. unmask_and_detokenize_response C U (take (safe_prefix_len s []) s) [] key = Inr a
        \<and> unmask_and_detokenize_response C U (drop (safe_prefix_len s []) s @ x) [] key = Inr b
        \<and> u = a @ b)"
  using detokenize_stable_cut [of C key s x "\<lambda>p. p" u]
  by (simp add: unmask_and_detokenize_response_def unmask_keywords_text_def detokenize_text_def
      safe_prefix_len_no_keywords [OF assms])

lemma demo_stream:
  "unmask_and_detokenize_response demo_crypto ascii_unicode
     (''x [NAME:TOKEN_6b4e41'' @ ''4d4523626f62] y'') [] demo_key = Inr ''x bob y''"
  by code_simp

lemma safe_prefix_transparent_witness:
  "\<exists>a b. unmask_and_detokenize_response demo_crypto ascii_unicode
       (take (safe_prefix_len ''x [NAME:TOKEN_6b4e41'' []) ''x [NAME:TOKEN_6b4e41'') [] demo_key = Inr a
     \<and> unmask_and_detokenize_response demo_crypto ascii_unicode
       (drop (safe_prefix_len ''x [NAME:TOKEN_6b4e41'' []) ''x [NAME:TOKEN_6b4e41'' @ ''4d4523626f62] y'')
       [] demo_key = Inr b
     \<and> ''x bob y'' = a @ b"
proof -
  have "length ''x [NAME:TOKEN_6b4e41'' - stable_len ''x [NAME:TOKEN_6b4e41'' \<le> MAX_TOKEN_SPAN_LEN"
    unfolding MAX_TOKEN_SPAN_LEN_def by simp
  from safe_prefix_transparent [OF this, THEN iffD1, OF demo_stream] show ?thesis .
qed

text \<open>A keyword alias that is still arriving is never cut: if, after more input, an occurrence of the
  alias covers the current end of the text, the held tail starts at or before it.\<close>

theorem alias_prefix_start_holds_growing:
  assumes "is_utf8 s" and "is_utf8 al" and "alias_at al case_sensitive (s @ x) p"
    and "p < length s" and "length s < p + length al"
  shows "alias_prefix_start s al case_sensitive \<le> p"
  by (rule alias_prefix_start_growing [OF assms])

lemma alias_prefix_start_holds_growing_witness: "alias_prefix_start ''hi Bran'' ''Brandex'' False \<le> 3"
proof (rule alias_prefix_start_holds_growing [where x = "''DEX''"])
  show "is_utf8 ''hi Bran''" "is_utf8 ''Brandex''" "alias_at ''Brandex'' False (''hi Bran'' @ ''DEX'') 3"
    by code_simp+
qed simp_all

text \<open>But a complete alias can be cut: with the alias \<open>Anna\<close>, whose last letter is also its first up to
  case, the response \<open>Anna\<close> is split after three bytes, and transforming the two parts
  separately loses the unmasking that a pass over the whole text performs.\<close>

theorem safe_prefix_cuts_complete_alias:
  "let kws = [\<lparr> match_text = ''Zofia'', kw_alias = ''Anna'', kw_case_sensitive = False \<rparr>];
       k = safe_prefix_len ''Anna'' kws;
       pass = (\<lambda>s. unmask_and_detokenize_response demo_crypto ascii_unicode s kws demo_key)
   in k = 3 \<and> pass ''Anna'' = Inr ''Zofia''
      \<and> pass (take k ''Anna'') = Inr ''Ann'' \<and> pass (drop k ''Anna'') = Inr ''a''"
  by code_simp

end
