(* ===== verification/Proxy_Rewrite.thy ===== *)
theory Proxy_Rewrite
  imports Proxy_Pii
begin

text \<open>
  The inbound response rewriter of \<open>containers/proxy/src/rewrite.rs\<close>: an incremental SSE
  parser over byte chunks with a rolling buffer per content block, and the whole-body
  fallback. A rewriter step returns the bytes to forward or an error, after which the relay
  aborts the stream. Ordered maps (\<open>BTreeMap\<close>, the maps of \<open>serde_json\<close>) are lists sorted by key.
\<close>

section \<open>Ordered maps\<close>

fun bt_insert :: "'k :: linorder \<Rightarrow> 'v \<Rightarrow> ('k \<times> 'v) list \<Rightarrow> ('k \<times> 'v) list" where
  "bt_insert k v [] = [(k, v)]"
| "bt_insert k v ((j, w) # m) =
     (if k < j then (k, v) # (j, w) # m
      else if k = j then (k, v) # m
      else (j, w) # bt_insert k v m)"

definition bt_remove :: "'k \<Rightarrow> ('k \<times> 'v) list \<Rightarrow> ('k \<times> 'v) list" where
  "bt_remove k m = filter (\<lambda>(j, _). j \<noteq> k) m"

definition bt_sorted :: "('k :: linorder \<times> 'v) list \<Rightarrow> bool" where
  "bt_sorted m \<longleftrightarrow> sorted_wrt (<) (map fst m)"

lemma bt_insert_keys: "fst ` set (bt_insert k v m) = insert k (fst ` set m)"
  by (induction k v m rule: bt_insert.induct) auto

lemma bt_insert_sorted: "bt_sorted m \<Longrightarrow> bt_sorted (bt_insert k v m)"
proof (induction k v m rule: bt_insert.induct)
  case (2 k v j w m)
  have "\<forall>x \<in> fst ` set (bt_insert k v m). j < x" if "j < k" "\<forall>x \<in> fst ` set m. j < x"
    using that by (simp add: bt_insert_keys)
  with 2 show ?case by (auto simp: bt_sorted_def)
qed (simp add: bt_sorted_def)

lemma bt_insert_lookup: "bt_sorted m \<Longrightarrow> map_of (bt_insert k v m) = (map_of m)(k \<mapsto> v)"
proof (induction k v m rule: bt_insert.induct)
  case (2 k v j w m)
  then show ?case by (auto simp: bt_sorted_def fun_eq_iff)
qed simp

lemma bt_remove_sorted: "bt_sorted m \<Longrightarrow> bt_sorted (bt_remove k m)"
  by (induction m) (auto simp: bt_sorted_def bt_remove_def)

lemma bt_remove_lookup: "map_of (bt_remove k m) = (map_of m)(k := None)"
  by (induction m) (auto simp: bt_remove_def fun_eq_iff)

section \<open>State\<close>

definition MAX_BUFFERED_BYTES :: nat where
  "MAX_BUFFERED_BYTES = 8 * 1024 * 1024"

datatype rewrite_error =
    Detokenize detokenize_error
  | UnparseableEvent rstr
  | Oversized

datatype delta_kind = TextDelta | InputJson | Thinking

definition kind_from_wire :: "rstr \<Rightarrow> delta_kind option" where
  "kind_from_wire t =
     (if t = ''text_delta'' then Some TextDelta
      else if t = ''input_json_delta'' then Some InputJson
      else if t = ''thinking_delta'' then Some Thinking
      else None)"

fun kind_wire :: "delta_kind \<Rightarrow> rstr" where
  "kind_wire TextDelta = ''text_delta''"
| "kind_wire InputJson = ''input_json_delta''"
| "kind_wire Thinking = ''thinking_delta''"

fun payload_key :: "delta_kind \<Rightarrow> rstr" where
  "payload_key TextDelta = ''text''"
| "payload_key InputJson = ''partial_json''"
| "payload_key Thinking = ''thinking''"

type_synonym json_map = "(rstr \<times> json) list"

record frame_extras =
  fx_top :: json_map
  fx_delta :: json_map

record block_buffer =
  bb_kind :: delta_kind
  bb_pending :: rstr
  bb_extras :: frame_extras

record sse_rewriter =
  line_buf :: "byte list"
  event_raw :: "byte list"
  event_data :: "rstr list"
  saw_event_name :: bool
  use_event_names :: bool
  blocks :: "(u64 \<times> block_buffer) list"

definition sse_default :: sse_rewriter where
  "sse_default =
     \<lparr> line_buf = [], event_raw = [], event_data = [], saw_event_name = False,
       use_event_names = False, blocks = [] \<rparr>"

definition no_extras :: frame_extras where
  "no_extras = \<lparr> fx_top = [], fx_delta = [] \<rparr>"

text \<open>What the rewriter is given: the engine's parameters, the keywords and the key.\<close>

record rewrite_env =
  rw_crypto :: crypto
  rw_unicode :: unicode
  rw_serde :: serde
  rw_keywords :: "compiled_keyword list"
  rw_key :: engine_key

definition as_object :: "json \<Rightarrow> json_map option" where
  "as_object v = (case v of JObj fs \<Rightarrow> Some fs | _ \<Rightarrow> None)"

definition copy_fields :: "(rstr \<Rightarrow> bool) \<Rightarrow> json_map \<Rightarrow> json_map" where
  "copy_fields P fs = foldl (\<lambda>m (k, v). if P k then bt_insert k v m else m) [] fs"

definition capture_extras :: "json \<Rightarrow> rstr \<Rightarrow> frame_extras" where
  "capture_extras frame pkey =
     \<lparr> fx_top =
         (case as_object frame of
            None \<Rightarrow> []
          | Some fs \<Rightarrow> copy_fields (\<lambda>k. k \<noteq> ''type'' \<and> k \<noteq> ''index'' \<and> k \<noteq> ''delta'') fs),
       fx_delta =
         (case Option.bind (json_get ''delta'' frame) as_object of
            None \<Rightarrow> []
          | Some fs \<Rightarrow> copy_fields (\<lambda>k. k \<noteq> ''type'' \<and> k \<noteq> pkey) fs) \<rparr>"

definition transform :: "rewrite_env \<Rightarrow> delta_kind \<Rightarrow> rstr \<Rightarrow> rewrite_error + rstr" where
  "transform E kind s =
     (case (case kind of
              InputJson \<Rightarrow>
                unmask_and_detokenize_json_fragment (rw_crypto E) (rw_unicode E) (rw_serde E) s
                  (rw_keywords E) (rw_key E)
            | _ \<Rightarrow> unmask_and_detokenize_response (rw_crypto E) (rw_unicode E) s (rw_keywords E) (rw_key E)) of
        Inl e \<Rightarrow> Inl (Detokenize e)
      | Inr t \<Rightarrow> Inr t)"

section \<open>Emitting\<close>

definition u64_to_string :: "u64 \<Rightarrow> rstr" where
  "u64_to_string n = map (\<lambda>d. char_of (48 + d)) (dec_digits (unat n))"

text \<open>\<open>as_u64\<close> of a number literal: decimal digits that fit in 64 bits.\<close>

definition as_u64 :: "json \<Rightarrow> u64 option" where
  "as_u64 v =
     (case v of
        JNum lit \<Rightarrow>
          (let n = foldl (\<lambda>n d. n * 10 + (code d - 48)) 0 lit in
           if lit \<noteq> [] \<and> list_all is_ascii_digit lit \<and> n < 2 ^ 64 then Some (word_of_nat n) else None)
      | _ \<Rightarrow> None)"

definition delta_frame :: "u64 \<Rightarrow> delta_kind \<Rightarrow> rstr \<Rightarrow> frame_extras \<Rightarrow> json" where
  "delta_frame index kind s extras =
     (let delta = bt_insert (payload_key kind) (JStr s) (bt_insert ''type'' (JStr (kind_wire kind)) (fx_delta extras));
          top = bt_insert ''delta'' (JObj delta)
                  (bt_insert ''index'' (JNum (u64_to_string index))
                     (bt_insert ''type'' (JStr ''content_block_delta'') (fx_top extras)))
      in JObj top)"

definition emit_delta :: "rewrite_env \<Rightarrow> bool \<Rightarrow> u64 \<Rightarrow> delta_kind \<Rightarrow> rstr \<Rightarrow> frame_extras \<Rightarrow> byte list" where
  "emit_delta E event_names index kind s extras =
     (if event_names then ''event: content_block_delta'' @ [CHR 0x0A] else [])
     @ ''data: '' @ json_print (rw_serde E) (delta_frame index kind s extras) @ [CHR 0x0A, CHR 0x0A]"

section \<open>Blocks\<close>

type_synonym sse_result = "rewrite_error + sse_rewriter \<times> byte list"

definition flush_block :: "rewrite_env \<Rightarrow> u64 \<Rightarrow> sse_rewriter \<Rightarrow> sse_result" where
  "flush_block E index st =
     (case map_of (blocks st) index of
        None \<Rightarrow> Inr (st, [])
      | Some b \<Rightarrow>
          (if bb_pending b = [] then Inr (st, [])
           else case transform E (bb_kind b) (bb_pending b) of
               Inl e \<Rightarrow> Inl e
             | Inr t \<Rightarrow>
                 Inr (st \<lparr> blocks := bt_insert index (b \<lparr> bb_pending := [] \<rparr>) (blocks st) \<rparr>,
                   (if t = [] then []
                    else emit_delta E (use_event_names st) index (bb_kind b) t (bb_extras b)))))"

text \<open>The pending text after a new payload: the transformed safe prefix and the held tail.\<close>

definition feed_block :: "rewrite_env \<Rightarrow> delta_kind \<Rightarrow> rstr \<Rightarrow> rewrite_error + rstr \<times> rstr" where
  "feed_block E kind pending =
     (let safe = safe_prefix_len pending (rw_keywords E) in
      if safe = 0 then Inr ([], pending)
      else case transform E kind (take safe pending) of
          Inl e \<Rightarrow> Inl e
        | Inr t \<Rightarrow> Inr (t, drop safe pending))"

definition delta_payload :: "delta_kind \<Rightarrow> json \<Rightarrow> rstr option" where
  "delta_payload kind frame =
     Option.bind (Option.bind (json_get ''delta'' frame) (json_get (payload_key kind))) as_str"

definition rewrite_delta :: "rewrite_env \<Rightarrow> u64 \<Rightarrow> delta_kind \<Rightarrow> json \<Rightarrow> sse_rewriter \<Rightarrow> sse_result" where
  "rewrite_delta E index kind frame st =
     (case delta_payload kind frame of
        None \<Rightarrow> Inl (UnparseableEvent ''delta payload is not a string'')
      | Some payload \<Rightarrow>
          res_bind
            (case map_of (blocks st) index of
               Some b \<Rightarrow>
                 (if bb_kind b \<noteq> kind
                  then res_map (\<lambda>(st', o'). (st' \<lparr> blocks := bt_remove index (blocks st') \<rparr>, o'))
                    (flush_block E index st)
                  else Inr (st, []))
             | None \<Rightarrow> Inr (st, []))
            (\<lambda>(st1, out1).
               let pending = (case map_of (blocks st1) index of Some b \<Rightarrow> bb_pending b | None \<Rightarrow> []) @ payload;
                   extras = capture_extras frame (payload_key kind)
               in case feed_block E kind pending of
                    Inl e \<Rightarrow> Inl e
                  | Inr (t, tail) \<Rightarrow>
                      Inr (st1 \<lparr> blocks := bt_insert index
                             \<lparr> bb_kind = kind, bb_pending = tail, bb_extras = extras \<rparr> (blocks st1) \<rparr>,
                        out1 @ (if t = [] then []
                                else emit_delta E (use_event_names st1) index kind t extras))))"

section \<open>Events and lines\<close>

definition str_field :: "rstr \<Rightarrow> json \<Rightarrow> rstr option" where
  "str_field k v = Option.bind (json_get k v) as_str"

definition frame_index :: "json \<Rightarrow> u64" where
  "frame_index frame = (case Option.bind (json_get ''index'' frame) as_u64 of Some i \<Rightarrow> i | None \<Rightarrow> 0)"

definition delta_type :: "json \<Rightarrow> rstr" where
  "delta_type frame =
     (case Option.bind (json_get ''delta'' frame) (str_field ''type'') of Some t \<Rightarrow> t | None \<Rightarrow> [])"

definition append_out :: "byte list \<Rightarrow> sse_result \<Rightarrow> sse_result" where
  "append_out tail r = res_map (\<lambda>(st, o'). (st, o' @ tail)) r"

definition on_event_complete :: "rewrite_env \<Rightarrow> sse_rewriter \<Rightarrow> sse_result" where
  "on_event_complete E st0 =
     (let raw = event_raw st0; data = event_data st0; had_event_name = saw_event_name st0;
          st = st0 \<lparr> event_raw := [], event_data := [], saw_event_name := False \<rparr>;
          joined = join_byte (CHR 0x0A) data
      in if data = [] then Inr (st, raw)
         else if joined = ''[DONE]'' then Inr (st, raw)
         else case json_parse (rw_serde E) joined of
             None \<Rightarrow> Inl (UnparseableEvent ''data content is not valid JSON'')
           | Some frame \<Rightarrow>
               (if str_field ''type'' frame = Some ''content_block_delta'' then
                  (case kind_from_wire (delta_type frame) of
                     Some kind \<Rightarrow>
                       rewrite_delta E (frame_index frame) kind frame (st \<lparr> use_event_names := had_event_name \<rparr>)
                   | None \<Rightarrow> append_out raw (flush_block E (frame_index frame) st))
                else if str_field ''type'' frame = Some ''content_block_stop'' then
                  res_map (\<lambda>(st', o').
                      (st' \<lparr> blocks := bt_remove (frame_index frame) (blocks st') \<rparr>, o' @ raw))
                    (flush_block E (frame_index frame) st)
                else Inr (st, raw)))"

definition strip_field :: "rstr \<Rightarrow> byte list \<Rightarrow> byte list option" where
  "strip_field field line =
     (case strip_prefix field line of
        None \<Rightarrow> None
      | Some rest \<Rightarrow> Some (case strip_prefix '' '' rest of Some r \<Rightarrow> r | None \<Rightarrow> rest))"

definition chop :: "byte \<Rightarrow> byte list \<Rightarrow> byte list" where
  "chop b line = (case strip_suffix [b] line of Some r \<Rightarrow> r | None \<Rightarrow> line)"

definition consume_line :: "rewrite_env \<Rightarrow> byte list \<Rightarrow> sse_rewriter \<Rightarrow> sse_result" where
  "consume_line E raw st0 =
     (let st = st0 \<lparr> event_raw := event_raw st0 @ raw \<rparr>;
          line = chop (CHR 0x0D) (chop (CHR 0x0A) raw)
      in if line = [] then on_event_complete E st
         else case strip_field ''data:'' line of
             Some rest \<Rightarrow>
               (case from_utf8 rest of
                  None \<Rightarrow> Inl (UnparseableEvent ''data line is not valid UTF-8'')
                | Some s \<Rightarrow> Inr (st \<lparr> event_data := event_data st @ [s] \<rparr>, []))
           | None \<Rightarrow>
               (if strip_field ''event:'' line \<noteq> None then Inr (st \<lparr> saw_event_name := True \<rparr>, [])
                else Inr (st, [])))"

text \<open>The line loop, on the line buffer it drains; what is left over stays buffered.\<close>

function consume_lines :: "rewrite_env \<Rightarrow> byte list \<Rightarrow> sse_rewriter \<Rightarrow> sse_result" where
  "consume_lines E buf st =
     (case position (\<lambda>b. b = CHR 0x0A) buf of
        None \<Rightarrow> Inr (st \<lparr> line_buf := buf \<rparr>, [])
      | Some nl \<Rightarrow>
          (case consume_line E (take (nl + 1) buf) st of
             Inl e \<Rightarrow> Inl e
           | Inr (st', o') \<Rightarrow>
               (if length (event_raw st') > MAX_BUFFERED_BYTES then Inl Oversized
                else res_map (\<lambda>(st'', o''). (st'', o' @ o'')) (consume_lines E (drop (nl + 1) buf) st'))))"
  by pat_completeness auto
termination
  by (relation "measure (\<lambda>(E, buf, st). length buf)") (auto dest!: position_Some)

declare consume_lines.simps [simp del]

definition sse_push_chunk :: "rewrite_env \<Rightarrow> byte list \<Rightarrow> sse_rewriter \<Rightarrow> sse_result" where
  "sse_push_chunk E chunk st =
     (let buf = line_buf st @ chunk in
      if length buf + length (event_raw st) > MAX_BUFFERED_BYTES then Inl Oversized
      else consume_lines E buf st)"

fun flush_blocks :: "rewrite_env \<Rightarrow> u64 list \<Rightarrow> sse_rewriter \<Rightarrow> sse_result" where
  "flush_blocks E [] st = Inr (st, [])"
| "flush_blocks E (i # is) st =
     res_bind (flush_block E i st)
       (\<lambda>(st', o'). res_map (\<lambda>(st'', o''). (st'', o' @ o'')) (flush_blocks E is st'))"

definition then_out :: "sse_result \<Rightarrow> (sse_rewriter \<Rightarrow> sse_result) \<Rightarrow> sse_result" where
  "then_out r f = res_bind r (\<lambda>(st, o'). res_map (\<lambda>(st', o''). (st', o' @ o'')) (f st))"

definition sse_finish :: "rewrite_env \<Rightarrow> sse_rewriter \<Rightarrow> rewrite_error + byte list" where
  "sse_finish E st0 =
     res_map snd
       (then_out
         (then_out
           (if line_buf st0 \<noteq> [] then consume_line E (line_buf st0 @ [CHR 0x0A]) (st0 \<lparr> line_buf := [] \<rparr>)
            else Inr (st0, []))
           (\<lambda>st. if event_raw st \<noteq> [] \<or> event_data st \<noteq> [] then on_event_complete E st else Inr (st, [])))
         (\<lambda>st. flush_blocks E (map fst (blocks st)) st))"

section \<open>The facade\<close>

datatype response_rewriter = Sse sse_rewriter | Raw response_rewrite_buffer nat

definition rewriter_new :: "bool \<Rightarrow> response_rewriter" where
  "rewriter_new is_event_stream = (if is_event_stream then Sse sse_default else Raw [] 0)"

definition rewriter_push_chunk ::
  "rewrite_env \<Rightarrow> byte list \<Rightarrow> response_rewriter \<Rightarrow> rewrite_error + response_rewriter \<times> byte list" where
  "rewriter_push_chunk E chunk r =
     (case r of
        Sse st \<Rightarrow> res_map (\<lambda>(st', o'). (Sse st', o')) (sse_push_chunk E chunk st)
      | Raw buf _ \<Rightarrow>
          (let (buf', total) = buffer_push_chunk buf chunk in
           if total > MAX_BUFFERED_BYTES then Inl Oversized else Inr (Raw buf' total, [])))"

definition rewriter_finish :: "rewrite_env \<Rightarrow> response_rewriter \<Rightarrow> rewrite_error + byte list" where
  "rewriter_finish E r =
     (case r of
        Sse st \<Rightarrow> sse_finish E st
      | Raw buf _ \<Rightarrow>
          (case buffer_finish (rw_crypto E) (rw_unicode E) buf (rw_keywords E) (rw_key E) of
             Inl e \<Rightarrow> Inl (Detokenize e)
           | Inr out \<Rightarrow> Inr out))"

section \<open>Steps do not look at the line buffer\<close>

definition with_line_buf :: "byte list \<Rightarrow> sse_result \<Rightarrow> sse_result" where
  "with_line_buf x r = res_map (\<lambda>(st, o'). (st \<lparr> line_buf := x \<rparr>, o')) r"

lemma with_line_buf_simps [simp]:
  "with_line_buf x (Inl e) = Inl e"
  "with_line_buf x (Inr (st, o')) = Inr (st \<lparr> line_buf := x \<rparr>, o')"
  by (simp_all add: with_line_buf_def)

lemma flush_block_frame:
  "flush_block E i (st \<lparr> line_buf := x \<rparr>) = with_line_buf x (flush_block E i st)"
  by (auto simp: flush_block_def split: option.splits sum.splits)

lemma flush_block_line_buf: "flush_block E i st = Inr (st', o') \<Longrightarrow> line_buf st' = line_buf st"
  by (auto simp: flush_block_def split: option.splits sum.splits if_splits)

lemma rewrite_delta_frame:
  "rewrite_delta E i kind frame (st \<lparr> line_buf := x \<rparr>) = with_line_buf x (rewrite_delta E i kind frame st)"
proof (cases "flush_block E i st")
  case (Inl e)
  then show ?thesis
    by (auto simp: rewrite_delta_def flush_block_frame Let_def split: option.splits sum.splits)
next
  case (Inr p)
  obtain st1 o1 where p: "p = (st1, o1)" by (cases p)
  show ?thesis
    by (auto simp: rewrite_delta_def flush_block_frame Inr p Let_def split: option.splits sum.splits)
qed

lemma on_event_complete_frame:
  fixes st :: sse_rewriter
  shows
  "on_event_complete E (st \<lparr> line_buf := x \<rparr>) = with_line_buf x (on_event_complete E st)"
proof -
  let ?st = "st \<lparr> event_raw := [], event_data := [], saw_event_name := False \<rparr>"
  have eq: "st \<lparr> line_buf := x, event_raw := [], event_data := [], saw_event_name := False \<rparr>
      = ?st \<lparr> line_buf := x \<rparr>" by simp
  have eq': "?st \<lparr> line_buf := x, use_event_names := n \<rparr> = ?st \<lparr> use_event_names := n, line_buf := x \<rparr>" for n
    by simp
  have app: "append_out r (with_line_buf x q) = with_line_buf x (append_out r q)" for r q
    by (cases q) (auto simp: append_out_def)
  have rem: "res_map (\<lambda>(st', o'). (st' \<lparr> blocks := bt_remove k (blocks st') \<rparr>, o' @ r)) (with_line_buf x q)
      = with_line_buf x (res_map (\<lambda>(st', o'). (st' \<lparr> blocks := bt_remove k (blocks st') \<rparr>, o' @ r)) q)" for k r q
    by (cases q) auto
  have sel: "event_raw (st \<lparr> line_buf := x \<rparr>) = event_raw st" "event_data (st \<lparr> line_buf := x \<rparr>) = event_data st"
    "saw_event_name (st \<lparr> line_buf := x \<rparr>) = saw_event_name st" by simp_all
  let ?j = "json_parse (rw_serde E) (join_byte (CHR 0x0A) (event_data st))"
  consider "event_data st = [] \<or> join_byte (CHR 0x0A) (event_data st) = ''[DONE]''"
    | "event_data st \<noteq> []" "join_byte (CHR 0x0A) (event_data st) \<noteq> ''[DONE]''" "?j = None"
    | frame where "event_data st \<noteq> []" "join_byte (CHR 0x0A) (event_data st) \<noteq> ''[DONE]''" "?j = Some frame"
    by (cases ?j) blast+
  then show ?thesis
  proof cases
    case (3 frame)
    show ?thesis
      unfolding on_event_complete_def Let_def eq sel
      by (cases "kind_from_wire (delta_type frame)")
        (simp_all only: 3 if_False option.case eq' flush_block_frame rewrite_delta_frame app rem
          with_line_buf_simps if_distrib [of "with_line_buf x"] refl)
  qed (auto simp: on_event_complete_def Let_def)
qed

lemma consume_line_frame:
  fixes st :: sse_rewriter
  shows
  "consume_line E raw (st \<lparr> line_buf := x \<rparr>) = with_line_buf x (consume_line E raw st)"
proof -
  have eq: "st \<lparr> line_buf := x, event_raw := y \<rparr> = st \<lparr> event_raw := y, line_buf := x \<rparr>" for y by simp
  show ?thesis
    unfolding consume_line_def Let_def sse_rewriter.simps eq
    by (auto simp add: on_event_complete_frame [where st = "st \<lparr> event_raw := event_raw st @ raw \<rparr>", simplified]
        split: option.split)
qed

lemma consume_lines_frame: "consume_lines E buf (st \<lparr> line_buf := x \<rparr>) = consume_lines E buf st"
proof (induction E buf st arbitrary: x rule: consume_lines.induct)
  case (1 E buf st)
  show ?case
  proof (cases "position (\<lambda>b. b = CHR 0x0A) buf")
    case None
    then show ?thesis by (simp add: consume_lines.simps [of E buf])
  next
    case (Some nl)
    show ?thesis
    proof (cases "consume_line E (take (nl + 1) buf) st")
      case (Inl e)
      with Some show ?thesis by (simp add: consume_lines.simps [of E buf] consume_line_frame)
    next
      case (Inr p)
      obtain st1 o1 where p: "p = (st1, o1)" by (cases p)
      show ?thesis
      proof (cases "length (event_raw st1) > MAX_BUFFERED_BYTES")
        case True
        with Some Inr p show ?thesis by (simp add: consume_lines.simps [of E buf] consume_line_frame)
      next
        case False
        have "consume_lines E (drop (nl + 1) buf) (st1 \<lparr> line_buf := x \<rparr>) = consume_lines E (drop (nl + 1) buf) st1"
          by (rule "1.IH" [OF Some Inr p [symmetric]]) (use False in simp)
        with False Some Inr p show ?thesis by (simp add: consume_lines.simps [of E buf] consume_line_frame)
      qed
    qed
  qed
qed

lemma position_append_Some: "position P a = Some n \<Longrightarrow> position P (a @ b) = Some n"
  by (induction a arbitrary: n) (auto split: if_splits)

text \<open>Reading a buffer in two parts, the second behind what the first left over.\<close>

lemma consume_lines_append:
  "consume_lines E (a @ b) st = then_out (consume_lines E a st) (\<lambda>st'. consume_lines E (line_buf st' @ b) st')"
proof (induction E a st rule: consume_lines.induct)
  case (1 E a st)
  show ?case
  proof (cases "position (\<lambda>b. b = CHR 0x0A) a")
    case None
    have "res_map (\<lambda>(st', y). (st', y)) r = r" for r :: sse_result by (cases r) auto
    with None show ?thesis
      by (simp add: consume_lines.simps [of E a] then_out_def consume_lines_frame)
  next
    case (Some nl)
    then have nl: "nl < length a" by (auto dest: position_Some)
    show ?thesis
    proof (cases "consume_line E (take (nl + 1) a) st")
      case (Inl e)
      with Some nl show ?thesis
        by (simp add: consume_lines.simps [of E "a @ b"] consume_lines.simps [of E a] then_out_def
            position_append_Some)
    next
      case (Inr p)
      obtain st1 o1 where p: "p = (st1, o1)" by (cases p)
      show ?thesis
      proof (cases "length (event_raw st1) > MAX_BUFFERED_BYTES")
        case True
        with Some nl Inr p show ?thesis
          by (simp add: consume_lines.simps [of E "a @ b"] consume_lines.simps [of E a] then_out_def
              position_append_Some)
      next
        case False
        have IH: "consume_lines E (drop (nl + 1) a @ b) st1
            = then_out (consume_lines E (drop (nl + 1) a) st1) (\<lambda>st'. consume_lines E (line_buf st' @ b) st')"
          by (rule "1.IH" [OF Some Inr p [symmetric]]) (use False in simp)
        have assoc: "res_map (\<lambda>(s2, y). (s2, o1 @ y)) (then_out r f)
            = then_out (res_map (\<lambda>(s2, y). (s2, o1 @ y)) r) f" for r f
        proof (cases r)
          case (Inr q)
          obtain s3 o3 where "q = (s3, o3)" by (cases q)
          with Inr show ?thesis by (cases "f s3") (auto simp: then_out_def)
        qed (simp add: then_out_def)
        have "consume_lines E (a @ b) st = res_map (\<lambda>(s2, y). (s2, o1 @ y)) (consume_lines E (drop (nl + 1) a @ b) st1)"
          using False Some Inr p nl by (subst consume_lines.simps) (simp add: position_append_Some)
        moreover have "consume_lines E a st = res_map (\<lambda>(s2, y). (s2, o1 @ y)) (consume_lines E (drop (nl + 1) a) st1)"
          using False Some Inr p by (subst consume_lines.simps) simp
        ultimately show ?thesis by (simp only: IH assoc)
      qed
    qed
  qed
qed

section \<open>Chunking\<close>

fun push_chunks :: "rewrite_env \<Rightarrow> byte list list \<Rightarrow> sse_rewriter \<Rightarrow> sse_result" where
  "push_chunks E [] st = Inr (st, [])"
| "push_chunks E (c # cs) st = then_out (sse_push_chunk E c st) (push_chunks E cs)"

text \<open>A whole response: the chunks as they arrive, then the end of the stream.\<close>

definition sse_stream :: "rewrite_env \<Rightarrow> byte list list \<Rightarrow> rewrite_error + byte list" where
  "sse_stream E cs =
     (case push_chunks E cs sse_default of
        Inl e \<Rightarrow> Inl e
      | Inr (st, o') \<Rightarrow> res_map ((@) o') (sse_finish E st))"

lemma then_out_eq_Inr:
  "then_out r f = Inr (st', o') \<longleftrightarrow> (\<exists>st1 o1 o2. r = Inr (st1, o1) \<and> f st1 = Inr (st', o2) \<and> o' = o1 @ o2)"
  by (cases r) (auto simp: then_out_def res_simps)

lemma then_out_cases:
  obtains e where "r = Inl e" "then_out r f = Inl e"
  | st1 o1 e where "r = Inr (st1, o1)" "f st1 = Inl e" "then_out r f = Inl e"
  | st1 o1 st2 o2 where "r = Inr (st1, o1)" "f st1 = Inr (st2, o2)" "then_out r f = Inr (st2, o1 @ o2)"
proof (cases r)
  case (Inr p)
  then show thesis using that(2,3) by (cases p; cases "f (fst p)") (auto simp: then_out_def)
qed (use that(1) in \<open>auto simp: then_out_def\<close>)

lemma consume_lines_None:
  "position (\<lambda>b. b = CHR 0x0A) buf = None \<Longrightarrow> consume_lines E buf st = Inr (st \<lparr> line_buf := buf \<rparr>, [])"
  by (subst consume_lines.simps) simp

lemma consume_lines_Some:
  assumes "position (\<lambda>b. b = CHR 0x0A) buf = Some nl"
  shows "consume_lines E buf st = then_out (consume_line E (take (nl + 1) buf) st)
    (\<lambda>st'. if length (event_raw st') > MAX_BUFFERED_BYTES then Inl Oversized
           else consume_lines E (drop (nl + 1) buf) st')"
proof (cases "consume_line E (take (nl + 1) buf) st")
  case (Inl e)
  with assms show ?thesis by (subst consume_lines.simps) (simp add: then_out_def)
next
  case (Inr p)
  with assms show ?thesis by (subst consume_lines.simps) (cases p, simp add: then_out_def)
qed

text \<open>What holds of every line step holds of the loop.\<close>

lemma consume_lines_rule:
  assumes "consume_lines E buf st = Inr (st', o')" and "P buf st"
    and step: "\<And>buf st nl st1 o1. P buf st \<Longrightarrow> position (\<lambda>b. b = CHR 0x0A) buf = Some nl
      \<Longrightarrow> consume_line E (take (nl + 1) buf) st = Inr (st1, o1) \<Longrightarrow> P (drop (nl + 1) buf) st1"
  shows "\<exists>rest st1. CHR 0x0A \<notin> set rest \<and> P rest st1 \<and> st' = st1 \<lparr> line_buf := rest \<rparr>"
  using assms(1,2)
proof (induction "length buf" arbitrary: buf st o' rule: less_induct)
  case less
  show ?case
  proof (cases "position (\<lambda>b. b = CHR 0x0A) buf")
    case None
    with less.prems show ?thesis by (auto simp: consume_lines_None position_None)
  next
    case (Some nl)
    from less.prems(1) obtain st1 o1 o2 where c: "consume_line E (take (nl + 1) buf) st = Inr (st1, o1)"
      and r: "consume_lines E (drop (nl + 1) buf) st1 = Inr (st', o2)"
      by (auto simp: consume_lines_Some [OF Some] then_out_eq_Inr split: if_splits)
    have "length (drop (nl + 1) buf) < length buf" using position_Some [OF Some] by auto
    from less.hyps [OF this r step [OF less.prems(2) Some c]] show ?thesis .
  qed
qed

lemma consume_lines_no_newline:
  "CHR 0x0A \<notin> set buf \<Longrightarrow> consume_lines E buf st = Inr (st \<lparr> line_buf := buf \<rparr>, [])"
  by (rule consume_lines_None) (auto simp: position_None)

lemma sse_push_chunk_eq:
  assumes "sse_push_chunk E c st \<noteq> Inl Oversized"
  shows "sse_push_chunk E c st = consume_lines E (line_buf st @ c) st"
  using assms by (auto simp: sse_push_chunk_def Let_def split: if_splits)

lemma push_chunks_eq:
  assumes "CHR 0x0A \<notin> set (line_buf st)" and "push_chunks E cs st \<noteq> Inl Oversized"
  shows "push_chunks E cs st = consume_lines E (line_buf st @ concat cs) st"
  using assms
proof (induction cs arbitrary: st)
  case Nil
  then show ?case by (simp add: consume_lines_no_newline)
next
  case (Cons c cs)
  have head: "sse_push_chunk E c st = consume_lines E (line_buf st @ c) st"
    using Cons.prems(2) by (intro sse_push_chunk_eq) (auto simp: then_out_def)
  have all: "consume_lines E (line_buf st @ concat (c # cs)) st
      = then_out (consume_lines E (line_buf st @ c) st) (\<lambda>st'. consume_lines E (line_buf st' @ concat cs) st')"
    using consume_lines_append [of E "line_buf st @ c" "concat cs" st] by simp
  show ?case
  proof (cases "consume_lines E (line_buf st @ c) st")
    case (Inl e)
    then show ?thesis unfolding all by (simp add: head then_out_def)
  next
    case (Inr p)
    obtain st1 o1 where p: "p = (st1, o1)" by (cases p)
    have "push_chunks E cs st1 \<noteq> Inl Oversized"
      using Cons.prems(2) by (auto simp: head Inr p then_out_def)
    moreover have "CHR 0x0A \<notin> set (line_buf st1)"
      using consume_lines_rule [OF Inr [unfolded p], of "\<lambda>_ _. True"] by auto
    ultimately have "push_chunks E cs st1 = consume_lines E (line_buf st1 @ concat cs) st1"
      by (intro Cons.IH)
    then show ?thesis unfolding all by (simp add: head Inr p then_out_def)
  qed
qed

section \<open>The streamed text of a block\<close>

definition delta_render :: "rewrite_env \<Rightarrow> delta_kind \<Rightarrow> rstr \<Rightarrow> rstr" where
  "delta_render E kind = (if kind = InputJson then json_string_escape (rw_serde E) else (\<lambda>p. p))"

lemma transform_no_keywords:
  assumes "rw_keywords E = []"
  shows "transform E kind s = Inr u \<longleftrightarrow>
    detokenize_text_with (rw_crypto E) (rw_key E) s (delta_render E kind) = Inr u"
  using assms
  by (cases kind) (auto simp: transform_def unmask_and_detokenize_json_fragment_def
      unmask_and_detokenize_response_def unmask_keywords_text_def detokenize_text_def delta_render_def
      split: sum.split)

lemma transform_cut:
  assumes "rw_keywords E = []"
  shows "transform E kind (s @ x) = Inr u \<longleftrightarrow>
    (\<exists>a b. transform E kind (take (stable_len s) s) = Inr a
       \<and> transform E kind (drop (stable_len s) s @ x) = Inr b \<and> u = a @ b)"
  unfolding transform_no_keywords [OF assms] by (rule detokenize_stable_cut)

lemma transform_Nil: "rw_keywords E = [] \<Longrightarrow> transform E kind [] = Inr []"
  by (cases kind) (simp_all add: transform_def unmask_and_detokenize_response_def unmask_keywords_text_def
      detokenize_text_def unmask_and_detokenize_json_fragment_def detokenize_text_with_def span_find_iter_def)

text \<open>The tail held after each payload stays within the documented length of a token span.\<close>

fun held_short :: "rstr \<Rightarrow> rstr list \<Rightarrow> bool" where
  "held_short pending [] = True"
| "held_short pending (p # ps) =
     (let s = pending @ p in
      length s - stable_len s \<le> MAX_TOKEN_SPAN_LEN \<and> held_short (drop (stable_len s) s) ps)"

lemma feed_block_no_keywords:
  assumes "rw_keywords E = []" and "length s - stable_len s \<le> MAX_TOKEN_SPAN_LEN"
  shows "feed_block E kind s = res_map (\<lambda>t. (t, drop (stable_len s) s)) (transform E kind (take (stable_len s) s))"
  using assms safe_prefix_len_no_keywords [OF assms(2)]
  by (auto simp: feed_block_def Let_def transform_Nil split: sum.split)

definition pending_of :: "sse_rewriter \<Rightarrow> u64 \<Rightarrow> delta_kind \<Rightarrow> rstr option" where
  "pending_of st i kind =
     (case map_of (blocks st) i of
        None \<Rightarrow> Some []
      | Some b \<Rightarrow> if bb_kind b = kind then Some (bb_pending b) else None)"

fun push_deltas :: "rewrite_env \<Rightarrow> u64 \<Rightarrow> delta_kind \<Rightarrow> json list \<Rightarrow> sse_rewriter \<Rightarrow> sse_result" where
  "push_deltas E i kind [] st = flush_block E i st"
| "push_deltas E i kind (f # fs) st = then_out (rewrite_delta E i kind f st) (push_deltas E i kind fs)"

text \<open>Events for the texts \<open>ts\<close>, one after the other, empty texts left out.\<close>

fun emits :: "rewrite_env \<Rightarrow> bool \<Rightarrow> u64 \<Rightarrow> delta_kind \<Rightarrow> rstr list \<Rightarrow> byte list \<Rightarrow> bool" where
  "emits E n i kind [] out = (out = [])"
| "emits E n i kind (t # ts) out =
     (t \<noteq> [] \<and> (\<exists>extras rest. out = emit_delta E n i kind t extras @ rest \<and> emits E n i kind ts rest))"

lemma emits_append: "emits E n i kind ts a \<Longrightarrow> emits E n i kind us b \<Longrightarrow> emits E n i kind (ts @ us) (a @ b)"
proof (induction ts arbitrary: a)
  case (Cons t ts)
  from Cons.prems(1) obtain x r where t: "t \<noteq> []" and a: "a = emit_delta E n i kind t x @ r" and r: "emits E n i kind ts r"
    by auto
  from Cons.IH [OF r Cons.prems(2)] have "emits E n i kind (ts @ us) (r @ b)" .
  with t show ?case unfolding a by (simp only: append_Cons emits.simps append_assoc) blast
qed simp

lemma emits_one: "emits E n i kind (if t = [] then [] else [t]) (if t = [] then [] else emit_delta E n i kind t x)"
  by auto

lemma rewrite_delta_pending:
  assumes "bt_sorted (blocks st)" and "pending_of st i kind = Some pending"
    and "delta_payload kind f = Some p"
  shows "rewrite_delta E i kind f st = res_map (\<lambda>(t, tail).
      (st \<lparr> blocks := bt_insert i \<lparr> bb_kind = kind, bb_pending = tail,
         bb_extras = capture_extras f (payload_key kind) \<rparr> (blocks st) \<rparr>,
       if t = [] then [] else emit_delta E (use_event_names st) i kind t (capture_extras f (payload_key kind))))
     (feed_block E kind (pending @ p))"
proof (cases "map_of (blocks st) i")
  case None
  with assms show ?thesis
    by (cases "feed_block E kind (pending @ p)") (auto simp: rewrite_delta_def pending_of_def Let_def)
next
  case (Some b)
  with assms show ?thesis
    by (cases "feed_block E kind (pending @ p)")
      (auto simp: rewrite_delta_def pending_of_def Let_def split: if_splits)
qed

lemma flush_block_pending:
  assumes "pending_of st i kind = Some pending" and "rw_keywords E = []" and "transform E kind pending = Inr u"
  shows "\<exists>st' out. flush_block E i st = Inr (st', out)
    \<and> emits E (use_event_names st) i kind (if u = [] then [] else [u]) out"
  using assms by (auto simp: flush_block_def pending_of_def transform_Nil split: option.splits if_splits)

lemma flush_block_transform:
  assumes "pending_of st i kind = Some pending" and "rw_keywords E = []"
    and "flush_block E i st = Inr (st', out)"
  shows "\<exists>u. transform E kind pending = Inr u"
  using assms
  by (auto simp: flush_block_def pending_of_def transform_Nil split: option.splits if_splits sum.splits)

lemma push_deltas_text:
  assumes kw: "rw_keywords E = []" and "bt_sorted (blocks st)" and "pending_of st i kind = Some pending"
    and "list_all2 (\<lambda>f p. delta_payload kind f = Some p) fs ps" and "held_short pending ps"
    and "transform E kind (pending @ concat ps) = Inr u"
  shows "\<exists>st' out ts. push_deltas E i kind fs st = Inr (st', out)
    \<and> emits E (use_event_names st) i kind ts out \<and> concat ts = u"
  using assms(2-)
proof (induction fs arbitrary: st pending ps u)
  case Nil
  then have "transform E kind pending = Inr u" by simp
  from flush_block_pending [OF Nil.prems(2) kw this]
  obtain st' out where f: "flush_block E i st = Inr (st', out)"
    and e: "emits E (use_event_names st) i kind (if u = [] then [] else [u]) out" by blast
  have "concat (if u = [] then [] else [u]) = u" by simp
  with f e show ?case unfolding push_deltas.simps by blast
next
  case (Cons f fs)
  from Cons.prems(3) obtain p qs where ps: "ps = p # qs" and p: "delta_payload kind f = Some p"
    and qs: "list_all2 (\<lambda>f p. delta_payload kind f = Some p) fs qs"
    by (auto simp: list_all2_Cons1)
  let ?s = "pending @ p"
  let ?tail = "drop (stable_len ?s) ?s"
  from Cons.prems(4) ps have short: "length ?s - stable_len ?s \<le> MAX_TOKEN_SPAN_LEN"
    and rest: "held_short ?tail qs" by (simp_all only: held_short.simps Let_def)
  have "transform E kind (?s @ concat qs) = Inr u" using Cons.prems(5) ps by simp
  then obtain a b where a: "transform E kind (take (stable_len ?s) ?s) = Inr a"
    and b: "transform E kind (?tail @ concat qs) = Inr b" and u: "u = a @ b"
    unfolding transform_cut [OF kw, of kind ?s] by blast
  let ?x = "capture_extras f (payload_key kind)"
  let ?st = "st \<lparr> blocks := bt_insert i \<lparr> bb_kind = kind, bb_pending = ?tail, bb_extras = ?x \<rparr> (blocks st) \<rparr>"
  have step: "rewrite_delta E i kind f st =
      Inr (?st, if a = [] then [] else emit_delta E (use_event_names st) i kind a ?x)"
    by (simp only: rewrite_delta_pending [OF Cons.prems(1,2) p] feed_block_no_keywords [OF kw short] a
        res_map_simps prod.case)
  have "bt_sorted (blocks ?st)" using Cons.prems(1) by (simp add: bt_insert_sorted)
  moreover have "pending_of ?st i kind = Some ?tail"
    using Cons.prems(1) by (simp add: pending_of_def bt_insert_lookup)
  ultimately obtain st' out ts where r: "push_deltas E i kind fs ?st = Inr (st', out)"
    and e: "emits E (use_event_names ?st) i kind ts out" and ts: "concat ts = b"
    using Cons.IH [OF _ _ qs rest b] by blast
  have "push_deltas E i kind (f # fs) st =
      Inr (st', (if a = [] then [] else emit_delta E (use_event_names st) i kind a ?x) @ out)"
    by (simp only: push_deltas.simps then_out_def step r res_bind_simps res_map_simps prod.case)
  moreover have "emits E (use_event_names st) i kind ((if a = [] then [] else [a]) @ ts)
      ((if a = [] then [] else emit_delta E (use_event_names st) i kind a ?x) @ out)"
    by (rule emits_append [OF emits_one]) (use e in simp)
  moreover have "concat ((if a = [] then [] else [a]) @ ts) = u" by (simp add: ts u)
  ultimately show ?case by blast
qed

lemma push_deltas_transform:
  assumes kw: "rw_keywords E = []" and "bt_sorted (blocks st)" and "pending_of st i kind = Some pending"
    and "list_all2 (\<lambda>f p. delta_payload kind f = Some p) fs ps" and "held_short pending ps"
    and "push_deltas E i kind fs st = Inr (st', out)"
  shows "\<exists>u. transform E kind (pending @ concat ps) = Inr u"
  using assms(2-)
proof (induction fs arbitrary: st pending ps out)
  case Nil
  with flush_block_transform [OF Nil.prems(2) kw] show ?case by auto
next
  case (Cons f fs)
  from Cons.prems(3) obtain p qs where ps: "ps = p # qs" and p: "delta_payload kind f = Some p"
    and qs: "list_all2 (\<lambda>f p. delta_payload kind f = Some p) fs qs"
    by (auto simp: list_all2_Cons1)
  let ?s = "pending @ p"
  let ?tail = "drop (stable_len ?s) ?s"
  from Cons.prems(4) ps have short: "length ?s - stable_len ?s \<le> MAX_TOKEN_SPAN_LEN"
    and rest: "held_short ?tail qs" by (simp_all only: held_short.simps Let_def)
  from Cons.prems(5) obtain st1 o1 o2 where step: "rewrite_delta E i kind f st = Inr (st1, o1)"
    and r: "push_deltas E i kind fs st1 = Inr (st', o2)"
    by (auto simp: then_out_eq_Inr)
  from step obtain a where a: "transform E kind (take (stable_len ?s) ?s) = Inr a"
    and st1: "st1 = st \<lparr> blocks := bt_insert i \<lparr> bb_kind = kind, bb_pending = ?tail,
        bb_extras = capture_extras f (payload_key kind) \<rparr> (blocks st) \<rparr>"
    unfolding rewrite_delta_pending [OF Cons.prems(1,2) p] feed_block_no_keywords [OF kw short]
    by (auto simp: res_simps)
  have "bt_sorted (blocks st1)" using Cons.prems(1) by (simp add: st1 bt_insert_sorted)
  moreover have "pending_of st1 i kind = Some ?tail"
    using Cons.prems(1) by (simp add: pending_of_def bt_insert_lookup st1)
  ultimately obtain b where "transform E kind (?tail @ concat qs) = Inr b"
    using Cons.IH [OF _ _ qs rest r] by blast
  with a transform_cut [OF kw, of kind ?s "concat qs" "a @ b"] show ?case unfolding ps by auto
qed

section \<open>Bounds\<close>

text \<open>What a block may hold back: a short tail, or less than some alias, counted in characters.\<close>

definition held_ok :: "compiled_keyword list \<Rightarrow> rstr \<Rightarrow> bool" where
  "held_ok kws t \<longleftrightarrow> length t \<le> MAX_TOKEN_SPAN_LEN
     \<or> (\<exists>kw \<in> set kws. is_utf8 t \<and> length (chars t) < length (chars (kw_alias kw)))"

lemma utf8_starts:
  assumes "is_utf8 s" and "s \<noteq> []"
  shows "\<not> is_cont (hd s)"
proof -
  obtain b r where s: "s = b # r" using assms(2) by (cases s) auto
  have "utf8_head s \<noteq> None" using assms by (cases "utf8_head s") (auto simp: is_utf8_def utf8_chars.simps [of s])
  moreover have "utf8_head s = None" if "is_cont b" using that by (auto simp: s is_cont_def utf8_head.simps Let_def)
  ultimately show ?thesis by (auto simp: s)
qed

lemma alias_prefix_cut:
  assumes "kw \<in> set kws"
  shows "alias_prefix_start s (kw_alias kw) cs \<le> length s \<and> is_char_boundary s (alias_prefix_start s (kw_alias kw) cs)
    \<and> held_ok kws (drop (alias_prefix_start s (kw_alias kw) cs) s)"
proof -
  have first: "first_alias_prefix s ac cs ps = length s
      \<or> suffix_is_proper_alias_prefix (drop (first_alias_prefix s ac cs ps) s) ac cs" for ac ps
    by (induction ps) auto
  let ?n = "alias_prefix_start s (kw_alias kw) cs"
  have "?n = length s \<or> suffix_is_proper_alias_prefix (drop ?n s) (chars (kw_alias kw)) cs"
    unfolding alias_prefix_start_def Let_def by (cases "length (chars (kw_alias kw)) < 2") (simp_all add: first)
  then consider "?n = length s" | "suffix_is_proper_alias_prefix (drop ?n s) (chars (kw_alias kw)) cs" by blast
  then show ?thesis
  proof cases
    case 1
    then show ?thesis by (simp add: is_char_boundary_def held_ok_def)
  next
    case 2
    then have c: "chars (drop ?n s) \<noteq> []" "length (chars (drop ?n s)) < length (chars (kw_alias kw))"
      by (auto simp: suffix_is_proper_alias_prefix_def Let_def split: if_splits)
    from c(1) have utf: "is_utf8 (drop ?n s)" "drop ?n s \<noteq> []" by (rule chars_nonempty_utf8, use c(1) in \<open>auto simp: chars_def\<close>)
    have n: "?n < length s" using utf(2) by (meson drop_all not_le)
    with utf8_starts [OF utf] have "\<not> is_cont (s ! ?n)" by (simp add: hd_drop_conv_nth)
    with n c(2) utf(1) assms show ?thesis by (auto simp: is_char_boundary_def held_ok_def)
  qed
qed

lemma held_tail_ok: "held_ok kws (drop (safe_prefix_len s kws) s)"
proof -
  define good where "good n \<longleftrightarrow> n \<le> length s \<and> is_char_boundary s n \<and> held_ok kws (drop n s)" for n
  define start where "start = (case incomplete_token_span_start s of
           Some start \<Rightarrow> (if length s - start \<le> MAX_TOKEN_SPAN_LEN then min (length s) start else length s)
         | None \<Rightarrow> length s)"
  have stable: "(case incomplete_token_span_start s of Some k \<Rightarrow> k | None \<Rightarrow> length s) = stable_len s"
    by (simp add: stable_len_def)
  have "start = stable_len s \<and> length s - stable_len s \<le> MAX_TOKEN_SPAN_LEN \<or> start = length s"
    using stable_len_le [of s] by (auto simp: start_def stable_len_def split: option.splits)
  then have "good start"
    using stable_len_le [of s] stable_len_boundary [of s] by (auto simp: good_def held_ok_def is_char_boundary_def)
  moreover have "good (foldl (\<lambda>n kw. min n (alias_prefix_start s (kw_alias kw) (kw_case_sensitive kw))) n ks)"
    if "good n" "set ks \<subseteq> set kws" for n ks
    using that
  proof (induction ks arbitrary: n)
    case (Cons k ks)
    have "good (alias_prefix_start s (kw_alias k) (kw_case_sensitive k))"
      using alias_prefix_cut [of k kws s "kw_case_sensitive k"] Cons.prems(2) by (simp add: good_def)
    then have "good (min n (alias_prefix_start s (kw_alias k) (kw_case_sensitive k)))" using Cons.prems(1) by (simp add: min_def)
    from Cons.IH [OF this] Cons.prems(2) show ?case by simp
  qed simp
  ultimately have g: "good (foldl (\<lambda>n kw. min n (alias_prefix_start s (kw_alias kw) (kw_case_sensitive kw))) start kws)" by simp
  then have "safe_prefix_len s kws = foldl (\<lambda>n kw. min n (alias_prefix_start s (kw_alias kw) (kw_case_sensitive kw))) start kws"
    by (simp add: safe_prefix_len_def floor_char_boundary_def start_def good_def floor_boundary_id)
  with g show ?thesis by (simp add: good_def)
qed

lemma feed_block_held: "feed_block E kind p = Inr (t, tail) \<Longrightarrow> held_ok (rw_keywords E) tail"
  using held_tail_ok [of "rw_keywords E" p] by (auto simp: feed_block_def Let_def split: if_splits sum.splits)

text \<open>What a running rewriter keeps; an aborted one is \<open>None\<close>.\<close>

definition blocks_ok :: "rewrite_env \<Rightarrow> sse_rewriter \<Rightarrow> bool" where
  "blocks_ok E st \<longleftrightarrow> bt_sorted (blocks st) \<and> (\<forall>(i, b) \<in> set (blocks st). held_ok (rw_keywords E) (bb_pending b))"

definition data_len :: "sse_rewriter \<Rightarrow> nat" where
  "data_len st = length (concat (event_data st))"

fun rewriter_inv :: "rewrite_env \<Rightarrow> sse_rewriter option \<Rightarrow> bool" where
  "rewriter_inv E None = True"
| "rewriter_inv E (Some st) =
     (blocks_ok E st \<and> data_len st \<le> length (event_raw st) \<and> CHR 0x0A \<notin> set (line_buf st)
      \<and> length (line_buf st) + length (event_raw st) \<le> MAX_BUFFERED_BYTES)"

definition rewriter_step :: "rewrite_env \<Rightarrow> sse_rewriter option \<Rightarrow> byte list \<Rightarrow> sse_rewriter option" where
  "rewriter_step E s chunk =
     (case s of
        None \<Rightarrow> None
      | Some st \<Rightarrow> (case sse_push_chunk E chunk st of Inl _ \<Rightarrow> None | Inr (st', _) \<Rightarrow> Some st'))"

lemma bt_insert_entries: "set (bt_insert k v m) \<subseteq> insert (k, v) (set m)"
  by (induction k v m rule: bt_insert.induct) auto

lemma blocks_ok_insert:
  "blocks_ok E st \<Longrightarrow> held_ok (rw_keywords E) (bb_pending b) \<Longrightarrow> blocks_ok E (st \<lparr> blocks := bt_insert i b (blocks st) \<rparr>)"
  using bt_insert_entries [of i b "blocks st"] by (auto simp: blocks_ok_def bt_insert_sorted)

lemma blocks_ok_remove: "blocks_ok E st \<Longrightarrow> blocks_ok E (st \<lparr> blocks := bt_remove i (blocks st) \<rparr>)"
proof -
  have "set (bt_remove i (blocks st)) \<subseteq> set (blocks st)" by (auto simp: bt_remove_def)
  then show "blocks_ok E st \<Longrightarrow> ?thesis" by (auto simp: blocks_ok_def bt_remove_sorted)
qed

lemma flush_block_keeps:
  assumes "flush_block E i st = Inr (st', o')"
  shows "event_raw st' = event_raw st \<and> event_data st' = event_data st \<and> (blocks_ok E st \<longrightarrow> blocks_ok E st')"
proof -
  have "held_ok (rw_keywords E) []" by (simp add: held_ok_def)
  with assms show ?thesis
    by (auto simp: flush_block_def intro!: blocks_ok_insert split: option.splits sum.splits if_splits)
qed

lemma rewrite_delta_keeps:
  assumes "rewrite_delta E i kind f st = Inr (st', o')"
  shows "event_raw st' = event_raw st \<and> event_data st' = event_data st \<and> (blocks_ok E st \<longrightarrow> blocks_ok E st')"
proof -
  from assms obtain p where p: "delta_payload kind f = Some p"
    by (auto simp: rewrite_delta_def split: option.splits)
  let ?r = "case map_of (blocks st) i of
          Some b \<Rightarrow> (if bb_kind b \<noteq> kind
            then res_map (\<lambda>(st', o'). (st' \<lparr> blocks := bt_remove i (blocks st') \<rparr>, o')) (flush_block E i st)
            else Inr (st, []))
        | None \<Rightarrow> Inr (st, [])"
  obtain q where q: "?r = Inr q"
    using assms unfolding rewrite_delta_def p option.case by (cases ?r) (simp_all add: res_bind_def)
  obtain st1 o1 where q1: "q = (st1, o1)" by (cases q)
  have st1: "event_raw st1 = event_raw st \<and> event_data st1 = event_data st \<and> (blocks_ok E st \<longrightarrow> blocks_ok E st1)"
    using q by (auto simp: q1 res_simps blocks_ok_remove dest: flush_block_keeps split: option.splits if_splits)
  let ?p = "(case map_of (blocks st1) i of Some b \<Rightarrow> bb_pending b | None \<Rightarrow> []) @ p"
  obtain t tail where t: "feed_block E kind ?p = Inr (t, tail)"
    using assms unfolding rewrite_delta_def p option.case q q1 res_bind_simps prod.case Let_def
    by (cases "feed_block E kind ?p") auto
  have "st' = st1 \<lparr> blocks := bt_insert i \<lparr> bb_kind = kind, bb_pending = tail,
      bb_extras = capture_extras f (payload_key kind) \<rparr> (blocks st1) \<rparr>"
    using assms unfolding rewrite_delta_def p option.case q q1 res_bind_simps prod.case Let_def t sum.case by simp
  with st1 feed_block_held [OF t] show ?thesis by (simp add: blocks_ok_insert)
qed

lemma on_event_complete_keeps:
  assumes "on_event_complete E st = Inr (st', o')"
  shows "event_raw st' = [] \<and> event_data st' = [] \<and> (blocks_ok E st \<longrightarrow> blocks_ok E st')"
proof -
  let ?st = "st \<lparr> event_raw := [], event_data := [], saw_event_name := False \<rparr>"
  have same: "blocks_ok E ?st = blocks_ok E st" "blocks_ok E (?st \<lparr> use_event_names := n \<rparr>) = blocks_ok E st" for n
    by (simp_all add: blocks_ok_def)
  have del: "event_raw st' = [] \<and> event_data st' = [] \<and> (blocks_ok E st \<longrightarrow> blocks_ok E st')"
    if "rewrite_delta E i kind f (?st \<lparr> use_event_names := n \<rparr>) = Inr (st', o')" for i kind f n
    using rewrite_delta_keeps [OF that] same by simp
  have fl: "event_raw q = [] \<and> event_data q = []
      \<and> (blocks_ok E st \<longrightarrow> blocks_ok E q \<and> blocks_ok E (q \<lparr> blocks := bt_remove k (blocks q) \<rparr>))"
    if "flush_block E i ?st = Inr (q, oq)" for i q oq k
    using flush_block_keeps [OF that] same by (simp add: blocks_ok_remove)
  show ?thesis
    using assms unfolding on_event_complete_def Let_def
    by (auto simp: append_out_def res_simps same dest: del fl split: if_splits option.splits)
qed

lemma consume_line_keeps:
  assumes "consume_line E raw st = Inr (st', o')" and "data_len st \<le> length (event_raw st)"
  shows "length (event_raw st') \<le> length (event_raw st) + length raw \<and> data_len st' \<le> length (event_raw st')
    \<and> (blocks_ok E st \<longrightarrow> blocks_ok E st')"
proof -
  let ?st = "st \<lparr> event_raw := event_raw st @ raw \<rparr>"
  have same: "blocks_ok E ?st = blocks_ok E st" "blocks_ok E (?st \<lparr> saw_event_name := b \<rparr>) = blocks_ok E st"
    "blocks_ok E (?st \<lparr> event_data := d \<rparr>) = blocks_ok E st" for b d by (simp_all add: blocks_ok_def)
  have chop: "length (chop b l) \<le> length l" for b l
    by (auto simp: chop_def strip_suffix_eq_Some split: option.splits)
  have field: "length rest \<le> length l" if "strip_field f l = Some rest" for f l rest
    using that by (auto simp: strip_field_def strip_prefix_eq_Some split: option.splits)
  have "length rest \<le> length raw" if "strip_field f (chop a (chop b raw)) = Some rest" for f a b rest
    using field [OF that] chop [of a "chop b raw"] chop [of b raw] by linarith
  then have data: "length (concat ds) + length rest \<le> length (event_raw st) + length raw"
    if "strip_field f (chop a (chop b raw)) = Some rest" "length (concat ds) \<le> length (event_raw st)" for f a b rest ds
    using that by (intro add_mono) auto
  show ?thesis
    using assms data unfolding consume_line_def Let_def
    by (auto simp: same data_len_def from_utf8_def dest!: on_event_complete_keeps split: if_splits option.splits)
qed

lemma sse_push_chunk_inv:
  assumes "rewriter_inv E (Some st)" and "sse_push_chunk E c st = Inr (st', o')"
  shows "rewriter_inv E (Some st')"
proof -
  from assms(2) have c: "consume_lines E (line_buf st @ c) st = Inr (st', o')"
    and len: "length (line_buf st @ c) + length (event_raw st) \<le> MAX_BUFFERED_BYTES"
    by (auto simp: sse_push_chunk_def Let_def split: if_splits)
  let ?P = "\<lambda>buf st. blocks_ok E st \<and> data_len st \<le> length (event_raw st)
     \<and> length buf + length (event_raw st) \<le> MAX_BUFFERED_BYTES"
  have "\<exists>rest st1. CHR 0x0A \<notin> set rest \<and> ?P rest st1 \<and> st' = st1 \<lparr> line_buf := rest \<rparr>"
  proof (rule consume_lines_rule [OF c])
    show "?P (line_buf st @ c) st" using assms(1) len by simp
  next
    fix buf st nl st1 o1
    assume P: "?P buf st" and nl: "position (\<lambda>b. b = CHR 0x0A) buf = Some nl"
      and s: "consume_line E (take (nl + 1) buf) st = Inr (st1, o1)"
    from P have d: "data_len st \<le> length (event_raw st)" by simp
    from consume_line_keeps [OF s d] P position_Some [OF nl] show "?P (drop (nl + 1) buf) st1" by auto
  qed
  then show ?thesis by (auto simp: blocks_ok_def data_len_def)
qed

lemma rewriter_step_inv: "rewriter_inv E s \<Longrightarrow> rewriter_inv E (rewriter_step E s c)"
proof (cases s)
  case (Some st)
  assume "rewriter_inv E s"
  with Some have inv: "rewriter_inv E (Some st)" by simp
  show ?thesis
  proof (cases "sse_push_chunk E c st")
    case (Inr p)
    with sse_push_chunk_inv [OF inv] show ?thesis by (cases p) (simp only: rewriter_step_def Some option.case sum.case prod.case)
  qed (simp add: rewriter_step_def Some)
qed (simp add: rewriter_step_def)

interpretation rw: invariant_machine "Some sse_default" "rewriter_step E" "rewriter_inv E" for E
  by unfold_locales (simp add: sse_default_def blocks_ok_def bt_sorted_def data_len_def, rule rewriter_step_inv)

section \<open>Synthesised frames\<close>

lemma copy_fields_fold:
  assumes "bt_sorted m" and "distinct (map fst fs)"
  shows "bt_sorted (foldl (\<lambda>m (k, v). if P k then bt_insert k v m else m) m fs)
    \<and> map_of (foldl (\<lambda>m (k, v). if P k then bt_insert k v m else m) m fs) k
       = (if P k then (case map_of fs k of Some v \<Rightarrow> Some v | None \<Rightarrow> map_of m k) else map_of m k)"
  using assms
proof (induction fs arbitrary: m)
  case (Cons f fs)
  obtain j v where f: "f = (j, v)" by (cases f)
  let ?m = "if P j then bt_insert j v m else m"
  have m: "bt_sorted ?m" using Cons.prems(1) by (simp add: bt_insert_sorted)
  have "map_of ?m k = (if P j \<and> j = k then Some v else map_of m k)"
    using Cons.prems(1) by (auto simp: bt_insert_lookup)
  moreover have "map_of fs j = None" using Cons.prems(2) f by (simp add: map_of_eq_None_iff)
  ultimately show ?case
    using Cons.IH [OF m] Cons.prems(2) f by (auto split: option.splits)
qed simp

lemma bt_sorted_distinct: "bt_sorted (m :: ('k :: linorder \<times> 'v) list) \<Longrightarrow> distinct (map fst m)"
  unfolding bt_sorted_def by (simp add: strict_sorted_iff)

lemma copy_fields_sorted: "bt_sorted fs \<Longrightarrow> bt_sorted (copy_fields P fs)"
  using copy_fields_fold [of "[]" fs P] bt_sorted_distinct [of fs] by (simp add: copy_fields_def bt_sorted_def)

lemma copy_fields_lookup: "bt_sorted fs \<Longrightarrow> map_of (copy_fields P fs) k = (if P k then map_of fs k else None)"
  using copy_fields_fold [of "[]" fs P k] bt_sorted_distinct [of fs]
  by (auto simp: copy_fields_def bt_sorted_def split: option.splits)

lemma dec_digits_less: "d \<in> set (dec_digits n) \<Longrightarrow> d < 10"
proof (induction n rule: dec_digits.induct)
  case (1 n)
  show ?case
  proof (cases "n < 10")
    case True
    with "1.prems" show ?thesis by (simp add: dec_digits.simps [of n])
  next
    case False
    with "1.prems" have "d \<in> set (dec_digits (n div 10)) \<or> d = n mod 10" by (auto simp: dec_digits.simps [of n])
    with "1.IH" [OF False] show ?thesis by auto
  qed
qed

lemma dec_digits_value: "foldl (\<lambda>n d. n * 10 + d) 0 (dec_digits n) = n"
proof (induction n rule: dec_digits.induct)
  case (1 n)
  show ?case
  proof (cases "n < 10")
    case True
    then show ?thesis by (simp add: dec_digits.simps [of n])
  next
    case False
    have "n div 10 * 10 + n mod 10 = n" by simp
    with False "1.IH" [OF False] show ?thesis by (simp add: dec_digits.simps [of n])
  qed
qed

lemma dec_digits_Nil: "dec_digits n \<noteq> []"
  by (simp add: dec_digits.simps [of n])

lemma as_u64_to_string: "as_u64 (JNum (u64_to_string i)) = Some i"
proof -
  let ?ds = "dec_digits (unat i)"
  have c: "code (char_of (48 + d)) = 48 + d" if "d \<in> set ?ds" for d
  proof -
    have "48 + d < 256" using dec_digits_less [OF that] by simp
    then show ?thesis by (simp add: take_bit_eq_mod)
  qed
  have "foldl (\<lambda>n d. n * 10 + (code d - 48)) 0 (u64_to_string i) = foldl (\<lambda>n d. n * 10 + d) 0 ?ds"
    unfolding u64_to_string_def foldl_map by (rule foldl_cong [OF refl refl]) (simp only: c add_diff_cancel_left')
  then have "foldl (\<lambda>n d. n * 10 + (code d - 48)) 0 (u64_to_string i) = unat i"
    by (simp only: dec_digits_value)
  moreover have "list_all is_ascii_digit (u64_to_string i)"
    unfolding list_all_iff u64_to_string_def
  proof
    fix b assume "b \<in> set (map (\<lambda>d. char_of (48 + d)) ?ds)"
    then obtain d where "d \<in> set ?ds" "b = char_of (48 + d)" by auto
    then have "code b = 48 + d" "d < 10" by (simp_all only: c dec_digits_less)
    then show "is_ascii_digit b" by (simp add: is_ascii_digit_def less_eq_char_def)
  qed
  moreover have "u64_to_string i \<noteq> []" by (simp add: u64_to_string_def dec_digits_Nil)
  moreover have "unat i < 2 ^ 64" using unsigned_less [of i] by simp
  ultimately show ?thesis by (simp add: as_u64_def Let_def)
qed

lemma payload_key_neq_type [simp]: "payload_key kind \<noteq> ''type''" "''type'' \<noteq> payload_key kind"
  by (cases kind; simp)+

lemma delta_frame_lookup:
  assumes "bt_sorted (fx_top x)" and "bt_sorted (fx_delta x)"
  shows "json_get k (delta_frame i kind s x) =
      (if k = ''delta'' then
         Some (JObj (bt_insert (payload_key kind) (JStr s) (bt_insert ''type'' (JStr (kind_wire kind)) (fx_delta x))))
       else if k = ''index'' then Some (JNum (u64_to_string i))
       else if k = ''type'' then Some (JStr ''content_block_delta'')
       else map_of (fx_top x) k)"
  using assms by (simp add: delta_frame_def Let_def json_get_def bt_insert_lookup bt_insert_sorted)

lemma delta_frame_fields:
  assumes "bt_sorted fs" and "map_of fs ''delta'' = Some (JObj ds)" and "bt_sorted ds"
    and "out = delta_frame i kind s (capture_extras (JObj fs) (payload_key kind))"
  shows "str_field ''type'' out = Some ''content_block_delta''" and "frame_index out = i"
    and "kind_from_wire (delta_type out) = Some kind" and "delta_payload kind out = Some s"
    and "k \<notin> {''type'', ''index'', ''delta''} \<Longrightarrow> json_get k out = map_of fs k"
    and "k \<notin> {''type'', payload_key kind} \<Longrightarrow> Option.bind (json_get ''delta'' out) (json_get k) = map_of ds k"
proof -
  let ?x = "capture_extras (JObj fs) (payload_key kind)"
  have top: "fx_top ?x = copy_fields (\<lambda>k. k \<noteq> ''type'' \<and> k \<noteq> ''index'' \<and> k \<noteq> ''delta'') fs"
    and dl: "fx_delta ?x = copy_fields (\<lambda>k. k \<noteq> ''type'' \<and> k \<noteq> payload_key kind) ds"
    using assms(2) by (simp_all add: capture_extras_def as_object_def json_get_def)
  have st: "bt_sorted (fx_top ?x)" and sd: "bt_sorted (fx_delta ?x)"
    using assms(1,3) by (simp_all add: top dl copy_fields_sorted)
  note look = delta_frame_lookup [OF st sd, of _ i kind s, folded assms(4)]
  show "str_field ''type'' out = Some ''content_block_delta''" by (simp add: str_field_def look as_str_def)
  show "frame_index out = i" by (simp add: frame_index_def look as_u64_to_string)
  show "kind_from_wire (delta_type out) = Some kind"
  proof -
    have "str_field ''type'' (JObj (bt_insert (payload_key kind) (JStr s)
        (bt_insert ''type'' (JStr (kind_wire kind)) (fx_delta ?x)))) = Some (kind_wire kind)"
      using sd by (simp add: str_field_def json_get_def bt_insert_lookup bt_insert_sorted as_str_def)
    then show ?thesis by (cases kind) (simp_all add: delta_type_def look kind_from_wire_def)
  qed
  show "delta_payload kind out = Some s"
  proof -
    have "json_get (payload_key kind) (JObj (bt_insert (payload_key kind) (JStr s)
        (bt_insert ''type'' (JStr (kind_wire kind)) (fx_delta ?x)))) = Some (JStr s)"
      using sd by (simp add: json_get_def bt_insert_lookup bt_insert_sorted)
    then show ?thesis by (simp add: delta_payload_def look as_str_def)
  qed
  show "k \<notin> {''type'', ''index'', ''delta''} \<Longrightarrow> json_get k out = map_of fs k"
    using assms(1) by (simp add: look top copy_fields_lookup)
  show "k \<notin> {''type'', payload_key kind} \<Longrightarrow> Option.bind (json_get ''delta'' out) (json_get k) = map_of ds k"
  proof -
    assume k: "k \<notin> {''type'', payload_key kind}"
    have "json_get k (JObj (bt_insert (payload_key kind) (JStr s)
        (bt_insert ''type'' (JStr (kind_wire kind)) (fx_delta ?x)))) = map_of ds k"
      using sd k assms(3) by (simp add: json_get_def bt_insert_lookup bt_insert_sorted)
        (simp add: dl copy_fields_lookup)
    then show ?thesis by (simp add: look)
  qed
qed

section \<open>Properties\<close>

text \<open>C4. How the upstream splits a response into chunks does not matter: two chunkings of the same bytes,
  neither of which overflows the buffer, give the client the same bytes or the same error.\<close>

theorem sse_chunking_irrelevant:
  assumes "concat cs = concat ds"
    and "push_chunks E cs sse_default \<noteq> Inl Oversized" and "push_chunks E ds sse_default \<noteq> Inl Oversized"
  shows "sse_stream E cs = sse_stream E ds"
proof -
  have "CHR 0x0A \<notin> set (line_buf sse_default)" by (simp add: sse_default_def)
  from push_chunks_eq [OF this assms(2)] push_chunks_eq [OF this assms(3)]
  show ?thesis by (simp only: sse_stream_def assms(1))
qed

text \<open>C12. When no keyword is configured and the held tail of a block stays within 4096 bytes, the text of the
  block survives the rewriting: the text delta events of one block, whatever their number and split
  points, are replaced by events whose texts concatenate to the transform of the block's whole text,
  and the rewriting of the block fails exactly when that transform does.\<close>

theorem block_text_rewritten:
  assumes "rw_keywords E = []" and "bt_sorted (blocks st)" and "map_of (blocks st) i = None"
    and "list_all2 (\<lambda>f p. delta_payload kind f = Some p) fs ps" and "held_short [] ps"
  shows "case transform E kind (concat ps) of
      Inl _ \<Rightarrow> (\<exists>e. push_deltas E i kind fs st = Inl e)
    | Inr u \<Rightarrow> (\<exists>st' out ts. push_deltas E i kind fs st = Inr (st', out)
        \<and> emits E (use_event_names st) i kind ts out \<and> concat ts = u)"
proof -
  have p: "pending_of st i kind = Some []" using assms(3) by (simp add: pending_of_def)
  show ?thesis
  proof (cases "transform E kind (concat ps)")
    case (Inl e)
    have "\<exists>e. push_deltas E i kind fs st = Inl e"
      using push_deltas_transform [OF assms(1,2) p assms(4,5)] Inl by (cases "push_deltas E i kind fs st") auto
    then show ?thesis by (simp add: Inl)
  next
    case (Inr u)
    have "transform E kind ([] @ concat ps) = Inr u" using Inr by simp
    from push_deltas_text [OF assms(1,2) p assms(4,5) this] show ?thesis by (simp only: Inr sum.case)
  qed
qed

lemma flush_then_raw:
  assumes "flush_block E i (st \<lparr> event_raw := [], event_data := [], saw_event_name := False \<rparr>) = Inr (q, pre)"
    and "out = pre @ event_raw st"
  shows "\<exists>pre. out = pre @ event_raw st \<and> (blocks st = [] \<longrightarrow> pre = [])"
  using assms by (auto simp: flush_block_def)

lemma event_parsed:
  assumes "on_event_complete E st = Inr r"
    and "\<not> (event_data st = [] \<or> join_byte (CHR 0x0A) (event_data st) = ''[DONE]'')"
  shows "\<exists>frame. json_parse (rw_serde E) (join_byte (CHR 0x0A) (event_data st)) = Some frame"
proof (rule ccontr)
  assume "\<nexists>frame. json_parse (rw_serde E) (join_byte (CHR 0x0A) (event_data st)) = Some frame"
  then have "json_parse (rw_serde E) (join_byte (CHR 0x0A) (event_data st)) = None" by auto
  from assms(1) [unfolded on_event_complete_def Let_def this option.case] assms(2) show False by simp
qed

text \<open>Everything that is not a text delta is forwarded byte for byte: a completed event either carries a
  text delta, or its raw bytes end the output, after nothing but what the flush of a held block emits.\<close>

theorem other_events_verbatim:
  assumes "on_event_complete E st = Inr (st', out)"
  shows "(\<exists>frame kind. event_data st \<noteq> []
        \<and> json_parse (rw_serde E) (join_byte (CHR 0x0A) (event_data st)) = Some frame
        \<and> str_field ''type'' frame = Some ''content_block_delta''
        \<and> kind_from_wire (delta_type frame) = Some kind)
    \<or> (\<exists>pre. out = pre @ event_raw st \<and> (blocks st = [] \<longrightarrow> pre = []))"
proof -
  let ?st = "st \<lparr> event_raw := [], event_data := [], saw_event_name := False \<rparr>"
  show ?thesis
  proof (cases "event_data st = [] \<or> join_byte (CHR 0x0A) (event_data st) = ''[DONE]''")
    case True
    then have "on_event_complete E st = Inr (?st, event_raw st)"
      by (elim disjE) (simp_all add: on_event_complete_def Let_def)
    then show ?thesis using assms by simp
  next
    case False
    then obtain frame where f: "json_parse (rw_serde E) (join_byte (CHR 0x0A) (event_data st)) = Some frame"
      using event_parsed [OF assms] by blast
    note out = assms [unfolded on_event_complete_def Let_def f option.case, simplified False, simplified]
    consider kind where "str_field ''type'' frame = Some ''content_block_delta''"
        "kind_from_wire (delta_type frame) = Some kind"
      | "str_field ''type'' frame = Some ''content_block_delta''" "kind_from_wire (delta_type frame) = None"
      | "str_field ''type'' frame = Some ''content_block_stop''"
      | "str_field ''type'' frame \<noteq> Some ''content_block_delta''" "str_field ''type'' frame \<noteq> Some ''content_block_stop''"
      by (cases "kind_from_wire (delta_type frame)") auto
    then show ?thesis
    proof cases
      case 1
      with False f show ?thesis by blast
    next
      case 2
      then obtain q pre where "flush_block E (frame_index frame) ?st = Inr (q, pre)" "out = pre @ event_raw st"
        using out False by (auto simp: append_out_def res_simps)
      then show ?thesis using flush_then_raw [of E _ st] by blast
    next
      case 3
      then obtain q pre where "flush_block E (frame_index frame) ?st = Inr (q, pre)" "out = pre @ event_raw st"
        using out False by (auto simp: res_simps)
      then show ?thesis using flush_then_raw [of E _ st] by blast
    next
      case 4
      then have "out = event_raw st" using out False by simp
      then show ?thesis by simp
    qed
  qed
qed

text \<open>C32. What the rewriter holds stays bounded: after any sequence of chunks it is either aborted, or the
  unfinished line, which holds no line feed, and the unfinished event together fit in eight mebibytes, the
  data of the event is no longer than the event, and what each block holds back is at most 4096 bytes
  long or has fewer characters than the alias of a configured keyword.\<close>

theorem rewriter_bounded:
  "case run_steps (rewriter_step E) (Some sse_default) chunks of
     None \<Rightarrow> True
   | Some st \<Rightarrow> CHR 0x0A \<notin> set (line_buf st)
       \<and> length (line_buf st) + length (event_raw st) \<le> MAX_BUFFERED_BYTES
       \<and> length (concat (event_data st)) \<le> length (event_raw st)
       \<and> list_all (\<lambda>(i, b). length (bb_pending b) \<le> MAX_TOKEN_SPAN_LEN
           \<or> (\<exists>kw \<in> set (rw_keywords E). is_utf8 (bb_pending b)
                \<and> length (chars (bb_pending b)) < length (chars (kw_alias kw)))) (blocks st)"
proof -
  have "rewriter_inv E (run_steps (rewriter_step E) (Some sse_default) chunks)" by (rule rw.inv_run)
  then show ?thesis
    by (auto simp: blocks_ok_def data_len_def held_ok_def list_all_iff split: option.split)
qed

text \<open>A synthesised event carries what the delta it replaces carried: type, block index, delta kind and
  the new text can be read back from it, and every other field, of the event and of its
  delta, is the original's.\<close>

theorem delta_frame_faithful:
  assumes "bt_sorted fs" and "map_of fs ''delta'' = Some (JObj ds)" and "bt_sorted ds"
  shows "let out = delta_frame i kind s (capture_extras (JObj fs) (payload_key kind)) in
      str_field ''type'' out = Some ''content_block_delta'' \<and> frame_index out = i
      \<and> kind_from_wire (delta_type out) = Some kind \<and> delta_payload kind out = Some s
      \<and> (\<forall>k. k \<notin> {''type'', ''index'', ''delta''} \<longrightarrow> json_get k out = map_of fs k)
      \<and> (\<forall>k. k \<notin> {''type'', payload_key kind} \<longrightarrow>
            Option.bind (json_get ''delta'' out) (json_get k) = map_of ds k)"
  unfolding Let_def by (intro conjI allI impI; rule delta_frame_fields [OF assms refl]; assumption?)

section \<open>Concrete runs\<close>

text \<open>A parser that reads every data line as a text delta of block 0, and its printer.\<close>

definition demo_frame :: "rstr \<Rightarrow> json" where
  "demo_frame s = JObj [(''delta'', JObj [(''text'', JStr s), (''type'', JStr ''text_delta'')]), (''index'', JNum ''0''),
     (''type'', JStr ''content_block_delta'')]"

definition demo_env :: rewrite_env where
  "demo_env = \<lparr> rw_crypto = demo_crypto, rw_unicode = ascii_unicode,
     rw_serde = \<lparr> json_print = (\<lambda>v. case delta_payload TextDelta v of Some s \<Rightarrow> s | None \<Rightarrow> []),
       json_parse = (\<lambda>s. if s = ''ping'' then Some (JObj [(''type'', JStr ''ping'')]) else Some (demo_frame s)) \<rparr>,
     rw_keywords = [], rw_key = demo_key \<rparr>"

definition demo_half :: sse_rewriter where
  "demo_half = sse_default \<lparr> event_raw := ''data: ping'' @ [CHR 0x0A], event_data := [''ping''] \<rparr>"

lemma demo_lines:
  "consume_line demo_env (''data: ping'' @ [CHR 0x0A]) sse_default = Inr (demo_half, [])"
  "consume_line demo_env [CHR 0x0A] demo_half = Inr (sse_default, ''data: ping'' @ [CHR 0x0A, CHR 0x0A])"
  by code_simp+

lemma sse_chunking_irrelevant_witness:
  "sse_stream demo_env [''data: p'', ''ing'' @ [CHR 0x0A], [CHR 0x0A]]
     = sse_stream demo_env [''data: ping'' @ [CHR 0x0A, CHR 0x0A]]"
proof (rule sse_chunking_irrelevant)
  have def: "sse_default \<lparr> line_buf := [] \<rparr> = sse_default" "demo_half \<lparr> line_buf := [] \<rparr> = demo_half"
    "line_buf sse_default = []" "line_buf demo_half = []" "event_raw sse_default = []"
    "length (event_raw demo_half) = 11"
    by (simp_all add: sse_default_def demo_half_def)
  note [simp] = sse_push_chunk_def consume_lines_Some consume_lines_None then_out_def MAX_BUFFERED_BYTES_def
    def consume_lines_frame demo_lines [simplified]
  show "push_chunks demo_env [''data: p'', ''ing'' @ [CHR 0x0A], [CHR 0x0A]] sse_default \<noteq> Inl Oversized"
    by simp
  show "push_chunks demo_env [''data: ping'' @ [CHR 0x0A, CHR 0x0A]] sse_default \<noteq> Inl Oversized"
    by simp
qed simp

lemma block_text_rewritten_witness:
  "\<exists>st' out ts. push_deltas demo_env 0 TextDelta
       [demo_frame ''x [NAME:TOKEN_6b4e41'', demo_frame ''4d4523626f62] y''] sse_default = Inr (st', out)
     \<and> emits demo_env False 0 TextDelta ts out \<and> concat ts = ''x bob y''"
proof -
  let ?ps = "[''x [NAME:TOKEN_6b4e41'', ''4d4523626f62] y'']"
  have t: "transform demo_env TextDelta (concat ?ps) = Inr ''x bob y''" by code_simp
  have l: "list_all2 (\<lambda>f p. delta_payload TextDelta f = Some p) (map demo_frame ?ps) ?ps" by code_simp
  have c: "stable_len ''x [NAME:TOKEN_6b4e41'' = 2" "stable_len ''[NAME:TOKEN_6b4e414d4523626f62] y'' = 33"
    by code_simp+
  have "held_short [] ?ps" using c by (simp add: MAX_TOKEN_SPAN_LEN_def)
  from block_text_rewritten [OF _ _ _ l this, of demo_env sse_default 0, unfolded t sum.case]
  show ?thesis by (simp add: demo_env_def sse_default_def bt_sorted_def)
qed

lemma other_events_verbatim_witness:
  "(\<exists>frame kind. event_data demo_half \<noteq> []
      \<and> json_parse (rw_serde demo_env) (join_byte (CHR 0x0A) (event_data demo_half)) = Some frame
      \<and> str_field ''type'' frame = Some ''content_block_delta''
      \<and> kind_from_wire (delta_type frame) = Some kind)
   \<or> (\<exists>pre. ''data: ping'' @ [CHR 0x0A] = pre @ event_raw demo_half \<and> (blocks demo_half = [] \<longrightarrow> pre = []))"
proof (rule other_events_verbatim)
  show "on_event_complete demo_env demo_half = Inr (sse_default, ''data: ping'' @ [CHR 0x0A])"
    by code_simp
qed

lemma delta_frame_faithful_witness:
  "frame_index (delta_frame 7 TextDelta ''bob'' (capture_extras (demo_frame ''[NAME:TOKEN_x]'') ''text'')) = 7"
proof -
  have s: "bt_sorted [(''delta'', JObj [(''text'', JStr ''[NAME:TOKEN_x]''), (''type'', JStr ''text_delta'')]),
      (''index'', JNum ''0''), (''type'', JStr ''content_block_delta'')]"
    "bt_sorted [(''text'', JStr ''[NAME:TOKEN_x]''), (''type'', JStr ''text_delta'')]" by code_simp+
  from delta_frame_faithful [OF s(1) _ s(2), of 7 TextDelta "''bob''"]
  show ?thesis by (simp add: Let_def demo_frame_def)
qed

end
