(* ===== verification/Proxy_Git.thy ===== *)
theory Proxy_Git
  imports Proxy_Rewrite
begin

text \<open>
  Routing, caller authentication and the git transport of the proxy
  (\<open>containers/proxy/src/{router,keys,main,git,audit}.rs\<close>). A handler is a function of the
  configuration, the request and the outside world (\<open>http_env\<close>: header values, files, the
  upstream) to the response, the upstream request it made, if any, and the audit rows it wrote.
\<close>

section \<open>HTTP\<close>

type_synonym header_value = "byte list"
type_synonym header_map = "(rstr \<times> header_value) list"

text \<open>\<open>HeaderMap\<close>: names are lower case; \<open>get\<close> returns the first value, \<open>insert\<close> replaces all.\<close>

definition header_get :: "header_map \<Rightarrow> rstr \<Rightarrow> header_value option" where
  "header_get hs n = map_of hs n"

definition header_insert :: "rstr \<Rightarrow> header_value \<Rightarrow> header_map \<Rightarrow> header_map" where
  "header_insert n v hs = filter (\<lambda>(m, _). m \<noteq> n) hs @ [(n, v)]"

datatype http_method = GET | POST | OtherMethod rstr

datatype body = Buffered "byte list" | Streamed "(rstr + byte list) list"

record http_response =
  rsp_status :: nat
  rsp_headers :: header_map
  rsp_body :: body

record upstream_request =
  up_method :: http_method
  up_url :: rstr
  up_headers :: header_map
  up_body :: "body option"

text \<open>
  The world a handler meets: the header value checks of the \<open>http\<close> crate, readable files, the
  base64 alphabet and the upstream server, which answers or fails to connect.
\<close>

record http_env =
  hv_to_str :: "header_value \<Rightarrow> rstr option"
  hv_from_str :: "rstr \<Rightarrow> header_value option"
  he_read_file :: "rstr \<Rightarrow> rstr option"
  he_base64 :: "byte list \<Rightarrow> rstr"
  he_send :: "upstream_request \<Rightarrow> rstr + http_response"

definition status_response :: "nat \<Rightarrow> http_response" where
  "status_response status = \<lparr> rsp_status = status, rsp_headers = [], rsp_body = Buffered [] \<rparr>"

section \<open>Configuration\<close>

datatype bare_auth = Passthrough | NoAuth

datatype scheme = Bearer | NoScheme

datatype auth = Bare bare_auth | Swap rstr scheme

definition de_bare_auth :: "rstr \<Rightarrow> bare_auth option" where
  "de_bare_auth s =
     (if s = ''passthrough'' then Some Passthrough else if s = ''none'' then Some NoAuth else None)"

record route =
  rt_prefix :: rstr
  rt_base_url :: rstr
  rt_auth :: auth
  rt_provider_kind :: rstr
  rt_provider_id :: rstr

record git_forge =
  gf_host :: rstr
  gf_base_url :: rstr
  gf_login :: rstr
  gf_token_file :: rstr
  gf_repositories :: "rstr list"

definition normalise :: "rstr \<Rightarrow> rstr" where
  "normalise path =
     (let lowered = to_ascii_lowercase (trim_byte (CHR ''/'') path) in
      case strip_suffix ''.git'' lowered of
        Some stripped \<Rightarrow> stripped
      | None \<Rightarrow> lowered)"

definition entry_matches :: "rstr \<Rightarrow> rstr \<Rightarrow> bool" where
  "entry_matches entry repo =
     (if CHR ''*'' \<notin> set entry then entry = repo
      else case strip_suffix ''/*'' entry of
          Some pre \<Rightarrow>
            (if CHR ''*'' \<in> set pre then False
             else case Option.bind (strip_prefix pre repo) (strip_prefix ''/'') of
                 Some rest \<Rightarrow> rest \<noteq> []
               | None \<Rightarrow> False)
        | None \<Rightarrow> False)"

definition forge_allows :: "git_forge \<Rightarrow> rstr \<Rightarrow> bool" where
  "forge_allows forge repo =
     (let wanted = normalise repo in
      list_ex (\<lambda>entry. entry_matches (normalise entry) wanted) (gf_repositories forge))"

record proxy_config =
  pc_routes :: "route list"
  pc_git_forges :: "git_forge list"
  pc_caller_token :: "rstr option"
  pc_audit_dir :: "rstr option"

definition resolve :: "proxy_config \<Rightarrow> rstr \<Rightarrow> route option" where
  "resolve cfg model =
     (if model = [] then None
      else let pre = (case split_once ''/'' model of Some (p, _) \<Rightarrow> p | None \<Rightarrow> ''anthropic'')
           in find (\<lambda>r. rt_prefix r = pre) (pc_routes cfg))"

section \<open>Provider keys\<close>

definition validate_slug :: "rstr \<Rightarrow> bool" where
  "validate_slug s =
     (case s of
        [] \<Rightarrow> False
      | b # bs \<Rightarrow>
          length s \<le> 64 \<and> is_ascii_lowercase b
          \<and> list_all (\<lambda>b. is_ascii_lowercase b \<or> is_ascii_digit b \<or> b = CHR ''-'') bs)"

definition provider_id_from_env_name :: "rstr \<Rightarrow> rstr option" where
  "provider_id_from_env_name name =
     (case strip_prefix ''SPW_KEY_'' name of
        None \<Rightarrow> None
      | Some rest \<Rightarrow>
          (let slug = map (\<lambda>b. if b = CHR ''_'' then CHR ''-'' else b) (to_ascii_lowercase rest) in
           if validate_slug slug then Some slug else None))"

text \<open>The host's name for the same variable (\<open>compose/proxy.rs\<close>).\<close>

definition spw_key_env_name :: "rstr \<Rightarrow> rstr" where
  "spw_key_env_name provider_id =
     ''SPW_KEY_'' @ map (\<lambda>b. if b = CHR ''-'' then CHR ''_'' else b) (to_ascii_uppercase provider_id)"

definition provider_key_for_env_name_in :: "http_env \<Rightarrow> rstr \<Rightarrow> rstr \<Rightarrow> rstr option" where
  "provider_key_for_env_name_in W dir name =
     (case provider_id_from_env_name name of
        None \<Rightarrow> None
      | Some pid \<Rightarrow>
          (case he_read_file W (dir @ ''/'' @ pid @ ''_api_key'') of
             None \<Rightarrow> None
           | Some raw \<Rightarrow> (let key = trim raw in if key \<noteq> [] then Some key else None)))"

definition provider_key_for_env_name :: "http_env \<Rightarrow> rstr option \<Rightarrow> rstr \<Rightarrow> rstr option" where
  "provider_key_for_env_name W tokens_dir name =
     provider_key_for_env_name_in W (case tokens_dir of Some d \<Rightarrow> d | None \<Rightarrow> ''/tokens'') name"

section \<open>Caller authentication\<close>

definition CALLER_AUTH_HEADER :: rstr where
  "CALLER_AUTH_HEADER = ''x-speedwave-proxy-auth''"

definition require_caller_auth :: "http_env \<Rightarrow> proxy_config \<Rightarrow> header_map \<Rightarrow> 'a \<Rightarrow> nat + 'a" where
  "require_caller_auth W cfg headers run =
     (case pc_caller_token cfg of
        None \<Rightarrow> Inr run
      | Some expected \<Rightarrow>
          (let presented = Option.bind (header_get headers CALLER_AUTH_HEADER) (hv_to_str W) in
           if presented = Some expected then Inr run else Inl 401))"

definition caller_authorized :: "http_env \<Rightarrow> proxy_config \<Rightarrow> header_map \<Rightarrow> bool" where
  "caller_authorized W cfg headers =
     (case pc_caller_token cfg of
        None \<Rightarrow> False
      | Some expected \<Rightarrow>
          Option.bind (header_get headers CALLER_AUTH_HEADER) (hv_to_str W) = Some expected)"

section \<open>Audit rows\<close>

text \<open>One row of \<open>audit-proxy.jsonl\<close>; the time stamp is added when the row is written.\<close>

record pii_audit_line =
  al_layer :: rstr
  al_category :: rstr
  al_action :: rstr
  al_count :: u32
  al_source :: "rstr option"

record git_audit_line =
  ga_layer :: rstr
  ga_method :: rstr
  ga_host :: rstr
  ga_repo :: "rstr option"
  ga_service :: "rstr option"
  ga_status :: nat

definition AUDIT_LAYER :: rstr where "AUDIT_LAYER = ''llm-request''"

definition NER_SOURCE :: rstr where "NER_SOURCE = ''ner''"

definition NER_UNAVAILABLE_CATEGORY :: rstr where "NER_UNAVAILABLE_CATEGORY = ''NER_UNAVAILABLE''"

fun action_wire :: "detection_action \<Rightarrow> rstr" where
  "action_wire Tokenized = ''tokenized''"
| "action_wire Passed = ''passed''"

definition write_pii_audit_to :: "detection list \<Rightarrow> rstr option \<Rightarrow> pii_audit_line list" where
  "write_pii_audit_to detections source =
     map (\<lambda>d. \<lparr> al_layer = AUDIT_LAYER, al_category = det_category d, al_action = action_wire (det_action d),
               al_count = det_count d, al_source = source \<rparr>) detections"

definition write_pii_audit_with_source ::
  "rstr option \<Rightarrow> detection list \<Rightarrow> rstr option \<Rightarrow> pii_audit_line list" where
  "write_pii_audit_with_source audit_dir detections source =
     (if detections = [] then []
      else case audit_dir of None \<Rightarrow> [] | Some _ \<Rightarrow> write_pii_audit_to detections source)"

definition write_pii_audit :: "rstr option \<Rightarrow> detection list \<Rightarrow> pii_audit_line list" where
  "write_pii_audit audit_dir detections = write_pii_audit_with_source audit_dir detections None"

definition write_ner_unavailable :: "rstr option \<Rightarrow> pii_audit_line list" where
  "write_ner_unavailable audit_dir =
     write_pii_audit_with_source audit_dir
       [\<lparr> det_category = NER_UNAVAILABLE_CATEGORY, det_action = Passed, det_count = 1 \<rparr>] (Some NER_SOURCE)"

definition write_git_audit ::
  "rstr option \<Rightarrow> rstr \<Rightarrow> rstr \<Rightarrow> rstr option \<Rightarrow> rstr option \<Rightarrow> nat \<Rightarrow> git_audit_line list" where
  "write_git_audit audit_dir method host repo service status =
     (case audit_dir of
        None \<Rightarrow> []
      | Some _ \<Rightarrow> [\<lparr> ga_layer = ''git'', ga_method = method, ga_host = host, ga_repo = repo,
                     ga_service = service, ga_status = status \<rparr>])"

section \<open>The git transport\<close>

definition REQUEST_HEADERS :: "rstr list" where
  "REQUEST_HEADERS =
     [''content-type'', ''accept'', ''accept-encoding'', ''content-encoding'', ''git-protocol'', ''user-agent'']"

definition RESPONSE_HEADERS :: "rstr list" where
  "RESPONSE_HEADERS = [''content-type'', ''content-encoding'', ''cache-control'', ''expires'', ''pragma'']"

record git_request =
  gr_repo :: rstr
  gr_suffix :: rstr
  gr_service :: rstr
  gr_query :: "rstr option"

definition valid_repo_segments :: "rstr list \<Rightarrow> bool" where
  "valid_repo_segments segs =
     (segs \<noteq> [] \<and> hd segs \<noteq> ''api''
      \<and> list_all (\<lambda>s. s \<noteq> [] \<and> s \<noteq> ''.'' \<and> s \<noteq> ''..'' \<and> CHR ''%'' \<notin> set s \<and> CHR 0x5C \<notin> set s) segs)"

definition git_service :: "http_method \<Rightarrow> rstr list \<Rightarrow> rstr option \<Rightarrow> (rstr list \<times> rstr \<times> rstr) option" where
  "git_service method segments query =
     (let tail = rev segments in
      if take 2 tail = [''refs'', ''info''] \<and> method = GET then
        (case query of
           None \<Rightarrow> None
         | Some q \<Rightarrow>
             (if q = ''service=git-upload-pack'' then Some (rev (drop 2 tail), ''info/refs'', ''git-upload-pack'')
              else if q = ''service=git-receive-pack''
              then Some (rev (drop 2 tail), ''info/refs'', ''git-receive-pack'')
              else None))
      else if take 1 tail = [''git-upload-pack''] \<and> method = POST \<and> query = None
      then Some (rev (drop 1 tail), ''git-upload-pack'', ''git-upload-pack'')
      else if take 1 tail = [''git-receive-pack''] \<and> method = POST \<and> query = None
      then Some (rev (drop 1 tail), ''git-receive-pack'', ''git-receive-pack'')
      else None)"

definition classify :: "http_method \<Rightarrow> rstr \<Rightarrow> rstr option \<Rightarrow> git_request option" where
  "classify method rest query =
     (case git_service method (split_byte (CHR ''/'') rest) query of
        None \<Rightarrow> None
      | Some (repo_segments, sfx, service) \<Rightarrow>
          (if valid_repo_segments repo_segments
           then Some \<lparr> gr_repo = join_byte (CHR ''/'') repo_segments, gr_suffix = sfx,
                       gr_service = service, gr_query = query \<rparr>
           else None))"

definition not_listed_response :: "rstr \<Rightarrow> rstr \<Rightarrow> http_response" where
  "not_listed_response host repo =
     \<lparr> rsp_status = 403, rsp_headers = [(''content-type'', ''text/plain; charset=utf-8'')],
       rsp_body = Buffered
         (''Speedwave: '' @ host @ ''/'' @ repo @ '' is not on this project's repository list. A person adds the entry ''
          @ normalise repo
          @ '' in Speedwave Desktop: Integrations, the GitHub or GitLab panel, Repositories.'' @ [CHR 0x0A]) \<rparr>"

definition git_read_token :: "http_env \<Rightarrow> git_forge \<Rightarrow> rstr option" where
  "git_read_token W forge =
     (case he_read_file W (gf_token_file forge) of
        None \<Rightarrow> None
      | Some raw \<Rightarrow> (let token = trim raw in if token \<noteq> [] then Some token else None))"

definition copy_headers :: "rstr list \<Rightarrow> header_map \<Rightarrow> header_map" where
  "copy_headers names hs =
     concat (map (\<lambda>n. case header_get hs n of None \<Rightarrow> [] | Some v \<Rightarrow> [(n, v)]) names)"

definition git_url :: "git_forge \<Rightarrow> git_request \<Rightarrow> rstr" where
  "git_url forge git =
     trim_end_byte (CHR ''/'') (gf_base_url forge) @ ''/'' @ gr_repo git @ ''/'' @ gr_suffix git
     @ (case gr_query git of Some q \<Rightarrow> ''?'' @ q | None \<Rightarrow> [])"

definition git_forward ::
  "http_env \<Rightarrow> git_forge \<Rightarrow> git_request \<Rightarrow> http_method \<Rightarrow> header_map \<Rightarrow> body
     \<Rightarrow> http_response \<times> upstream_request option" where
  "git_forward W forge git method headers payload =
     (case git_read_token W forge of
        None \<Rightarrow> (status_response 503, None)
      | Some token \<Rightarrow>
          (case hv_from_str W (''Basic '' @ he_base64 W (gf_login forge @ '':'' @ token)) of
             None \<Rightarrow> (status_response 503, None)
           | Some av \<Rightarrow>
               (let req = \<lparr> up_method = method, up_url = git_url forge git,
                      up_headers = copy_headers REQUEST_HEADERS headers @ [(''authorization'', av)],
                      up_body = (if method = POST then Some payload else None) \<rparr>
                in (case he_send W req of
                      Inl _ \<Rightarrow> status_response 502
                    | Inr r \<Rightarrow> \<lparr> rsp_status = rsp_status r, rsp_headers = copy_headers RESPONSE_HEADERS (rsp_headers r),
                               rsp_body = rsp_body r \<rparr>,
                    Some req))))"

definition method_str :: "http_method \<Rightarrow> rstr" where
  "method_str m = (case m of GET \<Rightarrow> ''GET'' | POST \<Rightarrow> ''POST'' | OtherMethod s \<Rightarrow> s)"

record git_outcome =
  go_response :: http_response
  go_upstream :: "upstream_request option"
  go_audit :: "git_audit_line list"

definition git_handler ::
  "http_env \<Rightarrow> proxy_config \<Rightarrow> http_method \<Rightarrow> rstr \<Rightarrow> rstr option \<Rightarrow> header_map \<Rightarrow> body \<Rightarrow> git_outcome" where
  "git_handler W cfg method path query headers payload =
     (let rest_of_path = (case strip_prefix ''/git/'' path of Some p \<Rightarrow> p | None \<Rightarrow> []);
          (host, rest) = (case split_once ''/'' rest_of_path of Some hr \<Rightarrow> hr | None \<Rightarrow> (rest_of_path, []));
          classified = classify method rest query;
          (response, upstream) =
            (if \<not> caller_authorized W cfg headers then (status_response 401, None)
             else case (find (\<lambda>f. gf_host f = host) (pc_git_forges cfg), classified) of
                 (Some forge, Some git) \<Rightarrow>
                   (if forge_allows forge (gr_repo git) then git_forward W forge git method headers payload
                    else (not_listed_response host (gr_repo git), None))
               | _ \<Rightarrow> (status_response 403, None))
      in \<lparr> go_response = response, go_upstream = upstream,
           go_audit = write_git_audit (pc_audit_dir cfg) (method_str method) host
             (map_option gr_repo classified) (map_option gr_service classified) (rsp_status response) \<rparr>)"

section \<open>Lemmas\<close>

lemma join_byte_append:
  "xs \<noteq> [] \<Longrightarrow> ys \<noteq> [] \<Longrightarrow> join_byte d (xs @ ys) = join_byte d xs @ d # join_byte d ys"
proof (induction xs rule: join_byte.induct)
  case (2 d x)
  then show ?case by (cases ys) simp_all
qed simp_all

lemma split_byte_parts: "x \<in> set (split_byte d s) \<Longrightarrow> d \<notin> set x"
proof (induction s arbitrary: x)
  case (Cons c s)
  then show ?case by (auto split: if_splits list.splits)
qed simp

lemma rev_take_append: "take n (rev xs) = ys \<Longrightarrow> length ys = n \<Longrightarrow> xs = rev (drop n (rev xs)) @ rev ys"
  by (metis append_take_drop_id rev_append rev_rev_ident)

lemma git_service_Some:
  assumes "git_service method segments query = Some (repo, sfx, svc)"
  shows "(method = GET \<and> segments = repo @ [''info'', ''refs''] \<and> sfx = ''info/refs'' \<and> query = Some (''service='' @ svc)
        \<or> method = POST \<and> segments = repo @ [svc] \<and> sfx = svc \<and> query = None)
    \<and> svc \<in> {''git-upload-pack'', ''git-receive-pack''}"
  using assms rev_take_append [of 2 segments "[''refs'', ''info'']"]
    rev_take_append [of 1 segments "[''git-upload-pack'']"] rev_take_append [of 1 segments "[''git-receive-pack'']"]
  by (auto simp: git_service_def Let_def split: if_splits option.splits)

lemma classify_Some:
  assumes "classify method rest query = Some git"
  shows "valid_repo_segments (split_byte (CHR ''/'') (gr_repo git))
    \<and> rest = gr_repo git @ ''/'' @ gr_suffix git \<and> gr_query git = query
    \<and> (method = GET \<and> gr_suffix git = ''info/refs'' \<and> query = Some (''service='' @ gr_service git)
       \<or> method = POST \<and> gr_suffix git = gr_service git \<and> query = None)
    \<and> gr_service git \<in> {''git-upload-pack'', ''git-receive-pack''}"
proof -
  from assms obtain repo sfx svc where s: "git_service method (split_byte (CHR ''/'') rest) query = Some (repo, sfx, svc)"
    and v: "valid_repo_segments repo"
    and git: "git = \<lparr> gr_repo = join_byte (CHR ''/'') repo, gr_suffix = sfx, gr_service = svc, gr_query = query \<rparr>"
    by (auto simp: classify_def split: option.splits if_splits)
  note S = git_service_Some [OF s]
  have "set repo \<subseteq> set (split_byte (CHR ''/'') rest)" using S by auto
  then have "\<forall>x \<in> set repo. CHR ''/'' \<notin> set x" using split_byte_parts by blast
  moreover have ne: "repo \<noteq> []" using v by (simp add: valid_repo_segments_def)
  ultimately have "split_byte (CHR ''/'') (join_byte (CHR ''/'') repo) = repo" by (simp add: split_join_byte)
  moreover have "rest = join_byte (CHR ''/'') (split_byte (CHR ''/'') rest)" by (simp add: join_split_byte)
  then have "rest = join_byte (CHR ''/'') repo @ ''/'' @ sfx"
    using S ne by (auto simp: join_byte_append)
  ultimately show ?thesis using S v by (auto simp: git)
qed

lemma entry_matches_iff:
  "entry_matches entry repo \<longleftrightarrow>
     (CHR ''*'' \<notin> set entry \<and> repo = entry)
     \<or> (\<exists>owner name. entry = owner @ ''/*'' \<and> CHR ''*'' \<notin> set owner \<and> repo = owner @ ''/'' @ name \<and> name \<noteq> [])"
proof (cases "CHR ''*'' \<in> set entry")
  case False
  then show ?thesis by (auto simp: entry_matches_def)
next
  case True
  show ?thesis
  proof (cases "strip_suffix ''/*'' entry")
    case None
    then have "\<not> (\<exists>owner. entry = owner @ ''/*'')" by (simp add: strip_suffix_eq_None ends_with_iff)
    with True None show ?thesis by (auto simp: entry_matches_def)
  next
    case (Some pre)
    then have e: "entry = pre @ ''/*''" by (simp only: strip_suffix_eq_Some)
    have "Option.bind (strip_prefix pre repo) (strip_prefix ''/'') = Some rest \<longleftrightarrow> repo = pre @ ''/'' @ rest" for rest
      by (auto simp: bind_eq_Some_conv strip_prefix_eq_Some)
    then have "(case Option.bind (strip_prefix pre repo) (strip_prefix ''/'') of Some rest \<Rightarrow> rest \<noteq> [] | None \<Rightarrow> False)
        \<longleftrightarrow> (\<exists>name. repo = pre @ ''/'' @ name \<and> name \<noteq> [])"
      by (cases "Option.bind (strip_prefix pre repo) (strip_prefix ''/'')") auto
    then have "entry_matches entry repo \<longleftrightarrow> CHR ''*'' \<notin> set pre \<and> (\<exists>name. repo = pre @ ''/'' @ name \<and> name \<noteq> [])"
      unfolding entry_matches_def Some option.case using True by simp
    moreover have "entry = owner @ ''/*'' \<longleftrightarrow> owner = pre" for owner
      unfolding e by (simp only: append_same_eq) blast
    ultimately show ?thesis using True by simp
  qed
qed

lemma copy_headers_names: "fst ` set (copy_headers names hs) \<subseteq> set names"
  by (auto simp: copy_headers_def split: option.splits)

lemma copy_headers_values: "(n, v) \<in> set (copy_headers names hs) \<Longrightarrow> header_get hs n = Some v"
  by (auto simp: copy_headers_def split: option.splits)

lemma git_forward_Some:
  assumes "git_forward W forge git method headers payload = (r, Some req)"
  shows "\<exists>token av. git_read_token W forge = Some token
      \<and> hv_from_str W (''Basic '' @ he_base64 W (gf_login forge @ '':'' @ token)) = Some av
      \<and> up_method req = method \<and> up_url req = git_url forge git
      \<and> up_headers req = copy_headers REQUEST_HEADERS headers @ [(''authorization'', av)]"
  using assms by (auto simp: git_forward_def Let_def split: option.splits sum.splits)

lemma split_once_byte:
  assumes "split_once [d] s = Some (a, b)"
  shows "s = a @ d # b \<and> d \<notin> set a"
proof -
  from assms obtain i where i: "find_str [d] s = Some i" and a: "a = take i s" and b: "b = drop (i + 1) s"
    by (auto simp: split_once_def split: option.splits)
  from find_str_Some [OF i] have len: "i < length s" and hit: "take 1 (drop i s) = [d]"
    and before: "\<forall>j < i. \<not> starts_with [d] (drop j s)" by auto
  have at: "starts_with [d] (drop j s) \<longleftrightarrow> s ! j = d" if "j < length s" for j
    using that by (auto simp: starts_with_def Cons_nth_drop_Suc [symmetric])
  have "s = take i s @ s ! i # drop (i + 1) s" using len by (simp add: id_take_nth_drop)
  moreover have "s ! i = d" using hit len by (simp add: Cons_nth_drop_Suc [symmetric])
  moreover have "d \<notin> set (take i s)"
    using before at len by (auto simp: in_set_conv_nth)
  ultimately show ?thesis by (simp add: a b)
qed

definition dash_byte :: "byte \<Rightarrow> byte" where
  "dash_byte b = (if b = CHR ''_'' then CHR ''-'' else b)"

definition underscore_byte :: "byte \<Rightarrow> byte" where
  "underscore_byte b = (if b = CHR ''-'' then CHR ''_'' else b)"

definition slug_byte :: "byte \<Rightarrow> bool" where
  "slug_byte b \<longleftrightarrow> is_ascii_lowercase b \<or> is_ascii_digit b \<or> b = CHR ''-''"

lemma slug_byte_roundtrip:
  assumes "slug_byte b"
  shows "dash_byte (byte_lower (underscore_byte (byte_upper b))) = b"
proof (cases "is_ascii_lowercase b")
  case True
  then have c: "97 \<le> code b" "code b \<le> 122" by (simp_all add: is_ascii_lowercase_def less_eq_char_def)
  let ?u = "char_of (code b - 32) :: byte"
  have u: "code ?u = code b - 32" using c by (simp add: take_bit_eq_mod)
  have "65 \<le> code b - 32" "code b - 32 \<le> 90" using c by arith+
  then have "is_ascii_uppercase ?u" by (simp add: is_ascii_uppercase_def less_eq_char_def u)
  moreover have "?u \<noteq> CHR ''-''" 
  proof
    assume "?u = CHR ''-''"
    then have "code ?u = 45" by simp
    with u c show False by simp
  qed
  moreover have "char_of (code ?u + 32) = b" using c by (simp add: u)
  moreover have "b \<noteq> CHR ''_''" using c by auto
  ultimately show ?thesis
    using True by (simp add: byte_upper_def byte_lower_def dash_byte_def underscore_byte_def)
next
  case False
  with assms have "b = CHR ''-'' \<or> is_ascii_digit b" by (auto simp: slug_byte_def)
  then show ?thesis
    using False by (auto simp: byte_upper_def byte_lower_def dash_byte_def underscore_byte_def
      is_ascii_digit_def is_ascii_lowercase_def is_ascii_uppercase_def less_eq_char_def)
qed

section \<open>Properties\<close>

text \<open>C31. The proxy lends a git token to nobody else: an upstream request is made only for a caller who
  presents the configured secret, to the configured forge whose host the path names, for a repository
  on that forge's list, on one of the four git endpoints, at an address made of the forge's base
  address and a repository path without empty, dot or escaped segments; the credential is
  the forge's own and none of the caller's headers is an authorization.\<close>

theorem git_upstream_authorised:
  assumes "go_upstream (git_handler W cfg method path query headers payload) = Some req"
  shows "caller_authorized W cfg headers \<and>
    (\<exists>host rest forge git token av.
        strip_prefix ''/git/'' path = Some (host @ ''/'' @ rest) \<and> CHR ''/'' \<notin> set host
      \<and> forge \<in> set (pc_git_forges cfg) \<and> gf_host forge = host
      \<and> rest = gr_repo git @ ''/'' @ gr_suffix git \<and> forge_allows forge (gr_repo git)
      \<and> valid_repo_segments (split_byte (CHR ''/'') (gr_repo git))
      \<and> gr_suffix git \<in> {''info/refs'', ''git-upload-pack'', ''git-receive-pack''}
      \<and> up_url req = git_url forge git \<and> git_read_token W forge = Some token
      \<and> hv_from_str W (''Basic '' @ he_base64 W (gf_login forge @ '':'' @ token)) = Some av
      \<and> (\<forall>n v. (n, v) \<in> set (up_headers req) \<longrightarrow> n = ''authorization'' \<and> v = av \<or> n \<in> set REQUEST_HEADERS))"
proof -
  define rp where "rp = (case strip_prefix ''/git/'' path of Some p \<Rightarrow> p | None \<Rightarrow> [])"
  obtain host rest where hr: "(case split_once ''/'' rp of Some hr \<Rightarrow> hr | None \<Rightarrow> (rp, [])) = (host, rest)"
    by (cases "case split_once ''/'' rp of Some hr \<Rightarrow> hr | None \<Rightarrow> (rp, [])")
  from assms have auth: "caller_authorized W cfg headers"
    by (cases "caller_authorized W cfg headers") (auto simp: git_handler_def Let_def split: prod.splits)
  from assms [unfolded git_handler_def Let_def, folded rp_def, unfolded hr prod.case] auth
  obtain forge git r where f: "find (\<lambda>f. gf_host f = host) (pc_git_forges cfg) = Some forge"
    and g: "classify method rest query = Some git" and al: "forge_allows forge (gr_repo git)"
    and fw: "git_forward W forge git method headers payload = (r, Some req)"
    by (auto split: option.splits if_splits prod.splits)
  note G = classify_Some [OF g]
  have "split_once ''/'' rp = Some (host, rest)"
    using hr G by (auto split: option.splits)
  from split_once_byte [OF this] have rp: "rp = host @ ''/'' @ rest" "CHR ''/'' \<notin> set host" by simp_all
  then have "strip_prefix ''/git/'' path = Some (host @ ''/'' @ rest)"
    by (auto simp: rp_def split: option.splits)
  moreover from find_Some_iff [THEN iffD1, OF f] have "forge \<in> set (pc_git_forges cfg)" "gf_host forge = host"
    by (auto simp: in_set_conv_nth)
  moreover obtain token av where "git_read_token W forge = Some token"
      "hv_from_str W (''Basic '' @ he_base64 W (gf_login forge @ '':'' @ token)) = Some av"
      "up_url req = git_url forge git"
    and hs: "up_headers req = copy_headers REQUEST_HEADERS headers @ [(''authorization'', av)]"
    using git_forward_Some [OF fw] by blast
  moreover have "\<forall>n v. (n, v) \<in> set (up_headers req) \<longrightarrow> n = ''authorization'' \<and> v = av \<or> n \<in> set REQUEST_HEADERS"
    unfolding hs using copy_headers_names [of REQUEST_HEADERS headers] by force
  moreover have "gr_suffix git \<in> {''info/refs'', ''git-upload-pack'', ''git-receive-pack''}" using G by auto
  ultimately show ?thesis using auth rp G al by blast
qed

text \<open>What an allowlist entry covers, after case, surrounding slashes and one \<open>.git\<close> suffix are ignored: an
  entry without a star covers exactly the repository it names, an entry ending in \<open>/*\<close> covers what lies
  strictly below its owner, and an entry with a star anywhere else covers nothing.\<close>

theorem forge_allows_iff:
  "forge_allows forge repo \<longleftrightarrow>
     (\<exists>entry \<in> set (gf_repositories forge).
        CHR ''*'' \<notin> set (normalise entry) \<and> normalise repo = normalise entry
      \<or> (\<exists>owner name. normalise entry = owner @ ''/*'' \<and> CHR ''*'' \<notin> set owner
           \<and> normalise repo = owner @ ''/'' @ name \<and> name \<noteq> []))"
  by (auto simp: forge_allows_def Let_def list_ex_iff entry_matches_iff)

text \<open>The name of a provider's key variable is decoded to the provider it was made from, and only names
  of well-formed providers are decoded.\<close>

theorem provider_env_name_roundtrip:
  "validate_slug slug \<longleftrightarrow> provider_id_from_env_name (spw_key_env_name slug) = Some slug"
proof
  assume v: "validate_slug slug"
  have "slug_byte b \<Longrightarrow> dash_byte (byte_lower (underscore_byte (byte_upper b))) = b" for b
    by (rule slug_byte_roundtrip)
  moreover have "\<forall>b \<in> set slug. slug_byte b"
    using v by (cases slug) (auto simp: validate_slug_def slug_byte_def list_all_iff)
  ultimately have "map dash_byte (to_ascii_lowercase (map underscore_byte (to_ascii_uppercase slug))) = slug"
    by (simp add: to_ascii_lowercase_def to_ascii_uppercase_def map_idI)
  with v show "provider_id_from_env_name (spw_key_env_name slug) = Some slug"
    by (simp add: provider_id_from_env_name_def spw_key_env_name_def strip_prefix_def starts_with_def
        dash_byte_def [abs_def] underscore_byte_def [abs_def])
qed (auto simp: provider_id_from_env_name_def Let_def split: option.splits if_splits)

text \<open>The key file of a leg is always directly in the tokens directory: whatever the variable is called,
  the provider decoded from it has one to 64 letters, digits and dashes.\<close>

theorem provider_id_safe:
  assumes "provider_id_from_env_name name = Some pid"
  shows "pid \<noteq> [] \<and> length pid \<le> 64 \<and> (\<forall>b \<in> set pid. is_ascii_lowercase b \<or> is_ascii_digit b \<or> b = CHR ''-'')"
  using assms
  by (auto simp: provider_id_from_env_name_def Let_def validate_slug_def list_all_iff
      split: option.splits if_splits list.splits)

section \<open>A concrete request\<close>

definition demo_http :: http_env where
  "demo_http = \<lparr> hv_to_str = Some, hv_from_str = Some,
     he_read_file = (\<lambda>p. if p = ''/tokens/github'' then Some (''tok'' @ [CHR 0x0A]) else None),
     he_base64 = hex_encode,
     he_send = (\<lambda>req. Inr \<lparr> rsp_status = 200, rsp_headers = [(''server'', ''x''), (''content-type'', ''t'')],
                        rsp_body = Streamed [Inr ''refs''] \<rparr>) \<rparr>"

definition demo_cfg :: proxy_config where
  "demo_cfg = \<lparr> pc_routes = [],
     pc_git_forges = [\<lparr> gf_host = ''github.com'', gf_base_url = ''https://github.com/'', gf_login = ''u'',
                       gf_token_file = ''/tokens/github'', gf_repositories = [''acme/*''] \<rparr>],
     pc_caller_token = Some ''secret'', pc_audit_dir = None \<rparr>"

definition demo_headers :: header_map where
  "demo_headers = [(CALLER_AUTH_HEADER, ''secret''), (''authorization'', ''mine''), (''accept'', ''a'')]"

definition demo_req :: upstream_request where
  "demo_req = \<lparr> up_method = GET, up_url = ''https://github.com/Acme/app.git/info/refs?service=git-upload-pack'',
     up_headers = [(''accept'', ''a''), (''authorization'', ''Basic '' @ hex_encode ''u:tok'')], up_body = None \<rparr>"

lemma demo_token: "git_read_token demo_http forge = (if gf_token_file forge = ''/tokens/github'' then Some ''tok'' else None)"
proof -
  have "trim ([] @ ''tok'' @ [CHR 0x0A]) = ''tok''"
    by (rule trim_ascii_padding) (simp_all add: is_whitespace_code_def)
  then show ?thesis by (simp add: git_read_token_def demo_http_def)
qed

lemma demo_git_parts:
  "caller_authorized demo_http demo_cfg demo_headers"
  "split_once ''/'' ''github.com/Acme/app.git/info/refs'' = Some (''github.com'', ''Acme/app.git/info/refs'')"
  "classify GET ''Acme/app.git/info/refs'' (Some ''service=git-upload-pack'') =
     Some \<lparr> gr_repo = ''Acme/app.git'', gr_suffix = ''info/refs'', gr_service = ''git-upload-pack'',
            gr_query = Some ''service=git-upload-pack'' \<rparr>"
  "forge_allows (hd (pc_git_forges demo_cfg)) ''Acme/app.git''"
  by code_simp+

lemma demo_git_run:
  "go_upstream (git_handler demo_http demo_cfg GET ''/git/github.com/Acme/app.git/info/refs''
     (Some ''service=git-upload-pack'') demo_headers (Buffered [])) = Some demo_req"
proof -
  have "strip_prefix ''/git/'' ''/git/github.com/Acme/app.git/info/refs'' = Some ''github.com/Acme/app.git/info/refs''"
    by (simp add: strip_prefix_def starts_with_def)
  then show ?thesis
    using demo_git_parts
    by (simp add: git_handler_def git_forward_def demo_token demo_cfg_def)
      (simp add: demo_http_def demo_req_def demo_headers_def git_url_def trim_end_byte_def copy_headers_def
        header_get_def REQUEST_HEADERS_def CALLER_AUTH_HEADER_def)
qed

lemma git_upstream_authorised_witness: "caller_authorized demo_http demo_cfg demo_headers"
  by (rule git_upstream_authorised [THEN conjunct1, OF demo_git_run])

lemma provider_id_safe_witness: "length ''my-router'' \<le> 64"
proof -
  have "provider_id_from_env_name ''SPW_KEY_MY_ROUTER'' = Some ''my-router''" by code_simp
  from provider_id_safe [OF this] show ?thesis by simp
qed

end
