(* ===== verification/Git_Allowlist.thy ===== *)
theory Git_Allowlist
  imports Proxy_Git
begin

text \<open>
  The host's side of the repository allowlist (\<open>crates/speedwave-runtime/src/git_allowlist.rs\<close>): normal form
  and validation of the entries a person adds, the entries handed to the proxy, and the
  suggestions read from the git configuration of the project. The file system is a parameter
  (\<open>file_system\<close>): listings, symbolic-link metadata and file contents. Paths are lists of components.
\<close>

section \<open>Paths\<close>

datatype component = RootDir | CurDir | ParentDir | Normal rstr

type_synonym path = "component list"

fun component_rank :: "component \<Rightarrow> nat \<times> rstr" where
  "component_rank RootDir = (1, [])"
| "component_rank CurDir = (2, [])"
| "component_rank ParentDir = (3, [])"
| "component_rank (Normal s) = (4, s)"

lemma component_rank_inj: "component_rank a = component_rank b \<Longrightarrow> a = b"
  by (cases a; cases b) auto

text \<open>Components compare as in the standard library, in the order of their kinds.\<close>

instantiation component :: linorder
begin

definition less_eq_component :: "component \<Rightarrow> component \<Rightarrow> bool" where
  "less_eq_component a b \<longleftrightarrow> component_rank a \<le> component_rank b"

definition less_component :: "component \<Rightarrow> component \<Rightarrow> bool" where
  "less_component a b \<longleftrightarrow> component_rank a < component_rank b"

instance
proof
  fix a b c :: component
  show "a < b \<longleftrightarrow> a \<le> b \<and> \<not> b \<le> a" by (auto simp: less_eq_component_def less_component_def)
  show "a \<le> a" by (simp add: less_eq_component_def)
  show "a \<le> b \<Longrightarrow> b \<le> c \<Longrightarrow> a \<le> c" by (auto simp: less_eq_component_def)
  show "a \<le> b \<Longrightarrow> b \<le> a \<Longrightarrow> a = b" by (auto simp: less_eq_component_def intro: component_rank_inj)
  show "a \<le> b \<or> b \<le> a" by (auto simp: less_eq_component_def)
qed

end

definition component_of :: "rstr \<Rightarrow> component" where
  "component_of s = (if s = ''.'' then CurDir else if s = ''..'' then ParentDir else Normal s)"

text \<open>\<open>Path::join\<close>: an absolute path replaces what it is joined to.\<close>

definition path_join :: "path \<Rightarrow> rstr \<Rightarrow> path" where
  "path_join p s =
     (let cs = map component_of (filter (\<lambda>x. x \<noteq> [] \<and> x \<noteq> ''.'') (split_byte (CHR ''/'') s)) in
      if starts_with ''/'' s then RootDir # cs else p @ cs)"

text \<open>\<open>PathBuf::pop\<close>, with its success flag.\<close>

definition path_pop :: "path \<Rightarrow> path option" where
  "path_pop p = (if p = [] \<or> p = [RootDir] then None else Some (butlast p))"

fun lexical_normal :: "path \<Rightarrow> path \<Rightarrow> path option" where
  "lexical_normal acc [] = Some acc"
| "lexical_normal acc (CurDir # cs) = lexical_normal acc cs"
| "lexical_normal acc (ParentDir # cs) =
     (case path_pop acc of None \<Rightarrow> None | Some acc' \<Rightarrow> lexical_normal acc' cs)"
| "lexical_normal acc (RootDir # cs) = lexical_normal [RootDir] cs"
| "lexical_normal acc (Normal s # cs) = lexical_normal (acc @ [Normal s]) cs"

definition path_strip_prefix :: "path \<Rightarrow> path \<Rightarrow> path option" where
  "path_strip_prefix root p = (if take (length root) p = root then Some (drop (length root) p) else None)"

definition lexical_relative :: "path \<Rightarrow> path \<Rightarrow> path option" where
  "lexical_relative root p =
     (case lexical_normal [] p of
        None \<Rightarrow> None
      | Some normalised \<Rightarrow>
          (case path_strip_prefix root normalised of
             None \<Rightarrow> None
           | Some relative \<Rightarrow> (if relative \<noteq> [] then Some relative else None)))"

section \<open>The file system\<close>

datatype file_kind = IsDir | IsFile | IsSymlink | IsOther

record file_system =
  fs_list :: "path \<Rightarrow> (rstr \<times> file_kind option) list option"
  fs_lmeta :: "path \<Rightarrow> file_kind option"
  fs_is_file :: "path \<Rightarrow> bool"
  fs_bytes :: "path \<Rightarrow> byte list option"

definition GIT_CONFIG_MAX_BYTES :: nat where
  "GIT_CONFIG_MAX_BYTES = 1024 * 1024"

definition read_capped :: "file_system \<Rightarrow> path \<Rightarrow> rstr option" where
  "read_capped F p = Option.bind (fs_bytes F p) (\<lambda>bs. from_utf8 (take GIT_CONFIG_MAX_BYTES bs))"

fun walk_real :: "file_system \<Rightarrow> path \<Rightarrow> path \<Rightarrow> path option" where
  "walk_real F cursor [] = Some cursor"
| "walk_real F cursor (c # cs) =
     (case fs_lmeta F (cursor @ [c]) of
        None \<Rightarrow> None
      | Some kind \<Rightarrow> (if kind = IsSymlink then None else walk_real F (cursor @ [c]) cs))"

definition within_project :: "file_system \<Rightarrow> path \<Rightarrow> path \<Rightarrow> path option" where
  "within_project F project_dir p =
     (case lexical_relative project_dir p of
        None \<Rightarrow> None
      | Some relative \<Rightarrow> walk_real F project_dir relative)"

definition option_filter :: "('a \<Rightarrow> bool) \<Rightarrow> 'a option \<Rightarrow> 'a option" where
  "option_filter P x = (case x of Some y \<Rightarrow> if P y then Some y else None | None \<Rightarrow> None)"

definition git_config_of :: "file_system \<Rightarrow> path \<Rightarrow> path \<Rightarrow> path option" where
  "git_config_of F project_dir dir =
     (let dot_git = path_join dir ''.git'' in
      Option.bind
        (case fs_lmeta F dot_git of
           Some IsDir \<Rightarrow> Some (path_join dot_git ''config'')
         | Some IsFile \<Rightarrow>
             Option.bind (read_capped F dot_git) (\<lambda>pointer.
             Option.bind (strip_prefix ''gitdir:'' (trim pointer)) (\<lambda>target.
             Option.bind (within_project F project_dir (path_join dir (trim target))) (\<lambda>gitdir.
             Option.bind
               (case option_filter (fs_is_file F) (within_project F project_dir (path_join gitdir ''commondir'')) of
                  Some file \<Rightarrow>
                    Option.bind (read_capped F file) (\<lambda>text.
                      within_project F project_dir (path_join gitdir (trim text)))
                | None \<Rightarrow> Some gitdir)
               (\<lambda>common. Some (path_join common ''config'')))))
         | _ \<Rightarrow> None)
        (\<lambda>config. option_filter (fs_is_file F) (within_project F project_dir config)))"

section \<open>Entries\<close>

datatype git_entry_error =
    Empty
  | WholeHost
  | MisplacedWildcard
  | TooFewSegments
  | BadSegment
  | ForbiddenCharacter
  | OtherHost
  | UnsupportedScheme

definition GITHUB_GIT_HOST :: rstr where "GITHUB_GIT_HOST = ''github.com''"
definition GITLAB_COM_GIT_HOST :: rstr where "GITLAB_COM_GIT_HOST = ''gitlab.com''"
definition GITLAB_DEFAULT_HOST_URL :: rstr where "GITLAB_DEFAULT_HOST_URL = ''https://gitlab.com''"

datatype git_forge_service = Github | Gitlab

fun config_key :: "git_forge_service \<Rightarrow> rstr" where
  "config_key Github = ''github''"
| "config_key Gitlab = ''gitlab''"

definition from_config_key :: "rstr \<Rightarrow> git_forge_service option" where
  "from_config_key key = find (\<lambda>s. config_key s = key) [Github, Gitlab]"

definition rsplit_once_byte :: "byte \<Rightarrow> rstr \<Rightarrow> (rstr \<times> rstr) option" where
  "rsplit_once_byte d s =
     (if d \<in> set s
      then Some (rev (tl (dropWhile (\<lambda>c. c \<noteq> d) (rev s))), rev (takeWhile (\<lambda>c. c \<noteq> d) (rev s)))
      else None)"

definition strip_userinfo :: "rstr \<Rightarrow> rstr" where
  "strip_userinfo authority =
     (case rsplit_once_byte (CHR ''@'') authority of Some (_, host) \<Rightarrow> host | None \<Rightarrow> authority)"

definition host_without_port :: "rstr \<Rightarrow> rstr" where
  "host_without_port authority =
     (if starts_with ''['' authority then
        takeWhile (\<lambda>c. c \<noteq> CHR '']'') authority @ (if CHR '']'' \<in> set authority then '']'' else [])
      else hd (split_byte (CHR '':'') authority))"

definition on_host :: "rstr \<Rightarrow> rstr \<Rightarrow> bool" where
  "on_host authority host =
     (let candidate = host_without_port (strip_userinfo authority) in
      candidate \<noteq> [] \<and> eq_ignore_ascii_case candidate (host_without_port host))"

definition names_a_host :: "rstr \<Rightarrow> rstr \<Rightarrow> bool" where
  "names_a_host first host =
     (let github_owner_cannot_hold_a_dot =
            eq_ignore_ascii_case (host_without_port host) GITHUB_GIT_HOST \<and> CHR ''.'' \<in> set first;
          public_forge = on_host first GITHUB_GIT_HOST \<or> on_host first GITLAB_COM_GIT_HOST
      in CHR '':'' \<in> set first \<or> CHR ''@'' \<in> set first \<or> on_host first host \<or> public_forge
         \<or> github_owner_cannot_hold_a_dot)"

definition starts_with_port :: "rstr \<Rightarrow> bool" where
  "starts_with_port after_colon =
     (let p = hd (split_byte (CHR ''/'') after_colon) in p \<noteq> [] \<and> list_all is_ascii_digit p)"

definition split_host :: "rstr \<Rightarrow> rstr \<Rightarrow> (rstr \<times> rstr) option" where
  "split_host raw host =
     (case split_once ''://'' raw of
        Some (_, rest) \<Rightarrow> Some (case split_once ''/'' rest of Some ap \<Rightarrow> ap | None \<Rightarrow> (rest, []))
      | None \<Rightarrow>
          (case option_filter (\<lambda>(before, after). CHR ''/'' \<notin> set before \<and> \<not> starts_with_port after)
                  (split_once '':'' raw) of
             Some scp_like \<Rightarrow> Some scp_like
           | None \<Rightarrow> option_filter (\<lambda>(first, _). names_a_host first host) (split_once ''/'' raw)))"

definition path_on_host :: "rstr \<Rightarrow> rstr \<Rightarrow> git_entry_error + rstr" where
  "path_on_host raw host =
     (if (case split_once ''://'' raw of
            Some (scheme, _) \<Rightarrow> \<not> eq_ignore_ascii_case scheme ''https'' \<and> \<not> eq_ignore_ascii_case scheme ''ssh''
          | None \<Rightarrow> False)
      then Inl UnsupportedScheme
      else case split_host raw host of
          Some (authority, p) \<Rightarrow> (if on_host authority host then Inr p else Inl OtherHost)
        | None \<Rightarrow> Inr raw)"

definition misplaced_star :: "rstr list \<Rightarrow> bool" where
  "misplaced_star segments =
     list_ex (\<lambda>(i, s). CHR ''*'' \<in> set s \<and> \<not> (i = length segments - 1 \<and> s = ''*''))
       (enumerate 0 segments)"

definition normalise_path :: "rstr \<Rightarrow> git_entry_error + rstr" where
  "normalise_path p =
     (let lowered = to_ascii_lowercase (trim_byte (CHR ''/'') p);
          entry = (case strip_suffix ''.git'' lowered of Some e \<Rightarrow> e | None \<Rightarrow> lowered);
          segments = split_byte (CHR ''/'') entry
      in if entry = ''*'' then Inl WholeHost
         else if entry = [] then Inl TooFewSegments
         else if list_ex (\<lambda>s. s = [] \<or> s = ''.'' \<or> s = ''..'') segments then Inl BadSegment
         else if misplaced_star segments then Inl MisplacedWildcard
         else if length segments < 2 then Inl TooFewSegments
         else Inr entry)"

definition forbidden_char :: "rchar \<Rightarrow> bool" where
  "forbidden_char c \<longleftrightarrow> is_whitespace c \<or> is_control c \<or> c = ''%'' \<or> c = [CHR 0x5C]"

definition normalise_entry :: "rstr \<Rightarrow> rstr \<Rightarrow> git_entry_error + rstr" where
  "normalise_entry raw0 host =
     (let raw = trim raw0 in
      if raw = [] then Inl Empty
      else if list_ex forbidden_char (chars raw) then Inl ForbiddenCharacter
      else res_bind (path_on_host raw host) normalise_path)"

text \<open>The entries in order, without repetition, and the indices of those refused.\<close>

fun enforced_loop :: "rstr list \<Rightarrow> rstr \<Rightarrow> nat \<Rightarrow> (rstr \<times> unit) list \<Rightarrow> nat list \<Rightarrow> rstr list \<times> nat list" where
  "enforced_loop [] host index enforced rejected = (map fst enforced, rejected)"
| "enforced_loop (entry # entries) host index enforced rejected =
     (case normalise_entry entry host of
        Inr normalised \<Rightarrow> enforced_loop entries host (index + 1) (bt_insert normalised () enforced) rejected
      | Inl _ \<Rightarrow> enforced_loop entries host (index + 1) enforced (rejected @ [index]))"

definition enforced_entries :: "rstr list \<Rightarrow> rstr \<Rightarrow> rstr list \<times> nat list" where
  "enforced_entries entries host = enforced_loop entries host 0 [] []"

section \<open>Suggestions\<close>

text \<open>\<open>str::lines\<close>: a line ends with a line feed, optionally after a carriage return; an
  unterminated last line counts when it is not empty.\<close>

definition str_lines :: "rstr \<Rightarrow> rstr list" where
  "str_lines s =
     (let ps = split_byte (CHR 0x0A) s;
          ended = map (\<lambda>l. case strip_suffix [CHR 0x0D] l of Some r \<Rightarrow> r | None \<Rightarrow> l) (butlast ps)
      in if last ps = [] then ended else ended @ [last ps])"

definition remote_value :: "rstr \<Rightarrow> rstr" where
  "remote_value v =
     (let value = trim v in
      case Option.bind (strip_prefix [CHR 0x22] value) (strip_suffix [CHR 0x22]) of
        Some inner \<Rightarrow> inner
      | None \<Rightarrow> value)"

fun remote_urls_loop :: "rstr list \<Rightarrow> bool \<Rightarrow> rstr list" where
  "remote_urls_loop [] in_remote = []"
| "remote_urls_loop (raw # ls) in_remote =
     (let line = trim raw in
      if starts_with ''['' line then remote_urls_loop ls (starts_with ''[remote '' line)
      else if \<not> in_remote then remote_urls_loop ls in_remote
      else case split_once ''='' line of
          None \<Rightarrow> remote_urls_loop ls in_remote
        | Some (k, value) \<Rightarrow>
            (let key = to_ascii_lowercase (trim k) in
             if key = ''url'' \<or> key = ''pushurl'' then remote_value value # remote_urls_loop ls in_remote
             else remote_urls_loop ls in_remote))"

definition remote_urls_of :: "rstr \<Rightarrow> rstr list" where
  "remote_urls_of config = remote_urls_loop (str_lines config) False"

definition remote_urls_in :: "file_system \<Rightarrow> path \<Rightarrow> path \<Rightarrow> rstr list" where
  "remote_urls_in F project_dir dir =
     (case git_config_of F project_dir dir of
        None \<Rightarrow> []
      | Some config \<Rightarrow> (case read_capped F config of Some s \<Rightarrow> remote_urls_of s | None \<Rightarrow> []))"

definition remote_entry :: "rstr \<Rightarrow> rstr \<Rightarrow> rstr option" where
  "remote_entry url host =
     (case split_host (trim url) host of
        None \<Rightarrow> None
      | Some _ \<Rightarrow>
          (case normalise_entry url host of
             Inl _ \<Rightarrow> None
           | Inr entry \<Rightarrow> (if ends_with ''/*'' entry then None else Some entry)))"

definition SKIPPED_DIRS :: "rstr list" where
  "SKIPPED_DIRS =
     [''.git'', ''node_modules'', ''target'', ''dist'', ''build'', ''vendor'', ''.venv'', ''venv'', ''.cache'']"

definition NESTED_SCAN_DEPTH :: nat where "NESTED_SCAN_DEPTH = 2"

definition subdirs :: "file_system \<Rightarrow> path \<Rightarrow> path list" where
  "subdirs F dir =
     (case fs_list F dir of
        None \<Rightarrow> []
      | Some entries \<Rightarrow>
          map (\<lambda>(name, _). dir @ [Normal name])
            (filter (\<lambda>(name, kind).
                \<not> (is_utf8 name \<and> list_ex (\<lambda>s. eq_ignore_ascii_case s name) SKIPPED_DIRS) \<and> kind = Some IsDir) entries))"

fun scan_depths :: "file_system \<Rightarrow> nat \<Rightarrow> path list \<Rightarrow> path list" where
  "scan_depths F 0 frontier = []"
| "scan_depths F (Suc n) frontier =
     (let nxt = sort (concat (map (subdirs F) frontier)) in nxt @ scan_depths F n nxt)"

definition repository_candidates :: "file_system \<Rightarrow> path \<Rightarrow> path list" where
  "repository_candidates F project_dir = project_dir # scan_depths F NESTED_SCAN_DEPTH [project_dir]"

fun component_str :: "component \<Rightarrow> rstr" where
  "component_str RootDir = ''/''"
| "component_str CurDir = ''.''"
| "component_str ParentDir = ''..''"
| "component_str (Normal s) = from_utf8_lossy s"

definition source_dir_of :: "path \<Rightarrow> path \<Rightarrow> rstr" where
  "source_dir_of project_dir dir =
     (let parts = (case path_strip_prefix project_dir dir of Some r \<Rightarrow> map component_str r | None \<Rightarrow> []) in
      if parts = [] then ''.'' else join_byte (CHR ''/'') parts)"

record git_suggestion =
  sg_entry :: rstr
  sg_source_dir :: rstr

definition suggestions_in :: "file_system \<Rightarrow> path \<Rightarrow> rstr \<Rightarrow> rstr list \<Rightarrow> git_suggestion list" where
  "suggestions_in F project_dir host listed =
     (let found = foldl (\<lambda>m dir. foldl (\<lambda>m url.
                      case remote_entry url host of
                        Some entry \<Rightarrow> (if map_of m entry = None then bt_insert entry (source_dir_of project_dir dir) m else m)
                      | None \<Rightarrow> m) m (remote_urls_in F project_dir dir))
                    [] (repository_candidates F project_dir)
      in map (\<lambda>(e, d). \<lparr> sg_entry = e, sg_source_dir = d \<rparr>) (filter (\<lambda>(e, _). e \<notin> set listed) found))"

section \<open>The host of a forge\<close>

text \<open>What the \<open>url\<close> crate reports of a parsed address.\<close>

record parsed_url =
  pu_scheme :: rstr
  pu_username :: rstr
  pu_password :: "rstr option"
  pu_host :: "rstr option"
  pu_port :: "nat option"

definition gitlab_git_host :: "(rstr \<Rightarrow> parsed_url option) \<Rightarrow> rstr \<Rightarrow> rstr option" where
  "gitlab_git_host url_parse host_url =
     (case url_parse (trim host_url) of
        None \<Rightarrow> None
      | Some url \<Rightarrow>
          (if pu_scheme url \<noteq> ''https'' \<or> pu_username url \<noteq> [] \<or> pu_password url \<noteq> None then None
           else case pu_host url of
               None \<Rightarrow> None
             | Some host \<Rightarrow>
                 Some (case pu_port url of
                     Some port \<Rightarrow> host @ '':'' @ map (\<lambda>d. char_of (48 + d)) (dec_digits port)
                   | None \<Rightarrow> host)))"

datatype read_result = ReadOk rstr | NotFound | ReadError

definition gitlab_host_in :: "(rstr \<Rightarrow> parsed_url option) \<Rightarrow> read_result \<Rightarrow> rstr option" where
  "gitlab_host_in url_parse host_url_file =
     (case host_url_file of
        ReadOk raw \<Rightarrow>
          gitlab_git_host url_parse (if trim raw = [] then GITLAB_DEFAULT_HOST_URL else trim raw)
      | NotFound \<Rightarrow> gitlab_git_host url_parse GITLAB_DEFAULT_HOST_URL
      | ReadError \<Rightarrow> None)"

definition forge_host_in ::
  "(rstr \<Rightarrow> parsed_url option) \<Rightarrow> read_result \<Rightarrow> git_forge_service \<Rightarrow> rstr option" where
  "forge_host_in url_parse host_url_file service =
     (case service of
        Github \<Rightarrow> Some GITHUB_GIT_HOST
      | Gitlab \<Rightarrow> gitlab_host_in url_parse host_url_file)"

section \<open>Lexical confinement\<close>

definition lexical :: "path \<Rightarrow> bool" where
  "lexical p \<longleftrightarrow> (\<exists>ns. p = map Normal ns \<or> p = RootDir # map Normal ns)"

lemma lexical_Nil: "lexical []" "lexical [RootDir]"
  by (auto simp: lexical_def)

lemma lexical_snoc: "lexical p \<Longrightarrow> lexical (p @ [Normal s])"
proof -
  assume "lexical p"
  then obtain ns where "p = map Normal ns \<or> p = RootDir # map Normal ns" by (auto simp: lexical_def)
  then have "p @ [Normal s] = map Normal (ns @ [s]) \<or> p @ [Normal s] = RootDir # map Normal (ns @ [s])" by auto
  then show ?thesis unfolding lexical_def by blast
qed

lemma lexical_pop: "lexical p \<Longrightarrow> path_pop p = Some q \<Longrightarrow> lexical q"
  by (auto simp: lexical_def path_pop_def map_butlast [symmetric] split: if_splits)

lemma lexical_normal_lexical: "lexical_normal acc p = Some q \<Longrightarrow> lexical acc \<Longrightarrow> lexical q"
proof (induction acc p rule: lexical_normal.induct)
  case (3 acc cs)
  then obtain acc' where "path_pop acc = Some acc'" "lexical_normal acc' cs = Some q" by (auto split: option.splits)
  with 3 show ?case by (blast intro: lexical_pop)
qed (auto intro: lexical_snoc lexical_Nil)

lemma lexical_relative_names:
  assumes "lexical_relative (RootDir # map Normal ns) p = Some rel"
  shows "rel \<noteq> [] \<and> (\<exists>ms. rel = map Normal ms)"
proof -
  from assms obtain q where q: "lexical_normal [] p = Some q"
    and pre: "take (Suc (length ns)) q = RootDir # map Normal ns"
    and rel: "rel = drop (Suc (length ns)) q" "rel \<noteq> []"
    by (auto simp: lexical_relative_def path_strip_prefix_def split: option.splits if_splits)
  from lexical_normal_lexical [OF q lexical_Nil(1)] obtain ms where "q = map Normal ms \<or> q = RootDir # map Normal ms"
    by (auto simp: lexical_def)
  with pre have "q = RootDir # map Normal ms" by (cases ms) auto
  with rel have "rel = map Normal (drop (length ns) ms)" by (simp add: drop_map)
  with rel(2) show ?thesis by blast
qed

lemma walk_real_Some:
  assumes "walk_real F cursor rel = Some c"
  shows "c = cursor @ rel
    \<and> (\<forall>k < length rel. \<exists>kind. fs_lmeta F (cursor @ take (Suc k) rel) = Some kind \<and> kind \<noteq> IsSymlink)"
  using assms
proof (induction rel arbitrary: cursor)
  case (Cons x rel)
  from Cons.prems obtain kind where k: "fs_lmeta F (cursor @ [x]) = Some kind" "kind \<noteq> IsSymlink"
    and r: "walk_real F (cursor @ [x]) rel = Some c"
    by (auto split: option.splits if_splits)
  note IH = Cons.IH [OF r]
  have "\<exists>kind. fs_lmeta F (cursor @ take (Suc j) (x # rel)) = Some kind \<and> kind \<noteq> IsSymlink"
    if "j < length (x # rel)" for j
    using that IH k by (cases j) auto
  with IH show ?case by simp
qed simp

text \<open>A path inside the project that no symbolic link leads to.\<close>

definition really_inside :: "file_system \<Rightarrow> path \<Rightarrow> path \<Rightarrow> bool" where
  "really_inside F project_dir c \<longleftrightarrow>
     (\<exists>names. names \<noteq> [] \<and> c = project_dir @ map Normal names
        \<and> (\<forall>k < length names. \<exists>kind. fs_lmeta F (project_dir @ map Normal (take (Suc k) names)) = Some kind
             \<and> kind \<noteq> IsSymlink))"

lemma within_project_inside:
  assumes "within_project F (RootDir # map Normal ns) p = Some c"
  shows "really_inside F (RootDir # map Normal ns) c"
proof -
  from assms obtain rel where r: "lexical_relative (RootDir # map Normal ns) p = Some rel"
    and w: "walk_real F (RootDir # map Normal ns) rel = Some c"
    by (auto simp: within_project_def split: option.splits)
  from lexical_relative_names [OF r] obtain ms where ms: "rel \<noteq> []" "rel = map Normal ms" by blast
  from walk_real_Some [OF w] ms show ?thesis
    unfolding really_inside_def by (intro exI [of _ ms]) (simp add: take_map)
qed

section \<open>Entries in normal form\<close>

lemma lower_idem: "to_ascii_lowercase (to_ascii_lowercase s) = to_ascii_lowercase s"
proof -
  have "byte_lower (byte_lower b) = byte_lower b" for b
  proof (cases "is_ascii_uppercase b")
    case True
    then have "65 \<le> code b" "code b \<le> 90" by (simp_all add: is_ascii_uppercase_def less_eq_char_def)
    then have "\<not> is_ascii_uppercase (char_of (code b + 32))"
      by (simp add: is_ascii_uppercase_def less_eq_char_def take_bit_eq_mod)
    with True show ?thesis by (simp add: byte_lower_def)
  qed (simp add: byte_lower_def)
  then show ?thesis by (simp add: to_ascii_lowercase_def)
qed

lemma lowered_append: "to_ascii_lowercase (a @ b) = to_ascii_lowercase a @ to_ascii_lowercase b"
  by (simp add: to_ascii_lowercase_def)

lemma lower_left: "to_ascii_lowercase (a @ b) = a @ b \<Longrightarrow> to_ascii_lowercase a = a"
  by (simp add: to_ascii_lowercase_def)

lemma normalise_path_Inr:
  assumes "normalise_path p = Inr e"
  shows "to_ascii_lowercase e = e"
    and "2 \<le> length (split_byte (CHR ''/'') e)"
    and "s \<in> set (split_byte (CHR ''/'') e) \<Longrightarrow> s \<noteq> [] \<and> s \<noteq> ''.'' \<and> s \<noteq> ''..''"
    and "\<not> misplaced_star (split_byte (CHR ''/'') e)"
proof -
  let ?l = "to_ascii_lowercase (trim_byte (CHR ''/'') p)"
  have e: "e = (case strip_suffix ''.git'' ?l of Some e \<Rightarrow> e | None \<Rightarrow> ?l)"
    using assms by (auto simp: normalise_path_def Let_def split: if_splits)
  show "to_ascii_lowercase e = e"
  proof (cases "strip_suffix ''.git'' ?l")
    case None
    with e show ?thesis by (simp add: lower_idem)
  next
    case (Some x)
    with e have "?l = e @ ''.git''" by (simp add: strip_suffix_eq_Some)
    with lower_idem [of "trim_byte (CHR ''/'') p"] show ?thesis by (intro lower_left [of e "''.git''"]) simp
  qed
  show "2 \<le> length (split_byte (CHR ''/'') e)"
    "s \<in> set (split_byte (CHR ''/'') e) \<Longrightarrow> s \<noteq> [] \<and> s \<noteq> ''.'' \<and> s \<noteq> ''..''"
    "\<not> misplaced_star (split_byte (CHR ''/'') e)"
    using assms by (auto simp: normalise_path_def Let_def list_ex_iff split: if_splits)
qed

lemma normalise_entry_path:
  assumes "normalise_entry raw host = Inr e"
  obtains p where "normalise_path p = Inr e"
  using assms by (auto simp: normalise_entry_def Let_def res_simps split: if_splits)

lemma split_hd_byte: "e = CHR ''/'' # r \<Longrightarrow> [] \<in> set (split_byte (CHR ''/'') e)"
  by simp

lemma split_last_byte: "[] \<in> set (split_byte (CHR ''/'') (r @ ''/''))"
proof -
  have "split_byte d (r @ [d]) = split_byte d r @ [[]]" for d
    by (induction r) (auto simp: split_byte_nonempty split: list.splits)
  then show ?thesis by simp
qed

text \<open>An entry in normal form is a fixed point of the proxy's normalisation, unless its name ends in \<open>.git\<close>.\<close>

lemma normalise_fixed:
  assumes "normalise_path p = Inr e" and "\<not> ends_with ''.git'' e"
  shows "normalise e = e"
proof -
  note N = normalise_path_Inr [OF assms(1)]
  have h: "trim_start_byte (CHR ''/'') e = e"
    using N(3) [of "[]"] split_hd_byte by (cases e) (auto simp: trim_start_byte_def)
  have "rev e = CHR ''/'' # r \<Longrightarrow> False" for r
    using N(3) [of "[]"] split_last_byte [of "rev r"] by (metis rev.simps(2) rev_rev_ident)
  then have "trim_end_byte (CHR ''/'') e = e"
    by (cases "rev e") (auto simp: trim_end_byte_def rev_swap)
  with h have "trim_byte (CHR ''/'') e = e" by (simp add: trim_byte_def)
  with N(1) assms(2) show ?thesis by (simp add: normalise_def Let_def strip_suffix_eq_None [THEN iffD2])
qed

lemma join_byte_set: "set (join_byte d xs) \<subseteq> insert d (\<Union> (set ` set xs))"
  by (induction d xs rule: join_byte.induct) auto

lemma split_star:
  assumes "\<not> misplaced_star (split_byte (CHR ''/'') e)" and "CHR ''*'' \<in> set e" and "2 \<le> length (split_byte (CHR ''/'') e)"
  obtains owner where "e = owner @ ''/*''" and "CHR ''*'' \<notin> set owner"
proof -
  let ?segs = "split_byte (CHR ''/'') e"
  have e: "e = join_byte (CHR ''/'') ?segs" by (simp add: join_split_byte)
  have "CHR ''*'' \<in> insert (CHR ''/'') (\<Union> (set ` set ?segs))"
    using assms(2) join_byte_set [of "CHR ''/''" ?segs] unfolding e [symmetric] by blast
  then obtain x where "x \<in> set ?segs" "CHR ''*'' \<in> set x" by auto
  then obtain i where i: "i < length ?segs" "CHR ''*'' \<in> set (?segs ! i)" unfolding in_set_conv_nth by blast
  have star: "j = length ?segs - 1 \<and> ?segs ! j = ''*''" if "j < length ?segs" "CHR ''*'' \<in> set (?segs ! j)" for j
    using assms(1) that by (auto simp: misplaced_star_def list_ex_iff in_set_enumerate_eq)
  have l: "last ?segs = ''*''" using star [OF i] by (metis last_conv_nth split_byte_nonempty)
  have nb: "butlast ?segs \<noteq> []" using assms(3) by (cases ?segs rule: rev_cases) auto
  have "?segs = butlast ?segs @ [''*'']" using l assms(3) by (metis append_butlast_last_id list.size(3) not_numeral_le_zero)
  then have "e = join_byte (CHR ''/'') (butlast ?segs) @ CHR ''/'' # ''*''"
    using e join_byte_append [OF nb, of "[''*'']"] by simp
  moreover have "CHR ''*'' \<notin> set (join_byte (CHR ''/'') (butlast ?segs))"
  proof
    assume "CHR ''*'' \<in> set (join_byte (CHR ''/'') (butlast ?segs))"
    then obtain x where "x \<in> set (butlast ?segs)" "CHR ''*'' \<in> set x"
      using join_byte_set [of "CHR ''/''" "butlast ?segs"] by auto
    then obtain j where "j < length ?segs - 1" "CHR ''*'' \<in> set (?segs ! j)"
      by (metis in_set_conv_nth length_butlast nth_butlast)
    with star [of j] show False by linarith
  qed
  ultimately show thesis using that by simp
qed

lemma normalise_path_star:
  assumes "normalise_path p = Inr e"
  shows "CHR ''*'' \<notin> set e \<or> (\<exists>owner. e = owner @ ''/*'' \<and> CHR ''*'' \<notin> set owner)"
  using split_star [OF normalise_path_Inr(4) [OF assms] _ normalise_path_Inr(2) [OF assms]] by blast

section \<open>The enforced list\<close>

lemma bt_insert_unit_keys: "set (map fst (bt_insert k () m)) = insert k (set (map fst m))"
  using bt_insert_keys [of k "()" m] by simp

lemma enforced_loop_spec:
  assumes "bt_sorted m" and "enforced_loop es host i m rej = (enf, rej')"
  shows "sorted_wrt (<) enf
    \<and> set enf = set (map fst m) \<union> {e. \<exists>raw \<in> set es. normalise_entry raw host = Inr e}
    \<and> rej' = rej @ map fst (filter (\<lambda>(_, raw). \<exists>x. normalise_entry raw host = Inl x) (enumerate i es))"
  using assms
proof (induction es arbitrary: i m rej)
  case Nil
  then show ?case by (auto simp: bt_sorted_def)
next
  case (Cons raw es)
  show ?case
  proof (cases "normalise_entry raw host")
    case (Inl x)
    with Cons.prems(2) have "enforced_loop es host (i + 1) m (rej @ [i]) = (enf, rej')" by simp
    from Cons.IH [OF Cons.prems(1) this] Inl show ?thesis by auto
  next
    case (Inr e)
    with Cons.prems(2) have "enforced_loop es host (i + 1) (bt_insert e () m) rej = (enf, rej')" by simp
    from Cons.IH [OF bt_insert_sorted [OF Cons.prems(1)] this] Inr bt_insert_unit_keys [of e m]
    show ?thesis by auto
  qed
qed

lemma enumerate_positions:
  "map fst (filter (\<lambda>(_, x). P x) (enumerate 0 xs)) = filter (\<lambda>i. P (xs ! i)) [0..<length xs]"
proof -
  have "enumerate 0 xs = map (\<lambda>i. (i, xs ! i)) [0..<length xs]"
    by (rule nth_equalityI) (simp_all add: nth_enumerate_eq)
  then show ?thesis by (simp add: filter_map o_def)
qed

section \<open>Properties\<close>

text \<open>The enforced list holds exactly the normal forms of the valid entries, in order and without
  repetition, and the rejected indices are exactly those of the invalid ones.\<close>

theorem enforced_entries_spec:
  assumes "enforced_entries entries host = (enforced, rejected)"
  shows "sorted_wrt (<) enforced
    \<and> set enforced = {e. \<exists>raw \<in> set entries. normalise_entry raw host = Inr e}
    \<and> rejected = filter (\<lambda>i. \<exists>x. normalise_entry (entries ! i) host = Inl x) [0..<length entries]"
proof -
  have "bt_sorted ([] :: (rstr \<times> unit) list)" by (simp add: bt_sorted_def)
  from enforced_loop_spec [OF this assms [unfolded enforced_entries_def]]
  show ?thesis unfolding enumerate_positions by simp
qed

text \<open>C37. Host and proxy agree on what an entry means: with the enforced list of a forge, the proxy allows a
  repository exactly when a stored entry is valid and names it, or names its owner with a final
  star. This holds as long as no enforced entry ends in \<open>.git\<close>.\<close>

theorem enforced_entries_meaning:
  assumes "gf_repositories forge = fst (enforced_entries entries host)"
    and "\<forall>e \<in> set (gf_repositories forge). \<not> ends_with ''.git'' e"
  shows "forge_allows forge repo \<longleftrightarrow>
    (\<exists>raw \<in> set entries. normalise_entry raw host = Inr (normalise repo)
         \<and> CHR ''*'' \<notin> set (normalise repo))
    \<or> (\<exists>raw \<in> set entries. \<exists>owner name. normalise_entry raw host = Inr (owner @ ''/*'')
         \<and> normalise repo = owner @ ''/'' @ name \<and> name \<noteq> [])"
proof -
  have set: "set (gf_repositories forge) = {e. \<exists>raw \<in> set entries. normalise_entry raw host = Inr e}"
    using enforced_entries_spec [of entries host] assms(1) by (cases "enforced_entries entries host") auto
  have nf: "normalise e = e \<and> (CHR ''*'' \<in> set e \<longrightarrow> (\<exists>owner. e = owner @ ''/*'' \<and> CHR ''*'' \<notin> set owner))"
    if h: "normalise_entry raw host = Inr e" "raw \<in> set entries" for raw e
  proof -
    obtain p where p: "normalise_path p = Inr e" using h(1) by (rule normalise_entry_path)
    have "\<not> ends_with ''.git'' e" using assms(2) set h by blast
    with normalise_fixed [OF p] normalise_path_star [OF p] show ?thesis by blast
  qed
  let ?rhs = "(\<exists>raw \<in> set entries. normalise_entry raw host = Inr (normalise repo)
         \<and> CHR ''*'' \<notin> set (normalise repo))
    \<or> (\<exists>raw \<in> set entries. \<exists>owner name. normalise_entry raw host = Inr (owner @ ''/*'')
         \<and> normalise repo = owner @ ''/'' @ name \<and> name \<noteq> [])"
  show ?thesis
  proof
    assume "forge_allows forge repo"
    then obtain raw e where r: "raw \<in> set entries" "normalise_entry raw host = Inr e"
      and c: "CHR ''*'' \<notin> set (normalise e) \<and> normalise repo = normalise e
        \<or> (\<exists>owner name. normalise e = owner @ ''/*'' \<and> CHR ''*'' \<notin> set owner
             \<and> normalise repo = owner @ ''/'' @ name \<and> name \<noteq> [])"
      unfolding forge_allows_iff set by blast
    with nf [OF r(2,1)] show ?rhs by metis
  next
    assume ?rhs
    then show "forge_allows forge repo"
    proof (elim disjE bexE exE conjE)
      fix raw assume r: "raw \<in> set entries" "normalise_entry raw host = Inr (normalise repo)" "CHR ''*'' \<notin> set (normalise repo)"
      with nf [OF r(2,1)] show ?thesis
        unfolding forge_allows_iff set by (intro bexI [of _ "normalise repo"]) auto
    next
      fix raw owner name
      assume r: "raw \<in> set entries" "normalise_entry raw host = Inr (owner @ ''/*'')"
        and n: "normalise repo = owner @ ''/'' @ name" "name \<noteq> []"
      from nf [OF r(2,1)] have "normalise (owner @ ''/*'') = owner @ ''/*''" "CHR ''*'' \<notin> set owner"
        by auto
      with r n show ?thesis unfolding forge_allows_iff set by blast
    qed
  qed
qed

text \<open>But the two normalisations do not compose: each strips one \<open>.git\<close>. An entry for the repository
  \<open>app.git\<close> is stored as such and then enforced as \<open>app\<close>, so the proxy allows
  another repository than the one listed, and not the one listed.\<close>

theorem double_git_suffix:
  "normalise_entry ''acme/app.git.git'' GITHUB_GIT_HOST = Inr ''acme/app.git''
   \<and> (let forge = \<lparr> gf_host = GITHUB_GIT_HOST, gf_base_url = [], gf_login = [], gf_token_file = [],
         gf_repositories = fst (enforced_entries [''acme/app.git.git''] GITHUB_GIT_HOST) \<rparr>
      in forge_allows forge ''acme/app'' \<and> \<not> forge_allows forge ''acme/app.git.git'')"
  by code_simp

text \<open>A valid entry is lower case, has at least an owner and a name, no empty or dot segment, and a star
  only as its whole last segment.\<close>

theorem normalise_entry_shape:
  assumes "normalise_entry raw host = Inr e"
  shows "to_ascii_lowercase e = e \<and> 2 \<le> length (split_byte (CHR ''/'') e)
    \<and> (\<forall>s \<in> set (split_byte (CHR ''/'') e). s \<noteq> [] \<and> s \<noteq> ''.'' \<and> s \<noteq> ''..'')
    \<and> (CHR ''*'' \<in> set e \<longrightarrow> (\<exists>owner. e = owner @ ''/*'' \<and> CHR ''*'' \<notin> set owner))"
  using normalise_entry_path [OF assms] normalise_path_Inr normalise_path_star by meson

text \<open>A git configuration is read only inside the project: whatever \<open>.git\<close> file, work-tree pointer or
  common directory says, the configuration found is a regular file below the project
  directory, reached through no symbolic link.\<close>

theorem git_config_confined:
  assumes "git_config_of F (RootDir # map Normal ns) dir = Some config"
  shows "fs_is_file F config \<and> really_inside F (RootDir # map Normal ns) config"
proof -
  from assms obtain c where "option_filter (fs_is_file F) (within_project F (RootDir # map Normal ns) c) = Some config"
    unfolding git_config_of_def Let_def by (auto simp only: bind_eq_Some_conv)
  then have "within_project F (RootDir # map Normal ns) c = Some config" "fs_is_file F config"
    by (auto simp: option_filter_def split: option.splits if_splits)
  with within_project_inside show ?thesis by blast
qed

section \<open>Concrete entries and files\<close>

lemma enforced_entries_spec_witness: "sorted_wrt (<) [''acme/*'', ''zoo/app'']"
proof -
  have "enforced_entries [''https://github.com/Zoo/app.git'', ''*'', '' acme/* '', ''zoo/app''] GITHUB_GIT_HOST =
      ([''acme/*'', ''zoo/app''], [1])"
    by code_simp
  from enforced_entries_spec [OF this] show ?thesis by blast
qed

definition demo_forge :: git_forge where
  "demo_forge = \<lparr> gf_host = GITHUB_GIT_HOST, gf_base_url = [], gf_login = [], gf_token_file = [],
     gf_repositories = [''acme/*'', ''zoo/app''] \<rparr>"

lemma enforced_entries_meaning_witness:
  "\<exists>raw \<in> set [''acme/*'', ''git@github.com:Zoo/app.git'']. \<exists>owner name.
     normalise_entry raw GITHUB_GIT_HOST = Inr (owner @ ''/*'')
     \<and> normalise ''Acme/x.git'' = owner @ ''/'' @ name \<and> name \<noteq> []"
proof -
  have e: "gf_repositories demo_forge = fst (enforced_entries [''acme/*'', ''git@github.com:Zoo/app.git''] GITHUB_GIT_HOST)"
    by code_simp
  have a: "forge_allows demo_forge ''Acme/x.git''" by code_simp
  have n: "normalise_entry ''acme/*'' GITHUB_GIT_HOST = Inr ''acme/*''"
    "normalise_entry ''git@github.com:Zoo/app.git'' GITHUB_GIT_HOST = Inr ''zoo/app''" "normalise ''Acme/x.git'' = ''acme/x''"
    by code_simp+
  have s: "\<forall>e \<in> set (gf_repositories demo_forge). \<not> ends_with ''.git'' e"
    by (simp add: demo_forge_def ends_with_def)
  from enforced_entries_meaning [OF e s, THEN iffD1, OF a] show ?thesis by (simp add: n)
qed

lemma normalise_entry_shape_witness: "to_ascii_lowercase ''zoo/app'' = ''zoo/app''"
proof -
  have "normalise_entry ''ssh://git@github.com:22/Zoo/app.git'' GITHUB_GIT_HOST = Inr ''zoo/app''" by code_simp
  from normalise_entry_shape [OF this] show ?thesis by blast
qed

text \<open>A work tree whose pointer leads to the repository beside it.\<close>

definition demo_fs :: file_system where
  "demo_fs = \<lparr> fs_list = (\<lambda>_. None),
     fs_lmeta = (\<lambda>p. if last p = Normal ''tree'' \<or> last p = Normal ''repo'' \<or> last p = Normal ''p'' then Some IsDir
                     else if last p = Normal ''commondir'' then None else Some IsFile),
     fs_is_file = (\<lambda>p. last p = Normal ''config''),
     fs_bytes = (\<lambda>p. if last p = Normal ''.git'' then Some (''gitdir: ../repo'' @ [CHR 0x0A]) else None) \<rparr>"

lemma git_config_confined_witness:
  "fs_is_file demo_fs [RootDir, Normal ''p'', Normal ''repo'', Normal ''config'']"
proof -
  let ?p = "[RootDir, Normal ''p'']" and ?t = "[RootDir, Normal ''p'', Normal ''tree'']"
    and ?r = "[RootDir, Normal ''p'', Normal ''repo'']"
  have rc: "read_capped demo_fs (path_join ?t ''.git'') = Some (''gitdir: ../repo'' @ [CHR 0x0A])"
  proof -
    have "fs_bytes demo_fs (path_join ?t ''.git'') = Some (''gitdir: ../repo'' @ [CHR 0x0A])"
      "from_utf8 (''gitdir: ../repo'' @ [CHR 0x0A]) = Some (''gitdir: ../repo'' @ [CHR 0x0A])" by code_simp+
    then show ?thesis by (simp add: read_capped_def GIT_CONFIG_MAX_BYTES_def)
  qed
  have e: "fs_lmeta demo_fs (path_join ?t ''.git'') = Some IsFile"
    "strip_prefix ''gitdir:'' (trim (''gitdir: ../repo'' @ [CHR 0x0A])) = Some '' ../repo''"
    "within_project demo_fs ?p (path_join ?t (trim '' ../repo'')) = Some ?r"
    "within_project demo_fs ?p (path_join ?r ''commondir'') = None"
    "option_filter (fs_is_file demo_fs) (within_project demo_fs ?p (path_join ?r ''config'')) = Some (?r @ [Normal ''config''])"
    by code_simp+
  have "git_config_of demo_fs (RootDir # map Normal [''p'']) ?t = Some (?r @ [Normal ''config''])"
    unfolding git_config_of_def Let_def e(1) option.case file_kind.case rc bind.bind_lunit e(2)
    using e(3-) by (simp add: option_filter_def)
  from git_config_confined [OF this] show ?thesis by simp
qed

end
