(* ===== verification/Proxy_Ner.thy ===== *)
theory Proxy_Ner
  imports Git_Allowlist
begin

text \<open>
  The client of the host-side detector (\<open>containers/proxy/src/ner.rs\<close>): its configuration, the
  two-generation cache of detected spans, the batch request and the rate limit of its warnings.
  The HTTP exchange and the seeded hashes are parameters. While a batch waits for its turn and
  while it posts, other requests may use the cache: what they do is a parameter too.
\<close>

section \<open>Configuration\<close>

text \<open>A finite \<open>f32\<close> is an integer multiple of two to the power of minus 149, and is represented by it.\<close>

type_synonym f32 = int

definition DEFAULT_MIN_CONFIDENCE :: f32 where
  "DEFAULT_MIN_CONFIDENCE = 10066330 * 2 ^ 125"

definition NER_AUTH_HEADER :: rstr where "NER_AUTH_HEADER = ''x-speedwave-pii-ner-auth''"
definition HOST_GATEWAY_ALIAS :: rstr where "HOST_GATEWAY_ALIAS = ''host.docker.internal''"
definition DETECT_PATH :: rstr where "DETECT_PATH = ''/v1/detect''"
definition MAX_REQUEST_BYTES :: nat where "MAX_REQUEST_BYTES = 4 * 1024 * 1024"
definition WARN_INTERVAL :: nat where "WARN_INTERVAL = 60000"
definition CACHE_GENERATION_ENTRIES :: nat where "CACHE_GENERATION_ENTRIES = 2048"

record ner_config =
  ncfg_url :: rstr
  ncfg_token :: rstr
  ncfg_min_confidence :: f32
  ncfg_labels :: "rstr list"
  ncfg_timeout_ms :: u64

record full_url = parsed_url +
  fu_path :: rstr
  fu_query :: "rstr option"
  fu_fragment :: "rstr option"

definition validate_base_url :: "(rstr \<Rightarrow> rstr + full_url) \<Rightarrow> rstr \<Rightarrow> rstr + unit" where
  "validate_base_url url_parse raw =
     (case url_parse raw of
        Inl e \<Rightarrow> Inl (''not a URL: '' @ e)
      | Inr url \<Rightarrow>
          (if pu_scheme url \<noteq> ''http'' then Inl (''scheme must be http, got '' @ pu_scheme url)
           else if pu_host url \<noteq> Some HOST_GATEWAY_ALIAS then Inl (''host must be '' @ HOST_GATEWAY_ALIAS)
           else if pu_username url \<noteq> [] \<or> pu_password url \<noteq> None then Inl ''userinfo is not allowed''
           else if fu_path url \<notin> {[], ''/''} \<or> fu_query url \<noteq> None \<or> fu_fragment url \<noteq> None
           then Inl ''path, query and fragment are not allowed''
           else if pu_port url = None then Inl ''an explicit port is required''
           else Inr ()))"

type_synonym cache_key = "nat \<times> u64 \<times> u64"

record ner_client =
  nc_endpoint :: rstr
  nc_token :: rstr
  nc_min_confidence :: f32
  nc_labels :: "rstr list"
  nc_timeout :: u64
  nc_hash_a :: "rstr \<Rightarrow> u64"
  nc_hash_b :: "rstr \<Rightarrow> u64"

definition ner_build :: "(u64 \<Rightarrow> rstr option) \<Rightarrow> (rstr \<Rightarrow> u64) \<Rightarrow> (rstr \<Rightarrow> u64) \<Rightarrow> ner_config \<Rightarrow> rstr + ner_client" where
  "ner_build client_error ha hb cfg =
     (let timeout = max (ncfg_timeout_ms cfg) 1 in
      case client_error timeout of
        Some e \<Rightarrow> Inl e
      | None \<Rightarrow>
          Inr \<lparr> nc_endpoint = trim_end_byte (CHR ''/'') (ncfg_url cfg) @ DETECT_PATH, nc_token = ncfg_token cfg,
                nc_min_confidence = ncfg_min_confidence cfg, nc_labels = ncfg_labels cfg, nc_timeout = timeout,
                nc_hash_a = ha, nc_hash_b = hb \<rparr>)"

definition ner_from_config ::
  "(rstr \<Rightarrow> rstr + full_url) \<Rightarrow> (u64 \<Rightarrow> rstr option) \<Rightarrow> (rstr \<Rightarrow> u64) \<Rightarrow> (rstr \<Rightarrow> u64) \<Rightarrow> ner_config
     \<Rightarrow> rstr + ner_client" where
  "ner_from_config url_parse client_error ha hb cfg =
     res_bind (validate_base_url url_parse (ncfg_url cfg)) (\<lambda>_.
       if ncfg_token cfg = [] then Inl ''token must not be empty''
       else ner_build client_error ha hb cfg)"

section \<open>The span cache\<close>

type_synonym span_list = "external_span list"

record generations =
  gen_young :: "(cache_key \<times> span_list) list"
  gen_old :: "(cache_key \<times> span_list) list"

definition no_generations :: generations where
  "no_generations = \<lparr> gen_young = [], gen_old = [] \<rparr>"

definition cache_key :: "ner_client \<Rightarrow> rstr \<Rightarrow> cache_key" where
  "cache_key N s = (length s, nc_hash_a N s, nc_hash_b N s)"

definition cache_get :: "cache_key \<Rightarrow> generations \<Rightarrow> span_list option \<times> generations" where
  "cache_get key g =
     (case map_of (gen_young g) key of
        Some spans \<Rightarrow> (Some spans, g)
      | None \<Rightarrow>
          (case map_of (gen_old g) key of
             None \<Rightarrow> (None, g)
           | Some spans \<Rightarrow> (Some spans, g \<lparr> gen_young := bt_insert key spans (gen_young g) \<rparr>)))"

definition cache_put :: "cache_key \<Rightarrow> span_list \<Rightarrow> generations \<Rightarrow> generations" where
  "cache_put key spans g =
     (let g' = (if length (gen_young g) \<ge> CACHE_GENERATION_ENTRIES
                then g \<lparr> gen_old := gen_young g, gen_young := [] \<rparr> else g)
      in g' \<lparr> gen_young := bt_insert key spans (gen_young g') \<rparr>)"

section \<open>The exchange\<close>

record wire_span =
  ws_start :: nat
  ws_end :: nat
  ws_label :: rstr
  ws_confidence :: f32

text \<open>A transport failure with its chain of causes; an answer with its status and its parsed body.\<close>

record transport_error =
  te_timeout :: bool
  te_chain :: "rstr list"

record detector_answer =
  da_status :: nat
  da_status_text :: rstr
  da_body :: "rstr + wire_span list list"

datatype post_error = Transport transport_error | Rejected rstr

fun error_chain :: "rstr list \<Rightarrow> rstr" where
  "error_chain [] = []"
| "error_chain [x] = x"
| "error_chain (x # xs) = x @ '': '' @ error_chain xs"

record ner_env =
  ne_waiting :: "generations \<Rightarrow> generations"
  ne_posting :: "generations \<Rightarrow> generations"
  ne_send :: "bool \<Rightarrow> ner_client \<Rightarrow> rstr list \<Rightarrow> transport_error + detector_answer"

definition ner_post :: "ner_env \<Rightarrow> bool \<Rightarrow> ner_client \<Rightarrow> rstr list \<Rightarrow> post_error + wire_span list list" where
  "ner_post W retry N texts =
     (case ne_send W retry N texts of
        Inl e \<Rightarrow> Inl (Transport e)
      | Inr a \<Rightarrow>
          (if da_status a \<noteq> 200 then Inl (Rejected (''detector answered '' @ da_status_text a))
           else case da_body a of
               Inl e \<Rightarrow> Inl (Rejected (''malformed detector response: '' @ e))
             | Inr spans \<Rightarrow> Inr spans))"

definition post_once_then_retry :: "ner_env \<Rightarrow> ner_client \<Rightarrow> rstr list \<Rightarrow> rstr + wire_span list list" where
  "post_once_then_retry W N texts =
     (case ner_post W False N texts of
        Inr parsed \<Rightarrow> Inr parsed
      | Inl (Rejected reason) \<Rightarrow> Inl reason
      | Inl (Transport fst_e) \<Rightarrow>
          (if te_timeout fst_e then Inl (''request failed: '' @ error_chain (te_chain fst_e))
           else case ner_post W True N texts of
               Inr parsed \<Rightarrow> Inr parsed
             | Inl (Rejected reason) \<Rightarrow> Inl reason
             | Inl (Transport snd_e) \<Rightarrow>
                 Inl (''request failed twice: '' @ error_chain (te_chain snd_e) @ ''; first: ''
                      @ error_chain (te_chain fst_e))))"

definition filter_spans :: "ner_client \<Rightarrow> wire_span list \<Rightarrow> span_list" where
  "filter_spans N spans =
     map (\<lambda>s. \<lparr> ext_start = ws_start s, ext_end = ws_end s, ext_category = ws_label s \<rparr>)
       (filter (\<lambda>s. nc_labels N = [] \<or> ws_label s \<in> set (nc_labels N))
         (filter (\<lambda>s. ws_confidence s \<ge> nc_min_confidence N) spans))"

section \<open>Batches\<close>

datatype ner_outcome = Spans "span_list list" | Unavailable rstr

fun all_resolved :: "span_list option list \<Rightarrow> span_list list option" where
  "all_resolved [] = Some []"
| "all_resolved (x # xs) =
     (case x of
        None \<Rightarrow> None
      | Some s \<Rightarrow> map_option ((#) s) (all_resolved xs))"

fun lookup_all :: "cache_key option list \<Rightarrow> generations \<Rightarrow> span_list option list \<times> generations" where
  "lookup_all [] g = ([], g)"
| "lookup_all (None # ks) g = (let (r, g') = lookup_all ks g in (Some [] # r, g'))"
| "lookup_all (Some k # ks) g =
     (let (s, g') = cache_get k g; (r, g'') = lookup_all ks g' in (s # r, g''))"

fun lookup_missing ::
  "(span_list option \<times> cache_key option) list \<Rightarrow> generations \<Rightarrow> span_list option list \<times> generations" where
  "lookup_missing [] g = ([], g)"
| "lookup_missing ((None, Some k) # zs) g =
     (let (s, g') = cache_get k g; (r, g'') = lookup_missing zs g' in (s # r, g''))"
| "lookup_missing ((slot, _) # zs) g = (let (r, g') = lookup_missing zs g in (slot # r, g'))"

fun collect_pending ::
  "(span_list option \<times> cache_key option \<times> rstr) list \<Rightarrow> (cache_key \<times> rstr) list \<Rightarrow> (cache_key \<times> rstr) list" where
  "collect_pending [] acc = acc"
| "collect_pending ((slot, key, s) # zs) acc =
     (case (slot, key) of
        (None, Some k) \<Rightarrow>
          (if k \<in> set (map fst acc) then collect_pending zs acc else collect_pending zs (acc @ [(k, s)]))
      | _ \<Rightarrow> collect_pending zs acc)"

fun store_fresh ::
  "ner_client \<Rightarrow> (cache_key \<times> wire_span list) list \<Rightarrow> generations \<Rightarrow> (cache_key \<times> span_list) list
     \<Rightarrow> generations \<times> (cache_key \<times> span_list) list" where
  "store_fresh N [] g fresh = (g, fresh)"
| "store_fresh N ((k, ws) # zs) g fresh =
     store_fresh N zs (cache_put k (filter_spans N ws) g) (bt_insert k (filter_spans N ws) fresh)"

definition fill_slot :: "(cache_key \<times> span_list) list \<Rightarrow> span_list option \<times> cache_key option \<Rightarrow> span_list option" where
  "fill_slot fresh z = (case z of (None, Some k) \<Rightarrow> map_of fresh k | (slot, _) \<Rightarrow> slot)"

definition nat_str :: "nat \<Rightarrow> rstr" where
  "nat_str n = map (\<lambda>d. char_of (48 + d)) (dec_digits n)"

definition resolved_or :: "rstr \<Rightarrow> span_list option list \<Rightarrow> ner_outcome" where
  "resolved_or reason slots =
     (case all_resolved slots of Some spans \<Rightarrow> Spans spans | None \<Rightarrow> Unavailable reason)"

definition detect_batch ::
  "ner_env \<Rightarrow> ner_client \<Rightarrow> rstr list \<Rightarrow> generations \<Rightarrow> ner_outcome \<times> generations" where
  "detect_batch W N texts g0 =
     (if texts = [] then (Spans [], g0)
      else
        let keys = map (\<lambda>s. if s \<noteq> [] then Some (cache_key N s) else None) texts;
            (slots, g1) = lookup_all keys g0
        in case all_resolved slots of
             Some spans \<Rightarrow> (Spans spans, g1)
           | None \<Rightarrow>
               (let (slots, g2) = lookup_missing (zip slots keys) (ne_waiting W g1);
                    pending = collect_pending (zip slots (zip keys texts)) [];
                    total = sum_list (map length (map snd pending))
                in if pending = [] then (resolved_or ''internal: unresolved leaf'' slots, g2)
                   else if total > MAX_REQUEST_BYTES then
                     (Unavailable (''request text of '' @ nat_str total @ '' bytes exceeds the ''
                        @ nat_str MAX_REQUEST_BYTES @ '' byte cap''), g2)
                   else
                     let g3 = ne_posting W g2 in
                     case post_once_then_retry W N (map snd pending) of
                       Inl reason \<Rightarrow> (Unavailable reason, g3)
                     | Inr answer \<Rightarrow>
                         (if length answer \<noteq> length pending then
                            (Unavailable (''detector returned '' @ nat_str (length answer) @ '' span lists for ''
                               @ nat_str (length pending) @ '' texts''), g3)
                          else
                            let (g4, fresh) = store_fresh N (zip (map fst pending) answer) g3 []
                            in (resolved_or ''detector answer did not cover every text''
                                  (map (fill_slot fresh) (zip slots keys)), g4))))"

section \<open>Warnings\<close>

text \<open>The instant of the last warning, in milliseconds; whether this call logs.\<close>

definition warn_unavailable :: "nat \<Rightarrow> nat option \<Rightarrow> bool \<times> nat option" where
  "warn_unavailable now last_warn =
     (let due = (case last_warn of None \<Rightarrow> True | Some t \<Rightarrow> now - t \<ge> WARN_INTERVAL)
      in if due then (True, Some now) else (False, last_warn))"

section \<open>The contract of a memo cache\<close>

text \<open>
  What the batch relies on: a hit is something the cache holds, looking up and storing add nothing
  else, and what was just stored is found.
\<close>

locale memo_cache =
  fixes empty_cache :: 'c
    and get :: "'k \<Rightarrow> 'c \<Rightarrow> 'v option \<times> 'c"
    and put :: "'k \<Rightarrow> 'v \<Rightarrow> 'c \<Rightarrow> 'c"
    and wf :: "'c \<Rightarrow> bool"
    and holds :: "'c \<Rightarrow> ('k \<times> 'v) set"
  assumes wf_empty: "wf empty_cache" and holds_empty: "holds empty_cache = {}"
    and wf_get: "wf c \<Longrightarrow> wf (snd (get k c))"
    and holds_get: "wf c \<Longrightarrow> holds (snd (get k c)) \<subseteq> holds c"
    and get_hit: "wf c \<Longrightarrow> fst (get k c) = Some v \<Longrightarrow> (k, v) \<in> holds c"
    and wf_put: "wf c \<Longrightarrow> wf (put k v c)"
    and holds_put: "wf c \<Longrightarrow> holds (put k v c) \<subseteq> insert (k, v) (holds c)"
    and get_put: "wf c \<Longrightarrow> fst (get k (put k v c)) = Some v"
begin

lemma get_within: "wf c \<Longrightarrow> holds c \<subseteq> R \<Longrightarrow> wf (snd (get k c)) \<and> holds (snd (get k c)) \<subseteq> R"
  using wf_get holds_get by blast

lemma get_right: "wf c \<Longrightarrow> holds c \<subseteq> R \<Longrightarrow> fst (get k c) = Some v \<Longrightarrow> (k, v) \<in> R"
  using get_hit by blast

lemma put_within: "wf c \<Longrightarrow> holds c \<subseteq> R \<Longrightarrow> (k, v) \<in> R \<Longrightarrow> wf (put k v c) \<and> holds (put k v c) \<subseteq> R"
  using wf_put holds_put by blast

end

definition gens_wf :: "generations \<Rightarrow> bool" where
  "gens_wf g \<longleftrightarrow> bt_sorted (gen_young g) \<and> bt_sorted (gen_old g)"

definition gens_holds :: "generations \<Rightarrow> (cache_key \<times> span_list) set" where
  "gens_holds g = set (gen_young g) \<union> set (gen_old g)"

lemma bt_insert_set: "set (bt_insert k v m) \<subseteq> insert (k, v) (set m)"
  by (induction k v m rule: bt_insert.induct) auto

interpretation gens: memo_cache no_generations cache_get cache_put gens_wf gens_holds
proof
  fix g k v
  show "gens_wf no_generations" "gens_holds no_generations = {}"
    by (simp_all add: gens_wf_def gens_holds_def no_generations_def bt_sorted_def)
  show "gens_wf g \<Longrightarrow> gens_wf (snd (cache_get k g))"
    by (auto simp: gens_wf_def cache_get_def bt_insert_sorted split: option.splits)
  show "gens_wf g \<Longrightarrow> gens_holds (snd (cache_get k g)) \<subseteq> gens_holds g"
  proof (cases "map_of (gen_young g) k")
    case None
    show ?thesis
    proof (cases "map_of (gen_old g) k")
      case (Some v)
      with None bt_insert_set [of k v "gen_young g"] map_of_SomeD [OF Some] show ?thesis
        by (auto simp: cache_get_def gens_holds_def)
    qed (use None in \<open>simp add: cache_get_def\<close>)
  qed (simp add: cache_get_def)
  show "fst (cache_get k g) = Some v \<Longrightarrow> (k, v) \<in> gens_holds g"
    by (auto simp: cache_get_def gens_holds_def split: option.splits dest: map_of_SomeD)
  show "gens_wf g \<Longrightarrow> gens_wf (cache_put k v g)"
    by (auto simp: gens_wf_def cache_put_def Let_def bt_insert_sorted bt_sorted_def [of "[]"])
  show "gens_wf g \<Longrightarrow> gens_holds (cache_put k v g) \<subseteq> insert (k, v) (gens_holds g)"
    using bt_insert_set [of k v "gen_young g"] by (auto simp: cache_put_def Let_def gens_holds_def)
  show "gens_wf g \<Longrightarrow> fst (cache_get k (cache_put k v g)) = Some v"
    by (auto simp: gens_wf_def cache_put_def cache_get_def Let_def bt_insert_lookup bt_sorted_def [of "[]"])
qed

section \<open>A batch finds the answers\<close>

text \<open>The answer for a text, by the detector \<open>d\<close>, and the caches that hold only answers for texts of \<open>T\<close>.\<close>

definition ner_answer :: "ner_client \<Rightarrow> (rstr \<Rightarrow> wire_span list) \<Rightarrow> rstr \<Rightarrow> span_list" where
  "ner_answer N d s = (if s = [] then [] else filter_spans N (d s))"

definition answers :: "ner_client \<Rightarrow> (rstr \<Rightarrow> wire_span list) \<Rightarrow> rstr set \<Rightarrow> (cache_key \<times> span_list) set" where
  "answers N d T = (\<lambda>s. (cache_key N s, filter_spans N (d s))) ` T"

definition cache_right :: "ner_client \<Rightarrow> (rstr \<Rightarrow> wire_span list) \<Rightarrow> rstr set \<Rightarrow> generations \<Rightarrow> bool" where
  "cache_right N d T g \<longleftrightarrow> gens_wf g \<and> gens_holds g \<subseteq> answers N d T"

lemma answers_unique:
  "inj_on (cache_key N) T \<Longrightarrow> s \<in> T \<Longrightarrow> (cache_key N s, v) \<in> answers N d T \<Longrightarrow> v = filter_spans N (d s)"
  by (auto simp: answers_def dest: inj_onD)

lemma cache_right_get:
  assumes "cache_right N d T g" and "cache_get k g = (x, g')"
  shows "cache_right N d T g'" and "x = Some v \<Longrightarrow> (k, v) \<in> answers N d T"
  using gens.get_within [of g "answers N d T" k] gens.get_right [of g "answers N d T" k v] assms
  by (auto simp: cache_right_def)

definition slot_ok :: "ner_client \<Rightarrow> (rstr \<Rightarrow> wire_span list) \<Rightarrow> span_list option \<Rightarrow> rstr \<Rightarrow> bool" where
  "slot_ok N d slot s \<longleftrightarrow> (case slot of None \<Rightarrow> s \<noteq> [] | Some v \<Rightarrow> v = ner_answer N d s)"

abbreviation key_of :: "ner_client \<Rightarrow> rstr \<Rightarrow> cache_key option" where
  "key_of N s \<equiv> (if s \<noteq> [] then Some (cache_key N s) else None)"

lemma lookup_all_ok:
  assumes "inj_on (cache_key N) T" and "cache_right N d T g" and "set texts \<subseteq> T"
    and "lookup_all (map (key_of N) texts) g = (slots, g')"
  shows "cache_right N d T g' \<and> list_all2 (slot_ok N d) slots texts"
  using assms(2-)
proof (induction texts arbitrary: g slots)
  case (Cons s texts)
  show ?case
  proof (cases "s = []")
    case True
    with Cons.prems(3) obtain r where r: "lookup_all (map (key_of N) texts) g = (r, g')" "slots = Some [] # r"
      by (auto split: prod.splits)
    with Cons.IH [OF Cons.prems(1) _ r(1)] Cons.prems(2) True show ?thesis
      by (simp add: slot_ok_def ner_answer_def)
  next
    case False
    with Cons.prems(3) obtain x g1 r where x: "cache_get (cache_key N s) g = (x, g1)"
      and r: "lookup_all (map (key_of N) texts) g1 = (r, g')" "slots = x # r"
      by (auto split: prod.splits)
    note G = cache_right_get [OF Cons.prems(1) x]
    have "slot_ok N d x s"
      using G(2) answers_unique [OF assms(1)] Cons.prems(2) False
      by (auto simp: slot_ok_def ner_answer_def split: option.splits)
    with Cons.IH [OF G(1) _ r(1)] Cons.prems(2) r(2) show ?thesis by simp
  qed
qed simp

lemma lookup_missing_ok:
  assumes "inj_on (cache_key N) T" and "cache_right N d T g" and "set texts \<subseteq> T"
    and "list_all2 (slot_ok N d) slots texts"
    and "lookup_missing (zip slots (map (key_of N) texts)) g = (slots', g')"
  shows "cache_right N d T g' \<and> list_all2 (slot_ok N d) slots' texts"
  using assms(4,2,3,5)
proof (induction slots texts arbitrary: g slots' rule: list_all2_induct)
  case (Cons slot slots s texts)
  show ?case
  proof (cases slot)
    case None
    with Cons.hyps(1) have ne: "s \<noteq> []" by (simp add: slot_ok_def)
    with Cons.prems(3) None obtain x g1 r where x: "cache_get (cache_key N s) g = (x, g1)"
      and r: "lookup_missing (zip slots (map (key_of N) texts)) g1 = (r, g')" "slots' = x # r"
      by (auto split: prod.splits)
    note G = cache_right_get [OF Cons.prems(1) x]
    have "slot_ok N d x s"
      using G(2) answers_unique [OF assms(1)] Cons.prems(2) ne
      by (auto simp: slot_ok_def ner_answer_def split: option.splits)
    with Cons.IH [OF G(1) _ r(1)] Cons.prems(2) r(2) show ?thesis by simp
  next
    case (Some v)
    with Cons.prems(3) obtain r where r: "lookup_missing (zip slots (map (key_of N) texts)) g = (r, g')" "slots' = slot # r"
      by (auto split: prod.splits)
    with Cons.IH [OF Cons.prems(1) _ r(1)] Cons.prems(2) Cons.hyps(1) show ?thesis by simp
  qed
qed simp

lemma all_resolved_Some: "all_resolved slots = Some spans \<longleftrightarrow> slots = map Some spans"
  by (induction slots arbitrary: spans) (auto split: option.splits)

lemma slots_answers:
  "list_all2 (slot_ok N d) (map Some spans) texts \<Longrightarrow> spans = map (ner_answer N d) texts"
  by (induction texts arbitrary: spans) (auto simp: slot_ok_def list_all2_Cons2)

text \<open>The texts that go out: one per missing key, with that key, and no more than there are texts.\<close>

lemma collect_pending_step:
  "collect_pending ((slot, key, s) # zs) acc = collect_pending zs
     (if slot = None \<and> key \<noteq> None \<and> the key \<notin> fst ` set acc then acc @ [(the key, s)] else acc)"
  by (cases slot; cases key) auto

lemma collect_pending_grows:
  "fst ` set acc \<union> {k. \<exists>s. (None, Some k, s) \<in> set zs} \<subseteq> fst ` set (collect_pending zs acc)
   \<and> set (collect_pending zs acc) \<subseteq> set acc \<union> {(k, s). (None, Some k, s) \<in> set zs}
   \<and> (distinct (map fst acc) \<longrightarrow> distinct (map fst (collect_pending zs acc)))
   \<and> sum_list (map (length \<circ> snd) (collect_pending zs acc))
     \<le> sum_list (map (length \<circ> snd) acc) + sum_list (map (\<lambda>(_, _, s). length s) zs)"
proof (induction zs arbitrary: acc)
  case (Cons z zs)
  obtain slot key s where z: "z = (slot, key, s)" by (cases z)
  let ?new = "slot = None \<and> key \<noteq> None \<and> the key \<notin> fst ` set acc"
  define acc' where "acc' = (if ?new then acc @ [(the key, s)] else acc)"
  have step: "collect_pending (z # zs) acc = collect_pending zs acc'"
    unfolding z collect_pending_step acc'_def by (rule refl)
  have hit: "slot = None \<Longrightarrow> key = Some k \<Longrightarrow> k \<in> fst ` set acc'" for k
    by (auto simp: acc'_def)
  have mono: "fst ` set acc \<subseteq> fst ` set acc'" by (auto simp: acc'_def)
  have sub: "set acc' \<subseteq> set acc \<union> {(k, t). (None, Some k, t) = z}" by (auto simp: acc'_def z)
  have dist: "distinct (map fst acc) \<Longrightarrow> distinct (map fst acc')" by (auto simp: acc'_def)
  have size: "sum_list (map (length \<circ> snd) acc') \<le> sum_list (map (length \<circ> snd) acc) + length s"
    by (simp add: acc'_def)
  note IH = Cons.IH [of acc', folded step]
  show ?case
  proof (intro conjI impI)
    show "fst ` set acc \<union> {k. \<exists>t. (None, Some k, t) \<in> set (z # zs)} \<subseteq> fst ` set (collect_pending (z # zs) acc)"
    proof (rule subset_trans [OF _ conjunct1 [OF IH]], rule Un_least)
      show "{k. \<exists>t. (None, Some k, t) \<in> set (z # zs)} \<subseteq> fst ` set acc' \<union> {k. \<exists>t. (None, Some k, t) \<in> set zs}"
        using hit by (auto simp: z)
    qed (use mono in blast)
    show "set (collect_pending (z # zs) acc) \<subseteq> set acc \<union> {(k, t). (None, Some k, t) \<in> set (z # zs)}"
      by (rule subset_trans [OF conjunct1 [OF conjunct2 [OF IH]]]) (use sub in auto)
    show "distinct (map fst acc) \<Longrightarrow> distinct (map fst (collect_pending (z # zs) acc))"
      using conjunct1 [OF conjunct2 [OF conjunct2 [OF IH]]] dist by (rule mp)
    show "sum_list (map (length \<circ> snd) (collect_pending (z # zs) acc))
      \<le> sum_list (map (length \<circ> snd) acc) + sum_list (map (\<lambda>(_, _, s). length s) (z # zs))"
      using conjunct2 [OF conjunct2 [OF conjunct2 [OF IH]]] size
      by (simp add: z o_def del: collect_pending.simps)
  qed
qed simp

text \<open>What goes out for a batch: the right key with every text, only texts of the batch, every missing key.\<close>

lemma collect_pending_spec:
  assumes "length slots = length texts"
    and "collect_pending (zip slots (zip (map (key_of N) texts) texts)) [] = pending"
  shows "\<forall>(k, s) \<in> set pending. k = cache_key N s \<and> s \<in> set texts" and "distinct (map fst pending)"
    and "{cache_key N s |s. s \<noteq> [] \<and> (None, s) \<in> set (zip slots texts)} \<subseteq> fst ` set pending"
    and "sum_list (map length (map snd pending)) \<le> sum_list (map length texts)"
proof -
  let ?zs = "zip slots (zip (map (key_of N) texts) texts)"
  have zs: "(slot, key, s) \<in> set ?zs \<longleftrightarrow> (slot, s) \<in> set (zip slots texts) \<and> key = key_of N s" for slot key s
    using assms(1) by (auto simp: in_set_zip)
  show "\<forall>(k, s) \<in> set pending. k = cache_key N s \<and> s \<in> set texts"
    using collect_pending_grows [of "[]" ?zs] assms(2) by (fastforce simp: zs split: if_splits dest: set_zip_rightD)
  show "distinct (map fst pending)" using collect_pending_grows [of "[]" ?zs] assms(2) by simp
  show "{cache_key N s |s. s \<noteq> [] \<and> (None, s) \<in> set (zip slots texts)} \<subseteq> fst ` set pending"
  proof
    fix k assume "k \<in> {cache_key N s |s. s \<noteq> [] \<and> (None, s) \<in> set (zip slots texts)}"
    then obtain s where "k = cache_key N s" "s \<noteq> []" "(None, s) \<in> set (zip slots texts)" by blast
    then have "(None, Some k, s) \<in> set ?zs" by (simp add: zs)
    with collect_pending_grows [of "[]" ?zs] assms(2) show "k \<in> fst ` set pending" by blast
  qed
  have "map (\<lambda>(_, _, s). length s) ?zs = map length texts"
    using assms(1) by (intro nth_equalityI) simp_all
  then show "sum_list (map length (map snd pending)) \<le> sum_list (map length texts)"
    using collect_pending_grows [of "[]" ?zs] assms(2) by simp
qed

lemma store_fresh_ok:
  assumes "cache_right N d T g" and "bt_sorted fresh" and "\<forall>(k, s) \<in> set pending. k = cache_key N s \<and> s \<in> T"
    and "store_fresh N (zip (map fst pending) (map (d \<circ> snd) pending)) g fresh = (g', fresh')"
    and "distinct (map fst pending)"
  shows "cache_right N d T g' \<and> bt_sorted fresh'
    \<and> map_of fresh' k = (case map_of pending k of Some s \<Rightarrow> Some (filter_spans N (d s)) | None \<Rightarrow> map_of fresh k)"
  using assms
proof (induction pending arbitrary: g fresh)
  case (Cons p pending)
  obtain j s where p: "p = (j, s)" by (cases p)
  from Cons.prems(3) p have j: "j = cache_key N s" "s \<in> T" by auto
  then have "(j, filter_spans N (d s)) \<in> answers N d T" by (auto simp: answers_def)
  with Cons.prems(1) have right: "cache_right N d T (cache_put j (filter_spans N (d s)) g)"
    using gens.put_within [of g "answers N d T" j] by (simp add: cache_right_def)
  have "store_fresh N (zip (map fst pending) (map (d \<circ> snd) pending)) (cache_put j (filter_spans N (d s)) g)
      (bt_insert j (filter_spans N (d s)) fresh) = (g', fresh')"
    using Cons.prems(4) p by (simp add: o_def)
  from Cons.IH [OF right bt_insert_sorted [OF Cons.prems(2)] _ this] Cons.prems(2,3,5) p
  have IH: "cache_right N d T g' \<and> bt_sorted fresh' \<and> map_of fresh' k =
      (case map_of pending k of Some s \<Rightarrow> Some (filter_spans N (d s))
       | None \<Rightarrow> ((map_of fresh)(j \<mapsto> filter_spans N (d s))) k)"
    by (auto simp: bt_insert_lookup split: option.splits)
  moreover have "map_of pending j = None" using Cons.prems(5) p by (simp add: map_of_eq_None_iff)
  ultimately show ?case using p by (auto split: option.splits)
qed simp

lemma slots_filled:
  assumes "list_all2 (slot_ok N d) slots texts" and "inj_on (cache_key N) T" and "set texts \<subseteq> T"
    and fresh: "\<And>s. s \<in> T \<Longrightarrow> cache_key N s \<in> K \<Longrightarrow> map_of fresh (cache_key N s) = Some (filter_spans N (d s))"
    and K: "{cache_key N s |s. s \<noteq> [] \<and> (None, s) \<in> set (zip slots texts)} \<subseteq> K"
  shows "map (fill_slot fresh) (zip slots (map (key_of N) texts)) = map (\<lambda>s. Some (ner_answer N d s)) texts"
  using assms(1,3) K
proof (induction slots texts rule: list_all2_induct)
  case (Cons slot slots s texts)
  have "fill_slot fresh (slot, key_of N s) = Some (ner_answer N d s)"
  proof (cases slot)
    case None
    with Cons.hyps(1) have "s \<noteq> []" by (simp add: slot_ok_def)
    moreover from this have "cache_key N s \<in> K" using Cons.prems(2) None by auto
    ultimately show ?thesis using None fresh Cons.prems(1) by (simp add: fill_slot_def ner_answer_def)
  next
    case (Some v)
    with Cons.hyps(1) show ?thesis by (simp add: fill_slot_def slot_ok_def)
  qed
  moreover have "map (fill_slot fresh) (zip slots (map (key_of N) texts)) = map (\<lambda>s. Some (ner_answer N d s)) texts"
    by (rule Cons.IH) (use Cons.prems in auto)
  ultimately show ?case by simp
qed simp

section \<open>Lengths\<close>

lemma lookup_all_length: "lookup_all keys g = (slots, g') \<Longrightarrow> length slots = length keys"
  by (induction keys g arbitrary: slots rule: lookup_all.induct) (auto split: prod.splits)

lemma lookup_missing_length: "lookup_missing zs g = (slots, g') \<Longrightarrow> length slots = length zs"
  by (induction zs g arbitrary: slots rule: lookup_missing.induct) (auto split: prod.splits)

lemma resolved_or_Spans: "resolved_or reason slots = Spans ss \<Longrightarrow> length ss = length slots"
  by (auto simp: resolved_or_def all_resolved_Some split: option.splits)

lemma detect_batch_length:
  assumes "fst (detect_batch W N texts g) = Spans ss"
  shows "length ss = length texts"
proof (cases "texts = []")
  case True
  with assms show ?thesis by (simp add: detect_batch_def)
next
  case False
  let ?keys = "map (\<lambda>s. if s \<noteq> [] then Some (cache_key N s) else None) texts"
  obtain slots g1 where l1: "lookup_all ?keys g = (slots, g1)" by (cases "lookup_all ?keys g")
  obtain slots' g2 where l2: "lookup_missing (zip slots ?keys) (ne_waiting W g1) = (slots', g2)"
    by (cases "lookup_missing (zip slots ?keys) (ne_waiting W g1)")
  have len: "length slots = length texts" "length slots' = length texts"
    using lookup_all_length [OF l1] lookup_missing_length [OF l2] by simp_all
  show ?thesis
    using assms False len
    unfolding detect_batch_def Let_def l1 l2 prod.case
    by (auto simp: all_resolved_Some dest!: resolved_or_Spans split: option.splits if_splits sum.splits prod.splits)
qed

section \<open>Warnings and the size of the cache\<close>

fun warn_times :: "nat list \<Rightarrow> nat option \<Rightarrow> nat list" where
  "warn_times [] last_warn = []"
| "warn_times (t # ts) last_warn =
     (let (logs, last') = warn_unavailable t last_warn in (if logs then [t] else []) @ warn_times ts last')"

lemma warn_times_spaced:
  assumes "sorted (case l of None \<Rightarrow> ts | Some t \<Rightarrow> t # ts)"
  shows "successively (\<lambda>a b. a + WARN_INTERVAL \<le> b) ((case l of None \<Rightarrow> [] | Some t \<Rightarrow> [t]) @ warn_times ts l)"
  using assms
proof (induction ts arbitrary: l)
  case (Cons t ts)
  show ?case
  proof (cases l)
    case None
    with Cons.IH [of "Some t"] Cons.prems show ?thesis by (simp add: warn_unavailable_def)
  next
    case (Some t0)
    show ?thesis
    proof (cases "WARN_INTERVAL \<le> t - t0")
      case True
      with Some Cons.IH [of "Some t"] Cons.prems show ?thesis
        by (auto simp: warn_unavailable_def Let_def successively_Cons)
    next
      case False
      with Some Cons.IH [of "Some t0"] Cons.prems show ?thesis
        by (auto simp: warn_unavailable_def Let_def)
    qed
  qed
qed (simp split: option.split)

datatype cache_op = Get cache_key | Put cache_key span_list

definition cache_step :: "generations \<Rightarrow> cache_op \<Rightarrow> generations" where
  "cache_step g opr = (case opr of Get k \<Rightarrow> snd (cache_get k g) | Put k v \<Rightarrow> cache_put k v g)"

lemma bt_insert_length: "bt_sorted m \<Longrightarrow> map_of m k = None \<Longrightarrow> length (bt_insert k v m) = Suc (length m)"
proof (induction k v m rule: bt_insert.induct)
  case (2 k v j w m)
  then show ?case by (auto simp: bt_sorted_def split: if_splits)
qed simp

text \<open>Looking up everything the old generation holds doubles the young one.\<close>

lemma promote_all:
  assumes "gens_wf g" and "distinct ks" and "\<forall>k \<in> set ks. map_of (gen_young g) k = None \<and> map_of (gen_old g) k \<noteq> None"
  shows "gens_wf (run_steps cache_step g (map Get ks))
    \<and> length (gen_young (run_steps cache_step g (map Get ks))) = length (gen_young g) + length ks"
  using assms
proof (induction ks arbitrary: g)
  case (Cons k ks)
  from Cons.prems(3) obtain v where y: "map_of (gen_young g) k = None" and o: "map_of (gen_old g) k = Some v" by auto
  let ?g = "cache_step g (Get k)"
  have g: "?g = g \<lparr> gen_young := bt_insert k v (gen_young g) \<rparr>" using y o by (simp add: cache_step_def cache_get_def)
  have wf: "gens_wf ?g" using gens.wf_get [OF Cons.prems(1), of k] by (simp add: cache_step_def)
  have srt: "bt_sorted (gen_young g)" using Cons.prems(1) by (simp add: gens_wf_def)
  have "\<forall>j \<in> set ks. map_of (gen_young ?g) j = None \<and> map_of (gen_old ?g) j \<noteq> None"
    using Cons.prems(2,3) by (auto simp: g bt_insert_lookup [OF srt])
  with Cons.IH [OF wf] Cons.prems(2) bt_insert_length [OF srt y] show ?case by (simp add: g)
qed simp

text \<open>Storing fresh keys into a generation with room.\<close>

lemma put_all:
  assumes "gens_wf g" and "distinct ks" and "\<forall>k \<in> set ks. map_of (gen_young g) k = None"
    and "length (gen_young g) + length ks \<le> CACHE_GENERATION_ENTRIES"
  shows "gens_wf (run_steps cache_step g (map (\<lambda>k. Put k []) ks))
    \<and> gen_old (run_steps cache_step g (map (\<lambda>k. Put k []) ks)) = gen_old g
    \<and> length (gen_young (run_steps cache_step g (map (\<lambda>k. Put k []) ks))) = length (gen_young g) + length ks
    \<and> fst ` set (gen_young (run_steps cache_step g (map (\<lambda>k. Put k []) ks))) = fst ` set (gen_young g) \<union> set ks"
  using assms
proof (induction ks arbitrary: g)
  case (Cons k ks)
  let ?g = "cache_step g (Put k [])"
  have g: "?g = g \<lparr> gen_young := bt_insert k [] (gen_young g) \<rparr>"
    using Cons.prems(4) by (simp add: cache_step_def cache_put_def)
  have wf: "gens_wf ?g" using gens.wf_put [OF Cons.prems(1), of k "[]"] by (simp add: cache_step_def)
  have srt: "bt_sorted (gen_young g)" using Cons.prems(1) by (simp add: gens_wf_def)
  have y: "map_of (gen_young g) k = None" using Cons.prems(3) by simp
  have "\<forall>j \<in> set ks. map_of (gen_young ?g) j = None"
    using Cons.prems(2,3) by (auto simp: g bt_insert_lookup [OF srt])
  moreover have "length (gen_young ?g) + length ks \<le> CACHE_GENERATION_ENTRIES"
    using Cons.prems(4) bt_insert_length [OF srt y] by (simp add: g)
  ultimately show ?case
    using Cons.IH [OF wf] Cons.prems(2) bt_insert_length [OF srt y] by (simp add: g bt_insert_keys)
qed simp

lemma fresh_keys:
  assumes "finite A"
  shows "\<exists>ks :: cache_key list. length ks = n \<and> distinct ks \<and> set ks \<inter> A = {}"
proof -
  have "inj (\<lambda>n. (n, 0, 0) :: cache_key)" by (rule injI) blast
  then have "infinite (UNIV :: cache_key set)"
    using finite_imageD [of "\<lambda>n. (n, 0, 0) :: cache_key" UNIV] infinite_UNIV_nat
      finite_subset [OF subset_UNIV, of "range (\<lambda>n. (n, 0, 0) :: cache_key)"] by blast
  then have "infinite (UNIV - A)" using assms by (metis Diff_infinite_finite)
  then obtain B where B: "B \<subseteq> UNIV - A" "finite B" "card B = n" using infinite_arbitrarily_large by metis
  then obtain ks where ks: "set ks = B" "distinct ks" using finite_distinct_list by metis
  have "length ks = n" using ks B distinct_card by metis
  moreover have "set ks \<inter> A = {}" using ks B(1) by blast
  ultimately show ?thesis using ks(2) by blast
qed

lemma next_generation:
  assumes wf: "gens_wf g" and full: "CACHE_GENERATION_ENTRIES \<le> length (gen_young g)"
  shows "\<exists>ops. gens_wf (run_steps cache_step g ops)
    \<and> length (gen_young (run_steps cache_step g ops)) = CACHE_GENERATION_ENTRIES + length (gen_young g)"
proof -
  obtain ks where len: "length ks = CACHE_GENERATION_ENTRIES" and d: "distinct ks"
    and new: "set ks \<inter> fst ` set (gen_young g) = {}"
    using fresh_keys [of "fst ` set (gen_young g)" CACHE_GENERATION_ENTRIES] by blast
  obtain k0 ks' where ks: "ks = k0 # ks'" using len by (cases ks) (simp_all add: CACHE_GENERATION_ENTRIES_def)
  let ?g1 = "cache_step g (Put k0 [])"
  have g1: "?g1 = \<lparr> gen_young = [(k0, [])], gen_old = gen_young g \<rparr>"
    using full by (simp add: cache_step_def cache_put_def)
  have wf1: "gens_wf ?g1" using gens.wf_put [OF wf, of k0 "[]"] by (simp add: cache_step_def)
  let ?g2 = "run_steps cache_step ?g1 (map (\<lambda>k. Put k []) ks')"
  have free: "\<forall>k \<in> set ks'. map_of (gen_young ?g1) k = None" using d ks by (auto simp: g1)
  have room: "length (gen_young ?g1) + length ks' \<le> CACHE_GENERATION_ENTRIES" using len ks by (simp add: g1)
  have dks: "distinct ks'" using d ks by simp
  note g2 = put_all [OF wf1 dks free room]
  have old: "gen_old ?g2 = gen_young g" using g2 by (simp add: g1)
  have size: "length (gen_young ?g2) = CACHE_GENERATION_ENTRIES" using g2 len ks by (simp add: g1)
  have keys: "fst ` set (gen_young ?g2) = set ks" using g2 ks by (simp add: g1)
  let ?ys = "map fst (gen_young g)"
  have "distinct ?ys" using wf by (simp add: gens_wf_def bt_sorted_distinct)
  moreover have "\<forall>k \<in> set ?ys. map_of (gen_young ?g2) k = None \<and> map_of (gen_old ?g2) k \<noteq> None"
    using new keys by (auto simp: old map_of_eq_None_iff)
  ultimately have "gens_wf (run_steps cache_step ?g2 (map Get ?ys))
      \<and> length (gen_young (run_steps cache_step ?g2 (map Get ?ys))) = length (gen_young ?g2) + length ?ys"
    using promote_all [of ?g2 ?ys] g2 by blast
  moreover have "run_steps cache_step ?g2 (map Get ?ys)
      = run_steps cache_step g (Put k0 [] # map (\<lambda>k. Put k []) ks' @ map Get ?ys)"
    by (simp add: run_steps_append)
  ultimately show ?thesis using size by (metis length_map)
qed

lemma fill_slot_Nil: "fill_slot [] = fst"
  by (rule ext) (auto simp: fill_slot_def split: option.splits)

text \<open>Storing the detector's answers fills every slot that was still empty.\<close>

lemma batch_filled:
  assumes "inj_on (cache_key N) T" and "set texts \<subseteq> T" and "list_all2 (slot_ok N d) slots texts"
    and ps: "\<forall>(k, s) \<in> set pending. k = cache_key N s \<and> s \<in> T" and "distinct (map fst pending)"
    and missing: "{cache_key N s |s. s \<noteq> [] \<and> (None, s) \<in> set (zip slots texts)} \<subseteq> fst ` set pending"
    and "cache_right N d T g"
    and "store_fresh N (zip (map fst pending) (map (d \<circ> snd) pending)) g [] = (g', fresh)"
  shows "cache_right N d T g'"
    and "all_resolved (map (fill_slot fresh) (zip slots (map (key_of N) texts))) = Some (map (ner_answer N d) texts)"
proof -
  have "bt_sorted ([] :: (cache_key \<times> span_list) list)" by (simp add: bt_sorted_def)
  note S = store_fresh_ok [OF assms(7) this ps assms(8,5)]
  show "cache_right N d T g'" using S by blast
  have "map (fill_slot fresh) (zip slots (map (key_of N) texts)) = map (\<lambda>s. Some (ner_answer N d s)) texts"
  proof (rule slots_filled [OF assms(3,1,2) _ missing])
    fix s assume s: "s \<in> T" "cache_key N s \<in> fst ` set pending"
    then obtain t where t: "map_of pending (cache_key N s) = Some t"
      by (metis domIff dom_map_of_conv_image_fst option.exhaust)
    with ps map_of_SomeD [OF t] have "t = s" using assms(1) s(1) by (auto dest: inj_onD)
    with S [of "cache_key N s"] t show "map_of fresh (cache_key N s) = Some (filter_spans N (d s))" by simp
  qed
  then show "all_resolved (map (fill_slot fresh) (zip slots (map (key_of N) texts))) = Some (map (ner_answer N d) texts)"
    by (simp only: all_resolved_Some map_map o_def)
qed

section \<open>Properties\<close>

text \<open>C27. A batch gets, for every text, what the detector reports for it, filtered by confidence and label,
  whatever mixture of cached, repeated and blank texts it holds: provided that no two texts in play
  collide under the hashes, the detector answers the first post of every list with status 200, the batch is
  within four mebibytes, and the cache holds only right answers, at the start and after whatever other requests do
  to it while this one waits for its turn and for the detector. The cache stays right.\<close>

theorem detect_batch_right:
  assumes "inj_on (cache_key N) T" and "set texts \<subseteq> T" and "cache_right N d T g"
    and "\<And>c. cache_right N d T c \<Longrightarrow> cache_right N d T (ne_waiting W c) \<and> cache_right N d T (ne_posting W c)"
    and "\<And>ts. set ts \<subseteq> T \<Longrightarrow> ne_send W False N ts = Inr \<lparr> da_status = 200, da_status_text = ok, da_body = Inr (map d ts) \<rparr>"
    and "sum_list (map length texts) \<le> MAX_REQUEST_BYTES"
  shows "fst (detect_batch W N texts g) = Spans (map (ner_answer N d) texts)
    \<and> cache_right N d T (snd (detect_batch W N texts g))"
proof (cases "texts = []")
  case True
  with assms(3) show ?thesis by (simp add: detect_batch_def)
next
  case False
  let ?keys = "map (key_of N) texts"
  obtain slots g1 where l1: "lookup_all ?keys g = (slots, g1)" by (cases "lookup_all ?keys g")
  note L1 = lookup_all_ok [OF assms(1,3,2) l1]
  show ?thesis
  proof (cases "all_resolved slots")
    case (Some spans)
    have "spans = map (ner_answer N d) texts"
      using L1 Some by (simp add: all_resolved_Some slots_answers)
    with L1 Some False show ?thesis
      unfolding detect_batch_def Let_def l1 prod.case by simp
  next
    case None
    obtain slots' g2 where l2: "lookup_missing (zip slots ?keys) (ne_waiting W g1) = (slots', g2)"
      by (cases "lookup_missing (zip slots ?keys) (ne_waiting W g1)")
    note L2 = lookup_missing_ok [OF assms(1) conjunct1 [OF assms(4) [OF conjunct1 [OF L1]]] assms(2) conjunct2 [OF L1] l2]
    define pending where "pending = collect_pending (zip slots' (zip ?keys texts)) []"
    have len: "length slots' = length texts" using L2 by (auto dest: list_all2_lengthD)
    note P = collect_pending_spec [OF len pending_def [symmetric]]
    have ps: "\<forall>(k, s) \<in> set pending. k = cache_key N s \<and> s \<in> T" using P(1) assms(2) by auto
    have total: "\<not> sum_list (map length (map snd pending)) > MAX_REQUEST_BYTES" using P(4) assms(6) by simp
    have "ne_send W False N (map snd pending) = Inr \<lparr> da_status = 200, da_status_text = ok, da_body = Inr (map d (map snd pending)) \<rparr>"
      by (rule assms(5)) (use ps in auto)
    then have post: "post_once_then_retry W N (map snd pending) = Inr (map (d \<circ> snd) pending)"
      by (simp add: post_once_then_retry_def ner_post_def)
    obtain g4 fresh where st: "store_fresh N (zip (map fst pending) (map (d \<circ> snd) pending)) (ne_posting W g2) [] = (g4, fresh)"
      by (cases "store_fresh N (zip (map fst pending) (map (d \<circ> snd) pending)) (ne_posting W g2) []")
    note F = batch_filled [OF assms(1,2) conjunct2 [OF L2] ps P(2,3) conjunct2 [OF assms(4) [OF conjunct1 [OF L2]]] st]
    show ?thesis
    proof (cases "pending = []")
      case True
      then have "map (fill_slot fresh) (zip slots' ?keys) = slots'" using st len by (simp add: fill_slot_Nil)
      with F True None False L2 show ?thesis
        unfolding detect_batch_def Let_def l1 l2 prod.case pending_def [symmetric] by (simp add: resolved_or_def)
    next
      case nonempty: False
      with F None False total post st show ?thesis
        unfolding detect_batch_def Let_def l1 l2 prod.case pending_def [symmetric] by (simp add: resolved_or_def)
    qed
  qed
qed

text \<open>An answered batch has one span list per text, whatever the detector, the cache and the other
  requests do, so the request scan never meets a count mismatch.\<close>

theorem detect_batch_one_list_per_text:
  assumes "fst (detect_batch W N texts g) = Spans spans"
  shows "length spans = length texts"
  by (rule detect_batch_length [OF assms])

text \<open>A dead detector does not flood the log: however often it is found unavailable, two logged warnings
  are at least a minute apart.\<close>

theorem warnings_spaced:
  assumes "sorted ts"
  shows "successively (\<lambda>a b. a + WARN_INTERVAL \<le> b) (warn_times ts None)"
  using warn_times_spaced [where l = None and ts = ts] assms by simp

text \<open>The two generations do not bound the cache as documented: looking up what the old generation holds
  copies it into the young one without a size check, so for every size there is a run of
  stores and lookups after which the cache holds at least that many entries.\<close>

theorem cache_unbounded:
  "\<exists>ops. n \<le> length (gen_young (run_steps cache_step no_generations ops))"
proof -
  have "\<exists>ops. gens_wf (run_steps cache_step no_generations ops)
      \<and> (m + 1) * CACHE_GENERATION_ENTRIES \<le> length (gen_young (run_steps cache_step no_generations ops))" for m
  proof (induction m)
    case 0
    obtain ks :: "cache_key list" where ks: "length ks = CACHE_GENERATION_ENTRIES" "distinct ks"
      using fresh_keys [of "{}"] by blast
    have "gens_wf no_generations" by (rule gens.wf_empty)
    from put_all [OF this ks(2)] ks(1) show ?case
      by (intro exI [of _ "map (\<lambda>k. Put k []) ks"]) (simp add: no_generations_def)
  next
    case (Suc m)
    then obtain ops where ops: "gens_wf (run_steps cache_step no_generations ops)"
      "(m + 1) * CACHE_GENERATION_ENTRIES \<le> length (gen_young (run_steps cache_step no_generations ops))"
      by blast
    from next_generation [OF ops(1)] ops(2) obtain more where
      "gens_wf (run_steps cache_step (run_steps cache_step no_generations ops) more)"
      "length (gen_young (run_steps cache_step (run_steps cache_step no_generations ops) more))
        = CACHE_GENERATION_ENTRIES + length (gen_young (run_steps cache_step no_generations ops))"
      by auto
    with ops(2) show ?case
      by (intro exI [of _ "ops @ more"]) (simp add: run_steps_append)
  qed
  from this [of n] obtain ops where
    "(n + 1) * CACHE_GENERATION_ENTRIES \<le> length (gen_young (run_steps cache_step no_generations ops))" by blast
  moreover have "n \<le> (n + 1) * CACHE_GENERATION_ENTRIES" by (simp add: CACHE_GENERATION_ENTRIES_def)
  ultimately show ?thesis using order_trans by blast
qed

section \<open>A concrete batch\<close>

definition demo_client :: ner_client where
  "demo_client = \<lparr> nc_endpoint = [], nc_token = [], nc_min_confidence = 5, nc_labels = [], nc_timeout = 1,
     nc_hash_a = (\<lambda>s. if s = ''b'' then 1 else 0), nc_hash_b = (\<lambda>_. 0) \<rparr>"

definition demo_detector :: "rstr \<Rightarrow> wire_span list" where
  "demo_detector s = [\<lparr> ws_start = 0, ws_end = 1, ws_label = s, ws_confidence = 7 \<rparr>,
     \<lparr> ws_start = 0, ws_end = 1, ws_label = ''LOW'', ws_confidence = 3 \<rparr>]"

definition demo_exchange :: ner_env where
  "demo_exchange = \<lparr> ne_waiting = (\<lambda>c. c), ne_posting = (\<lambda>c. c),
     ne_send = (\<lambda>_ _ ts. Inr \<lparr> da_status = 200, da_status_text = ''200 OK'', da_body = Inr (map demo_detector ts) \<rparr>) \<rparr>"

lemma detect_batch_right_witness:
  "fst (detect_batch demo_exchange demo_client [''a'', [], ''b'', ''a''] no_generations) =
     Spans (map (ner_answer demo_client demo_detector) [''a'', [], ''b'', ''a''])"
proof (rule detect_batch_right [where T = "{''a'', [], ''b''}", THEN conjunct1])
  show "inj_on (cache_key demo_client) {''a'', [], ''b''}"
    by (auto simp: inj_on_def cache_key_def demo_client_def)
  show "cache_right demo_client demo_detector {''a'', [], ''b''} no_generations"
    using gens.wf_empty gens.holds_empty by (simp add: cache_right_def)
qed (simp_all add: demo_exchange_def MAX_REQUEST_BYTES_def)

lemma detect_batch_one_list_per_text_witness: "length [[], [] :: span_list] = length [[], [] :: rstr]"
proof (rule detect_batch_one_list_per_text)
  show "fst (detect_batch demo_exchange demo_client [[], []] no_generations) = Spans [[], []]"
    by (simp add: detect_batch_def)
qed

lemma warnings_spaced_witness: "successively (\<lambda>a b. a + WARN_INTERVAL \<le> b) (warn_times [5, 10, 60005, 60010] None)"
  by (rule warnings_spaced) simp

end
