(* ===== verification/Proxy_Forward.thy ===== *)
theory Proxy_Forward
  imports Proxy_Ner
begin

text \<open>
  The \<open>/v1/messages\<close> handler and the usage accounting of the proxy
  (\<open>containers/proxy/src/{forward,usage,count_tokens}.rs\<close>): route, scan, forward, then relay the
  rewritten response while reading usage from it. The relay is a run over what the upstream and
  the client do: a chunk arrives, the upstream breaks, the client leaves. Log lines are left out.
\<close>

section \<open>Usage\<close>

record usage_line =
  ul_ts :: rstr
  ul_status :: rstr
  ul_model :: "rstr option"
  ul_response_id :: "rstr option"
  ul_provider_kind :: rstr
  ul_provider_id :: rstr
  ul_gen_id :: "rstr option"
  ul_session_hash :: "rstr option"
  ul_cost_usd :: "rstr option"
  ul_latency_ms :: u64
  ul_ttft_ms :: "u64 option"
  ul_prompt_tokens :: u64
  ul_completion_tokens :: u64
  ul_cache_read :: u64
  ul_cache_write :: u64

record in_band_error =
  ib_kind :: rstr
  ib_message :: rstr

record usage_acc =
  ua_prompt_tokens :: u64
  ua_completion_tokens :: u64
  ua_cache_read :: u64
  ua_cache_write :: u64
  ua_response_id :: "rstr option"
  ua_gen_id :: "rstr option"
  ua_saw_usage :: bool
  ua_ttft_ms :: "u64 option"
  ua_in_band_error :: "in_band_error option"

definition usage_default :: usage_acc where
  "usage_default =
     \<lparr> ua_prompt_tokens = 0, ua_completion_tokens = 0, ua_cache_read = 0, ua_cache_write = 0,
       ua_response_id = None, ua_gen_id = None, ua_saw_usage = False, ua_ttft_ms = None,
       ua_in_band_error = None \<rparr>"

text \<open>The elapsed time is given in milliseconds.\<close>

definition note_first_text_delta :: "json \<Rightarrow> nat \<Rightarrow> usage_acc \<Rightarrow> usage_acc" where
  "note_first_text_delta frame elapsed acc =
     (if ua_ttft_ms acc \<noteq> None then acc
      else if str_field ''type'' frame \<noteq> Some ''content_block_delta'' then acc
      else
        let delta = json_get ''delta'' frame;
            is_text = (Option.bind delta (str_field ''type'') = Some ''text_delta'');
            has_text = (case Option.bind delta (str_field ''text'') of Some t \<Rightarrow> t \<noteq> [] | None \<Rightarrow> False)
        in if is_text \<and> has_text then acc \<lparr> ua_ttft_ms := Some (word_of_nat elapsed) \<rparr> else acc)"

definition sniff_gen_id :: "json \<Rightarrow> usage_acc \<Rightarrow> usage_acc" where
  "sniff_gen_id frame acc =
     (if ua_gen_id acc = None then
        (case find (starts_with ''gen-'')
                (List.map_filter (\<lambda>x. x) [str_field ''id'' frame, Option.bind (json_get ''message'' frame) (str_field ''id'')]) of
           Some gid \<Rightarrow> acc \<lparr> ua_gen_id := Some gid \<rparr>
         | None \<Rightarrow> acc)
      else acc)"

definition u64_field :: "rstr \<Rightarrow> json \<Rightarrow> u64 option" where
  "u64_field k v = Option.bind (json_get k v) as_u64"

text \<open>A counter of the usage object replaces the accumulated one where \<open>keep\<close> allows it.\<close>

definition sniff_counters :: "(u64 \<Rightarrow> bool) \<Rightarrow> json \<Rightarrow> usage_acc \<Rightarrow> usage_acc" where
  "sniff_counters keep usage acc =
     (let pick = (\<lambda>k old. case u64_field k usage of Some v \<Rightarrow> if keep v then v else old | None \<Rightarrow> old)
      in acc \<lparr> ua_saw_usage := True,
               ua_prompt_tokens := pick ''input_tokens'' (ua_prompt_tokens acc),
               ua_completion_tokens := pick ''output_tokens'' (ua_completion_tokens acc),
               ua_cache_read := pick ''cache_read_input_tokens'' (ua_cache_read acc),
               ua_cache_write := pick ''cache_creation_input_tokens'' (ua_cache_write acc) \<rparr>)"

definition sniff :: "json \<Rightarrow> usage_acc \<Rightarrow> usage_acc" where
  "sniff frame acc0 =
     (let event_type = (case str_field ''type'' frame of Some t \<Rightarrow> t | None \<Rightarrow> []);
          acc = sniff_gen_id frame acc0
      in if event_type = ''message_start'' then
           (case json_get ''message'' frame of
              None \<Rightarrow> acc
            | Some msg \<Rightarrow>
                (let acc' = (case str_field ''id'' msg of
                       Some mid \<Rightarrow> acc \<lparr> ua_response_id := Some mid \<rparr>
                     | None \<Rightarrow> acc)
                 in case json_get ''usage'' msg of
                      Some usage \<Rightarrow> sniff_counters (\<lambda>_. True) usage acc'
                    | None \<Rightarrow> acc'))
         else if event_type = ''message_delta'' then
           (case json_get ''usage'' frame of
              Some usage \<Rightarrow> sniff_counters (\<lambda>v. v > 0) usage acc
            | None \<Rightarrow> acc)
         else if event_type = ''error'' then
           (if ua_in_band_error acc = None then
              (let field = (\<lambda>name. case Option.bind (json_get ''error'' frame) (str_field name) of
                     Some t \<Rightarrow> t
                   | None \<Rightarrow> ''unknown'')
               in acc \<lparr> ua_in_band_error := Some \<lparr> ib_kind = field ''type'', ib_message = field ''message'' \<rparr> \<rparr>)
            else acc)
         else acc)"

datatype request_status = Success | Failure

fun status_wire :: "request_status \<Rightarrow> rstr" where
  "status_wire Success = ''success''"
| "status_wire Failure = ''failure''"

definition usage_finish ::
  "rstr \<Rightarrow> rstr \<Rightarrow> u64 \<Rightarrow> rstr \<Rightarrow> rstr \<Rightarrow> request_status \<Rightarrow> usage_acc \<Rightarrow> usage_line option" where
  "usage_finish now model latency_ms provider_kind provider_id status acc =
     (if \<not> ua_saw_usage acc then None
      else Some \<lparr> ul_ts = now, ul_status = status_wire status, ul_model = Some model,
             ul_response_id = (case ua_response_id acc of Some i \<Rightarrow> Some i | None \<Rightarrow> ua_gen_id acc),
             ul_provider_kind = provider_kind, ul_provider_id = provider_id, ul_gen_id = ua_gen_id acc,
             ul_session_hash = None, ul_cost_usd = None, ul_latency_ms = latency_ms,
             ul_ttft_ms = ua_ttft_ms acc, ul_prompt_tokens = ua_prompt_tokens acc,
             ul_completion_tokens = ua_completion_tokens acc, ul_cache_read = ua_cache_read acc,
             ul_cache_write = ua_cache_write acc \<rparr>)"

section \<open>Headers, bodies and logs\<close>

definition MAX_SNIFF_BUF :: nat where "MAX_SNIFF_BUF = 1024 * 1024"
definition SESSION_ID_HEADER :: rstr where "SESSION_ID_HEADER = ''x-claude-code-session-id''"
definition MAX_LOGGED_ERROR_MESSAGE :: nat where "MAX_LOGGED_ERROR_MESSAGE = 200"
definition MAX_LOGGED_UPSTREAM_ERROR :: nat where "MAX_LOGGED_UPSTREAM_ERROR = 600"
definition MID_CONV_SYSTEM_REJECTION :: rstr where
  "MID_CONV_SYSTEM_REJECTION = ''capability_rejected: mid_conv_system''"

definition bound_sniff_buffer :: "rstr \<Rightarrow> nat \<Rightarrow> rstr" where
  "bound_sniff_buffer buf cap = (if length buf > cap then [] else buf)"

definition trim_start :: "rstr \<Rightarrow> rstr" where
  "trim_start s = concat (dropWhile is_whitespace (chars s))"

definition is_event_stream :: "http_env \<Rightarrow> header_map \<Rightarrow> bool" where
  "is_event_stream W headers =
     (case Option.bind (header_get headers ''content-type'') (hv_to_str W) of
        Some ct \<Rightarrow> starts_with ''text/event-stream'' (to_ascii_lowercase (trim_start ct))
      | None \<Rightarrow> False)"

definition generation_id :: "http_env \<Rightarrow> header_map \<Rightarrow> rstr option" where
  "generation_id W headers =
     option_filter (starts_with ''gen-'')
       (map_option trim (Option.bind (header_get headers ''x-generation-id'') (hv_to_str W)))"

function drain_complete_lines :: "rstr \<Rightarrow> rstr list \<times> rstr" where
  "drain_complete_lines buf =
     (case position (\<lambda>b. b = CHR 0x0A) buf of
        None \<Rightarrow> ([], buf)
      | Some pos \<Rightarrow>
          (let (ls, rest) = drain_complete_lines (drop (pos + 1) buf)
           in (trim_end_byte (CHR 0x0D) (take pos buf) # ls, rest)))"
  by pat_completeness auto
termination
  by (relation "measure length") (auto dest!: position_Some)

declare drain_complete_lines.simps [simp del]

definition outbound_headers_with :: "http_env \<Rightarrow> auth \<Rightarrow> header_map \<Rightarrow> (rstr \<Rightarrow> rstr option) \<Rightarrow> header_map" where
  "outbound_headers_with W a inbound lookup =
     (case a of
        Bare Passthrough \<Rightarrow>
          copy_headers [''authorization'', ''x-api-key'', ''anthropic-beta'', ''anthropic-version'', ''content-type''] inbound
      | Bare NoAuth \<Rightarrow> copy_headers [''anthropic-version'', ''content-type''] inbound
      | Swap env sch \<Rightarrow>
          (let out = copy_headers [''anthropic-version'', ''content-type''] inbound in
           case (sch, lookup env) of
             (Bearer, Some key) \<Rightarrow>
               (case hv_from_str W (''Bearer '' @ key) of
                  Some v \<Rightarrow> header_insert ''authorization'' v out
                | None \<Rightarrow> out)
           | (Bearer, None) \<Rightarrow> out
           | (NoScheme, _) \<Rightarrow> out))"

definition strip_model_prefix :: "serde \<Rightarrow> rstr \<Rightarrow> json \<Rightarrow> rstr \<Rightarrow> rstr" where
  "strip_model_prefix S payload parsed model =
     (case split_once ''/'' model of
        None \<Rightarrow> payload
      | Some (_, bare) \<Rightarrow> json_print S (json_set [Key ''model''] (JStr bare) parsed))"

definition upstream_host :: "rstr \<Rightarrow> rstr" where
  "upstream_host base_url =
     (let after_scheme = (case split_once ''://'' base_url of Some (_, rest) \<Rightarrow> rest | None \<Rightarrow> base_url)
      in hd (split_byte (CHR ''/'') after_scheme))"

definition format_req_log :: "rstr \<Rightarrow> rstr \<Rightarrow> rstr \<Rightarrow> rstr \<Rightarrow> rstr \<Rightarrow> rstr" where
  "format_req_log model pre provider_kind provider_id base_url =
     ''proxy req: model='' @ [CHR 0x27] @ model @ [CHR 0x27] @ '' prefix='' @ [CHR 0x27] @ pre @ [CHR 0x27]
     @ '' provider='' @ provider_kind @ ''/'' @ provider_id @ '' '' @ [CHR 0xE2, CHR 0x86, CHR 0x92] @ '' ''
     @ upstream_host base_url"

definition format_resp_log :: "rstr \<Rightarrow> nat \<Rightarrow> u64 \<Rightarrow> u64 option \<Rightarrow> u64 option \<Rightarrow> rstr" where
  "format_resp_log model status latency_ms prompt_tokens completion_tokens =
     (let fmt = (\<lambda>t. case t of Some n \<Rightarrow> u64_to_string n | None \<Rightarrow> ''-'') in
      ''proxy resp: model='' @ [CHR 0x27] @ model @ [CHR 0x27] @ '' status='' @ nat_str status @ '' latency=''
      @ u64_to_string latency_ms @ ''ms in='' @ fmt prompt_tokens @ '' out='' @ fmt completion_tokens)"

definition ELLIPSIS :: rstr where "ELLIPSIS = [CHR 0xE2, CHR 0x80, CHR 0xA6]"

definition bound_for_log :: "rstr \<Rightarrow> nat \<Rightarrow> rstr" where
  "bound_for_log s cap =
     (let cleaned = concat (map (\<lambda>c. if is_control c then '' '' else c) (chars s)) in
      if length cleaned \<le> cap then cleaned
      else take (floor_boundary_from cleaned cap) cleaned @ ELLIPSIS)"

definition is_anthropic_route :: "route \<Rightarrow> bool" where
  "is_anthropic_route r =
     (if rt_provider_kind r = [] then rt_prefix r = ''anthropic'' else starts_with ''anthropic'' (rt_provider_kind r))"

definition has_mid_conversation_system_turn :: "json \<Rightarrow> bool" where
  "has_mid_conversation_system_turn v =
     (case Option.bind (json_get ''messages'' v) as_array of
        Some messages \<Rightarrow> list_ex (\<lambda>m. str_field ''role'' m = Some ''system'') messages
      | None \<Rightarrow> False)"

definition json_response :: "serde \<Rightarrow> nat \<Rightarrow> json \<Rightarrow> http_response" where
  "json_response S status v =
     \<lparr> rsp_status = status, rsp_headers = [(''content-type'', ''application/json'')], rsp_body = Buffered (json_print S v) \<rparr>"

definition reject_routed_mid_conversation_system :: "serde \<Rightarrow> proxy_config \<Rightarrow> json \<Rightarrow> http_response option" where
  "reject_routed_mid_conversation_system S cfg v =
     Option.bind (str_field ''model'' v) (\<lambda>model.
     Option.bind (resolve cfg model) (\<lambda>r.
       if is_anthropic_route r \<or> \<not> has_mid_conversation_system_turn v then None
       else Some (json_response S 400
         (JObj [(''error'', JObj [(''message'', JStr MID_CONV_SYSTEM_REJECTION), (''type'', JStr ''invalid_request_error'')]),
                (''type'', JStr ''error'')]))))"

definition count_tokens_shim :: "serde \<Rightarrow> http_response" where
  "count_tokens_shim S = json_response S 200 (JObj [(''input_tokens'', JNum ''0'')])"

definition resolve_request_status :: "nat \<Rightarrow> bool \<Rightarrow> bool \<Rightarrow> request_status" where
  "resolve_request_status status_code stream_errored in_band =
     (if status_code \<ge> 400 \<or> stream_errored \<or> in_band then Failure else Success)"

definition is_hop_by_hop :: "rstr \<Rightarrow> bool" where
  "is_hop_by_hop name \<longleftrightarrow> to_ascii_lowercase name \<in>
     {''connection'', ''keep-alive'', ''proxy-authenticate'', ''proxy-authorization'', ''te'', ''trailer'',
      ''transfer-encoding'', ''upgrade''}"

section \<open>The relay\<close>

text \<open>What happens next: the client is gone, the upstream breaks, or a chunk arrives after so many
  milliseconds. The flag says whether the client still takes what is sent.\<close>

datatype relay_event = ClientGone | Broken rstr bool | Arrived "byte list" nat bool

record relay_state =
  rl_acc :: usage_acc
  rl_line_buf :: rstr
  rl_rewriter :: response_rewriter
  rl_sent :: "(rstr + byte list) list"
  rl_errored :: bool
  rl_disconnected :: bool

fun detokenize_error_str :: "detokenize_error \<Rightarrow> rstr" where
  "detokenize_error_str DetokTokenPatternInvalid = ''token span pattern failed to compile''"
| "detokenize_error_str (VerificationFailed cat index) =
     ''token verification failed for '' @ cat @ '' at span '' @ nat_str index"

fun rewrite_error_str :: "rewrite_error \<Rightarrow> rstr" where
  "rewrite_error_str (Detokenize e) = detokenize_error_str e"
| "rewrite_error_str (UnparseableEvent reason) = ''unrewritable SSE event: '' @ reason"
| "rewrite_error_str Oversized = ''buffered response content exceeded the rewrite cap''"

definition sniff_line :: "serde \<Rightarrow> nat \<Rightarrow> rstr \<Rightarrow> usage_acc \<Rightarrow> usage_acc" where
  "sniff_line S elapsed line acc =
     (case strip_prefix ''data: '' line of
        None \<Rightarrow> acc
      | Some data \<Rightarrow>
          (if data = ''[DONE]'' then acc
           else case json_parse S data of
               None \<Rightarrow> acc
             | Some frame \<Rightarrow> note_first_text_delta frame elapsed (sniff frame acc)))"

definition sniff_chunk :: "serde \<Rightarrow> nat \<Rightarrow> byte list \<Rightarrow> rstr \<times> usage_acc \<Rightarrow> rstr \<times> usage_acc" where
  "sniff_chunk S elapsed bytes st =
     (case from_utf8 bytes of
        None \<Rightarrow> st
      | Some s \<Rightarrow>
          (let (ls, rest) = drain_complete_lines (fst st @ s)
           in (bound_sniff_buffer rest MAX_SNIFF_BUF, fold (sniff_line S elapsed) ls (snd st))))"

definition offer :: "bool \<Rightarrow> 'a \<Rightarrow> 'a list" where
  "offer taken x = (if taken then [x] else [])"

fun relay_loop :: "rewrite_env \<Rightarrow> relay_event list \<Rightarrow> relay_state \<Rightarrow> relay_state" where
  "relay_loop E [] st = st"
| "relay_loop E (ClientGone # _) st = st \<lparr> rl_disconnected := True \<rparr>"
| "relay_loop E (Broken e taken # _) st =
     st \<lparr> rl_sent := rl_sent st @ offer taken (Inl e), rl_errored := True \<rparr>"
| "relay_loop E (Arrived bytes elapsed taken # events) st =
     (let (line_buf, acc) = sniff_chunk (rw_serde E) elapsed bytes (rl_line_buf st, rl_acc st);
          st1 = st \<lparr> rl_line_buf := line_buf, rl_acc := acc \<rparr>
      in case rewriter_push_chunk E bytes (rl_rewriter st1) of
           Inl e \<Rightarrow>
             st1 \<lparr> rl_sent := rl_sent st1 @ offer taken (Inl (rewrite_error_str e)), rl_errored := True \<rparr>
         | Inr (r, out) \<Rightarrow>
             (let st2 = st1 \<lparr> rl_rewriter := r \<rparr> in
              if out = [] then relay_loop E events st2
              else if taken then relay_loop E events (st2 \<lparr> rl_sent := rl_sent st2 @ [Inr out] \<rparr>)
              else st2 \<lparr> rl_disconnected := True \<rparr>))"

definition relay_finish :: "rewrite_env \<Rightarrow> bool \<Rightarrow> relay_state \<Rightarrow> relay_state" where
  "relay_finish E taken st =
     (if rl_errored st \<or> rl_disconnected st then st
      else case rewriter_finish E (rl_rewriter st) of
          Inr remaining \<Rightarrow> st \<lparr> rl_sent := rl_sent st @ (if remaining \<noteq> [] then offer taken (Inr remaining) else []) \<rparr>
        | Inl e \<Rightarrow> st \<lparr> rl_errored := True \<rparr>)"

definition relay_start :: "rstr option \<Rightarrow> bool \<Rightarrow> relay_state" where
  "relay_start header_gen_id upstream_is_sse =
     \<lparr> rl_acc = usage_default \<lparr> ua_gen_id := header_gen_id \<rparr>, rl_line_buf = [],
       rl_rewriter = rewriter_new upstream_is_sse, rl_sent = [], rl_errored = False, rl_disconnected = False \<rparr>"

section \<open>The handler\<close>

text \<open>Everything outside: the headers and files of \<open>http_env\<close>, the ciphers and parsers, the upstream
  with its chain of causes on failure, the hash of the session and the clock.\<close>

record forward_env = http_env +
  fe_crypto :: crypto
  fe_unicode :: unicode
  fe_serde :: serde
  fe_post :: "upstream_request \<Rightarrow> rstr list + http_response"
  fe_sha256 :: "byte list \<Rightarrow> byte list"
  fe_tokens_dir :: "rstr option"
  fe_now :: rstr
  fe_latency_ms :: u64

record forward_config = proxy_config +
  fc_pii :: pii_engine_state
  fc_ner :: "(ner_env \<times> ner_client) option"

record forward_outcome =
  fo_response :: http_response
  fo_upstream :: "upstream_request option"
  fo_audit :: "pii_audit_line list"
  fo_usage :: "usage_line list"

definition rejected :: "http_response \<Rightarrow> pii_audit_line list \<Rightarrow> forward_outcome" where
  "rejected r rows = \<lparr> fo_response = r, fo_upstream = None, fo_audit = rows, fo_usage = [] \<rparr>"

definition error_body :: "rstr \<Rightarrow> json" where
  "error_body s = JObj [(''error'', JStr s)]"

definition session_hash :: "forward_env \<Rightarrow> header_map \<Rightarrow> rstr option" where
  "session_hash W headers =
     (case header_get headers SESSION_ID_HEADER of
        None \<Rightarrow> None
      | Some v \<Rightarrow> (if v = [] then None else Some (hex_encode (fe_sha256 W v))))"

definition rewrite_env_of :: "forward_env \<Rightarrow> compiled_policy \<Rightarrow> engine_key \<Rightarrow> rewrite_env" where
  "rewrite_env_of W policy key =
     \<lparr> rw_crypto = fe_crypto W, rw_unicode = fe_unicode W, rw_serde = fe_serde W,
       rw_keywords = policy_keywords policy, rw_key = key \<rparr>"

text \<open>The detector's spans for a request, the audit rows of its absence and the cache after it.\<close>

definition external_spans ::
  "forward_config \<Rightarrow> json \<Rightarrow> generations \<Rightarrow> external_span list list option \<times> pii_audit_line list \<times> generations" where
  "external_spans cfg parsed g =
     (case fc_ner cfg of
        None \<Rightarrow> (None, [], g)
      | Some (W, N) \<Rightarrow>
          (case detect_batch W N (collect_scan_leaves parsed) g of
             (Spans spans, g') \<Rightarrow> (Some spans, [], g')
           | (Unavailable _, g') \<Rightarrow> (None, write_ner_unavailable (pc_audit_dir cfg), g')))"

text \<open>The response head and the relayed stream, once the upstream has answered; the events are the
  chunks of its body with what the client does meanwhile.\<close>

definition relay_response ::
  "forward_env \<Rightarrow> rewrite_env \<Rightarrow> rstr \<Rightarrow> route \<Rightarrow> rstr option \<Rightarrow> http_response \<Rightarrow> relay_event list \<Rightarrow> bool
     \<Rightarrow> http_response \<times> usage_line list" where
  "relay_response W E model r session upstream events taken =
     (let st = relay_finish E taken
            (relay_loop E events
              (relay_start (generation_id (http_env.truncate W) (rsp_headers upstream))
                (is_event_stream (http_env.truncate W) (rsp_headers upstream))));
          status = resolve_request_status (rsp_status upstream) (rl_errored st) (ua_in_band_error (rl_acc st) \<noteq> None)
      in (\<lparr> rsp_status = rsp_status upstream,
            rsp_headers = filter (\<lambda>(n, _). \<not> is_hop_by_hop n) (rsp_headers upstream),
            rsp_body = Streamed (rl_sent st) \<rparr>,
          case usage_finish (fe_now W) model (fe_latency_ms W) (rt_provider_kind r) (rt_provider_id r) status (rl_acc st) of
            None \<Rightarrow> []
          | Some line \<Rightarrow> [line \<lparr> ul_session_hash := session \<rparr>]))"

definition body_model :: "json \<Rightarrow> rstr" where
  "body_model v = (case str_field ''model'' v of Some m \<Rightarrow> m | None \<Rightarrow> [])"

text \<open>The handler from the scan on; \<open>messages\<close> is its guards before that.\<close>

definition forward_scanned ::
  "forward_env \<Rightarrow> forward_config \<Rightarrow> header_map \<Rightarrow> (http_response \<Rightarrow> relay_event list) \<Rightarrow> bool \<Rightarrow> generations
     \<Rightarrow> json \<Rightarrow> compiled_policy \<Rightarrow> engine_key \<Rightarrow> forward_outcome \<times> generations" where
  "forward_scanned W cfg headers events taken g parsed policy key =
     (let S = fe_serde W; base = proxy_config.truncate cfg;
          (external, ner_rows, g') = external_spans cfg parsed g in
      case scan_request_with_external (fe_crypto W) (fe_unicode W) policy key parsed external of
        (Inl e, _) \<Rightarrow> (rejected (json_response S 500 (error_body ''PII scan failed'')) ner_rows, g')
      | (Inr report, scanned) \<Rightarrow>
          (let rows = ner_rows @ write_pii_audit (pc_audit_dir cfg) (rep_detections report)
                 @ write_pii_audit_with_source (pc_audit_dir cfg) (rep_external report) (Some NER_SOURCE);
               model = body_model scanned
           in case resolve base model of
                None \<Rightarrow> (rejected (json_response S 404 (error_body (''no route for model: '' @ model))) rows, g')
              | Some r \<Rightarrow>
                  (let req = \<lparr> up_method = POST, up_url = rt_base_url r @ ''/v1/messages'',
                         up_headers = outbound_headers_with (http_env.truncate W) (rt_auth r) headers
                           (provider_key_for_env_name (http_env.truncate W) (fe_tokens_dir W)),
                         up_body = Some (Buffered (strip_model_prefix S (json_print S scanned) scanned model)) \<rparr>
                   in case fe_post W req of
                        Inl causes \<Rightarrow>
                          (let cause = bound_for_log (error_chain causes) MAX_LOGGED_UPSTREAM_ERROR in
                           (\<lparr> fo_response = json_response S 502 (error_body (''upstream error: '' @ cause)),
                              fo_upstream = Some req, fo_audit = rows, fo_usage = [] \<rparr>, g'))
                      | Inr upstream \<Rightarrow>
                          (let (resp, usage) = relay_response W (rewrite_env_of W policy key) model r
                                 (session_hash W headers) upstream (events upstream) taken
                           in (\<lparr> fo_response = resp, fo_upstream = Some req, fo_audit = rows,
                                fo_usage = usage \<rparr>, g')))))"

definition messages ::
  "forward_env \<Rightarrow> forward_config \<Rightarrow> header_map \<Rightarrow> byte list \<Rightarrow> (http_response \<Rightarrow> relay_event list) \<Rightarrow> bool
     \<Rightarrow> generations \<Rightarrow> forward_outcome \<times> generations" where
  "messages W cfg headers payload events taken g =
     (let S = fe_serde W in
      case json_parse S payload of
        None \<Rightarrow> (rejected (json_response S 400 (error_body ''request body is not valid JSON'')) [], g)
      | Some parsed \<Rightarrow>
          (case reject_routed_mid_conversation_system S (proxy_config.truncate cfg) parsed of
             Some rejection \<Rightarrow> (rejected rejection [], g)
           | None \<Rightarrow>
               (case fc_pii cfg of
                  Failed _ \<Rightarrow> (rejected (json_response S 503 (error_body ''PII policy engine unavailable'')) [], g)
                | Ready policy key \<Rightarrow> forward_scanned W cfg headers events taken g parsed policy key)))"

section \<open>Draining lines\<close>

lemma drain_None: "position (\<lambda>b. b = CHR 0x0A) buf = None \<Longrightarrow> drain_complete_lines buf = ([], buf)"
  by (simp add: drain_complete_lines.simps [of buf])

lemma drain_Some:
  "position (\<lambda>b. b = CHR 0x0A) buf = Some pos \<Longrightarrow> drain_complete_lines buf =
     (trim_end_byte (CHR 0x0D) (take pos buf) # fst (drain_complete_lines (drop (pos + 1) buf)),
      snd (drain_complete_lines (drop (pos + 1) buf)))"
  by (simp add: drain_complete_lines.simps [of buf] split_beta)

lemma drain_append:
  "drain_complete_lines (a @ b) =
     (fst (drain_complete_lines a) @ fst (drain_complete_lines (snd (drain_complete_lines a) @ b)),
      snd (drain_complete_lines (snd (drain_complete_lines a) @ b)))"
proof (induction "length a" arbitrary: a rule: less_induct)
  case less
  show ?case
  proof (cases "position (\<lambda>b. b = CHR 0x0A) a")
    case None
    then show ?thesis by (simp add: drain_None)
  next
    case (Some pos)
    then have pos: "pos < length a" by (auto dest: position_Some)
    have shorter: "length (drop (pos + 1) a) < length a" using pos by simp
    have "drop (pos + 1) (a @ b) = drop (pos + 1) a @ b" "take pos (a @ b) = take pos a" using pos by simp_all
    with less.hyps [OF shorter] drain_Some [OF Some] drain_Some [OF position_append_Some [OF Some, of b]] pos
    show ?thesis by simp
  qed
qed

lemma drain_rest_length: "length (snd (drain_complete_lines buf)) \<le> length buf"
proof (induction "length buf" arbitrary: buf rule: less_induct)
  case less
  show ?case
  proof (cases "position (\<lambda>b. b = CHR 0x0A) buf")
    case (Some pos)
    then have "length (drop (pos + 1) buf) < length buf" by (auto dest: position_Some)
    with less.hyps [OF this] drain_Some [OF Some] show ?thesis by simp
  qed (simp add: drain_None)
qed

lemma sniff_chunks_lines:
  assumes "list_all is_utf8 cs" and "length (buf @ concat cs) \<le> MAX_SNIFF_BUF"
    and "drain_complete_lines buf = ([], buf)"
  shows "fold (sniff_chunk S t) cs (buf, acc) =
    (snd (drain_complete_lines (buf @ concat cs)), fold (sniff_line S t) (fst (drain_complete_lines (buf @ concat cs))) acc)"
  using assms
proof (induction cs arbitrary: buf acc)
  case (Cons c cs)
  let ?d = "drain_complete_lines (buf @ c)"
  have rest: "length (snd ?d) \<le> length (buf @ c)" by (rule drain_rest_length)
  have "bound_sniff_buffer (snd ?d) MAX_SNIFF_BUF = snd ?d"
    using rest Cons.prems(2) by (simp add: bound_sniff_buffer_def)
  then have "sniff_chunk S t c (buf, acc) = (snd ?d, fold (sniff_line S t) (fst ?d) acc)"
    using Cons.prems(1) by (simp add: sniff_chunk_def from_utf8_def split_beta)
  moreover have "length (snd ?d @ concat cs) \<le> MAX_SNIFF_BUF" using rest Cons.prems(2) by simp
  moreover have "drain_complete_lines (snd ?d) = ([], snd ?d)"
    using drain_append [of "buf @ c" "[]"] by (simp add: prod_eq_iff)
  moreover have "buf @ concat (c # cs) = (buf @ c) @ concat cs" by simp
  ultimately show ?case
    using Cons.IH [of "snd ?d" "fold (sniff_line S t) (fst ?d) acc"] Cons.prems(1) drain_append [of "buf @ c" "concat cs"]
    by (simp add: fold_append)
qed simp

section \<open>The relay and the rewriter\<close>

definition arrivals :: "(byte list \<times> nat) list \<Rightarrow> relay_event list" where
  "arrivals xs = map (\<lambda>(b, t). Arrived b t True) xs"

lemma relay_loop_push:
  assumes "rl_rewriter st = Sse s" and "\<not> rl_errored st" and "\<not> rl_disconnected st"
  shows "case push_chunks E (map fst xs) s of
      Inl e \<Rightarrow> rl_errored (relay_loop E (arrivals xs) st)
        \<and> (\<exists>n s' out outs. n < length xs \<and> push_chunks E (map fst (take n xs)) s = Inr (s', out)
             \<and> sse_push_chunk E (fst (xs ! n)) s' = Inl e \<and> concat outs = out
             \<and> rl_sent (relay_loop E (arrivals xs) st) = rl_sent st @ map Inr outs @ [Inl (rewrite_error_str e)])
    | Inr (s', out) \<Rightarrow> rl_rewriter (relay_loop E (arrivals xs) st) = Sse s' \<and> \<not> rl_errored (relay_loop E (arrivals xs) st)
        \<and> \<not> rl_disconnected (relay_loop E (arrivals xs) st)
        \<and> (\<exists>outs. rl_sent (relay_loop E (arrivals xs) st) = rl_sent st @ map Inr outs \<and> concat outs = out)"
  using assms
proof (induction xs arbitrary: st s)
  case Nil
  then show ?case by (auto simp: arrivals_def intro: exI [of _ "[]"])
next
  case (Cons x xs)
  obtain b t where x: "x = (b, t)" by (cases x)
  obtain lb acc where sn: "sniff_chunk (rw_serde E) t b (rl_line_buf st, rl_acc st) = (lb, acc)"
    by (cases "sniff_chunk (rw_serde E) t b (rl_line_buf st, rl_acc st)")
  let ?st1 = "st \<lparr> rl_line_buf := lb, rl_acc := acc \<rparr>"
  show ?case
  proof (cases "sse_push_chunk E b s")
    case (Inl e)
    have "rl_errored (relay_loop E (arrivals (x # xs)) st)
        \<and> rl_sent (relay_loop E (arrivals (x # xs)) st) = rl_sent st @ map Inr [] @ [Inl (rewrite_error_str e)]"
      using Cons.prems x sn Inl by (simp add: arrivals_def rewriter_push_chunk_def offer_def)
    moreover have "0 < length (x # xs) \<and> push_chunks E (map fst (take 0 (x # xs))) s = Inr (s, [])
        \<and> sse_push_chunk E (fst ((x # xs) ! 0)) s = Inl e \<and> concat [] = []" by (simp add: x Inl)
    moreover have "push_chunks E (map fst (x # xs)) s = Inl e" by (simp add: x then_out_def Inl)
    ultimately show ?thesis by (simp only: sum.case) blast
  next
    case (Inr p)
    obtain s1 o1 where p: "p = (s1, o1)" by (cases p)
    let ?st2 = "?st1 \<lparr> rl_rewriter := Sse s1 \<rparr>"
    let ?st3 = "if o1 = [] then ?st2 else ?st2 \<lparr> rl_sent := rl_sent ?st2 @ [Inr o1] \<rparr>"
    have step: "relay_loop E (arrivals (x # xs)) st = relay_loop E (arrivals xs) ?st3"
      using Cons.prems(1) Inr p x sn by (simp add: arrivals_def rewriter_push_chunk_def)
    have sent: "\<exists>os. rl_sent ?st3 = rl_sent st @ map Inr os \<and> concat os = o1"
      by (cases "o1 = []") (auto intro: exI [of _ "[]"] exI [of _ "[o1]"])
    have st3: "rl_rewriter ?st3 = Sse s1" "\<not> rl_errored ?st3" "\<not> rl_disconnected ?st3" using Cons.prems by simp_all
    note IH = Cons.IH [OF st3]
    from sent obtain os where os: "rl_sent ?st3 = rl_sent st @ map Inr os" "concat os = o1" by blast
    show ?thesis
    proof (cases "push_chunks E (map fst xs) s1")
      case e: (Inl e)
      from IH [unfolded e sum.case] obtain n s' out outs where
        err: "rl_errored (relay_loop E (arrivals xs) ?st3)" and n: "n < length xs"
        and pre: "push_chunks E (map fst (take n xs)) s1 = Inr (s', out)" "sse_push_chunk E (fst (xs ! n)) s' = Inl e"
        and o: "concat outs = out"
          "rl_sent (relay_loop E (arrivals xs) ?st3) = rl_sent ?st3 @ map Inr outs @ [Inl (rewrite_error_str e)]"
        by blast
      have "Suc n < length (x # xs) \<and> push_chunks E (map fst (take (Suc n) (x # xs))) s = Inr (s', o1 @ out)
          \<and> sse_push_chunk E (fst ((x # xs) ! Suc n)) s' = Inl e \<and> concat (os @ outs) = o1 @ out"
        using n pre o os(2) by (simp add: x then_out_def Inr p)
      moreover have "rl_sent (relay_loop E (arrivals xs) ?st3)
          = rl_sent st @ map Inr (os @ outs) @ [Inl (rewrite_error_str e)]" using o(2) os(1) by simp
      moreover have "push_chunks E (map fst (x # xs)) s = Inl e" by (simp add: x then_out_def Inr p e)
      ultimately show ?thesis unfolding step using err by (simp only: sum.case) blast
    next
      case q: (Inr q)
      obtain s2 o2 where q2: "q = (s2, o2)" by (cases q)
      from IH [unfolded q q2 sum.case prod.case] obtain outs where
        r: "rl_rewriter (relay_loop E (arrivals xs) ?st3) = Sse s2" "\<not> rl_errored (relay_loop E (arrivals xs) ?st3)"
          "\<not> rl_disconnected (relay_loop E (arrivals xs) ?st3)"
        and "rl_sent (relay_loop E (arrivals xs) ?st3) = rl_sent ?st3 @ map Inr outs" "concat outs = o2" by blast
      then have "rl_sent (relay_loop E (arrivals xs) ?st3) = rl_sent st @ map Inr (os @ outs) \<and> concat (os @ outs) = o1 @ o2"
        using os by simp
      moreover have "push_chunks E (map fst (x # xs)) s = Inr (s2, o1 @ o2)" by (simp add: x then_out_def Inr p q q2)
      ultimately show ?thesis unfolding step using r by (simp only: sum.case prod.case) blast
    qed
  qed
qed

lemma relay_loop_append:
  "\<not> rl_errored (relay_loop E es st) \<and> \<not> rl_disconnected (relay_loop E es st) \<Longrightarrow>
     relay_loop E (es @ rest) st = relay_loop E rest (relay_loop E es st)"
proof (induction es arbitrary: st)
  case (Cons ev events)
  show ?case
  proof (cases ev)
    case (Arrived bytes elapsed taken)
    obtain lb acc where sn: "sniff_chunk (rw_serde E) elapsed bytes (rl_line_buf st, rl_acc st) = (lb, acc)"
      by (cases "sniff_chunk (rw_serde E) elapsed bytes (rl_line_buf st, rl_acc st)")
    show ?thesis
    proof (cases "rewriter_push_chunk E bytes (rl_rewriter st)")
      case (Inl e)
      with Cons.prems sn show ?thesis by (simp add: Arrived)
    next
      case (Inr p)
      obtain r out where p: "p = (r, out)" by (cases p)
      show ?thesis using Cons.prems Cons.IH sn
        by (cases "out = []"; cases taken) (simp_all add: Arrived Inr p)
    qed
  qed (use Cons.prems in simp_all)
qed simp

text \<open>The relay after all the chunks: stopped at the first chunk the rewriter refuses, or still running with all
  the rewritten output sent.\<close>

lemma relay_chunks:
  obtains (failed) n s out outs e where "push_chunks E (map fst xs) sse_default = Inl e" "n < length xs"
      "push_chunks E (take n (map fst xs)) sse_default = Inr (s, out)" "sse_push_chunk E (map fst xs ! n) s = Inl e"
      "concat outs = out" "rl_errored (relay_loop E (arrivals xs) (relay_start gen_id True))"
      "rl_sent (relay_loop E (arrivals xs) (relay_start gen_id True)) = map Inr outs @ [Inl (rewrite_error_str e)]"
    | (running) s out outs where "push_chunks E (map fst xs) sse_default = Inr (s, out)" "concat outs = out"
      "rl_rewriter (relay_loop E (arrivals xs) (relay_start gen_id True)) = Sse s"
      "\<not> rl_errored (relay_loop E (arrivals xs) (relay_start gen_id True))"
      "\<not> rl_disconnected (relay_loop E (arrivals xs) (relay_start gen_id True))"
      "rl_sent (relay_loop E (arrivals xs) (relay_start gen_id True)) = map Inr outs"
proof -
  let ?st = "relay_start gen_id True"
  have start: "rl_rewriter ?st = Sse sse_default" "\<not> rl_errored ?st" "\<not> rl_disconnected ?st" "rl_sent ?st = []"
    by (simp_all add: relay_start_def rewriter_new_def)
  note loop = relay_loop_push [OF start(1,2,3), of E xs, unfolded start(4) append_Nil]
  show thesis
  proof (cases "push_chunks E (map fst xs) sse_default")
    case (Inl e)
    from loop [unfolded Inl sum.case] obtain n s' out outs where r: "n < length xs"
        "push_chunks E (map fst (take n xs)) sse_default = Inr (s', out)" "sse_push_chunk E (fst (xs ! n)) s' = Inl e"
        "concat outs = out" "rl_errored (relay_loop E (arrivals xs) ?st)"
        "rl_sent (relay_loop E (arrivals xs) ?st) = map Inr outs @ [Inl (rewrite_error_str e)]"
      by (elim conjE exE)
    show thesis by (rule failed [OF Inl r(1), of s' out outs]) (use r in \<open>simp_all add: take_map\<close>)
  next
    case (Inr p)
    obtain s out where p: "p = (s, out)" by (cases p)
    from loop [unfolded Inr p sum.case prod.case] show thesis
      by (elim conjE exE) (rule running [OF Inr [unfolded p]])
  qed
qed

lemma copied_header:
  "(n, v) \<in> set (copy_headers names hs) \<Longrightarrow> n \<in> set names \<and> header_get hs n = Some v"
  using copy_headers_names [of names hs] copy_headers_values [of n v names hs] by force

section \<open>Properties\<close>

text \<open>C2. Nothing leaves unscanned: a request is sent upstream only when its body parsed, the engine is ready
  and the scan succeeded, and what is sent is the scanned body, with at most its model renamed, to
  the configured route of its model under that route's authentication.\<close>

theorem messages_sends_scanned:
  assumes "fo_upstream (fst (messages W cfg headers payload events taken g)) = Some req"
  shows "\<exists>parsed policy key report scanned r.
      json_parse (fe_serde W) payload = Some parsed \<and> fc_pii cfg = Ready policy key
    \<and> scan_request_with_external (fe_crypto W) (fe_unicode W) policy key parsed (fst (external_spans cfg parsed g))
        = (Inr report, scanned)
    \<and> resolve (proxy_config.truncate cfg) (body_model scanned) = Some r \<and> up_url req = rt_base_url r @ ''/v1/messages''
    \<and> up_body req = Some (Buffered (strip_model_prefix (fe_serde W) (json_print (fe_serde W) scanned) scanned
        (body_model scanned)))
    \<and> up_headers req = outbound_headers_with (http_env.truncate W) (rt_auth r) headers
        (provider_key_for_env_name (http_env.truncate W) (fe_tokens_dir W))"
proof -
  from assms obtain parsed where p: "json_parse (fe_serde W) payload = Some parsed"
    by (cases "json_parse (fe_serde W) payload") (auto simp: messages_def Let_def rejected_def)
  moreover from assms p have "reject_routed_mid_conversation_system (fe_serde W) (proxy_config.truncate cfg) parsed = None"
    by (cases "reject_routed_mid_conversation_system (fe_serde W) (proxy_config.truncate cfg) parsed")
      (auto simp: messages_def Let_def rejected_def)
  ultimately have run: "fo_upstream (fst (case fc_pii cfg of
        Failed _ \<Rightarrow> (rejected (json_response (fe_serde W) 503 (error_body ''PII policy engine unavailable'')) [], g)
      | Ready policy key \<Rightarrow> forward_scanned W cfg headers events taken g parsed policy key)) = Some req"
    using assms by (simp add: messages_def Let_def)
  then obtain policy key where pii: "fc_pii cfg = Ready policy key"
    by (cases "fc_pii cfg") (simp_all add: rejected_def)
  obtain ext ner_rows g' where ext: "external_spans cfg parsed g = (ext, ner_rows, g')" by (cases "external_spans cfg parsed g")
  obtain r scanned where scan: "scan_request_with_external (fe_crypto W) (fe_unicode W) policy key parsed ext = (r, scanned)"
    by (cases "scan_request_with_external (fe_crypto W) (fe_unicode W) policy key parsed ext")
  from run pii ext scan obtain report where r: "r = Inr report"
    by (cases r) (simp_all add: forward_scanned_def rejected_def)
  from run pii ext scan r obtain rt where rt: "resolve (proxy_config.truncate cfg) (body_model scanned) = Some rt"
    by (cases "resolve (proxy_config.truncate cfg) (body_model scanned)") (simp_all add: forward_scanned_def Let_def rejected_def)
  show ?thesis using run pii p ext scan r rt
    by (auto simp: forward_scanned_def Let_def split_beta split: sum.splits)
qed

text \<open>C29. The headers of a leg that is not a passthrough are exactly the protocol version and the content type
  of the caller, each when the caller sent it, and, on a bearer leg with a key that makes a valid header, the
  provider's own key; each name at most once. The credentials of the caller are never forwarded.\<close>

theorem outbound_credentials:
  assumes "a \<noteq> Bare Passthrough"
  shows "set (outbound_headers_with W a inbound lookup)
      = {(n, v). n \<in> {''anthropic-version'', ''content-type''} \<and> header_get inbound n = Some v}
      \<union> {(n, v). \<exists>env key. a = Swap env Bearer \<and> lookup env = Some key \<and> n = ''authorization''
            \<and> hv_from_str W (''Bearer '' @ key) = Some v}
    \<and> distinct (map fst (outbound_headers_with W a inbound lookup))"
proof -
  let ?names = "[''anthropic-version'', ''content-type'']"
  have copied: "set (copy_headers ?names inbound) = {(n, v). n \<in> {''anthropic-version'', ''content-type''} \<and> header_get inbound n = Some v}"
    by (auto simp: copy_headers_def split: option.splits)
  have dist: "distinct (map fst (copy_headers ?names inbound))"
    by (simp add: copy_headers_def split: option.split)
  have noauth: "filter (\<lambda>(m, _). m \<noteq> ''authorization'') (copy_headers ?names inbound) = copy_headers ?names inbound"
    by (simp add: copy_headers_def split: option.split)
  have "''authorization'' \<notin> fst ` set (copy_headers ?names inbound)" by (auto simp: copied)
  then show ?thesis
  proof (cases a)
    case (Bare b)
    with assms copied dist show ?thesis by (cases b) (simp_all add: outbound_headers_with_def)
  next
    case (Swap env sch)
    with copied dist noauth \<open>''authorization'' \<notin> _\<close> show ?thesis
      by (cases sch; cases "lookup env"; cases "hv_from_str W (''Bearer '' @ the (lookup env))")
        (auto simp: outbound_headers_with_def header_insert_def)
  qed
qed

text \<open>With the detector in the loop a request scan can still fail only because sealing a value fails: the
  lists the detector client hands over always match the leaves it was asked about.\<close>

theorem detector_never_breaks_scan:
  assumes "fst (scan_request_with_external C U policy key parsed (fst (external_spans cfg parsed g))) = Inl e"
  shows "\<exists>cat. e = SealFailed cat"
proof (rule scan_request_seal_error [OF _ assms])
  show "case fst (external_spans cfg parsed g) of None \<Rightarrow> True
    | Some lists_left \<Rightarrow> length lists_left = length (collect_scan_leaves parsed)"
  proof (cases "fc_ner cfg")
    case None
    then show ?thesis by (simp add: external_spans_def)
  next
    case (Some WN)
    obtain W N where WN: "WN = (W, N)" by (cases WN)
    obtain outcome g' where d: "detect_batch W N (collect_scan_leaves parsed) g = (outcome, g')"
      by (cases "detect_batch W N (collect_scan_leaves parsed) g")
    show ?thesis
      using detect_batch_length [of W N "collect_scan_leaves parsed" g] Some WN d
      by (cases outcome) (simp_all add: external_spans_def)
  qed
qed

text \<open>C18. For an event stream and a client that stays the relay is the rewriter: when the rewriting of the whole
  stream succeeds, the chunks sent concatenate to it; when it fails the relay is marked failed and the
  client has received the rewriting of the chunks before the first one that is refused, and then that
  error, or, when only the end of the stream is refused, the rewriting of all the chunks and no error. When the
  upstream breaks off after some chunks that are not refused, the client has received their rewriting and then
  the error of the upstream.\<close>

theorem relay_is_rewriter:
  "let cs = map fst xs; start = relay_start gen_id True;
       st = relay_finish E True (relay_loop E (arrivals xs) start);
       cut = relay_finish E True (relay_loop E (arrivals xs @ Broken why True # rest) start) in
     (case sse_stream E cs of
        Inr out \<Rightarrow> \<not> rl_errored st \<and> (\<exists>outs. rl_sent st = map Inr outs \<and> concat outs = out)
      | Inl e \<Rightarrow> rl_errored st \<and> (\<exists>n s out outs. push_chunks E (take n cs) sse_default = Inr (s, out) \<and> concat outs = out
          \<and> (if n < length cs then sse_push_chunk E (cs ! n) s = Inl e \<and> rl_sent st = map Inr outs @ [Inl (rewrite_error_str e)]
             else sse_finish E s = Inl e \<and> rl_sent st = map Inr outs)))
   \<and> (case push_chunks E cs sse_default of
        Inr (s, out) \<Rightarrow> rl_errored cut \<and> (\<exists>outs. rl_sent cut = map Inr outs @ [Inl why] \<and> concat outs = out)
      | Inl e \<Rightarrow> True)"
proof (cases rule: relay_chunks [where E = E and xs = xs and gen_id = gen_id])
  case (failed n s out outs e)
  then have "sse_stream E (map fst xs) = Inl e" by (simp add: sse_stream_def)
  moreover from failed(6) have "relay_finish E True (relay_loop E (arrivals xs) (relay_start gen_id True))
      = relay_loop E (arrivals xs) (relay_start gen_id True)" by (simp add: relay_finish_def)
  moreover have "n < length (map fst xs)" using failed(2) by simp
  ultimately show ?thesis unfolding Let_def using failed(1,3-7)
    by (simp only: sum.case if_True simp_thms) (intro exI conjI, assumption, simp_all)
next
  case (running s out outs)
  let ?fin = "relay_loop E (arrivals xs) (relay_start gen_id True)" and ?cs = "map fst xs"
  let ?cut = "relay_finish E True (relay_loop E (arrivals xs @ Broken why True # rest) (relay_start gen_id True))"
  have cut: "rl_errored ?cut" "rl_sent ?cut = map Inr outs @ [Inl why]"
    using running relay_loop_append [of E "arrivals xs" "relay_start gen_id True" "Broken why True # rest"]
    by (simp_all add: relay_finish_def offer_def)
  have all: "push_chunks E (take (length xs) ?cs) sse_default = Inr (s, out)" using running(1) by simp
  have "case sse_stream E ?cs of
        Inr out \<Rightarrow> \<not> rl_errored (relay_finish E True ?fin) \<and> (\<exists>outs. rl_sent (relay_finish E True ?fin) = map Inr outs \<and> concat outs = out)
      | Inl e \<Rightarrow> rl_errored (relay_finish E True ?fin) \<and> (\<exists>n s out outs. push_chunks E (take n ?cs) sse_default = Inr (s, out) \<and> concat outs = out
          \<and> (if n < length ?cs then sse_push_chunk E (?cs ! n) s = Inl e
               \<and> rl_sent (relay_finish E True ?fin) = map Inr outs @ [Inl (rewrite_error_str e)]
             else sse_finish E s = Inl e \<and> rl_sent (relay_finish E True ?fin) = map Inr outs))"
  proof (cases "sse_finish E s")
    case (Inl e)
    have "sse_stream E ?cs = Inl e" by (simp add: sse_stream_def running(1) Inl res_simps)
    moreover have "rl_errored (relay_finish E True ?fin)" "rl_sent (relay_finish E True ?fin) = map Inr outs"
      using running Inl by (simp_all add: relay_finish_def rewriter_finish_def)
    ultimately show ?thesis using all running(2) Inl
      by (simp only: sum.case simp_thms) (rule exI [of _ "length xs"], simp)
  next
    case (Inr rest_out)
    have "sse_stream E ?cs = Inr (out @ rest_out)" by (simp add: sse_stream_def running(1) Inr)
    moreover have "\<not> rl_errored (relay_finish E True ?fin)"
      "rl_sent (relay_finish E True ?fin) = map Inr (outs @ (if rest_out = [] then [] else [rest_out]))"
      using running Inr by (simp_all add: relay_finish_def rewriter_finish_def offer_def)
    moreover have "concat (outs @ (if rest_out = [] then [] else [rest_out])) = out @ rest_out" using running(2) by simp
    ultimately show ?thesis by (simp only: sum.case simp_thms) blast
  qed
  then show ?thesis unfolding Let_def running(1) sum.case prod.case using cut running(2) by blast
qed

text \<open>Usage is read from lines, not from chunks: as long as every chunk is valid UTF-8 and the response is
  within the sniffing buffer, the accumulated usage is that of the complete lines of the whole.\<close>

theorem sniff_chunking_irrelevant:
  assumes "list_all is_utf8 cs" and "length (concat cs) \<le> MAX_SNIFF_BUF"
  shows "snd (fold (sniff_chunk S t) cs ([], acc)) = fold (sniff_line S t) (fst (drain_complete_lines (concat cs))) acc"
  using sniff_chunks_lines [of cs "[]" S t acc] assms by (simp add: drain_None)

section \<open>Concrete requests\<close>

definition demo_usage_frame :: json where
  "demo_usage_frame = JObj [(''message'', JObj [(''usage'', JObj [(''input_tokens'', JNum ''7'')])]),
     (''type'', JStr ''message_start'')]"

definition E_ACUTE :: rstr where "E_ACUTE = [CHR 0xC3, CHR 0xA9]"

definition demo_serde :: serde where
  "demo_serde = \<lparr> json_print = (\<lambda>v. concat (collect_string_leaves v)),
     json_parse = (\<lambda>s. if s = ''body'' then Some demo_body else if s = E_ACUTE then Some demo_usage_frame else None) \<rparr>"

definition demo_route :: route where
  "demo_route = \<lparr> rt_prefix = ''anthropic'', rt_base_url = ''https://a'', rt_auth = Swap ''K'' Bearer,
     rt_provider_kind = [], rt_provider_id = ''p'' \<rparr>"

definition demo_forward :: forward_env where
  "demo_forward = http_env.extend demo_http
     \<lparr> fe_crypto = demo_crypto, fe_unicode = ascii_unicode, fe_serde = demo_serde, fe_post = (\<lambda>_. Inl [''refused'']),
       fe_sha256 = (\<lambda>b. b), fe_tokens_dir = None, fe_now = [], fe_latency_ms = 0 \<rparr>"

definition demo_config :: forward_config where
  "demo_config = proxy_config.extend (demo_cfg \<lparr> pc_routes := [demo_route] \<rparr>)
     \<lparr> fc_pii = Ready demo_policy demo_key, fc_ner = None \<rparr>"

definition demo_sent :: upstream_request where
  "demo_sent = \<lparr> up_method = POST, up_url = ''https://a/v1/messages'', up_headers = [],
     up_body = Some (Buffered ''to [EMAIL:TOKEN_6b454d41494c23616e6e40782e706c] and bobusermbe kind'') \<rparr>"

lemma messages_sends_scanned_witness:
  "\<exists>(r :: route) scanned. resolve (proxy_config.truncate demo_config) (body_model scanned) = Some r
     \<and> up_url demo_sent = rt_base_url r @ ''/v1/messages''"
proof -
  have "fo_upstream (fst (messages demo_forward demo_config [] ''body'' (\<lambda>_. []) True no_generations)) = Some demo_sent"
    by code_simp
  from messages_sends_scanned [OF this] show ?thesis by blast
qed

lemma outbound_credentials_witness:
  "set (outbound_headers_with demo_http (Swap ''K'' Bearer) [(''authorization'', ''mine''), (''content-type'', ''json'')] (\<lambda>_. Some ''k''))
    = {(''content-type'', ''json''), (''authorization'', ''Bearer k'')}"
proof -
  let ?in = "[(''authorization'', ''mine''), (''content-type'', ''json'')]"
  have key: "hv_from_str demo_http (''Bearer '' @ key) = Some v \<longleftrightarrow> v = ''Bearer '' @ key" for key v
    by (auto simp: demo_http_def)
  have copied: "{(n, v). n \<in> {''anthropic-version'', ''content-type''} \<and> header_get ?in n = Some v} = {(''content-type'', ''json'')}"
    by (auto simp: header_get_def)
  have own: "{(n, v). \<exists>env key. Swap ''K'' Bearer = Swap env Bearer \<and> (\<lambda>_. Some ''k'') env = Some key \<and> n = ''authorization''
      \<and> hv_from_str demo_http (''Bearer '' @ key) = Some v} = {(''authorization'', ''Bearer k'')}"
    unfolding key by auto
  have "Swap ''K'' Bearer \<noteq> Bare Passthrough" by simp
  note outbound_credentials [OF this, of demo_http ?in "\<lambda>_. Some ''k''", THEN conjunct1]
  then show ?thesis unfolding copied own by blast
qed

lemma detector_never_breaks_scan_witness: "\<exists>cat. SealFailed ''EMAIL'' = SealFailed cat"
proof (rule detector_never_breaks_scan)
  show "fst (scan_request_with_external broken_crypto ascii_unicode demo_policy demo_key demo_body
      (fst (external_spans demo_config demo_body no_generations))) = Inl (SealFailed ''EMAIL'')"
    by code_simp
qed

lemma sniff_chunking_irrelevant_witness:
  "snd (fold (sniff_chunk demo_serde 0) [''data: '', E_ACUTE, [CHR 0x0A]] ([], usage_default))
     = fold (sniff_line demo_serde 0) (fst (drain_complete_lines (concat [''data: '', E_ACUTE, [CHR 0x0A]]))) usage_default"
proof (rule sniff_chunking_irrelevant)
  show "list_all is_utf8 [''data: '', E_ACUTE, [CHR 0x0A]]" by code_simp
  show "length (concat [''data: '', E_ACUTE, [CHR 0x0A]]) \<le> MAX_SNIFF_BUF"
    by (simp add: E_ACUTE_def MAX_SNIFF_BUF_def)
qed

lemma demo_sniff_line:
  "sniff_line demo_serde 0 (''data: '' @ E_ACUTE) usage_default = usage_default \<lparr> ua_prompt_tokens := 7, ua_saw_usage := True \<rparr>"
proof -
  have seven: "as_u64 (JNum ''7'') = Some 7"
  proof -
    have "u64_to_string 7 = ''7''" by code_simp
    with as_u64_to_string [of 7] show ?thesis by simp
  qed
  have "strip_prefix ''data: '' (''data: '' @ E_ACUTE) = Some E_ACUTE" "E_ACUTE \<noteq> ''[DONE]''"
    "json_parse demo_serde E_ACUTE = Some demo_usage_frame" by code_simp+
  moreover have "sniff demo_usage_frame usage_default = usage_default \<lparr> ua_prompt_tokens := 7, ua_saw_usage := True \<rparr>"
    by (simp add: sniff_def sniff_gen_id_def sniff_counters_def demo_usage_frame_def u64_field_def str_field_def
        json_get_def as_str_def Let_def usage_default_def seven)
  moreover have "note_first_text_delta demo_usage_frame 0 acc = acc" for acc
    by (simp add: note_first_text_delta_def demo_usage_frame_def str_field_def json_get_def as_str_def)
  ultimately show ?thesis by (simp add: sniff_line_def)
qed

text \<open>A chunk that ends inside a character is lost to the accounting: the same line of a response is counted
  when it arrives whole and not counted when it arrives in two chunks cut inside a character.\<close>

theorem sniff_loses_split_character:
  "let start = ([], usage_default);
       whole = sniff_chunk demo_serde 0 (''data: '' @ E_ACUTE @ [CHR 0x0A]) start;
       halves = fold (sniff_chunk demo_serde 0) [''data: '' @ take 1 E_ACUTE, drop 1 E_ACUTE @ [CHR 0x0A]] start
   in ua_prompt_tokens (snd whole) = 7 \<and> ua_saw_usage (snd whole) \<and> halves = start"
proof -
  let ?w = "''data: '' @ E_ACUTE @ [CHR 0x0A]"
  have "list_all is_utf8 [?w]" by code_simp
  moreover have "length ([] @ concat [?w]) \<le> MAX_SNIFF_BUF" by (simp add: E_ACUTE_def MAX_SNIFF_BUF_def)
  ultimately have "sniff_chunk demo_serde 0 ?w ([], usage_default) = (snd (drain_complete_lines ?w),
      fold (sniff_line demo_serde 0) (fst (drain_complete_lines ?w)) usage_default)"
    using sniff_chunks_lines [of "[?w]" "[]" demo_serde 0 usage_default] by (simp add: drain_None)
  moreover have "fst (drain_complete_lines ?w) = [''data: '' @ E_ACUTE]" by code_simp
  moreover note demo_sniff_line
  moreover have "from_utf8 (''data: '' @ take 1 E_ACUTE) = None" "from_utf8 (drop 1 E_ACUTE @ [CHR 0x0A]) = None"
    by code_simp+
  ultimately show ?thesis by (simp add: sniff_chunk_def Let_def)
qed

text \<open>The upstream's \<open>Content-Length\<close> is relayed although the body is rewritten: a buffered response of 31
  bytes, one token, is answered with three bytes under a length of 31.\<close>

theorem stale_content_length:
  "let body = ''[NAME:TOKEN_6b4e414d4523626f62]'';
       upstream = \<lparr> rsp_status = 200,
         rsp_headers = [(''content-length'', nat_str (length body)), (''connection'', ''close'')], rsp_body = Streamed [Inr body] \<rparr>
   in relay_response demo_forward demo_env ''m'' demo_route None upstream [Arrived body 1 True] True
        = (\<lparr> rsp_status = 200, rsp_headers = [(''content-length'', ''31'')], rsp_body = Streamed [Inr ''bob''] \<rparr>, [])"
proof -
  let ?b = "''[NAME:TOKEN_6b4e414d4523626f62]''"
  have "buffer_finish demo_crypto ascii_unicode ?b [] demo_key = Inr ''bob''" "nat_str (length ?b) = ''31''"
    "is_event_stream (http_env.truncate demo_forward) [(''content-length'', ''31''), (''connection'', ''close'')] = False"
    "is_hop_by_hop ''connection''" "\<not> is_hop_by_hop ''content-length''"
    by code_simp+
  moreover have "from_utf8 ?b = Some ?b" "drain_complete_lines ?b = ([], ?b)" by code_simp+
  then have "sniff_chunk S t ?b ([], acc) = (?b, acc)" for S t acc
    by (simp add: sniff_chunk_def bound_sniff_buffer_def MAX_SNIFF_BUF_def)
  ultimately show ?thesis
    by (simp add: relay_response_def Let_def relay_start_def rewriter_new_def rewriter_push_chunk_def
        buffer_push_chunk_def MAX_BUFFERED_BYTES_def relay_finish_def rewriter_finish_def demo_env_def offer_def
        usage_finish_def usage_default_def)
qed

end
