(* ===== verification/Compose_Yaml.thy ===== *)
theory Compose_Yaml
  imports Proxy_Ner
begin

text \<open>
  The documents the compose security gate reads, and the small parsers it reads them with
  (\<open>crates/speedwave-runtime/src/compose/security_check.rs\<close>, helpers). A YAML document is the value
  tree of the serde-yaml crate; its accessors look through tags. The lemmas describe the two
  parsers the gate rests on: volume strings and normalised mount targets.
\<close>

section \<open>Characters of the messages\<close>

definition SQ :: rstr where "SQ = [CHR 0x27]"
definition DQ :: rstr where "DQ = [CHR 0x22]"
definition EM_DASH :: rstr where "EM_DASH = [CHR 0xE2, CHR 0x80, CHR 0x94]"

section \<open>YAML values\<close>

datatype yaml =
    YNull
  | YBool bool
  | YNum rstr
  | YStr rstr
  | YSeq "yaml list"
  | YMap "(yaml \<times> yaml) list"
  | YTagged rstr yaml

fun untag :: "yaml \<Rightarrow> yaml" where
  "untag (YTagged _ v) = untag v"
| "untag v = v"

definition yaml_str :: "yaml \<Rightarrow> rstr option" where
  "yaml_str v = (case untag v of YStr s \<Rightarrow> Some s | _ \<Rightarrow> None)"

definition yaml_bool :: "yaml \<Rightarrow> bool option" where
  "yaml_bool v = (case untag v of YBool b \<Rightarrow> Some b | _ \<Rightarrow> None)"

definition yaml_is_number :: "yaml \<Rightarrow> bool" where
  "yaml_is_number v = (case untag v of YNum _ \<Rightarrow> True | _ \<Rightarrow> False)"

definition yaml_seq :: "yaml \<Rightarrow> yaml list option" where
  "yaml_seq v = (case untag v of YSeq vs \<Rightarrow> Some vs | _ \<Rightarrow> None)"

definition yaml_map :: "yaml \<Rightarrow> (yaml \<times> yaml) list option" where
  "yaml_map v = (case untag v of YMap kvs \<Rightarrow> Some kvs | _ \<Rightarrow> None)"

definition yaml_get :: "rstr \<Rightarrow> yaml \<Rightarrow> yaml option" where
  "yaml_get k v = Option.bind (yaml_map v) (\<lambda>kvs. map_of kvs (YStr k))"

definition yaml_get_str :: "rstr \<Rightarrow> yaml \<Rightarrow> rstr option" where
  "yaml_get_str k v = Option.bind (yaml_get k v) yaml_str"

definition yaml_get_seq :: "rstr \<Rightarrow> yaml \<Rightarrow> yaml list option" where
  "yaml_get_seq k v = Option.bind (yaml_get k v) yaml_seq"

text \<open>The services of a document: the entries of its services mapping whose key is a string.\<close>

definition get_services :: "yaml \<Rightarrow> (rstr \<times> yaml) list option" where
  "get_services doc =
     map_option (\<lambda>kvs. List.map_filter (\<lambda>(k, v). map_option (\<lambda>name. (name, v)) (yaml_str k)) kvs)
       (Option.bind (yaml_get ''services'' doc) yaml_map)"

definition is_plugin_service :: "yaml \<Rightarrow> bool" where
  "is_plugin_service service \<longleftrightarrow>
     Option.bind (yaml_get ''labels'' service) (yaml_get_str ''speedwave.plugin-service'') = Some ''true''"

text \<open>The networks entry is matched without looking through a tag.\<close>

definition service_network_refs :: "yaml \<Rightarrow> rstr list" where
  "service_network_refs service =
     (case yaml_get ''networks'' service of
        Some (YSeq vs) \<Rightarrow> List.map_filter yaml_str vs
      | Some (YMap kvs) \<Rightarrow> List.map_filter (\<lambda>(k, _). yaml_str k) kvs
      | _ \<Rightarrow> [])"

definition service_env_values :: "yaml \<Rightarrow> rstr \<Rightarrow> rstr list" where
  "service_env_values service key =
     (case yaml_get ''environment'' service of
        None \<Rightarrow> []
      | Some env \<Rightarrow>
          (case yaml_seq env of
             Some vs \<Rightarrow>
               List.map_filter (\<lambda>s. Option.bind (strip_prefix key s) (strip_prefix ''=''))
                 (List.map_filter yaml_str vs)
           | None \<Rightarrow> (case yaml_get_str key env of Some s \<Rightarrow> [s] | None \<Rightarrow> [])))"

section \<open>Volume strings\<close>

text \<open>Where the absolute container target starts; a drive letter before the colon is stepped over.\<close>

function volume_sep :: "rstr \<Rightarrow> nat \<Rightarrow> nat option" where
  "volume_sep vol search_from =
     (case find_str '':/'' (drop search_from vol) of
        None \<Rightarrow> None
      | Some i \<Rightarrow>
          (let pos = i + search_from in
           if pos = 1 \<and> (is_ascii_lowercase (vol ! 0) \<or> is_ascii_uppercase (vol ! 0)) then volume_sep vol (pos + 1)
           else Some pos))"
  by pat_completeness auto
termination
  by (relation "measure (\<lambda>(vol, search_from). 2 - search_from)") auto

declare volume_sep.simps [simp del]

definition rfind_byte :: "byte \<Rightarrow> rstr \<Rightarrow> nat option" where
  "rfind_byte b s = map_option (\<lambda>i. length s - 1 - i) (position ((=) b) (rev s))"

definition parse_short_form_volume :: "rstr \<Rightarrow> (rstr \<times> rstr \<times> rstr option) option" where
  "parse_short_form_volume vol =
     (case volume_sep vol 0 of
        None \<Rightarrow> None
      | Some sep \<Rightarrow>
          (let host = take sep vol; rest = drop (sep + 1) vol in
           case rfind_byte (CHR '':'') rest of
             Some pos \<Rightarrow>
               (if pos > 0 \<and> CHR ''/'' \<notin> set (drop (pos + 1) rest)
                then Some (host, take pos rest, Some (drop (pos + 1) rest))
                else Some (host, rest, None))
           | None \<Rightarrow> Some (host, rest, None)))"

definition extract_volume_for_target :: "rstr \<Rightarrow> rstr \<Rightarrow> (rstr \<times> rstr option) option" where
  "extract_volume_for_target vol target =
     (case parse_short_form_volume vol of
        None \<Rightarrow> None
      | Some (host, parsed_target, mode) \<Rightarrow> (if parsed_target = target then Some (host, mode) else None))"

definition mount_source :: "yaml \<Rightarrow> rstr option" where
  "mount_source vol =
     (case yaml_str vol of
        Some s \<Rightarrow> Some (hd (split_byte (CHR '':'') s))
      | None \<Rightarrow>
          (if yaml_get_str ''type'' vol \<in> {None, Some ''bind''} then yaml_get_str ''source'' vol else None))"

section \<open>Mount targets\<close>

fun normal_segments :: "rstr list \<Rightarrow> rstr list \<Rightarrow> rstr list" where
  "normal_segments segs [] = segs"
| "normal_segments segs (seg # rest) =
     (if seg = [] \<or> seg = ''.'' then normal_segments segs rest
      else if seg = ''..'' then normal_segments (butlast segs) rest
      else normal_segments (segs @ [seg]) rest)"

definition normalize_mount_target :: "rstr \<Rightarrow> rstr" where
  "normalize_mount_target target =
     ''/'' @ join_byte (CHR ''/'') (normal_segments [] (split_byte (CHR ''/'') target))"

definition is_mount_area_target :: "rstr \<Rightarrow> rstr \<Rightarrow> bool" where
  "is_mount_area_target normalized area \<longleftrightarrow> normalized = area \<or> starts_with (area @ ''/'') normalized"

definition short_form_targets_area :: "rstr \<Rightarrow> rstr \<Rightarrow> bool" where
  "short_form_targets_area entry area =
     (let flds = split_byte (CHR '':'') entry; n = length flds;
          candidates = (if n \<le> 1 then take n flds else if n \<le> 3 then take 1 (drop 1 flds) else flds)
      in list_ex (\<lambda>t. is_mount_area_target (normalize_mount_target t) area) candidates)"

end
