(* ===== verification/Security_Rules.thy ===== *)
theory Security_Rules
  imports Compose_Yaml
begin

text \<open>
  The rules of the compose security gate and the violations it reports
  (\<open>crates/speedwave-runtime/src/compose/security_check.rs\<close>), and the mount rules of one service:
  which volumes a plugin or a built-in worker may have. The lemmas characterise the service check:
  it reports nothing exactly for the volumes it allows.
\<close>

section \<open>Rules and violations\<close>

datatype (plugins only: code) security_rule =
    YamlParseError
  | CapDropAll
  | NoNewPrivs
  | ReadOnlyFs
  | TmpfsNoexec
  | NoTokensClaude
  | NoTokensHub
  | PortsLocalhost
  | NoSocketClaude
  | NoExternalLlmKeysClaude
  | NoPortsWorkers
  | ContainerUser
  | PluginNoPrivileged
  | PluginNoHostNetwork
  | PluginManifestMissing
  | PluginVolumeLongForm
  | PluginTokenPathMismatch
  | PluginTokenMountMode
  | PluginWorkspacePathMismatch
  | PluginWorkspaceMountMode
  | PluginNoExtraVolumes
  | PluginMissingTokensMount
  | PluginMissingWorkspaceMount
  | SharepointVolumeLongForm
  | SharepointTokenPathMismatch
  | SharepointWorkspacePathMismatch
  | SharepointWorkspaceMountMode
  | SharepointNoExtraVolumes
  | SharepointMissingTokensMount
  | SharepointMissingWorkspaceMount
  | SlackVolumeLongForm
  | SlackTokenPathMismatch
  | SlackWorkspacePathMismatch
  | SlackWorkspaceMountMode
  | SlackNoExtraVolumes
  | SlackMissingTokensMount
  | SlackMissingWorkspaceMount
  | AtlassianVolumeLongForm
  | AtlassianTokenPathMismatch
  | AtlassianWorkspacePathMismatch
  | AtlassianWorkspaceMountMode
  | AtlassianNoExtraVolumes
  | AtlassianMissingTokensMount
  | AtlassianMissingWorkspaceMount
  | SpeedwaveProxyVolumes
  | SpeedwaveProxyNerUrl
  | ManagedSettingsMount
  | HubPolicyMount
  | ProxyPolicyMount
  | AuditMount
  | NoPolicyOrAuditMountClaude
  | ClaudeWorkspaceMount
  | EgressLessNetworkExternal
  | FileSecurityViolation

definition rule_str :: "security_rule \<Rightarrow> rstr" where
  "rule_str r =
     (case r of
        YamlParseError \<Rightarrow> ''YAML_PARSE_ERROR''
      | CapDropAll \<Rightarrow> ''CAP_DROP_ALL''
      | NoNewPrivs \<Rightarrow> ''NO_NEW_PRIVS''
      | ReadOnlyFs \<Rightarrow> ''READ_ONLY_FS''
      | TmpfsNoexec \<Rightarrow> ''TMPFS_NOEXEC''
      | NoTokensClaude \<Rightarrow> ''NO_TOKENS_CLAUDE''
      | NoTokensHub \<Rightarrow> ''NO_TOKENS_HUB''
      | PortsLocalhost \<Rightarrow> ''PORTS_LOCALHOST''
      | NoSocketClaude \<Rightarrow> ''NO_SOCKET_CLAUDE''
      | NoExternalLlmKeysClaude \<Rightarrow> ''NO_EXTERNAL_LLM_KEYS_CLAUDE''
      | NoPortsWorkers \<Rightarrow> ''NO_PORTS_WORKERS''
      | ContainerUser \<Rightarrow> ''CONTAINER_USER''
      | PluginNoPrivileged \<Rightarrow> ''PLUGIN_NO_PRIVILEGED''
      | PluginNoHostNetwork \<Rightarrow> ''PLUGIN_NO_HOST_NETWORK''
      | PluginManifestMissing \<Rightarrow> ''PLUGIN_MANIFEST_MISSING''
      | PluginVolumeLongForm \<Rightarrow> ''PLUGIN_VOLUME_LONG_FORM''
      | PluginTokenPathMismatch \<Rightarrow> ''PLUGIN_TOKEN_PATH_MISMATCH''
      | PluginTokenMountMode \<Rightarrow> ''PLUGIN_TOKEN_MOUNT_MODE''
      | PluginWorkspacePathMismatch \<Rightarrow> ''PLUGIN_WORKSPACE_PATH_MISMATCH''
      | PluginWorkspaceMountMode \<Rightarrow> ''PLUGIN_WORKSPACE_MOUNT_MODE''
      | PluginNoExtraVolumes \<Rightarrow> ''PLUGIN_NO_EXTRA_VOLUMES''
      | PluginMissingTokensMount \<Rightarrow> ''PLUGIN_MISSING_TOKENS_MOUNT''
      | PluginMissingWorkspaceMount \<Rightarrow> ''PLUGIN_MISSING_WORKSPACE_MOUNT''
      | SharepointVolumeLongForm \<Rightarrow> ''SHAREPOINT_VOLUME_LONG_FORM''
      | SharepointTokenPathMismatch \<Rightarrow> ''SHAREPOINT_TOKEN_PATH_MISMATCH''
      | SharepointWorkspacePathMismatch \<Rightarrow> ''SHAREPOINT_WORKSPACE_PATH_MISMATCH''
      | SharepointWorkspaceMountMode \<Rightarrow> ''SHAREPOINT_WORKSPACE_MOUNT_MODE''
      | SharepointNoExtraVolumes \<Rightarrow> ''SHAREPOINT_NO_EXTRA_VOLUMES''
      | SharepointMissingTokensMount \<Rightarrow> ''SHAREPOINT_MISSING_TOKENS_MOUNT''
      | SharepointMissingWorkspaceMount \<Rightarrow> ''SHAREPOINT_MISSING_WORKSPACE_MOUNT''
      | SlackVolumeLongForm \<Rightarrow> ''SLACK_VOLUME_LONG_FORM''
      | SlackTokenPathMismatch \<Rightarrow> ''SLACK_TOKEN_PATH_MISMATCH''
      | SlackWorkspacePathMismatch \<Rightarrow> ''SLACK_WORKSPACE_PATH_MISMATCH''
      | SlackWorkspaceMountMode \<Rightarrow> ''SLACK_WORKSPACE_MOUNT_MODE''
      | SlackNoExtraVolumes \<Rightarrow> ''SLACK_NO_EXTRA_VOLUMES''
      | SlackMissingTokensMount \<Rightarrow> ''SLACK_MISSING_TOKENS_MOUNT''
      | SlackMissingWorkspaceMount \<Rightarrow> ''SLACK_MISSING_WORKSPACE_MOUNT''
      | AtlassianVolumeLongForm \<Rightarrow> ''ATLASSIAN_VOLUME_LONG_FORM''
      | AtlassianTokenPathMismatch \<Rightarrow> ''ATLASSIAN_TOKEN_PATH_MISMATCH''
      | AtlassianWorkspacePathMismatch \<Rightarrow> ''ATLASSIAN_WORKSPACE_PATH_MISMATCH''
      | AtlassianWorkspaceMountMode \<Rightarrow> ''ATLASSIAN_WORKSPACE_MOUNT_MODE''
      | AtlassianNoExtraVolumes \<Rightarrow> ''ATLASSIAN_NO_EXTRA_VOLUMES''
      | AtlassianMissingTokensMount \<Rightarrow> ''ATLASSIAN_MISSING_TOKENS_MOUNT''
      | AtlassianMissingWorkspaceMount \<Rightarrow> ''ATLASSIAN_MISSING_WORKSPACE_MOUNT''
      | SpeedwaveProxyVolumes \<Rightarrow> ''PROXY_VOLUMES''
      | SpeedwaveProxyNerUrl \<Rightarrow> ''PROXY_NER_URL''
      | ManagedSettingsMount \<Rightarrow> ''MANAGED_SETTINGS_MOUNT''
      | HubPolicyMount \<Rightarrow> ''HUB_POLICY_MOUNT''
      | ProxyPolicyMount \<Rightarrow> ''PROXY_POLICY_MOUNT''
      | AuditMount \<Rightarrow> ''AUDIT_MOUNT''
      | NoPolicyOrAuditMountClaude \<Rightarrow> ''NO_POLICY_OR_AUDIT_MOUNT_CLAUDE''
      | ClaudeWorkspaceMount \<Rightarrow> ''CLAUDE_WORKSPACE_MOUNT''
      | EgressLessNetworkExternal \<Rightarrow> ''EGRESS_LESS_NETWORK_EXTERNAL''
      | FileSecurityViolation \<Rightarrow> ''FILE_SECURITY_VIOLATION'')"

definition description :: "security_rule \<Rightarrow> rstr" where
  "description r =
     (case r of
        YamlParseError \<Rightarrow> ''Compose YAML is parseable''
      | CapDropAll \<Rightarrow> ''All containers have cap_drop: [ALL]''
      | NoNewPrivs \<Rightarrow> ''All containers have no-new-privileges''
      | ReadOnlyFs \<Rightarrow> ''Core containers have read-only filesystem''
      | TmpfsNoexec \<Rightarrow> ''Core containers have /tmp as tmpfs with noexec''
      | NoTokensClaude \<Rightarrow> ''Claude container has no token/key/secret env vars''
      | NoTokensHub \<Rightarrow> ''Hub has no token env vars (only WORKER_*_URL)''
      | PortsLocalhost \<Rightarrow> ''All exposed ports bind to 127.0.0.1''
      | NoSocketClaude \<Rightarrow> ''Claude container has no docker/nerdctl socket''
      | NoExternalLlmKeysClaude \<Rightarrow> ''Claude container has no external LLM API keys''
      | NoPortsWorkers \<Rightarrow> ''Built-in workers do not expose ports''
      | ContainerUser \<Rightarrow> ''All containers use correct platform user''
      | PluginNoPrivileged \<Rightarrow> ''Plugin containers are not privileged''
      | PluginNoHostNetwork \<Rightarrow> ''Plugin containers do not use host network''
      | PluginManifestMissing \<Rightarrow> ''All plugin services have signed manifests''
      | PluginVolumeLongForm \<Rightarrow> ''Plugin volumes use short-form only''
      | PluginTokenPathMismatch \<Rightarrow> ''Plugin token mount paths match expected''
      | PluginTokenMountMode \<Rightarrow> ''Plugin token mount modes match manifest''
      | PluginWorkspacePathMismatch \<Rightarrow> ''Plugin workspace paths match expected''
      | PluginWorkspaceMountMode \<Rightarrow> ''Plugin workspace mount mode is :rw''
      | PluginNoExtraVolumes \<Rightarrow> ''Plugin containers have no extra volumes''
      | PluginMissingTokensMount \<Rightarrow> ''Plugin containers have /tokens mount''
      | PluginMissingWorkspaceMount \<Rightarrow> ''Plugin containers have /workspace mount''
      | SharepointVolumeLongForm \<Rightarrow> ''SharePoint volumes use short-form only''
      | SharepointTokenPathMismatch \<Rightarrow> ''SharePoint token path matches expected''
      | SharepointWorkspacePathMismatch \<Rightarrow> ''SharePoint workspace path matches expected''
      | SharepointWorkspaceMountMode \<Rightarrow> ''SharePoint workspace mount mode is :rw''
      | SharepointNoExtraVolumes \<Rightarrow> ''SharePoint has no extra volumes''
      | SharepointMissingTokensMount \<Rightarrow> ''SharePoint has /tokens mount''
      | SharepointMissingWorkspaceMount \<Rightarrow> ''SharePoint has /workspace mount''
      | SlackVolumeLongForm \<Rightarrow> ''Slack volumes use short-form only''
      | SlackTokenPathMismatch \<Rightarrow> ''Slack token path matches expected''
      | SlackWorkspacePathMismatch \<Rightarrow> ''Slack workspace path matches expected''
      | SlackWorkspaceMountMode \<Rightarrow> ''Slack workspace mount mode is :rw''
      | SlackNoExtraVolumes \<Rightarrow> ''Slack has no extra volumes''
      | SlackMissingTokensMount \<Rightarrow> ''Slack has /tokens mount''
      | SlackMissingWorkspaceMount \<Rightarrow> ''Slack has /workspace mount''
      | AtlassianVolumeLongForm \<Rightarrow> ''Atlassian volumes use short-form only''
      | AtlassianTokenPathMismatch \<Rightarrow> ''Atlassian token path matches expected''
      | AtlassianWorkspacePathMismatch \<Rightarrow> ''Atlassian workspace path matches expected''
      | AtlassianWorkspaceMountMode \<Rightarrow> ''Atlassian workspace mount mode is :ro''
      | AtlassianNoExtraVolumes \<Rightarrow> ''Atlassian has no extra volumes''
      | AtlassianMissingTokensMount \<Rightarrow> ''Atlassian has /tokens mount''
      | AtlassianMissingWorkspaceMount \<Rightarrow> ''Atlassian has /workspace mount''
      | SpeedwaveProxyVolumes \<Rightarrow> ''Speedwave proxy mounts are config:ro, tokens:ro, usage:rw and the optional github/gitlab git token mounts only''
      | SpeedwaveProxyNerUrl \<Rightarrow> ''proxy.json ner.url targets the host gateway alias over http with no path''
      | ManagedSettingsMount \<Rightarrow> ''claude managed-settings.json mount is :ro from the managed dir at the exact path''
      | HubPolicyMount \<Rightarrow> ''mcp-hub policy.json mount is present, :ro, and sourced from the policy dir''
      | ProxyPolicyMount \<Rightarrow> ''proxy policy.json mount is present, :ro, and sourced from the policy dir''
      | AuditMount \<Rightarrow> ''proxy/mcp-hub audit directory mount is present, :rw, and sourced from the audit dir''
      | NoPolicyOrAuditMountClaude \<Rightarrow> ''claude has no PII policy or audit directory mount''
      | ClaudeWorkspaceMount \<Rightarrow> ''claude volumes match the renderer target allowlist (sources and modes; plugin claude-resources :ro)''
      | EgressLessNetworkExternal \<Rightarrow> (''The project'' @ SQ @ ''s egress-less networks are external (pre-created --internal) and only their worker and the hub join them'')
      | FileSecurityViolation \<Rightarrow> ''Host file permissions and ownership are correct'')"

definition is_sharepoint :: "security_rule \<Rightarrow> bool" where
  "is_sharepoint r \<longleftrightarrow> r \<in> {SharepointVolumeLongForm, SharepointTokenPathMismatch, SharepointWorkspacePathMismatch, SharepointWorkspaceMountMode, SharepointNoExtraVolumes, SharepointMissingTokensMount, SharepointMissingWorkspaceMount}"

definition is_slack :: "security_rule \<Rightarrow> bool" where
  "is_slack r \<longleftrightarrow> r \<in> {SlackVolumeLongForm, SlackTokenPathMismatch, SlackWorkspacePathMismatch, SlackWorkspaceMountMode, SlackNoExtraVolumes, SlackMissingTokensMount, SlackMissingWorkspaceMount}"

definition is_atlassian :: "security_rule \<Rightarrow> bool" where
  "is_atlassian r \<longleftrightarrow> r \<in> {AtlassianVolumeLongForm, AtlassianTokenPathMismatch, AtlassianWorkspacePathMismatch, AtlassianWorkspaceMountMode, AtlassianNoExtraVolumes, AtlassianMissingTokensMount, AtlassianMissingWorkspaceMount}"

record violation =
  vi_container :: rstr
  vi_rule :: security_rule
  vi_message :: rstr
  vi_remediation :: rstr

definition violation_new :: "rstr \<Rightarrow> security_rule \<Rightarrow> rstr \<Rightarrow> rstr \<Rightarrow> violation" where
  "violation_new container rule message remediation =
     \<lparr> vi_container = container, vi_rule = rule, vi_message = message, vi_remediation = remediation \<rparr>"

definition violation_str :: "violation \<Rightarrow> rstr" where
  "violation_str v =
     ''['' @ vi_container v @ ''] '' @ rule_str (vi_rule v) @ '' -- '' @ vi_message v @ [CHR 0x0A] @ ''  Fix: '' @ vi_remediation v"

section \<open>The volumes of one service\<close>

record volume_check_rules =
  vr_volume_long_form :: security_rule
  vr_volume_long_form_msg :: rstr
  vr_volume_long_form_rem :: rstr
  vr_token_path_mismatch :: security_rule
  vr_token_path_mismatch_rem :: rstr
  vr_token_mount_mode :: security_rule
  vr_token_mount_mode_msg :: rstr
  vr_token_mount_mode_rem :: rstr
  vr_workspace_path_mismatch :: security_rule
  vr_workspace_mount_mode :: security_rule
  vr_workspace_mount_mode_msg :: rstr
  vr_workspace_mount_mode_rem :: rstr
  vr_no_extra_volumes :: security_rule
  vr_no_extra_volumes_msg_prefix :: rstr
  vr_no_extra_volumes_rem :: rstr
  vr_missing_tokens :: security_rule
  vr_missing_tokens_msg :: rstr
  vr_missing_tokens_rem :: rstr
  vr_missing_workspace :: security_rule
  vr_missing_workspace_msg :: rstr
  vr_missing_workspace_rem :: rstr

definition PLUGIN_RULES :: volume_check_rules where
  "PLUGIN_RULES =
     \<lparr> vr_volume_long_form = PluginVolumeLongForm,
       vr_volume_long_form_msg = (''Plugin volume uses long-form YAML mapping '' @ EM_DASH @ '' only short-form strings allowed''),
       vr_volume_long_form_rem = (''Use short-form volume strings: '' @ SQ @ ''host:container:mode'' @ SQ @ ''.''),
       vr_token_path_mismatch = PluginTokenPathMismatch,
       vr_token_path_mismatch_rem = ''Token mount must use the project-specific tokens directory.'',
       vr_token_mount_mode = PluginTokenMountMode,
       vr_token_mount_mode_msg = ''Token mount mode does not match expected mode'',
       vr_token_mount_mode_rem = ''Ensure the token volume mount mode matches the expected mode.'',
       vr_workspace_path_mismatch = PluginWorkspacePathMismatch,
       vr_workspace_mount_mode = PluginWorkspaceMountMode,
       vr_workspace_mount_mode_msg = ''Workspace mount must be :rw'',
       vr_workspace_mount_mode_rem = ''Change the workspace volume mount to :rw.'',
       vr_no_extra_volumes = PluginNoExtraVolumes,
       vr_no_extra_volumes_msg_prefix = ''Plugin service has unauthorized volume mount:'',
       vr_no_extra_volumes_rem = ''Plugin services may only mount /tokens and /workspace.'',
       vr_missing_tokens = PluginMissingTokensMount,
       vr_missing_tokens_msg = ''Plugin service is missing required /tokens mount'',
       vr_missing_tokens_rem = ''Plugin services must mount /tokens.'',
       vr_missing_workspace = PluginMissingWorkspaceMount,
       vr_missing_workspace_msg = ''Plugin service is missing required /workspace mount'',
       vr_missing_workspace_rem = ''Plugin services must mount /workspace:rw.'' \<rparr>"

definition SHAREPOINT_RULES :: volume_check_rules where
  "SHAREPOINT_RULES =
     \<lparr> vr_volume_long_form = SharepointVolumeLongForm,
       vr_volume_long_form_msg = ''SharePoint volume uses long-form YAML mapping'',
       vr_volume_long_form_rem = ''Use short-form volume strings.'',
       vr_token_path_mismatch = SharepointTokenPathMismatch,
       vr_token_path_mismatch_rem = ''SharePoint token mount must use the project-specific tokens directory.'',
       vr_token_mount_mode = PluginTokenMountMode,
       vr_token_mount_mode_msg = ''SharePoint token mount must be :ro (ADR-060)'',
       vr_token_mount_mode_rem = ''SharePoint refresh moved to the host-side `oauth` worker; /tokens must be :ro like every other worker.'',
       vr_workspace_path_mismatch = SharepointWorkspacePathMismatch,
       vr_workspace_mount_mode = SharepointWorkspaceMountMode,
       vr_workspace_mount_mode_msg = ''SharePoint workspace mount must be :rw'',
       vr_workspace_mount_mode_rem = ''Change the SharePoint workspace volume mount to :rw.'',
       vr_no_extra_volumes = SharepointNoExtraVolumes,
       vr_no_extra_volumes_msg_prefix = ''SharePoint service has unauthorized volume mount:'',
       vr_no_extra_volumes_rem = ''SharePoint may mount /tokens, /workspace, and the per-service oauth bearer.'',
       vr_missing_tokens = SharepointMissingTokensMount,
       vr_missing_tokens_msg = ''SharePoint service is missing required /tokens mount'',
       vr_missing_tokens_rem = ''SharePoint must mount /tokens:ro.'',
       vr_missing_workspace = SharepointMissingWorkspaceMount,
       vr_missing_workspace_msg = ''SharePoint service is missing required /workspace mount'',
       vr_missing_workspace_rem = ''SharePoint must mount /workspace:rw.'' \<rparr>"

definition SLACK_RULES :: volume_check_rules where
  "SLACK_RULES =
     \<lparr> vr_volume_long_form = SlackVolumeLongForm,
       vr_volume_long_form_msg = ''Slack volume uses long-form YAML mapping'',
       vr_volume_long_form_rem = ''Use short-form volume strings.'',
       vr_token_path_mismatch = SlackTokenPathMismatch,
       vr_token_path_mismatch_rem = ''Slack token mount must use the project-specific tokens directory.'',
       vr_token_mount_mode = PluginTokenMountMode,
       vr_token_mount_mode_msg = ''Slack token mount must be :ro (ADR-071)'',
       vr_token_mount_mode_rem = ''Slack refresh runs in the host-side `oauth` worker; /tokens must be :ro like every other worker.'',
       vr_workspace_path_mismatch = SlackWorkspacePathMismatch,
       vr_workspace_mount_mode = SlackWorkspaceMountMode,
       vr_workspace_mount_mode_msg = ''Slack workspace mount must be :rw'',
       vr_workspace_mount_mode_rem = ''Change the Slack workspace volume mount to :rw.'',
       vr_no_extra_volumes = SlackNoExtraVolumes,
       vr_no_extra_volumes_msg_prefix = ''Slack service has unauthorized volume mount:'',
       vr_no_extra_volumes_rem = ''Slack may mount /tokens, /workspace, and the per-service oauth bearer.'',
       vr_missing_tokens = SlackMissingTokensMount,
       vr_missing_tokens_msg = ''Slack service is missing required /tokens mount'',
       vr_missing_tokens_rem = ''Slack must mount /tokens:ro.'',
       vr_missing_workspace = SlackMissingWorkspaceMount,
       vr_missing_workspace_msg = ''Slack service is missing required /workspace mount'',
       vr_missing_workspace_rem = ''Slack must mount /workspace:rw (ADR-071 file downloads).'' \<rparr>"

definition ATLASSIAN_RULES :: volume_check_rules where
  "ATLASSIAN_RULES =
     \<lparr> vr_volume_long_form = AtlassianVolumeLongForm,
       vr_volume_long_form_msg = ''Atlassian volume uses long-form YAML mapping'',
       vr_volume_long_form_rem = ''Use short-form volume strings.'',
       vr_token_path_mismatch = AtlassianTokenPathMismatch,
       vr_token_path_mismatch_rem = ''Atlassian token mount must use the project-specific tokens directory.'',
       vr_token_mount_mode = PluginTokenMountMode,
       vr_token_mount_mode_msg = ''Atlassian token mount must be :ro'',
       vr_token_mount_mode_rem = ''Atlassian uses a static API token; /tokens must be :ro like every other worker.'',
       vr_workspace_path_mismatch = AtlassianWorkspacePathMismatch,
       vr_workspace_mount_mode = AtlassianWorkspaceMountMode,
       vr_workspace_mount_mode_msg = ''Atlassian workspace mount must be :ro'',
       vr_workspace_mount_mode_rem = ''addAttachment only reads files from the workspace; change the workspace volume mount to :ro.'',
       vr_no_extra_volumes = AtlassianNoExtraVolumes,
       vr_no_extra_volumes_msg_prefix = ''Atlassian service has unauthorized volume mount:'',
       vr_no_extra_volumes_rem = ''Atlassian may mount /tokens, /workspace, and the per-service oauth bearer.'',
       vr_missing_tokens = AtlassianMissingTokensMount,
       vr_missing_tokens_msg = ''Atlassian service is missing required /tokens mount'',
       vr_missing_tokens_rem = ''Atlassian must mount /tokens:ro.'',
       vr_missing_workspace = AtlassianMissingWorkspaceMount,
       vr_missing_workspace_msg = ''Atlassian service is missing required /workspace mount'',
       vr_missing_workspace_rem = ''Atlassian must mount /workspace:ro (needed for addAttachment).'' \<rparr>"


record volume_check_params =
  vp_container_name :: rstr
  vp_expected_tokens_path :: rstr
  vp_expected_workspace_path :: rstr
  vp_expected_token_mode :: rstr
  vp_expected_workspace_mode :: rstr
  vp_extra_allowed_ro_targets :: "rstr list"
  vp_rules :: volume_check_rules

record volume_state =
  vs_violations :: "violation list"
  vs_found_tokens :: bool
  vs_found_workspace :: bool
  vs_token_mode :: "rstr option"

definition mode_or_ro :: "rstr option \<Rightarrow> rstr" where
  "mode_or_ro mode = (case mode of Some m \<Rightarrow> m | None \<Rightarrow> ''ro'')"

text \<open>One iteration of the loop over the volumes.\<close>

definition volume_step :: "volume_check_params \<Rightarrow> yaml \<Rightarrow> volume_state \<Rightarrow> volume_state" where
  "volume_step P vol st =
     (let R = vp_rules P;
          report = (\<lambda>rule msg rem. [violation_new (vp_container_name P) rule msg rem]);
          push = (\<lambda>vs st. st \<lparr> vs_violations := vs_violations st @ vs \<rparr>) in
      case yaml_str vol of
        None \<Rightarrow> push (report (vr_volume_long_form R) (vr_volume_long_form_msg R) (vr_volume_long_form_rem R)) st
      | Some s \<Rightarrow>
          (case extract_volume_for_target s ''/tokens'' of
             Some (host, mode) \<Rightarrow>
               (push
                  ((if host \<noteq> vp_expected_tokens_path P then
                      report (vr_token_path_mismatch R)
                        (''Token host path '' @ SQ @ host @ SQ @ '' does not match expected '' @ SQ @ vp_expected_tokens_path P @ SQ)
                        (vr_token_path_mismatch_rem R)
                    else [])
                   @ (if mode_or_ro mode \<noteq> vp_expected_token_mode P then
                        report (vr_token_mount_mode R) (vr_token_mount_mode_msg R) (vr_token_mount_mode_rem R)
                      else [])) st)
               \<lparr> vs_found_tokens := True, vs_token_mode := Some (mode_or_ro mode) \<rparr>
           | None \<Rightarrow>
               (case extract_volume_for_target s ''/workspace'' of
                  Some (host, mode) \<Rightarrow>
                    (push
                       ((if host \<noteq> vp_expected_workspace_path P then
                           report (vr_workspace_path_mismatch R)
                             (''Workspace host path '' @ SQ @ host @ SQ @ '' does not match expected '' @ SQ @ vp_expected_workspace_path P @ SQ)
                             ''Workspace mount must use the project directory.''
                         else [])
                        @ (if mode \<noteq> Some (vp_expected_workspace_mode P) then
                             report (vr_workspace_mount_mode R) (vr_workspace_mount_mode_msg R) (vr_workspace_mount_mode_rem R)
                           else [])) st)
                    \<lparr> vs_found_workspace := True \<rparr>
                | None \<Rightarrow>
                    (case List.map_filter (extract_volume_for_target s) (vp_extra_allowed_ro_targets P) of
                       (_, mode) # _ \<Rightarrow>
                         push
                           (if mode_or_ro mode \<noteq> ''ro'' then
                              report (vr_no_extra_volumes R) (vr_no_extra_volumes_msg_prefix R @ '' '' @ s @ '' (must be :ro)'')
                                (vr_no_extra_volumes_rem R)
                            else []) st
                     | [] \<Rightarrow>
                         push
                           (report (vr_no_extra_volumes R) (vr_no_extra_volumes_msg_prefix R @ '' '' @ s)
                              (vr_no_extra_volumes_rem R)) st))))"

definition validate_service_volume_mounts :: "yaml \<Rightarrow> volume_check_params \<Rightarrow> violation list \<times> rstr option" where
  "validate_service_volume_mounts service P =
     (let R = vp_rules P;
          start = \<lparr> vs_violations = [], vs_found_tokens = False, vs_found_workspace = False, vs_token_mode = None \<rparr>;
          st = fold (volume_step P) (case yaml_get_seq ''volumes'' service of Some vols \<Rightarrow> vols | None \<Rightarrow> []) start
      in (vs_violations st
          @ (if \<not> vs_found_tokens st then
               [violation_new (vp_container_name P) (vr_missing_tokens R) (vr_missing_tokens_msg R) (vr_missing_tokens_rem R)]
             else [])
          @ (if \<not> vs_found_workspace st then
               [violation_new (vp_container_name P) (vr_missing_workspace R) (vr_missing_workspace_msg R)
                  (vr_missing_workspace_rem R)]
             else []),
          vs_token_mode st))"

end
