(* ===== verification/Security_Check.thy ===== *)
theory Security_Check
  imports Security_Rules
begin

text \<open>
  The compose security gate (\<open>crates/speedwave-runtime/src/compose/security_check.rs\<close>): one
  definition per check over the rendered document and the files of the data directory, and \<open>run\<close>,
  which concatenates them. A document is started only when \<open>run\<close> reports nothing.
\<close>

section \<open>The surroundings\<close>

text \<open>Parsers, path conversion, case conversion, debug output and file system are parameters.\<close>

record file_meta =
  fm_symlink :: bool
  fm_uid :: u32
  fm_mode :: u32

record check_env =
  ce_yaml_parse :: "rstr \<Rightarrow> rstr + yaml"
  ce_json_parse :: "rstr \<Rightarrow> json option"
  ce_url_parse :: "rstr \<Rightarrow> rstr + full_url"
  ce_engine_path :: "path \<Rightarrow> rstr + rstr"
  ce_uppercase :: "rstr \<Rightarrow> rstr"
  ce_prefix :: rstr
  ce_debug_list :: "rstr list \<Rightarrow> rstr"
  ce_debug_yaml :: "yaml \<Rightarrow> rstr"
  ce_display :: "path \<Rightarrow> rstr"
  ce_read :: "path \<Rightarrow> rstr option"
  ce_read_dir :: "path \<Rightarrow> (rstr \<times> file_kind option) list option"
  ce_uid :: "path \<Rightarrow> u32 option"
  ce_lmeta :: "path \<Rightarrow> file_meta option"

record expected_paths =
  ep_project_engine_path :: rstr
  ep_tokens_engine_dir :: rstr
  ep_telemetry_locked :: bool

definition MANAGED_SETTINGS_FILE :: rstr where "MANAGED_SETTINGS_FILE = ''managed-settings.json''"
definition CLAUDE_HOME_SUBDIR :: rstr where "CLAUDE_HOME_SUBDIR = ''claude-home''"
definition CLAUDE_MANAGED_SUBDIR :: rstr where "CLAUDE_MANAGED_SUBDIR = ''claude-managed''"
definition OAUTH_SUBDIR :: rstr where "OAUTH_SUBDIR = ''oauth''"
definition MCP_OS_LOCK_FILE :: rstr where "MCP_OS_LOCK_FILE = ''mcp-os.lock.json''"
definition CONTAINER_USER_UNPRIVILEGED :: rstr where "CONTAINER_USER_UNPRIVILEGED = ''1000:1000''"
definition GIT_TOKENS_MOUNT_ROOT :: rstr where "GIT_TOKENS_MOUNT_ROOT = ''/git-tokens''"
definition PROJECT_NETWORK_SUFFIX :: rstr where "PROJECT_NETWORK_SUFFIX = ''network''"

definition BUILT_IN_SERVICES :: "rstr list" where
  "BUILT_IN_SERVICES =
     [''claude'', ''proxy'', ''mcp-hub'', ''mcp-slack'', ''mcp-sharepoint'', ''mcp-redmine'', ''mcp-gitlab'', ''mcp-github'',
      ''mcp-atlassian'', ''mcp-office'', ''mcp-playwright'', ''mcp-context7'']"

text \<open>The toggleable services: configuration key, compose service, whether it has its own network without egress.\<close>

definition TOGGLEABLE_MCP_SERVICES :: "(rstr \<times> rstr \<times> bool) list" where
  "TOGGLEABLE_MCP_SERVICES =
     [(''slack'', ''mcp-slack'', False), (''sharepoint'', ''mcp-sharepoint'', False), (''redmine'', ''mcp-redmine'', False),
      (''gitlab'', ''mcp-gitlab'', False), (''github'', ''mcp-github'', False), (''atlassian'', ''mcp-atlassian'', False),
      (''office'', ''mcp-office'', True), (''playwright'', ''mcp-playwright'', False), (''context7'', ''mcp-context7'', False)]"

definition container_user :: rstr where
  "container_user = CONTAINER_USER_UNPRIVILEGED"

definition resolve_tokens_dir_in :: "path \<Rightarrow> rstr \<Rightarrow> path" where
  "resolve_tokens_dir_in data_dir project = path_join (path_join data_dir ''tokens'') project"

definition policy_config_dir_in :: "path \<Rightarrow> rstr \<Rightarrow> path" where
  "policy_config_dir_in data_dir project = path_join (path_join data_dir ''policies'') project"

definition audit_dir_in :: "path \<Rightarrow> rstr \<Rightarrow> path" where
  "audit_dir_in data_dir project = path_join (path_join data_dir ''audit'') project"

definition proxy_config_path_in :: "path \<Rightarrow> rstr \<Rightarrow> path" where
  "proxy_config_path_in data_dir project = path_join (path_join (path_join data_dir ''proxy'') project) ''proxy.json''"

definition claude_managed_dir :: "path \<Rightarrow> rstr \<Rightarrow> path" where
  "claude_managed_dir data_dir project = path_join (path_join data_dir CLAUDE_MANAGED_SUBDIR) project"

definition managed_settings_path :: "path \<Rightarrow> rstr \<Rightarrow> path" where
  "managed_settings_path data_dir project = path_join (claude_managed_dir data_dir project) MANAGED_SETTINGS_FILE"

definition plugins_base_dir_in :: "path \<Rightarrow> path" where
  "plugins_base_dir_in data_dir = path_join data_dir ''plugins''"

definition plugin_claude_resources_dir :: "path \<Rightarrow> path" where
  "plugin_claude_resources_dir plugin_dir = path_join plugin_dir ''claude-resources''"

definition token_mount_target :: "git_forge_service \<Rightarrow> rstr" where
  "token_mount_target kind = GIT_TOKENS_MOUNT_ROOT @ ''/'' @ config_key kind"

text \<open>The slug pattern of plugins: a lower-case letter, then up to 63 lower-case letters, digits or dashes.\<close>

definition is_valid_slug :: "rstr \<Rightarrow> bool" where
  "is_valid_slug slug \<longleftrightarrow>
     slug \<noteq> [] \<and> is_ascii_lowercase (hd slug) \<and> length slug \<le> 64
     \<and> list_all (\<lambda>b. is_ascii_lowercase b \<or> is_ascii_digit b \<or> b = CHR ''-'') slug"

definition expected_paths_compute :: "check_env \<Rightarrow> path \<Rightarrow> rstr \<Rightarrow> path \<Rightarrow> rstr + expected_paths" where
  "expected_paths_compute W data_dir project project_dir =
     res_bind (ce_engine_path W project_dir) (\<lambda>p.
     res_map (\<lambda>t. \<lparr> ep_project_engine_path = p, ep_tokens_engine_dir = t, ep_telemetry_locked = False \<rparr>)
       (ce_engine_path W (resolve_tokens_dir_in data_dir project)))"

section \<open>Checks over every service\<close>

definition for_services :: "yaml \<Rightarrow> (rstr \<Rightarrow> yaml \<Rightarrow> violation list) \<Rightarrow> violation list" where
  "for_services doc f =
     (case get_services doc of
        None \<Rightarrow> []
      | Some services \<Rightarrow> concat (map (\<lambda>(name, service). f name service) services))"

definition for_service :: "yaml \<Rightarrow> rstr \<Rightarrow> (rstr \<Rightarrow> yaml \<Rightarrow> violation list) \<Rightarrow> violation list" where
  "for_service doc wanted f =
     (case get_services doc of
        None \<Rightarrow> []
      | Some services \<Rightarrow>
          (case find (\<lambda>(n, _). n = wanted) services of
             None \<Rightarrow> []
           | Some (name, service) \<Rightarrow> f name service))"

definition report_unless :: "bool \<Rightarrow> violation \<Rightarrow> violation list" where
  "report_unless ok v = (if ok then [] else [v])"

definition seq_has :: "rstr \<Rightarrow> (rstr \<Rightarrow> bool) \<Rightarrow> yaml \<Rightarrow> bool" where
  "seq_has key P service \<longleftrightarrow>
     (case yaml_get_seq key service of
        Some items \<Rightarrow> list_ex (\<lambda>item. case yaml_str item of Some s \<Rightarrow> P s | None \<Rightarrow> False) items
      | None \<Rightarrow> False)"

definition check_cap_drop :: "yaml \<Rightarrow> violation list" where
  "check_cap_drop doc = for_services doc (\<lambda>name service.
     report_unless (seq_has ''cap_drop'' (\<lambda>s. eq_ignore_ascii_case s ''all'') service)
       (violation_new name CapDropAll ''Missing cap_drop: [ALL]'' (''Add '' @ SQ @ ''cap_drop: [ALL]'' @ SQ @ '' to the service definition.'')))"

definition check_no_new_privileges :: "yaml \<Rightarrow> violation list" where
  "check_no_new_privileges doc = for_services doc (\<lambda>name service.
     report_unless (seq_has ''security_opt'' (\<lambda>s. s = ''no-new-privileges:true'') service)
       (violation_new name NoNewPrivs ''Missing security_opt: [no-new-privileges:true]''
         (''Add '' @ SQ @ ''security_opt: [no-new-privileges:true]'' @ SQ @ '' to the service definition.'')))"

definition check_read_only :: "yaml \<Rightarrow> violation list" where
  "check_read_only doc = concat (map (\<lambda>required. for_service doc required (\<lambda>name service.
     report_unless (Option.bind (yaml_get ''read_only'' service) yaml_bool = Some True)
       (violation_new name ReadOnlyFs ''Missing read_only: true'' (''Add '' @ SQ @ ''read_only: true'' @ SQ @ '' to the service definition.''))))
     [''claude'', ''mcp-hub'', ''proxy''])"

definition check_tmpfs_noexec :: "yaml \<Rightarrow> violation list" where
  "check_tmpfs_noexec doc = concat (map (\<lambda>required. for_service doc required (\<lambda>name service.
     report_unless
       (seq_has ''tmpfs'' (\<lambda>s. starts_with ''/tmp'' s \<and> contains_str ''noexec'' s \<and> contains_str ''nosuid'' s) service)
       (violation_new name TmpfsNoexec ''Missing tmpfs /tmp with noexec,nosuid''
         (''Add '' @ SQ @ ''tmpfs: ['' @ DQ @ ''/tmp:noexec,nosuid'' @ DQ @ '']'' @ SQ @ '' to the service definition.''))))
     [''claude'', ''mcp-hub'', ''proxy''])"

text \<open>The variables of a service whose environment is a sequence, each checked by name.\<close>

definition check_env_names :: "yaml \<Rightarrow> (rstr \<Rightarrow> violation list) \<Rightarrow> violation list" where
  "check_env_names service f =
     (case yaml_get_seq ''environment'' service of
        None \<Rightarrow> []
      | Some items \<Rightarrow>
          concat (map (\<lambda>item. case yaml_str item of
                                 None \<Rightarrow> []
                               | Some env_str \<Rightarrow> f (hd (split_byte (CHR ''='') env_str))) items))"

definition FORBIDDEN_PATTERNS :: "rstr list" where "FORBIDDEN_PATTERNS = [''TOKEN'', ''KEY'', ''SECRET'']"

definition check_no_tokens_in_claude :: "check_env \<Rightarrow> yaml \<Rightarrow> violation list" where
  "check_no_tokens_in_claude W doc = for_service doc ''claude'' (\<lambda>_ service. check_env_names service (\<lambda>var_name.
     let upper = ce_uppercase W var_name in
     report_unless
       (\<not> (list_ex (\<lambda>p. contains_str p upper) FORBIDDEN_PATTERNS
           \<and> \<not> list_ex (\<lambda>a. upper = a)
               [''ANTHROPIC_AUTH_TOKEN'', ''ANTHROPIC_API_KEY'', ''CLAUDE_CODE_OAUTH_TOKEN'', ''DISABLE_AUTOUPDATER'',
                ''CLAUDE_CODE_MAX_CONTEXT_TOKENS'']))
       (violation_new ''claude'' NoTokensClaude (''env contains forbidden variable: '' @ var_name)
         ''Claude container must have zero service tokens. Remove from compose.'')))"

definition check_no_tokens_in_hub :: "check_env \<Rightarrow> yaml \<Rightarrow> violation list" where
  "check_no_tokens_in_hub W doc = for_service doc ''mcp-hub'' (\<lambda>_ service. check_env_names service (\<lambda>var_name.
     let upper = ce_uppercase W var_name in
     report_unless
       (\<not> (list_ex (\<lambda>p. contains_str p upper) FORBIDDEN_PATTERNS
           \<and> \<not> list_ex (\<lambda>p. starts_with p upper) [''WORKER_'', ''PORT'']))
       (violation_new ''mcp-hub'' NoTokensHub (''env contains forbidden variable: '' @ var_name)
         ''Hub must have zero tokens in env vars. Use /secrets/ file mounts instead.'')))"

definition check_ports_localhost_only :: "yaml \<Rightarrow> violation list" where
  "check_ports_localhost_only doc = for_services doc (\<lambda>name service.
     case yaml_get_seq ''ports'' service of
       None \<Rightarrow> []
     | Some ports \<Rightarrow> concat (map (\<lambda>port.
         case yaml_str port of
           Some port_str \<Rightarrow>
             report_unless (starts_with ''127.0.0.1:'' port_str)
               (violation_new name PortsLocalhost (''Port bound to non-localhost address: '' @ port_str)
                 ''All ports must bind to 127.0.0.1 only. Change to 127.0.0.1:host:container.'')
         | None \<Rightarrow>
             (if yaml_map port \<noteq> None then
                (let host_ip = (case yaml_get_str ''host_ip'' port of Some ip \<Rightarrow> ip | None \<Rightarrow> []) in
                 report_unless (\<not> (yaml_get ''published'' port \<noteq> None \<and> host_ip \<noteq> ''127.0.0.1''))
                   (violation_new name PortsLocalhost ''Port mapping missing host_ip: 127.0.0.1 (long-form)''
                     ''All ports must bind to 127.0.0.1 only. Add host_ip: 127.0.0.1 to the port mapping.''))
              else report_unless (\<not> yaml_is_number port)
                     (violation_new name PortsLocalhost ''Port specified as bare integer (binds to 0.0.0.0)''
                       (''All ports must bind to 127.0.0.1 only. Change to '' @ DQ @ ''127.0.0.1:host:container'' @ DQ @ ''.'')))) ports))"

definition check_claude_no_socket :: "yaml \<Rightarrow> violation list" where
  "check_claude_no_socket doc = for_service doc ''claude'' (\<lambda>_ service.
     case yaml_get_seq ''volumes'' service of
       None \<Rightarrow> []
     | Some vols \<Rightarrow> concat (map (\<lambda>vol.
         case yaml_str vol of
           None \<Rightarrow> []
         | Some vol_str \<Rightarrow> concat (map (\<lambda>socket.
             report_unless (\<not> contains_str socket vol_str)
               (violation_new ''claude'' NoSocketClaude (''Volume mounts container socket: '' @ vol_str)
                 ''Claude container must not have access to any container runtime socket.''))
             [''docker.sock'', ''nerdctl.sock'', ''podman.sock''])) vols))"

definition check_no_external_llm_keys_claude :: "check_env \<Rightarrow> yaml \<Rightarrow> violation list" where
  "check_no_external_llm_keys_claude W doc = for_service doc ''claude'' (\<lambda>_ service. check_env_names service (\<lambda>var_name.
     let upper = ce_uppercase W var_name in
     report_unless
       (\<not> list_ex (\<lambda>p. starts_with p upper)
           [''OPENAI_'', ''AZURE_OPENAI_'', ''GEMINI_'', ''DEEPSEEK_'', ''OPENROUTER_'', ''COHERE_'', ''MISTRAL_'', ''TOGETHER_'',
            ''GROQ_''])
       (violation_new ''claude'' NoExternalLlmKeysClaude (''env contains external LLM key: '' @ var_name)
         ''External LLM API keys must not be injected into the claude container. Use a local model provider instead.'')))"

definition check_no_ports_on_workers :: "yaml \<Rightarrow> violation list" where
  "check_no_ports_on_workers doc = for_services doc (\<lambda>name service.
     if name \<notin> set BUILT_IN_SERVICES then []
     else report_unless (yaml_get_seq ''ports'' service \<in> {None, Some []})
       (violation_new name NoPortsWorkers
         (name @ '' must not expose ports to host '' @ EM_DASH @ '' use Docker DNS for inter-container communication'')
         (''Remove the '' @ SQ @ ''ports:'' @ SQ @ '' section. Hub and workers communicate over the internal Docker network.'')))"

definition check_container_user :: "yaml \<Rightarrow> violation list" where
  "check_container_user doc = for_services doc (\<lambda>name service.
     case yaml_get_str ''user'' service of
       Some user \<Rightarrow>
         report_unless (user = container_user)
           (violation_new name ContainerUser
             (''user: '' @ DQ @ user @ DQ @ '' does not match expected '' @ DQ @ container_user @ DQ @ '' for this platform'')
             (''Use user: '' @ DQ @ ''${CONTAINER_USER}'' @ DQ @ '' in compose fragments. Do not hardcode user values.''))
     | None \<Rightarrow>
         [violation_new name ContainerUser
            (''Missing user: field '' @ EM_DASH @ '' container would run as image default user'')
            (''Add user: '' @ DQ @ ''${CONTAINER_USER}'' @ DQ @ '' to the service definition.'')])"

section \<open>Networks without egress\<close>

definition egress_less_config_keys :: "rstr list" where
  "egress_less_config_keys = map fst (filter (\<lambda>(_, _, e). e) TOGGLEABLE_MCP_SERVICES)"

definition is_egress_less_network :: "rstr \<Rightarrow> bool" where
  "is_egress_less_network key \<longleftrightarrow>
     list_ex (\<lambda>service_key.
       case Option.bind (strip_suffix service_key key) (strip_suffix ''_'') of
         Some rest \<Rightarrow> ends_with (''_'' @ PROJECT_NETWORK_SUFFIX) rest
       | None \<Rightarrow> False) egress_less_config_keys"

definition declares_external :: "yaml \<Rightarrow> bool" where
  "declares_external decl \<longleftrightarrow> Option.bind (yaml_get ''external'' decl) yaml_bool = Some True"

definition project_network_name :: "rstr \<Rightarrow> rstr \<Rightarrow> rstr" where
  "project_network_name pre project = pre @ ''_'' @ project @ ''_'' @ PROJECT_NETWORK_SUFFIX"

definition egress_less_network_name :: "rstr \<Rightarrow> rstr \<Rightarrow> rstr" where
  "egress_less_network_name network_name key = network_name @ ''_'' @ key"

definition egress_less_network_owners :: "rstr \<Rightarrow> rstr \<Rightarrow> (rstr \<times> rstr) list" where
  "egress_less_network_owners pre project =
     map (\<lambda>(service_key, compose_name, _). (egress_less_network_name (project_network_name pre project) service_key, compose_name))
       (filter (\<lambda>(_, _, e). e) TOGGLEABLE_MCP_SERVICES)"

definition EGRESS_REMEDIATION :: rstr where
  "EGRESS_REMEDIATION =
     ''Run render_compose() again: egress-less networks are declared `external: true` and pre-created by the runtime with `nerdctl network create --internal`.''"

text \<open>The keys of the declared networks that are, or refer to, a network without egress.\<close>

definition egress_less_keys :: "rstr \<Rightarrow> rstr \<Rightarrow> yaml \<Rightarrow> (rstr \<times> yaml) list" where
  "egress_less_keys pre project doc =
     (let is_own = (\<lambda>net. net \<in> fst ` set (egress_less_network_owners pre project)) in
      filter (\<lambda>(key, decl). list_ex (\<lambda>net. is_own net \<or> is_egress_less_network net)
                (key # (case yaml_get_str ''name'' decl of Some n \<Rightarrow> [n] | None \<Rightarrow> [])))
        (List.map_filter (\<lambda>(k, decl). map_option (\<lambda>key. (key, decl)) (yaml_str k))
           (case Option.bind (yaml_get ''networks'' doc) yaml_map of Some kvs \<Rightarrow> kvs | None \<Rightarrow> [])))"

definition check_egress_less_networks :: "check_env \<Rightarrow> yaml \<Rightarrow> rstr \<Rightarrow> violation list" where
  "check_egress_less_networks W doc project =
     (let owners = egress_less_network_owners (ce_prefix W) project;
          is_own = (\<lambda>net. net \<in> fst ` set owners);
          report = (\<lambda>container msg. violation_new container EgressLessNetworkExternal msg EGRESS_REMEDIATION);
          keys = egress_less_keys (ce_prefix W) project doc;
          services = (case get_services doc of Some s \<Rightarrow> s | None \<Rightarrow> []);
          declared = Option.bind (yaml_get ''networks'' doc) yaml_map
      in
      concat (map (\<lambda>(key, decl).
        if \<not> is_own key then
          [report key
             (''network '' @ SQ @ key @ SQ @ '' refers to an egress-less network that is not one of project '' @ project @ SQ @ ''s: expected one of '' @ ce_debug_list W (map fst owners))]
        else
          report_unless (declares_external decl)
            (report key
              (''egress-less network '' @ SQ @ key @ SQ @ '' is not declared `external: true`; nerdctl compose ignores `internal:` and would create it with a gateway''))
          @ (case yaml_get ''name'' decl of
               Some n \<Rightarrow>
                 report_unless (yaml_str n = Some key)
                   (report key (''egress-less network '' @ SQ @ key @ SQ @ '' points at another network: '' @ ce_debug_yaml W n))
             | None \<Rightarrow> [])) keys)
      @ concat (map (\<lambda>(service_name, service). concat (map (\<lambda>net.
          let egress_less = net \<in> fst ` set keys \<or> is_own net \<or> is_egress_less_network net;
              may_join = map_option snd (find (\<lambda>(n, _). n = net) owners) = Some service_name
                \<or> service_name = ''mcp-hub'' \<and> is_own net
          in report_unless (\<not> (egress_less \<and> \<not> may_join))
               (report service_name
                 (service_name @ '' is attached to the egress-less network '' @ SQ @ net @ SQ @ '', which only its own worker and mcp-hub may join'')))
          (service_network_refs service))) services)
      @ concat (map (\<lambda>(network, worker).
          case find (\<lambda>(n, _). n = worker) services of
            None \<Rightarrow> []
          | Some (_, service) \<Rightarrow>
              (let attached = service_network_refs service;
                   declared_external = (case Option.bind declared (\<lambda>m. map_of m (YStr network)) of
                      Some decl \<Rightarrow> declares_external decl | None \<Rightarrow> False);
                   escapes = list_ex (\<lambda>net. net \<noteq> network) attached
               in report_unless (\<not> (attached = [] \<or> escapes \<or> \<not> declared_external))
                    (report worker
                      (worker @ '' must be attached only to its external egress-less network '' @ SQ @ network @ SQ @ ''; attached: '' @ ce_debug_list W attached))))
          owners))"

section \<open>Plugins and built-in workers\<close>

datatype token_mount = ReadOnly | ReadWrite rstr

text \<open>What the gate reads of a plugin manifest: the service id, the token mount and whether OAuth is declared.\<close>

record plugin_manifest =
  pm_service_id :: "rstr option"
  pm_token_mount :: token_mount
  pm_has_oauth :: bool

definition check_plugin_no_privileged :: "yaml \<Rightarrow> violation list" where
  "check_plugin_no_privileged doc = for_services doc (\<lambda>name service.
     if \<not> is_plugin_service service then []
     else report_unless (Option.bind (yaml_get ''privileged'' service) yaml_bool \<noteq> Some True)
       (violation_new name PluginNoPrivileged ''Plugin service must not have privileged: true''
         (''Remove '' @ SQ @ ''privileged: true'' @ SQ @ '' from the plugin service.'')))"

definition check_plugin_no_host_network :: "yaml \<Rightarrow> violation list" where
  "check_plugin_no_host_network doc = for_services doc (\<lambda>name service.
     if \<not> is_plugin_service service then []
     else report_unless (yaml_get_str ''network_mode'' service \<noteq> Some ''host'')
       (violation_new name PluginNoHostNetwork ''Plugin service must not use network_mode: host''
         (''Remove '' @ SQ @ ''network_mode: host'' @ SQ @ '' from the plugin service.'')))"

definition check_plugin_volumes :: "yaml \<Rightarrow> expected_paths \<Rightarrow> plugin_manifest list \<Rightarrow> violation list" where
  "check_plugin_volumes doc ep manifests = for_services doc (\<lambda>name service.
     if \<not> is_plugin_service service then []
     else
       let sid = (case strip_prefix ''mcp-'' name of Some s \<Rightarrow> s | None \<Rightarrow> name) in
       case find (\<lambda>m. pm_service_id m = Some sid) manifests of
         None \<Rightarrow>
           [violation_new name PluginManifestMissing
              (''Plugin service '' @ SQ @ name @ SQ @ '' has no matching manifest '' @ EM_DASH @ '' cannot validate mounts'')
              ''Ensure plugin manifests are loaded before security check.'']
       | Some manifest \<Rightarrow>
           fst (validate_service_volume_mounts service
             \<lparr> vp_container_name = name,
               vp_expected_tokens_path = ep_tokens_engine_dir ep @ ''/'' @ sid,
               vp_expected_workspace_path = ep_project_engine_path ep,
               vp_expected_token_mode = (case pm_token_mount manifest of ReadOnly \<Rightarrow> ''ro'' | ReadWrite _ \<Rightarrow> ''rw''),
               vp_expected_workspace_mode = ''rw'',
               vp_extra_allowed_ro_targets =
                 (if pm_has_oauth manifest then [''/secrets/oauth-auth-token-'' @ sid] else []),
               vp_rules = PLUGIN_RULES \<rparr>))"

definition check_builtin_workspace_worker_volumes ::
  "yaml \<Rightarrow> expected_paths \<Rightarrow> rstr \<Rightarrow> rstr \<Rightarrow> volume_check_rules \<Rightarrow> violation list" where
  "check_builtin_workspace_worker_volumes doc ep service_id workspace_mode rules =
     for_service doc (''mcp-'' @ service_id) (\<lambda>name service.
       fst (validate_service_volume_mounts service
         \<lparr> vp_container_name = name,
           vp_expected_tokens_path = ep_tokens_engine_dir ep @ ''/'' @ service_id,
           vp_expected_workspace_path = ep_project_engine_path ep,
           vp_expected_token_mode = ''ro'',
           vp_expected_workspace_mode = workspace_mode,
           vp_extra_allowed_ro_targets = [''/secrets/oauth-auth-token-'' @ service_id],
           vp_rules = rules \<rparr>))"

definition check_builtin_sharepoint_volumes :: "yaml \<Rightarrow> expected_paths \<Rightarrow> violation list" where
  "check_builtin_sharepoint_volumes doc ep =
     check_builtin_workspace_worker_volumes doc ep ''sharepoint'' ''rw'' SHAREPOINT_RULES"

definition check_builtin_slack_volumes :: "yaml \<Rightarrow> expected_paths \<Rightarrow> violation list" where
  "check_builtin_slack_volumes doc ep = check_builtin_workspace_worker_volumes doc ep ''slack'' ''rw'' SLACK_RULES"

definition check_builtin_atlassian_volumes :: "yaml \<Rightarrow> expected_paths \<Rightarrow> violation list" where
  "check_builtin_atlassian_volumes doc ep =
     check_builtin_workspace_worker_volumes doc ep ''atlassian'' ''ro'' ATLASSIAN_RULES"

section \<open>The proxy\<close>

text \<open>One volume string of the proxy: what is reported and whether it counts as one of the three canonical mounts.\<close>

definition proxy_volume :: "expected_paths \<Rightarrow> rstr \<Rightarrow> rstr \<Rightarrow> violation list \<times> nat" where
  "proxy_volume ep name vol =
     (let report = (\<lambda>ok msg rem. report_unless ok (violation_new name SpeedwaveProxyVolumes msg rem));
          expected_tokens = ep_tokens_engine_dir ep @ ''/llm'' in
      case extract_volume_for_target vol ''/config'' of
        Some (_, mode) \<Rightarrow>
          (report (mode = Some ''ro'') (''proxy /config mount must be ro: '' @ vol)
             (''Mount the rendered config directory '' @ SQ @ '':ro'' @ SQ @ ''.''), 1)
      | None \<Rightarrow>
     (case extract_volume_for_target vol ''/tokens'' of
        Some (host, mode) \<Rightarrow>
          (report (mode = Some ''ro'') (''proxy /tokens mount must be ro: '' @ vol)
             (''Mount the llm token directory '' @ SQ @ '':ro'' @ SQ @ ''.'')
           @ report (host = expected_tokens)
               (''proxy /tokens host path must be the llm namespace ('' @ SQ @ expected_tokens @ SQ @ ''), got: '' @ vol)
               (''Mount '' @ SQ @ ''<data_dir>/tokens/<project>/llm'' @ SQ @ '' at /tokens.''), 1)
      | None \<Rightarrow>
     (case extract_volume_for_target vol ''/usage'' of
        Some (_, mode) \<Rightarrow>
          (report (mode = Some ''rw'') (''proxy /usage mount must be rw: '' @ vol)
             (''Mount the usage sink '' @ SQ @ '':rw'' @ SQ @ ''.''), 1)
      | None \<Rightarrow>
     (case List.map_filter (\<lambda>kind. map_option (\<lambda>hm. (kind, hm)) (extract_volume_for_target vol (token_mount_target kind)))
             [Github, Gitlab] of
        (kind, host, mode) # _ \<Rightarrow>
          (let expected_git_tokens = ep_tokens_engine_dir ep @ ''/'' @ config_key kind in
           (report (mode = Some ''ro'' \<and> host = expected_git_tokens)
              (''proxy '' @ token_mount_target kind @ '' mount must be '' @ SQ @ expected_git_tokens @ SQ @ '' mounted ro, got: '' @ vol)
              (''Mount '' @ SQ @ ''<data_dir>/tokens/<project>/<github|gitlab>'' @ SQ @ '' read-only at /git-tokens/<github|gitlab>.''), 0))
      | [] \<Rightarrow>
          (report (extract_volume_for_target vol ''/policy'' \<noteq> None \<or> extract_volume_for_target vol ''/audit'' \<noteq> None)
             (''proxy has an unexpected volume: '' @ vol)
             ''proxy mounts exactly /config:ro, /tokens:ro, /usage:rw, /policy:ro, /audit:rw and the optional /git-tokens/github:ro and /git-tokens/gitlab:ro.'',
           0)))))"

definition check_proxy_volumes :: "yaml \<Rightarrow> expected_paths \<Rightarrow> violation list" where
  "check_proxy_volumes doc ep = for_service doc ''proxy'' (\<lambda>name service.
     let volumes = List.map_filter yaml_str (case yaml_get_seq ''volumes'' service of Some vs \<Rightarrow> vs | None \<Rightarrow> []);
         results = map (proxy_volume ep name) volumes;
         matched = sum_list (map snd results)
     in report_unless (yaml_get ''network_mode'' service = None)
          (violation_new name SpeedwaveProxyVolumes ''proxy must not set network_mode''
            (''Remove '' @ SQ @ ''network_mode'' @ SQ @ '' '' @ EM_DASH @ '' proxy joins only the per-project network.''))
        @ concat (map fst results)
        @ report_unless (matched = 3)
            (violation_new name SpeedwaveProxyVolumes
              (''proxy must mount exactly /config, /tokens and /usage (found '' @ nat_str matched @ '')'')
              ''Restore the three canonical mounts in compose.template.yml.''))"

definition validate_ner_url :: "(rstr \<Rightarrow> rstr + full_url) \<Rightarrow> rstr \<Rightarrow> rstr + nat" where
  "validate_ner_url url_parse raw =
     (case url_parse raw of
        Inl e \<Rightarrow> Inl (''not a URL: '' @ e)
      | Inr url \<Rightarrow>
          (if pu_scheme url \<noteq> ''http'' then Inl (''scheme must be http, got '' @ pu_scheme url)
           else if pu_host url \<noteq> Some HOST_GATEWAY_ALIAS then Inl (''host must be '' @ HOST_GATEWAY_ALIAS)
           else if pu_username url \<noteq> [] \<or> pu_password url \<noteq> None then Inl ''userinfo is not allowed''
           else if fu_path url \<notin> {[], ''/''} \<or> fu_query url \<noteq> None \<or> fu_fragment url \<noteq> None
           then Inl ''path, query and fragment are not allowed''
           else ok_or ''an explicit port is required'' (pu_port url)))"

definition check_proxy_ner_url :: "check_env \<Rightarrow> path \<Rightarrow> rstr \<Rightarrow> violation list" where
  "check_proxy_ner_url W data_dir project =
     (case Option.bind (ce_read W (proxy_config_path_in data_dir project)) (ce_json_parse W) of
        None \<Rightarrow> []
      | Some doc \<Rightarrow>
          (case Option.bind (json_get ''ner'' doc) (json_get ''url'') of
             None \<Rightarrow> []
           | Some url \<Rightarrow>
               (case (case as_str url of
                        Some s \<Rightarrow> res_map (\<lambda>_. ()) (validate_ner_url (ce_url_parse W) s)
                      | None \<Rightarrow> Inl ''ner.url is not a string'') of
                  Inr _ \<Rightarrow> []
                | Inl reason \<Rightarrow>
                    [violation_new ''proxy'' SpeedwaveProxyNerUrl
                       (''proxy.json ner.url is not the host detector endpoint: '' @ reason)
                       ''Re-render the compose so proxy.json is regenerated from the                               live pii-ner lock; never hand-edit proxy.json.''])))"

section \<open>Policy, audit and managed settings mounts\<close>

definition check_claude_managed_settings :: "check_env \<Rightarrow> yaml \<Rightarrow> path \<Rightarrow> rstr \<Rightarrow> bool \<Rightarrow> violation list" where
  "check_claude_managed_settings W doc data_dir project telemetry_locked = for_service doc ''claude'' (\<lambda>_ claude.
     let vols = (case yaml_get_seq ''volumes'' claude of Some vs \<Rightarrow> vs | None \<Rightarrow> []);
         target = ''/etc/claude-code/'' @ MANAGED_SETTINGS_FILE;
         report = (\<lambda>ok msg rem. report_unless ok (violation_new ''claude'' ManagedSettingsMount msg rem))
     in case ce_engine_path W (managed_settings_path data_dir project) of
          Inl e \<Rightarrow>
            report False (''cannot resolve expected managed-settings source: '' @ e)
              ''Ensure the data directory path is resolvable by the container engine.''
        | Inr expected_source \<Rightarrow>
            (let hits = List.map_filter (\<lambda>s. extract_volume_for_target s target) (List.map_filter yaml_str vols) in
             concat (map (\<lambda>(host, mode).
               report (mode = Some ''ro'') ''managed-settings.json mount must be :ro''
                 ''The MDM managed-settings mount must be read-only.''
               @ report (host = expected_source)
                   (''managed-settings source '' @ SQ @ host @ SQ @ '' != expected '' @ SQ @ expected_source @ SQ)
                   ''managed-settings must come from <data_dir>/claude-managed/<project>/.'') hits)
             @ report (\<not> (hits = [] \<and> telemetry_locked))
                 ''MDM policy locks telemetry but the managed-settings.json mount is missing''
                 ''Re-render compose so the managed-settings.json mount is applied.''))"

definition check_mount_area_profile ::
  "yaml \<Rightarrow> rstr \<Rightarrow> rstr \<Rightarrow> rstr \<Rightarrow> security_rule \<Rightarrow> rstr + rstr \<Rightarrow> violation list" where
  "check_mount_area_profile doc service area mode rule expected = for_service doc service (\<lambda>_ svc.
     case expected of
       Inl e \<Rightarrow>
         [violation_new service rule (''cannot resolve the expected '' @ area @ '' mount source: '' @ e)
            ''Fix the data directory path and re-render the compose file.'']
     | Inr expected_source \<Rightarrow>
         (let canonical = expected_source @ '':'' @ area @ '':'' @ mode;
              vols = (case yaml_get_seq ''volumes'' svc of Some vs \<Rightarrow> vs | None \<Rightarrow> [])
          in concat (map (\<lambda>vol.
               case yaml_str vol of
                 Some s \<Rightarrow>
                   report_unless (s = canonical \<or> \<not> short_form_targets_area s area)
                     (violation_new service rule (''non-canonical volume targets the '' @ area @ '' area: '' @ s)
                       ''Only the canonical mount may target this area.'')
               | None \<Rightarrow>
                   (let target = (case yaml_get_str ''target'' vol of Some t \<Rightarrow> t | None \<Rightarrow> []) in
                    report_unless (\<not> is_mount_area_target (normalize_mount_target target) area)
                      (violation_new service rule (''map-form volume targets the '' @ area @ '' area: '' @ target)
                        ''Use only the canonical short-form mount.''))) vols)
             @ report_unless (list_ex (\<lambda>vol. yaml_str vol = Some canonical) vols)
                 (violation_new service rule (service @ '' is missing the canonical '' @ area @ '' mount'')
                   ''Render compose again; the mount is unconditional.'')))"

definition check_policy_file_env_pin :: "yaml \<Rightarrow> rstr \<Rightarrow> security_rule \<Rightarrow> violation list" where
  "check_policy_file_env_pin doc service rule = for_service doc service (\<lambda>_ svc.
     let policy_files = service_env_values svc ''POLICY_FILE'' in
     report_unless (policy_files \<noteq> [])
       (violation_new service rule (service @ '' env is missing POLICY_FILE'') ''Set POLICY_FILE=/policy/policy.json.'')
     @ concat (map (\<lambda>value.
         report_unless (value = ''/policy/policy.json'')
           (violation_new service rule (''POLICY_FILE repointed to '' @ SQ @ value @ SQ)
             ''POLICY_FILE must be exactly /policy/policy.json.'')) policy_files))"

definition check_policy_mount :: "check_env \<Rightarrow> yaml \<Rightarrow> path \<Rightarrow> rstr \<Rightarrow> rstr \<Rightarrow> security_rule \<Rightarrow> violation list" where
  "check_policy_mount W doc data_dir project service rule =
     check_mount_area_profile doc service ''/policy'' ''ro'' rule (ce_engine_path W (policy_config_dir_in data_dir project))
     @ check_policy_file_env_pin doc service rule"

definition check_hub_policy_mount :: "check_env \<Rightarrow> yaml \<Rightarrow> path \<Rightarrow> rstr \<Rightarrow> violation list" where
  "check_hub_policy_mount W doc data_dir project = check_policy_mount W doc data_dir project ''mcp-hub'' HubPolicyMount"

definition check_proxy_policy_mount :: "check_env \<Rightarrow> yaml \<Rightarrow> path \<Rightarrow> rstr \<Rightarrow> violation list" where
  "check_proxy_policy_mount W doc data_dir project = check_policy_mount W doc data_dir project ''proxy'' ProxyPolicyMount"

definition check_audit_mount :: "check_env \<Rightarrow> yaml \<Rightarrow> path \<Rightarrow> rstr \<Rightarrow> rstr \<Rightarrow> violation list" where
  "check_audit_mount W doc data_dir project service =
     check_mount_area_profile doc service ''/audit'' ''rw'' AuditMount (ce_engine_path W (audit_dir_in data_dir project))"

definition forbidden_sources :: "check_env \<Rightarrow> path \<Rightarrow> rstr \<Rightarrow> (rstr \<times> rstr) list" where
  "forbidden_sources W data_dir project =
     List.map_filter (\<lambda>(label, p). case ce_engine_path W p of Inr e \<Rightarrow> Some (label, e) | Inl _ \<Rightarrow> None)
       [(''policy'', policy_config_dir_in data_dir project),
        ((''policies parent (exposes every project'' @ SQ @ ''s keys)''), path_join data_dir ''policies''),
        (''audit'', audit_dir_in data_dir project),
        ((''audit parent (exposes every project'' @ SQ @ ''s data)''), path_join data_dir ''audit'')]"

definition check_no_policy_or_audit_mount_on_claude :: "check_env \<Rightarrow> yaml \<Rightarrow> path \<Rightarrow> rstr \<Rightarrow> violation list" where
  "check_no_policy_or_audit_mount_on_claude W doc data_dir project = for_service doc ''claude'' (\<lambda>_ claude.
     case yaml_get_seq ''volumes'' claude of
       None \<Rightarrow> []
     | Some vols \<Rightarrow> concat (map (\<lambda>vol.
         case mount_source vol of
           None \<Rightarrow> []
         | Some host \<Rightarrow> concat (map (\<lambda>(label, expected).
             report_unless (\<not> is_mount_area_target (normalize_mount_target host) (normalize_mount_target expected))
               (violation_new ''claude'' NoPolicyOrAuditMountClaude (''claude mounts the '' @ label @ '' directory: '' @ host)
                 ''Claude must never receive the PII policy or audit directories.''))
             (forbidden_sources W data_dir project))) vols))"

section \<open>The volumes of claude\<close>

definition claude_report :: "bool \<Rightarrow> rstr \<Rightarrow> rstr \<Rightarrow> violation list" where
  "claude_report ok msg rem = report_unless ok (violation_new ''claude'' ClaudeWorkspaceMount msg rem)"

definition check_plugin_resources_mount :: "check_env \<Rightarrow> rstr \<Rightarrow> rstr \<Rightarrow> rstr option \<Rightarrow> path \<Rightarrow> violation list" where
  "check_plugin_resources_mount W slug host mode data_dir =
     (if \<not> is_valid_slug slug then
        claude_report False (''plugin claude-resources mount has a malformed slug '' @ SQ @ slug @ SQ)
          ''Re-render compose; plugin slug is malformed.''
      else
        claude_report (mode = Some ''ro'') (''plugin '' @ SQ @ slug @ SQ @ '' claude-resources mount must be :ro'')
          ''Re-render compose; plugin claude-resources mounts are read-only.''
        @ (case ce_engine_path W (plugin_claude_resources_dir (path_join (plugins_base_dir_in data_dir) slug)) of
             Inl e \<Rightarrow>
               claude_report False (''cannot resolve expected claude-resources source for plugin '' @ SQ @ slug @ SQ @ '': '' @ e)
                 ''Ensure the data directory path is resolvable by the container engine.''
           | Inr expected_source \<Rightarrow>
               claude_report (host = expected_source)
                 (''plugin '' @ SQ @ slug @ SQ @ '' claude-resources source '' @ SQ @ host @ SQ @ '' != expected '' @ SQ @ expected_source @ SQ)
                 ''Re-render compose; a plugin mount must come from its own claude-resources dir.''))"

definition fixed_targets :: "rstr \<Rightarrow> (rstr \<times> rstr \<times> rstr) list" where
  "fixed_targets project =
     [(''/home/speedwave'', ''/'' @ CLAUDE_HOME_SUBDIR @ ''/'' @ project, ''rw''),
      (''/home/speedwave/.claude/ide'', ''/ide-bridge'', ''ro''),
      (''/speedwave/resources'', ''/claude-resources'', ''ro''),
      (''/usage'', ''/usage/'' @ project @ ''/proxy'', ''ro'')]"

text \<open>One volume of claude: what is reported and whether it is a workspace mount.\<close>

definition claude_volume :: "check_env \<Rightarrow> expected_paths \<Rightarrow> path \<Rightarrow> rstr \<Rightarrow> yaml \<Rightarrow> violation list \<times> nat" where
  "claude_volume W ep data_dir project vol =
     (case yaml_str vol of
        None \<Rightarrow>
          (claude_report False ''claude volume uses long-form YAML mapping; only short-form strings are rendered''
             ''Re-render compose; the renderer emits only short-form claude volumes.'', 0)
      | Some s \<Rightarrow>
          (case parse_short_form_volume s of
             None \<Rightarrow>
               (claude_report False (''claude volume entry '' @ SQ @ s @ SQ @ '' is not a parseable host:/target[:mode] mount'')
                  ''Re-render compose; every claude mount is a short-form host:/target[:mode] string.'', 0)
           | Some (host, target, mode) \<Rightarrow>
               (if target = ''/workspace'' then
                  (claude_report (host = ep_project_engine_path ep)
                     (''/workspace source '' @ SQ @ host @ SQ @ '' != expected '' @ SQ @ ep_project_engine_path ep @ SQ)
                     ''The claude /workspace mount must come from exactly the project directory.''
                   @ claude_report (mode \<in> {None, Some ''rw''}) (''/workspace mount must be :rw, got: '' @ s)
                       ''Re-render compose; /workspace is the writable project mount.'', 1)
                else
                  (case strip_prefix ''/speedwave/plugins/'' target of
                     Some slug \<Rightarrow> check_plugin_resources_mount W slug host mode data_dir
                   | None \<Rightarrow>
                       (if target = ''/etc/claude-code/'' @ MANAGED_SETTINGS_FILE then []
                        else case find (\<lambda>(t, _, _). target = t) (fixed_targets project) of
                            Some (_, sfx, want_mode) \<Rightarrow>
                              claude_report (ends_with sfx host)
                                (''claude '' @ target @ '' mount source '' @ SQ @ host @ SQ @ '' does not end with the renderer'' @ SQ @ ''s '' @ SQ @ sfx @ SQ @ '' directory'')
                                ''Re-render compose; this mount must come from its canonical data-dir subdirectory.''
                              @ claude_report (mode = Some want_mode)
                                  (''claude '' @ target @ '' mount must be :'' @ want_mode @ '', got: '' @ s)
                                  (''Re-render compose; the template fixes this mount'' @ SQ @ ''s mode.'')
                          | None \<Rightarrow>
                              claude_report False (''claude mounts an unexpected target '' @ SQ @ target @ SQ)
                                ''Re-render compose; a control char in the project path can inject extra mounts.''), 0))))"

definition check_claude_workspace_mount :: "check_env \<Rightarrow> yaml \<Rightarrow> expected_paths \<Rightarrow> path \<Rightarrow> rstr \<Rightarrow> violation list" where
  "check_claude_workspace_mount W doc ep data_dir project = for_service doc ''claude'' (\<lambda>_ claude.
     let vols = (case yaml_get_seq ''volumes'' claude of Some vs \<Rightarrow> vs | None \<Rightarrow> []);
         results = map (claude_volume W ep data_dir project) vols;
         matches = sum_list (map snd results)
     in concat (map fst results)
        @ claude_report (matches = 1) (''claude must have exactly one /workspace mount, found '' @ nat_str matches)
            ''Re-render compose; a control char in the project path can inject extra mounts.'')"

section \<open>Files of the data directory\<close>

definition path_extension :: "rstr \<Rightarrow> rstr option" where
  "path_extension name =
     (if name = ''..'' then None
      else case rfind_byte (CHR ''.'') name of
          Some i \<Rightarrow> (if i = 0 then None else Some (drop (i + 1) name))
        | None \<Rightarrow> None)"

definition files_in :: "check_env \<Rightarrow> (rstr \<Rightarrow> bool) \<Rightarrow> path \<Rightarrow> path list" where
  "files_in W P dir =
     (case ce_read_dir W dir of
        None \<Rightarrow> []
      | Some es \<Rightarrow> map (\<lambda>(name, _). path_join dir name) (filter (\<lambda>(name, kind). kind = Some IsFile \<and> P name) es))"

definition dirs_in :: "check_env \<Rightarrow> path \<Rightarrow> path list" where
  "dirs_in W dir =
     (case ce_read_dir W dir of
        None \<Rightarrow> []
      | Some es \<Rightarrow> map (\<lambda>(name, _). path_join dir name) (filter (\<lambda>(_, kind). kind = Some IsDir) es))"

definition collect_security_paths :: "check_env \<Rightarrow> path \<Rightarrow> rstr \<Rightarrow> path list \<times> path list" where
  "collect_security_paths W data_dir project =
     (let sub = path_join data_dir; proj = (\<lambda>d. path_join (sub d) project);
          services = dirs_in W (proj ''tokens'') in
      ([sub ''secrets'', sub ''snapshots'', sub ''tokens'', sub OAUTH_SUBDIR, proj ''secrets'', proj ''snapshots'',
        sub ''ide-bridge'', proj ''tokens'', proj OAUTH_SUBDIR, sub CLAUDE_MANAGED_SUBDIR, proj CLAUDE_MANAGED_SUBDIR]
       @ services,
       concat (map (files_in W (\<lambda>_. True)) services)
       @ [sub ''bundle-state.json'', sub MCP_OS_LOCK_FILE]
       @ files_in W (\<lambda>_. True) (proj ''secrets'')
       @ files_in W (\<lambda>_. True) (proj ''snapshots'')
       @ files_in W (\<lambda>name. path_extension name = Some ''lock'') (sub ''ide-bridge'')
       @ files_in W (\<lambda>_. True) (proj OAUTH_SUBDIR)
       @ [managed_settings_path data_dir project]))"

definition octal3 :: "u32 \<Rightarrow> rstr" where
  "octal3 m =
     (let n = unat m; d = (\<lambda>k. char_of (48 + k)) in
      ''0o'' @ [d (n div 64 mod 8), d (n div 8 mod 8), d (n mod 8)])"

definition verify_path :: "check_env \<Rightarrow> u32 \<Rightarrow> bool \<Rightarrow> u32 \<Rightarrow> path \<Rightarrow> violation list" where
  "verify_path W expected_mode is_dir expected_uid p =
     (case ce_lmeta W p of
        None \<Rightarrow> []
      | Some meta \<Rightarrow>
          (if fm_symlink meta then []
           else
             let report = (\<lambda>ok msg rem. report_unless ok (violation_new ''host'' FileSecurityViolation msg rem));
                 mode = and (fm_mode meta) 511
             in report (fm_uid meta = expected_uid)
                  (ce_display W p @ '' owned by uid '' @ nat_str (unat (fm_uid meta)) @ '', expected uid ''
                   @ nat_str (unat expected_uid))
                  (if is_dir then ''Run: chown -R $(id -u) on the directory shown above''
                   else ''Run: chown $(id -u) on the file shown above'')
                @ report (mode = expected_mode)
                    (ce_display W p @ '' has mode '' @ octal3 mode @ '', expected '' @ octal3 expected_mode)
                    (if is_dir then ''Run: chmod 700 on the directory shown above''
                     else ''Run: chmod 600 on the file shown above'')))"

definition check_file_security_with_uid :: "check_env \<Rightarrow> path \<Rightarrow> rstr \<Rightarrow> u32 \<Rightarrow> violation list" where
  "check_file_security_with_uid W data_dir project expected_uid =
     (let (dirs, files) = collect_security_paths W data_dir project in
      concat (map (verify_path W 448 True expected_uid) dirs)
      @ concat (map (verify_path W 384 False expected_uid) files))"

definition check_file_security :: "check_env \<Rightarrow> path \<Rightarrow> rstr \<Rightarrow> violation list" where
  "check_file_security W data_dir project =
     (case ce_uid W data_dir of
        None \<Rightarrow> []
      | Some uid \<Rightarrow> check_file_security_with_uid W data_dir project uid)"

section \<open>The gate\<close>

definition checks_of :: "check_env \<Rightarrow> yaml \<Rightarrow> rstr \<Rightarrow> plugin_manifest list \<Rightarrow> expected_paths \<Rightarrow> path \<Rightarrow> violation list list" where
  "checks_of W doc project manifests ep data_dir =
     [check_cap_drop doc,
      check_no_new_privileges doc,
      check_read_only doc,
      check_tmpfs_noexec doc,
      check_no_tokens_in_claude W doc,
      check_no_tokens_in_hub W doc,
      check_ports_localhost_only doc,
      check_claude_no_socket doc,
      check_no_external_llm_keys_claude W doc,
      check_no_ports_on_workers doc,
      check_container_user doc,
      check_plugin_no_privileged doc,
      check_plugin_no_host_network doc,
      check_plugin_volumes doc ep manifests,
      check_builtin_sharepoint_volumes doc ep,
      check_builtin_slack_volumes doc ep,
      check_builtin_atlassian_volumes doc ep,
      check_proxy_volumes doc ep,
      check_proxy_ner_url W data_dir project,
      check_claude_managed_settings W doc data_dir project (ep_telemetry_locked ep),
      check_hub_policy_mount W doc data_dir project,
      check_proxy_policy_mount W doc data_dir project,
      check_audit_mount W doc data_dir project ''proxy'',
      check_audit_mount W doc data_dir project ''mcp-hub'',
      check_no_policy_or_audit_mount_on_claude W doc data_dir project,
      check_claude_workspace_mount W doc ep data_dir project,
      check_egress_less_networks W doc project,
      check_file_security W data_dir project]"

definition run_with_data_dir ::
  "check_env \<Rightarrow> rstr \<Rightarrow> rstr \<Rightarrow> plugin_manifest list \<Rightarrow> expected_paths \<Rightarrow> path \<Rightarrow> violation list" where
  "run_with_data_dir W compose_yml project manifests ep data_dir =
     (case ce_yaml_parse W compose_yml of
        Inl e \<Rightarrow>
          [violation_new ''*'' YamlParseError (''Cannot parse compose YAML: '' @ e)
             ''Run render_compose() again to regenerate the file.'']
      | Inr doc \<Rightarrow> concat (checks_of W doc project manifests ep data_dir))"

end
