(* ===== verification/Security_Gate.thy ===== *)
theory Security_Gate
  imports Security_Check
begin

text \<open>
  What the compose security gate guarantees (\<open>compose/security_check.rs\<close>): a document for which
  \<open>run\<close> reports nothing has the properties stated here, and the last section shows documents it
  lets through although its rules speak against them.
\<close>

section \<open>Volume strings\<close>

lemma volume_sep_Some:
  "volume_sep vol k = Some p \<Longrightarrow> p + 2 \<le> length vol \<and> take 2 (drop p vol) = '':/''"
proof (induction vol k rule: volume_sep.induct)
  case (1 vol k)
  obtain i where i: "find_str '':/'' (drop k vol) = Some i"
    using "1.prems" by (cases "find_str '':/'' (drop k vol)") (simp_all add: volume_sep.simps [of vol])
  note F = find_str_Some [OF i]
  show ?case
  proof (cases "i + k = 1 \<and> (is_ascii_lowercase (vol ! 0) \<or> is_ascii_uppercase (vol ! 0))")
    case True
    with "1.prems" i have "volume_sep vol (i + k + 1) = Some p" by (simp add: volume_sep.simps [of vol k])
    with "1.IH" [OF i refl True] show ?thesis by simp
  next
    case False
    with "1.prems" i have p: "p = i + k" by (simp add: volume_sep.simps [of vol k] Let_def split: if_splits)
    from F have len: "i + 2 \<le> length vol - k" by simp
    then have "k \<le> length vol" by simp
    with F len show ?thesis unfolding p by (simp add: add.commute numeral_2_eq_2)
  qed
qed

lemma rfind_byte_Some:
  assumes "rfind_byte b s = Some i"
  shows "i < length s \<and> s ! i = b \<and> b \<notin> set (drop (i + 1) s)"
proof -
  from assms obtain k where k: "position ((=) b) (rev s) = Some k" and i: "i = length s - 1 - k"
    by (auto simp: rfind_byte_def)
  from position_Some [OF k] have k': "k < length s" "rev s ! k = b" "\<forall>j < k. rev s ! j \<noteq> b" by auto
  have "b \<notin> set (drop (i + 1) s)"
  proof
    assume "b \<in> set (drop (i + 1) s)"
    then obtain j where j: "j < length s - (i + 1)" "s ! (i + 1 + j) = b" by (auto simp: in_set_conv_nth)
    define m where "m = length s - 1 - (i + 1 + j)"
    have "m < k" using j(1) k'(1) i by (simp add: m_def)
    moreover have "rev s ! m = s ! (i + 1 + j)" using j(1) by (simp add: rev_nth m_def)
    ultimately show False using k'(3) j(2) by metis
  qed
  moreover have "s ! i = b" using k' i by (simp add: rev_nth)
  ultimately show ?thesis using k'(1) i by simp
qed

lemma rfind_byte_at:
  assumes "b \<notin> set y"
  shows "rfind_byte b (x @ b # y) = Some (length x)"
proof -
  have "position ((=) b) (rev y @ b # rev x) = Some (length y)"
    using assms by (induction y rule: rev_induct) auto
  then show ?thesis by (simp add: rfind_byte_def)
qed

lemma parse_volume_parts:
  assumes "parse_short_form_volume vol = Some (host, target, mode)"
  shows "vol = host @ '':'' @ target @ (case mode of None \<Rightarrow> [] | Some m \<Rightarrow> '':'' @ m)" "starts_with ''/'' target"
    and "mode = Some m \<Longrightarrow> CHR '':'' \<notin> set m \<and> CHR ''/'' \<notin> set m"
proof -
  from assms obtain sep where sep: "volume_sep vol 0 = Some sep"
    by (cases "volume_sep vol 0") (simp_all add: parse_short_form_volume_def)
  define rest where "rest = drop (sep + 1) vol"
  note S = volume_sep_Some [OF sep]
  have c: "drop sep vol = CHR '':'' # CHR ''/'' # drop (sep + 2) vol"
    using S append_take_drop_id [of 2 "drop sep vol"] by (simp add: add.commute)
  have rest: "rest = CHR ''/'' # drop (sep + 2) vol"
    using arg_cong [OF c, of tl] by (simp add: rest_def tl_drop [symmetric] drop_Suc)
  have vol: "vol = take sep vol @ '':'' @ rest" using c rest append_take_drop_id [of sep vol] by simp
  have P: "parse_short_form_volume vol =
      (case rfind_byte (CHR '':'') rest of
         Some pos \<Rightarrow>
           (if pos > 0 \<and> CHR ''/'' \<notin> set (drop (pos + 1) rest)
            then Some (take sep vol, take pos rest, Some (drop (pos + 1) rest)) else Some (take sep vol, rest, None))
       | None \<Rightarrow> Some (take sep vol, rest, None))"
    unfolding parse_short_form_volume_def sep rest_def Let_def by simp
  have "host = take sep vol \<and> rest = target @ (case mode of None \<Rightarrow> [] | Some m \<Rightarrow> '':'' @ m) \<and> starts_with ''/'' target
    \<and> (\<forall>m. mode = Some m \<longrightarrow> CHR '':'' \<notin> set m \<and> CHR ''/'' \<notin> set m)"
  proof (cases "rfind_byte (CHR '':'') rest")
    case None
    with assms P rest show ?thesis by (auto simp: starts_with_iff)
  next
    case (Some pos)
    note R = rfind_byte_Some [OF Some]
    have split: "rest = take pos rest @ '':'' @ drop (pos + 1) rest"
      using id_take_nth_drop [of pos rest] R by simp
    have pos: "pos > 0" using R rest by (cases pos) auto
    then have sw: "starts_with ''/'' (take pos rest)" using rest by (cases pos) (simp_all add: starts_with_def)
    have parsed: "parse_short_form_volume vol = (if CHR ''/'' \<notin> set (drop (pos + 1) rest)
        then Some (take sep vol, take pos rest, Some (drop (pos + 1) rest)) else Some (take sep vol, rest, None))"
      using P Some pos by simp
    show ?thesis
    proof (cases "CHR ''/'' \<notin> set (drop (pos + 1) rest)")
      case True
      with parsed assms split sw R show ?thesis by auto
    next
      case False
      with parsed assms rest show ?thesis by (simp add: starts_with_iff)
    qed
  qed
  with vol show "vol = host @ '':'' @ target @ (case mode of None \<Rightarrow> [] | Some m \<Rightarrow> '':'' @ m)" "starts_with ''/'' target"
    and "mode = Some m \<Longrightarrow> CHR '':'' \<notin> set m \<and> CHR ''/'' \<notin> set m" by simp_all
qed

lemma volume_sep_host:
  assumes "\<not> contains_str '':/'' host" and "length host \<noteq> 1"
  shows "volume_sep (host @ '':/'' @ t) 0 = Some (length host)"
proof -
  let ?v = "host @ '':/'' @ t"
  have "find_str '':/'' ?v \<noteq> None"
    unfolding find_str_None by (auto simp: starts_with_def intro!: exI [of _ "length host"])
  then obtain i where i: "find_str '':/'' ?v = Some i" by auto
  note F = find_str_Some [OF i]
  have "\<not> i < length host"
  proof
    assume less: "i < length host"
    show False
    proof (cases "i + 2 \<le> length host")
      case True
      then have "starts_with '':/'' (drop i host)" using F by (simp add: starts_with_def)
      moreover have "\<not> starts_with '':/'' (drop i host)"
        using assms(1) less unfolding contains_str_def by (auto simp: find_str_None)
      ultimately show False by simp
    next
      case False
      then have "i = length host - 1" "drop i host = [host ! i]"
        using less by (auto simp: Cons_nth_drop_Suc [symmetric])
      with F less show False by simp
    qed
  qed
  moreover have "\<not> length host < i" using F by (auto simp: starts_with_def)
  ultimately have "i = length host" by simp
  with i assms(2) show ?thesis by (subst volume_sep.simps) simp
qed

lemma parse_volume_format:
  assumes "\<not> contains_str '':/'' host" and "length host \<noteq> 1" and "CHR '':'' \<notin> set m" and "CHR ''/'' \<notin> set m"
  shows "parse_short_form_volume (host @ '':/'' @ t @ '':'' @ m) = Some (host, ''/'' @ t, Some m)"
  using rfind_byte_at [OF assms(3), of "''/'' @ t"] assms(4) volume_sep_host [OF assms(1,2), of "t @ '':'' @ m"]
  by (simp add: parse_short_form_volume_def Let_def)

section \<open>Mount targets\<close>

definition normal_segs :: "rstr list \<Rightarrow> bool" where
  "normal_segs xs \<longleftrightarrow> (\<forall>x \<in> set xs. x \<noteq> [] \<and> x \<noteq> ''.'' \<and> x \<noteq> ''..'' \<and> CHR ''/'' \<notin> set x)"

lemma normal_segs_simps [simp]:
  "normal_segs []" "normal_segs (x # xs) \<longleftrightarrow> x \<noteq> [] \<and> x \<noteq> ''.'' \<and> x \<noteq> ''..'' \<and> CHR ''/'' \<notin> set x \<and> normal_segs xs"
  "normal_segs (xs @ ys) \<longleftrightarrow> normal_segs xs \<and> normal_segs ys"
  by (auto simp: normal_segs_def)

lemma normal_segs_butlast: "normal_segs xs \<Longrightarrow> normal_segs (butlast xs)"
  by (auto simp: normal_segs_def dest: in_set_butlastD)

lemma normal_segments_normal:
  "normal_segs segs \<Longrightarrow> \<forall>x \<in> set xs. CHR ''/'' \<notin> set x \<Longrightarrow> normal_segs (normal_segments segs xs)"
  by (induction segs xs rule: normal_segments.induct) (simp_all add: normal_segs_butlast)

lemma normal_segments_id: "normal_segs xs \<Longrightarrow> normal_segments segs xs = segs @ xs"
  by (induction xs arbitrary: segs) simp_all

lemma normalize_segs:
  obtains xs where "normal_segs xs" "normalize_mount_target t = ''/'' @ join_byte (CHR ''/'') xs"
proof
  show "normal_segs (normal_segments [] (split_byte (CHR ''/'') t))"
    using normal_segments_normal [of "[]"] split_byte_no_sep by simp
qed (simp add: normalize_mount_target_def)

lemma split_join_segs: "normal_segs xs \<Longrightarrow> xs \<noteq> [] \<Longrightarrow> split_byte (CHR ''/'') (join_byte (CHR ''/'') xs) = xs"
  by (intro split_join_byte) (auto simp: normal_segs_def)

lemma join_segs_Nil: "normal_segs xs \<Longrightarrow> join_byte (CHR ''/'') xs = [] \<longleftrightarrow> xs = []"
  by (cases "(CHR ''/'', xs)" rule: join_byte.cases) simp_all

lemma normalize_canonical:
  assumes "normal_segs xs"
  shows "normalize_mount_target (''/'' @ join_byte (CHR ''/'') xs) = ''/'' @ join_byte (CHR ''/'') xs"
proof (cases "xs = []")
  case False
  with assms split_join_segs have "split_byte (CHR ''/'') (join_byte (CHR ''/'') xs) = xs" by simp
  with assms show ?thesis by (simp add: normalize_mount_target_def normal_segments_id)
qed (simp add: normalize_mount_target_def)

lemma join_byte_inj:
  assumes "normal_segs xs" and "normal_segs ys" and "join_byte (CHR ''/'') xs = join_byte (CHR ''/'') ys"
  shows "xs = ys"
  using assms split_join_segs join_segs_Nil by metis

lemma join_byte_app: "xs \<noteq> [] \<Longrightarrow> ys \<noteq> [] \<Longrightarrow> join_byte d (xs @ ys) = join_byte d xs @ d # join_byte d ys"
  by (induction xs rule: join_byte.induct) (auto simp: neq_Nil_conv)

text \<open>Being in an area is being at or below it, segment by segment.\<close>

lemma mount_area_segments:
  assumes "normal_segs xs" and "normal_segs ys" and "ys \<noteq> []"
  shows "is_mount_area_target (''/'' @ join_byte (CHR ''/'') xs) (''/'' @ join_byte (CHR ''/'') ys) \<longleftrightarrow> (\<exists>zs. xs = ys @ zs)"
proof
  let ?j = "join_byte (CHR ''/'')"
  assume "is_mount_area_target (''/'' @ ?j xs) (''/'' @ ?j ys)"
  then consider "?j xs = ?j ys" | t where "?j xs = ?j ys @ ''/'' @ t"
    by (auto simp: is_mount_area_target_def starts_with_iff)
  then show "\<exists>zs. xs = ys @ zs"
  proof cases
    case 1
    with join_byte_inj [OF assms(1,2)] show ?thesis by auto
  next
    case 2
    have "xs \<noteq> []" using 2 by auto
    have "split_byte (CHR ''/'') (?j xs) = xs" using assms(1) \<open>xs \<noteq> []\<close> by (rule split_join_segs)
    moreover have "split_byte (CHR ''/'') (?j ys @ ''/'' @ t) = ys @ split_byte (CHR ''/'') t"
      using assms(2,3) by (induction "CHR ''/''" ys rule: join_byte.induct) (simp_all add: split_byte_append)
    ultimately show ?thesis using 2 by metis
  qed
next
  let ?j = "join_byte (CHR ''/'')"
  assume "\<exists>zs. xs = ys @ zs"
  then obtain zs where "xs = ys @ zs" by blast
  then show "is_mount_area_target (''/'' @ ?j xs) (''/'' @ ?j ys)"
    using assms(3) by (cases "zs = []") (auto simp: is_mount_area_target_def starts_with_iff join_byte_app)
qed

section \<open>When a check reports nothing\<close>

named_theorems gate_Nil

lemma report_unless_Nil [gate_Nil]: "report_unless ok v = [] \<longleftrightarrow> ok"
  by (simp add: report_unless_def)

lemma claude_report_Nil [gate_Nil]: "claude_report ok msg rem = [] \<longleftrightarrow> ok"
  by (simp add: claude_report_def gate_Nil)

lemma for_services_Nil:
  assumes "for_services doc f = []" and "get_services doc = Some services" and "(name, service) \<in> set services"
  shows "f name service = []"
  using assms by (auto simp: for_services_def)

lemma for_service_Nil:
  assumes "for_service doc wanted f = []" and "get_services doc = Some services"
    and "find (\<lambda>(n, _). n = wanted) services = Some (name, service)"
  shows "f name service = []"
  using assms by (simp add: for_service_def)

lemma find_in: "find P xs = Some x \<Longrightarrow> x \<in> set xs \<and> P x"
  by (induction xs) (auto split: if_splits)

lemma find_named: "find (\<lambda>(n, _). n = wanted) services = Some (name, service) \<Longrightarrow> name = wanted \<and> (name, service) \<in> set services"
  by (induction services) (auto split: if_splits)

lemma seq_has_iff:
  "seq_has key P service \<longleftrightarrow>
     (\<exists>items item s. yaml_get_seq key service = Some items \<and> item \<in> set items \<and> yaml_str item = Some s \<and> P s)"
  by (auto simp: seq_has_def list_ex_iff split: option.splits)

lemma run_Nil:
  assumes "run_with_data_dir W yml project manifests ep data_dir = []"
  obtains doc where "ce_yaml_parse W yml = Inr doc" "\<And>c. c \<in> set (checks_of W doc project manifests ep data_dir) \<Longrightarrow> c = []"
  using assms by (auto simp: run_with_data_dir_def split: sum.splits)

lemma checks_Nil:
  assumes "run_with_data_dir W yml project manifests ep data_dir = []" and "ce_yaml_parse W yml = Inr doc"
  shows "\<forall>c \<in> set (checks_of W doc project manifests ep data_dir). c = []"
  using assms by (auto simp: run_with_data_dir_def)

text \<open>The volumes one service may have.\<close>

definition service_volume_ok :: "volume_check_params \<Rightarrow> yaml \<Rightarrow> bool" where
  "service_volume_ok P vol \<longleftrightarrow>
     (\<exists>s host target mode. yaml_str vol = Some s \<and> parse_short_form_volume s = Some (host, target, mode)
        \<and> (target = ''/tokens'' \<and> host = vp_expected_tokens_path P \<and> mode_or_ro mode = vp_expected_token_mode P
           \<or> target = ''/workspace'' \<and> host = vp_expected_workspace_path P \<and> mode = Some (vp_expected_workspace_mode P)
           \<or> target \<notin> {''/tokens'', ''/workspace''} \<and> target \<in> set (vp_extra_allowed_ro_targets P) \<and> mode_or_ro mode = ''ro''))"

definition targets_volume :: "rstr \<Rightarrow> yaml \<Rightarrow> bool" where
  "targets_volume target vol \<longleftrightarrow>
     (\<exists>s host mode. yaml_str vol = Some s \<and> parse_short_form_volume s = Some (host, target, mode))"

lemma extract_volume_iff:
  "extract_volume_for_target s t = Some (host, mode) \<longleftrightarrow> parse_short_form_volume s = Some (host, t, mode)"
  by (auto simp: extract_volume_for_target_def split: option.splits)

lemma extract_volume_None:
  "parse_short_form_volume s = Some (host, u, mode) \<Longrightarrow> t \<noteq> u \<Longrightarrow> extract_volume_for_target s t = None"
  "parse_short_form_volume s = None \<Longrightarrow> extract_volume_for_target s t = None"
  by (simp_all add: extract_volume_for_target_def)

lemma extract_volume_first:
  "parse_short_form_volume s = Some (host, u, mode) \<Longrightarrow>
   List.map_filter (extract_volume_for_target s) ts = replicate (count_list ts u) (host, mode)"
  by (induction ts) (simp_all add: extract_volume_for_target_def List.map_filter_simps)

lemma volume_step_effect:
  "\<exists>vs. vs_violations (volume_step P vol st) = vs_violations st @ vs \<and> (vs = [] \<longleftrightarrow> service_volume_ok P vol)
    \<and> (vs_found_tokens (volume_step P vol st) \<longleftrightarrow> vs_found_tokens st \<or> targets_volume ''/tokens'' vol)
    \<and> (vs_found_workspace (volume_step P vol st) \<longleftrightarrow> vs_found_workspace st \<or> targets_volume ''/workspace'' vol)"
proof (cases "yaml_str vol")
  case None
  then show ?thesis by (auto simp: volume_step_def service_volume_ok_def targets_volume_def Let_def)
next
  case (Some s)
  show ?thesis
  proof (cases "parse_short_form_volume s")
    case None
    with Some show ?thesis
      by (auto simp: volume_step_def service_volume_ok_def targets_volume_def extract_volume_None List.map_filter_def Let_def)
  next
    case parsed: (Some p)
    obtain host target mode where p: "parse_short_form_volume s = Some (host, target, mode)" using parsed by (cases p) auto
    consider "target = ''/tokens''" | "target = ''/workspace''" | "target \<notin> {''/tokens'', ''/workspace''}" by blast
    then show ?thesis
    proof cases
      case 1
      with Some p show ?thesis
        by (auto simp: volume_step_def service_volume_ok_def targets_volume_def extract_volume_for_target_def Let_def)
    next
      case 2
      with Some p show ?thesis
        by (auto simp: volume_step_def service_volume_ok_def targets_volume_def extract_volume_for_target_def Let_def)
    next
      case 3
      note first = extract_volume_first [OF p, of "vp_extra_allowed_ro_targets P"]
      from 3 p have none: "extract_volume_for_target s ''/tokens'' = None" "extract_volume_for_target s ''/workspace'' = None"
        by (auto simp: extract_volume_for_target_def)
      show ?thesis
      proof (cases "count_list (vp_extra_allowed_ro_targets P) target")
        case 0
        then have "target \<notin> set (vp_extra_allowed_ro_targets P)" by (simp add: count_list_0_iff)
        with 3 Some p first none 0 show ?thesis
          by (auto simp: volume_step_def service_volume_ok_def targets_volume_def Let_def)
      next
        case (Suc n)
        then have "target \<in> set (vp_extra_allowed_ro_targets P)" by (metis count_list_0_iff nat.distinct(2))
        with 3 Some p first none Suc show ?thesis
          by (auto simp: volume_step_def service_volume_ok_def targets_volume_def Let_def)
      qed
    qed
  qed
qed

lemma volume_fold_effect:
  "\<exists>vs. vs_violations (fold (volume_step P) vols st) = vs_violations st @ vs \<and> (vs = [] \<longleftrightarrow> (\<forall>v \<in> set vols. service_volume_ok P v))
    \<and> (vs_found_tokens (fold (volume_step P) vols st) \<longleftrightarrow> vs_found_tokens st \<or> (\<exists>v \<in> set vols. targets_volume ''/tokens'' v))
    \<and> (vs_found_workspace (fold (volume_step P) vols st) \<longleftrightarrow> vs_found_workspace st \<or> (\<exists>v \<in> set vols. targets_volume ''/workspace'' v))"
proof (induction vols arbitrary: st)
  case (Cons v vols)
  obtain vs where vs: "vs_violations (volume_step P v st) = vs_violations st @ vs" "vs = [] \<longleftrightarrow> service_volume_ok P v"
    "vs_found_tokens (volume_step P v st) \<longleftrightarrow> vs_found_tokens st \<or> targets_volume ''/tokens'' v"
    "vs_found_workspace (volume_step P v st) \<longleftrightarrow> vs_found_workspace st \<or> targets_volume ''/workspace'' v"
    using volume_step_effect [of P v st] by blast
  obtain ws where "vs_violations (fold (volume_step P) vols (volume_step P v st)) = vs_violations (volume_step P v st) @ ws"
    "ws = [] \<longleftrightarrow> (\<forall>v \<in> set vols. service_volume_ok P v)"
    "vs_found_tokens (fold (volume_step P) vols (volume_step P v st)) \<longleftrightarrow>
       vs_found_tokens (volume_step P v st) \<or> (\<exists>v \<in> set vols. targets_volume ''/tokens'' v)"
    "vs_found_workspace (fold (volume_step P) vols (volume_step P v st)) \<longleftrightarrow>
       vs_found_workspace (volume_step P v st) \<or> (\<exists>v \<in> set vols. targets_volume ''/workspace'' v)"
    using Cons.IH [of "volume_step P v st"] by blast
  with vs show ?case by (intro exI [of _ "vs @ ws"]) auto
qed auto

lemma validate_service_Nil:
  assumes "vols = (case yaml_get_seq ''volumes'' service of Some vs \<Rightarrow> vs | None \<Rightarrow> [])"
  shows "fst (validate_service_volume_mounts service P) = [] \<longleftrightarrow>
     (\<forall>v \<in> set vols. service_volume_ok P v) \<and> (\<exists>v \<in> set vols. targets_volume ''/tokens'' v)
     \<and> (\<exists>v \<in> set vols. targets_volume ''/workspace'' v)"
  using volume_fold_effect [of P vols "\<lparr> vs_violations = [], vs_found_tokens = False, vs_found_workspace = False, vs_token_mode = None \<rparr>"]
  by (auto simp: validate_service_volume_mounts_def Let_def assms)

text \<open>The mounts claude may have.\<close>

definition claude_mount_ok :: "check_env \<Rightarrow> expected_paths \<Rightarrow> path \<Rightarrow> rstr \<Rightarrow> rstr \<Rightarrow> rstr \<Rightarrow> rstr option \<Rightarrow> bool" where
  "claude_mount_ok W ep data_dir project host target mode \<longleftrightarrow>
     target = ''/workspace'' \<and> host = ep_project_engine_path ep \<and> mode \<in> {None, Some ''rw''}
     \<or> (\<exists>slug. target = ''/speedwave/plugins/'' @ slug \<and> is_valid_slug slug \<and> mode = Some ''ro''
          \<and> ce_engine_path W (plugin_claude_resources_dir (path_join (plugins_base_dir_in data_dir) slug)) = Inr host)
     \<or> target = ''/etc/claude-code/'' @ MANAGED_SETTINGS_FILE
     \<or> (\<exists>sfx want. (target, sfx, want) \<in> set (fixed_targets project) \<and> ends_with sfx host \<and> mode = Some want)"

lemma plugin_resources_Nil:
  "check_plugin_resources_mount W slug host mode data_dir = [] \<longleftrightarrow>
     is_valid_slug slug \<and> mode = Some ''ro''
     \<and> ce_engine_path W (plugin_claude_resources_dir (path_join (plugins_base_dir_in data_dir) slug)) = Inr host"
  by (auto simp: check_plugin_resources_mount_def gate_Nil split: sum.splits)

lemma claude_volume_Nil:
  assumes "fst (claude_volume W ep data_dir project vol) = []"
  shows "\<exists>s host target mode. yaml_str vol = Some s \<and> parse_short_form_volume s = Some (host, target, mode)
    \<and> claude_mount_ok W ep data_dir project host target mode"
proof (cases "yaml_str vol")
  case None
  with assms show ?thesis by (simp add: claude_volume_def gate_Nil)
next
  case (Some s)
  show ?thesis
  proof (cases "parse_short_form_volume s")
    case None
    with Some assms show ?thesis by (simp add: claude_volume_def gate_Nil)
  next
    case parsed: (Some p)
    obtain host target mode where p: "p = (host, target, mode)" by (cases p) auto
    have "claude_mount_ok W ep data_dir project host target mode"
    proof (cases "target = ''/workspace''")
      case True
      with Some parsed p assms show ?thesis by (simp add: claude_volume_def claude_mount_ok_def gate_Nil)
    next
      case no_workspace: False
      show ?thesis
      proof (cases "strip_prefix ''/speedwave/plugins/'' target")
        case (Some slug)
        with \<open>yaml_str vol = Some s\<close> parsed p no_workspace assms show ?thesis
          by (auto simp: claude_volume_def claude_mount_ok_def plugin_resources_Nil strip_prefix_eq_Some)
      next
        case None
        show ?thesis
        proof (cases "find (\<lambda>(t, _, _). target = t) (fixed_targets project)")
          case found: None
          with None Some parsed p no_workspace assms show ?thesis
            by (simp add: claude_volume_def claude_mount_ok_def gate_Nil split: if_splits)
        next
          case found: (Some e)
          obtain t sfx want where e: "e = (t, sfx, want)" by (cases e) auto
          from find_in [OF found] e have "(target, sfx, want) \<in> set (fixed_targets project)" by simp
          with found e None Some parsed p no_workspace assms show ?thesis
            by (auto simp: claude_volume_def claude_mount_ok_def gate_Nil split: if_splits)
        qed
      qed
    qed
    with Some parsed p show ?thesis by blast
  qed
qed

lemma claude_volume_count:
  "snd (claude_volume W ep data_dir project vol) = (if targets_volume ''/workspace'' vol then 1 else 0)"
  by (auto simp: claude_volume_def targets_volume_def split: option.splits)

definition volumes_of :: "yaml \<Rightarrow> yaml list" where
  "volumes_of service = (case yaml_get_seq ''volumes'' service of Some vs \<Rightarrow> vs | None \<Rightarrow> [])"

lemma claude_workspace_Nil:
  assumes "check_claude_workspace_mount W doc ep data_dir project = []" and "get_services doc = Some services"
    and "find (\<lambda>(n, _). n = ''claude'') services = Some (name, claude)"
  shows "\<forall>vol \<in> set (volumes_of claude). \<exists>s host target mode. yaml_str vol = Some s
      \<and> parse_short_form_volume s = Some (host, target, mode) \<and> claude_mount_ok W ep data_dir project host target mode"
    and "length (filter (targets_volume ''/workspace'') (volumes_of claude)) = 1"
proof -
  note N = for_service_Nil [OF assms(1) [unfolded check_claude_workspace_mount_def] assms(2,3),
      folded volumes_of_def, unfolded Let_def append_is_Nil_conv claude_report_Nil]
  have "\<forall>vol \<in> set (volumes_of claude). fst (claude_volume W ep data_dir project vol) = []" using N by simp
  then show "\<forall>vol \<in> set (volumes_of claude). \<exists>s host target mode. yaml_str vol = Some s
      \<and> parse_short_form_volume s = Some (host, target, mode) \<and> claude_mount_ok W ep data_dir project host target mode"
    using claude_volume_Nil by blast
  have "sum_list (map snd (map (claude_volume W ep data_dir project) vs)) = length (filter (targets_volume ''/workspace'') vs)" for vs
    by (induction vs) (simp_all add: claude_volume_count)
  with N show "length (filter (targets_volume ''/workspace'') (volumes_of claude)) = 1" by simp
qed

lemma managed_settings_Nil:
  assumes "check_claude_managed_settings W doc data_dir project locked = []" and "get_services doc = Some services"
    and "find (\<lambda>(n, _). n = ''claude'') services = Some (name, claude)"
    and "vol \<in> set (volumes_of claude)" and "yaml_str vol = Some s"
    and "parse_short_form_volume s = Some (host, ''/etc/claude-code/'' @ MANAGED_SETTINGS_FILE, mode)"
  shows "mode = Some ''ro'' \<and> ce_engine_path W (managed_settings_path data_dir project) = Inr host"
proof -
  note N = for_service_Nil [OF assms(1) [unfolded check_claude_managed_settings_def] assms(2,3), folded volumes_of_def]
  obtain src where src: "ce_engine_path W (managed_settings_path data_dir project) = Inr src"
    using N by (cases "ce_engine_path W (managed_settings_path data_dir project)") (auto simp: gate_Nil)
  have "extract_volume_for_target s (''/etc/claude-code/'' @ MANAGED_SETTINGS_FILE) = Some (host, mode)"
    using assms(6) by (simp add: extract_volume_iff)
  moreover have "s \<in> set (List.map_filter yaml_str (volumes_of claude))"
    using assms(4,5) by (auto simp: List.map_filter_def intro!: rev_image_eqI [of vol])
  ultimately have "(host, mode) \<in> set (List.map_filter (\<lambda>s. extract_volume_for_target s (''/etc/claude-code/'' @ MANAGED_SETTINGS_FILE))
      (List.map_filter yaml_str (volumes_of claude)))"
    by (auto simp: List.map_filter_def intro!: rev_image_eqI [of s])
  with N src show ?thesis by (fastforce simp: gate_Nil Let_def)
qed

lemma claude_sources_Nil:
  assumes "check_no_policy_or_audit_mount_on_claude W doc data_dir project = []" and "get_services doc = Some services"
    and "find (\<lambda>(n, _). n = ''claude'') services = Some (name, claude)"
    and "vol \<in> set (volumes_of claude)" and "mount_source vol = Some host" and "(label, src) \<in> set (forbidden_sources W data_dir project)"
  shows "\<not> is_mount_area_target (normalize_mount_target host) (normalize_mount_target src)"
proof -
  obtain vols where "yaml_get_seq ''volumes'' claude = Some vols" "vol \<in> set vols"
    using assms(4) by (cases "yaml_get_seq ''volumes'' claude") (simp_all add: volumes_of_def)
  with for_service_Nil [OF assms(1) [unfolded check_no_policy_or_audit_mount_on_claude_def] assms(2,3)] assms(5,6)
  show ?thesis by (fastforce simp: gate_Nil)
qed

section \<open>Properties\<close>

text \<open>C3. A document that passes the gate hardens every service: all capabilities are dropped, no process gains
  privileges, the user is the unprivileged one, every string port is bound to the loopback address,
  built-in services publish none, and plugins are neither privileged nor on the host network.\<close>

theorem gate_hardens_services:
  assumes "run_with_data_dir W yml project manifests ep data_dir = []" and "ce_yaml_parse W yml = Inr doc"
    and "get_services doc = Some services" and "(name, service) \<in> set services"
  shows "(\<exists>items item s. yaml_get_seq ''cap_drop'' service = Some items \<and> item \<in> set items \<and> yaml_str item = Some s
        \<and> to_ascii_lowercase s = ''all'')
    \<and> (\<exists>items item. yaml_get_seq ''security_opt'' service = Some items \<and> item \<in> set items
        \<and> yaml_str item = Some ''no-new-privileges:true'')
    \<and> yaml_get_str ''user'' service = Some ''1000:1000''
    \<and> (\<forall>ports port s. yaml_get_seq ''ports'' service = Some ports \<and> port \<in> set ports \<and> yaml_str port = Some s
        \<longrightarrow> starts_with ''127.0.0.1:'' s)
    \<and> (name \<in> set BUILT_IN_SERVICES \<longrightarrow> yaml_get_seq ''ports'' service \<in> {None, Some []})
    \<and> (is_plugin_service service \<longrightarrow> Option.bind (yaml_get ''privileged'' service) yaml_bool \<noteq> Some True
        \<and> yaml_get_str ''network_mode'' service \<noteq> Some ''host'')"
proof -
  have "\<forall>c \<in> set (checks_of W doc project manifests ep data_dir). c = []" by (rule checks_Nil [OF assms(1,2)])
  then have N: "check_cap_drop doc = []" "check_no_new_privileges doc = []" "check_container_user doc = []"
    "check_ports_localhost_only doc = []" "check_no_ports_on_workers doc = []" "check_plugin_no_privileged doc = []"
    "check_plugin_no_host_network doc = []"
    by (simp_all add: checks_of_def)
  note on = for_services_Nil [OF _ assms(3,4)]
  have "seq_has ''cap_drop'' (\<lambda>s. eq_ignore_ascii_case s ''all'') service"
    using on [OF N(1) [unfolded check_cap_drop_def]] by (simp only: gate_Nil)
  moreover have "seq_has ''security_opt'' (\<lambda>s. s = ''no-new-privileges:true'') service"
    using on [OF N(2) [unfolded check_no_new_privileges_def]] by (simp only: gate_Nil)
  moreover have "yaml_get_str ''user'' service = Some ''1000:1000''"
    using on [OF N(3) [unfolded check_container_user_def]]
    by (simp add: gate_Nil container_user_def CONTAINER_USER_UNPRIVILEGED_def split: option.splits)
  moreover have "starts_with ''127.0.0.1:'' s"
    if "yaml_get_seq ''ports'' service = Some ports" "port \<in> set ports" "yaml_str port = Some s" for ports port s
    using on [OF N(4) [unfolded check_ports_localhost_only_def]] that by (force simp: gate_Nil)
  moreover have "name \<in> set BUILT_IN_SERVICES \<longrightarrow> yaml_get_seq ''ports'' service \<in> {None, Some []}"
    using on [OF N(5) [unfolded check_no_ports_on_workers_def]] by (auto simp: gate_Nil split: if_splits)
  moreover have "is_plugin_service service \<longrightarrow> Option.bind (yaml_get ''privileged'' service) yaml_bool \<noteq> Some True"
    using on [OF N(6) [unfolded check_plugin_no_privileged_def]] by (auto simp: gate_Nil split: if_splits)
  moreover have "is_plugin_service service \<longrightarrow> yaml_get_str ''network_mode'' service \<noteq> Some ''host''"
    using on [OF N(7) [unfolded check_plugin_no_host_network_def]] by (auto simp: gate_Nil split: if_splits)
  moreover have "to_ascii_lowercase ''all'' = ''all''" by code_simp
  ultimately show ?thesis unfolding seq_has_iff eq_ignore_ascii_case_def by metis
qed

text \<open>C6. A document that passes the gate confines claude: every volume is a short-form string whose target is
  the workspace (exactly the project directory, and exactly one such mount), a plugin's own resources
  read-only, the managed settings read-only from their own file, or one of four fixed targets with
  their mode. Of the host path of a fixed target only the ending is checked. The part of a volume before
  its first colon is not in the policy or audit directories, of this project or of all, as far as
  the runtime can resolve these.\<close>

theorem claude_confined:
  assumes "run_with_data_dir W yml project manifests ep data_dir = []" and "ce_yaml_parse W yml = Inr doc"
    and "get_services doc = Some services" and "find (\<lambda>(n, _). n = ''claude'') services = Some (name, claude)"
  shows "length (filter (targets_volume ''/workspace'') (volumes_of claude)) = 1
    \<and> (\<forall>vol \<in> set (volumes_of claude). \<exists>s host target mode. yaml_str vol = Some s
        \<and> s = host @ '':'' @ target @ (case mode of None \<Rightarrow> [] | Some m \<Rightarrow> '':'' @ m)
        \<and> claude_mount_ok W ep data_dir project host target mode
        \<and> (target = ''/etc/claude-code/'' @ MANAGED_SETTINGS_FILE \<longrightarrow>
             mode = Some ''ro'' \<and> ce_engine_path W (managed_settings_path data_dir project) = Inr host)
        \<and> (\<forall>(label, src) \<in> set (forbidden_sources W data_dir project).
             \<not> is_mount_area_target (normalize_mount_target (hd (split_byte (CHR '':'') s))) (normalize_mount_target src)))"
proof -
  have "\<forall>c \<in> set (checks_of W doc project manifests ep data_dir). c = []" by (rule checks_Nil [OF assms(1,2)])
  then have N: "check_claude_workspace_mount W doc ep data_dir project = []"
    "check_claude_managed_settings W doc data_dir project (ep_telemetry_locked ep) = []"
    "check_no_policy_or_audit_mount_on_claude W doc data_dir project = []"
    by (simp_all add: checks_of_def)
  have "\<exists>s host target mode. yaml_str vol = Some s
        \<and> s = host @ '':'' @ target @ (case mode of None \<Rightarrow> [] | Some m \<Rightarrow> '':'' @ m)
        \<and> claude_mount_ok W ep data_dir project host target mode
        \<and> (target = ''/etc/claude-code/'' @ MANAGED_SETTINGS_FILE \<longrightarrow>
             mode = Some ''ro'' \<and> ce_engine_path W (managed_settings_path data_dir project) = Inr host)
        \<and> (\<forall>(label, src) \<in> set (forbidden_sources W data_dir project).
             \<not> is_mount_area_target (normalize_mount_target (hd (split_byte (CHR '':'') s))) (normalize_mount_target src))"
    if vol: "vol \<in> set (volumes_of claude)" for vol
  proof -
    from claude_workspace_Nil(1) [OF N(1) assms(3,4)] vol obtain s host target mode where v: "yaml_str vol = Some s"
      "parse_short_form_volume s = Some (host, target, mode)" "claude_mount_ok W ep data_dir project host target mode" by blast
    have "mount_source vol = Some (hd (split_byte (CHR '':'') s))" using v(1) by (simp add: mount_source_def)
    note forbidden = claude_sources_Nil [OF N(3) assms(3,4) vol this]
    show ?thesis
      using v parse_volume_parts(1) [OF v(2)] managed_settings_Nil [OF N(2) assms(3,4) vol v(1)] forbidden by blast
  qed
  with claude_workspace_Nil(2) [OF N(1) assms(3,4)] show ?thesis by blast
qed

text \<open>A plugin or built-in worker passes its volume check exactly when each of its volumes is its token
  directory, the workspace or an allowed extra, each with its source and mode, and both are there.\<close>

theorem service_volumes_exact:
  "fst (validate_service_volume_mounts service P) = [] \<longleftrightarrow>
     (\<forall>v \<in> set (volumes_of service). service_volume_ok P v) \<and> (\<exists>v \<in> set (volumes_of service). targets_volume ''/tokens'' v)
     \<and> (\<exists>v \<in> set (volumes_of service). targets_volume ''/workspace'' v)"
  by (rule validate_service_Nil) (simp add: volumes_of_def)

lemma mount_area_Nil:
  assumes "check_mount_area_profile doc wanted area mode rule expected = []" and "get_services doc = Some services"
    and "find (\<lambda>(n, _). n = wanted) services = Some (name, svc)"
  shows "\<exists>src. expected = Inr src \<and> (\<exists>vol \<in> set (volumes_of svc). yaml_str vol = Some (src @ '':'' @ area @ '':'' @ mode))
    \<and> (\<forall>vol \<in> set (volumes_of svc). \<forall>s. yaml_str vol = Some s \<longrightarrow>
         s = src @ '':'' @ area @ '':'' @ mode \<or> \<not> short_form_targets_area s area)
    \<and> (\<forall>vol \<in> set (volumes_of svc). \<forall>target. yaml_str vol = None \<and> yaml_get_str ''target'' vol = Some target \<longrightarrow>
         \<not> is_mount_area_target (normalize_mount_target target) area)"
proof -
  note N = for_service_Nil [OF assms(1) [unfolded check_mount_area_profile_def] assms(2,3), folded volumes_of_def]
  then obtain src where src: "expected = Inr src" by (cases expected) simp_all
  have "s = src @ '':'' @ area @ '':'' @ mode \<or> \<not> short_form_targets_area s area"
    if "vol \<in> set (volumes_of svc)" "yaml_str vol = Some s" for vol s
    using N src that by (fastforce simp: gate_Nil Let_def)
  moreover have "\<not> is_mount_area_target (normalize_mount_target target) area"
    if "vol \<in> set (volumes_of svc)" "yaml_str vol = None" "yaml_get_str ''target'' vol = Some target" for vol target
    using N src that by (fastforce simp: gate_Nil Let_def)
  moreover have "\<exists>vol \<in> set (volumes_of svc). yaml_str vol = Some (src @ '':'' @ area @ '':'' @ mode)"
    using N src by (simp add: gate_Nil list_ex_iff Let_def)
  ultimately show ?thesis using src by blast
qed

lemma short_form_fields:
  assumes "CHR '':'' \<notin> set host" and "CHR '':'' \<notin> set target" and "CHR '':'' \<notin> set mode"
  shows "short_form_targets_area (host @ '':'' @ target @ '':'' @ mode) area \<longleftrightarrow>
    is_mount_area_target (normalize_mount_target target) area"
  using assms by (simp add: short_form_targets_area_def Let_def split_byte_append split_byte_single)

lemma policy_env_Nil:
  assumes "check_policy_file_env_pin doc wanted rule = []" and "get_services doc = Some services"
    and "find (\<lambda>(n, _). n = wanted) services = Some (name, svc)"
  shows "service_env_values svc ''POLICY_FILE'' \<noteq> [] \<and> (\<forall>v \<in> set (service_env_values svc ''POLICY_FILE''). v = ''/policy/policy.json'')"
  using for_service_Nil [OF assms(1) [unfolded check_policy_file_env_pin_def] assms(2,3)]
  by (auto simp: gate_Nil Let_def)

text \<open>C13. A document that passes the gate pins the policy of the proxy and of the hub: one volume is the
  read-only mount of the project's own policy directory, and no other volume reaches the policy area,
  whatever its number of fields, in the string form or in the map form with a \<open>target\<close>, even through a
  non-canonical path; and the variable that names the file is the canonical path wherever it is set.\<close>

theorem policy_pinned:
  assumes "run_with_data_dir W yml project manifests ep data_dir = []" and "ce_yaml_parse W yml = Inr doc"
    and "get_services doc = Some services" and "wanted \<in> {''proxy'', ''mcp-hub''}"
    and "find (\<lambda>(n, _). n = wanted) services = Some (name, svc)"
  shows "\<exists>src. ce_engine_path W (policy_config_dir_in data_dir project) = Inr src
    \<and> (\<exists>vol \<in> set (volumes_of svc). yaml_str vol = Some (src @ '':/policy:ro''))
    \<and> (\<forall>vol \<in> set (volumes_of svc). case yaml_str vol of
         Some s \<Rightarrow> s = src @ '':/policy:ro'' \<or> \<not> short_form_targets_area s ''/policy''
       | None \<Rightarrow> \<not> (\<exists>target. yaml_get_str ''target'' vol = Some target
           \<and> is_mount_area_target (normalize_mount_target target) ''/policy''))
    \<and> (\<forall>vol \<in> set (volumes_of svc). \<forall>host target mode. yaml_str vol = Some (host @ '':'' @ target @ '':'' @ mode)
         \<and> CHR '':'' \<notin> set host \<and> CHR '':'' \<notin> set target \<and> CHR '':'' \<notin> set mode
         \<and> is_mount_area_target (normalize_mount_target target) ''/policy''
         \<longrightarrow> host @ '':'' @ target @ '':'' @ mode = src @ '':/policy:ro'')
    \<and> service_env_values svc ''POLICY_FILE'' \<noteq> []
    \<and> (\<forall>v \<in> set (service_env_values svc ''POLICY_FILE''). v = ''/policy/policy.json'')"
proof -
  have "\<forall>c \<in> set (checks_of W doc project manifests ep data_dir). c = []" by (rule checks_Nil [OF assms(1,2)])
  then have "check_hub_policy_mount W doc data_dir project = []" "check_proxy_policy_mount W doc data_dir project = []"
    by (simp_all add: checks_of_def)
  then obtain rule where "check_mount_area_profile doc wanted ''/policy'' ''ro'' rule
        (ce_engine_path W (policy_config_dir_in data_dir project)) = []" "check_policy_file_env_pin doc wanted rule = []"
    using assms(4) by (auto simp: check_hub_policy_mount_def check_proxy_policy_mount_def check_policy_mount_def)
  note N = this
  from mount_area_Nil [OF N(1) assms(3,5)] obtain src where
    src: "ce_engine_path W (policy_config_dir_in data_dir project) = Inr src"
      "\<exists>vol \<in> set (volumes_of svc). yaml_str vol = Some (src @ '':'' @ ''/policy'' @ '':'' @ ''ro'')"
    and only: "\<forall>vol \<in> set (volumes_of svc). \<forall>s. yaml_str vol = Some s \<longrightarrow>
       s = src @ '':'' @ ''/policy'' @ '':'' @ ''ro'' \<or> \<not> short_form_targets_area s ''/policy''"
    and maps: "\<forall>vol \<in> set (volumes_of svc). \<forall>target. yaml_str vol = None \<and> yaml_get_str ''target'' vol = Some target \<longrightarrow>
         \<not> is_mount_area_target (normalize_mount_target target) ''/policy''" by (elim exE conjE)
  have forms: "\<forall>vol \<in> set (volumes_of svc). case yaml_str vol of
         Some s \<Rightarrow> s = src @ '':/policy:ro'' \<or> \<not> short_form_targets_area s ''/policy''
       | None \<Rightarrow> \<not> (\<exists>target. yaml_get_str ''target'' vol = Some target
           \<and> is_mount_area_target (normalize_mount_target target) ''/policy'')"
    using only maps by (auto split: option.split)
  have "host @ '':'' @ target @ '':'' @ mode = src @ '':/policy:ro''"
    if "vol \<in> set (volumes_of svc)" "yaml_str vol = Some (host @ '':'' @ target @ '':'' @ mode)"
      "CHR '':'' \<notin> set host" "CHR '':'' \<notin> set target" "CHR '':'' \<notin> set mode"
      "is_mount_area_target (normalize_mount_target target) ''/policy''" for vol host target mode
    using bspec [OF only that(1), THEN spec, THEN mp, OF that(2)] short_form_fields [OF that(3-5)] that(6) by simp
  then have "\<forall>vol \<in> set (volumes_of svc). \<forall>host target mode. yaml_str vol = Some (host @ '':'' @ target @ '':'' @ mode)
         \<and> CHR '':'' \<notin> set host \<and> CHR '':'' \<notin> set target \<and> CHR '':'' \<notin> set mode
         \<and> is_mount_area_target (normalize_mount_target target) ''/policy''
         \<longrightarrow> host @ '':'' @ target @ '':'' @ mode = src @ '':/policy:ro''" by blast
  moreover have "\<exists>vol \<in> set (volumes_of svc). yaml_str vol = Some (src @ '':/policy:ro'')" using src(2) by simp
  ultimately show ?thesis using src(1) forms policy_env_Nil [OF N(2) assms(3,5)] by (intro exI [of _ src] conjI) simp_all
qed

lemma egress_less_keys_Nil:
  assumes "check_egress_less_networks W doc project = []" and "(key, decl) \<in> set (egress_less_keys (ce_prefix W) project doc)"
  shows "key \<in> fst ` set (egress_less_network_owners (ce_prefix W) project) \<and> declares_external decl
    \<and> (case yaml_get ''name'' decl of None \<Rightarrow> True | Some n \<Rightarrow> yaml_str n = Some key)"
proof -
  note N = conjunct1 [OF assms(1) [unfolded check_egress_less_networks_def Let_def append_is_Nil_conv]]
  show ?thesis using N assms(2) by (fastforce simp: gate_Nil split: if_splits option.splits)
qed

text \<open>C19. A document that passes the gate cuts the office worker off: its only network is the project's egress-less
  one, which is declared external; every declaration that has this name as its key or in its \<open>name:\<close> has it
  as its key, is external, and has no \<open>name:\<close> that points at another network; and no service but the
  worker and the hub is attached to that network.\<close>

theorem office_isolated:
  assumes "run_with_data_dir W yml project manifests ep data_dir = []" and "ce_yaml_parse W yml = Inr doc"
    and "get_services doc = Some services" and "find (\<lambda>(n, _). n = ''mcp-office'') services = Some (name, office)"
  shows "let net = project_network_name (ce_prefix W) project @ ''_office'' in
      service_network_refs office \<noteq> [] \<and> set (service_network_refs office) = {net}
    \<and> (\<exists>kvs decl. Option.bind (yaml_get ''networks'' doc) yaml_map = Some kvs \<and> map_of kvs (YStr net) = Some decl
        \<and> declares_external decl
        \<and> (\<forall>(k, d) \<in> set kvs. \<forall>key. yaml_str k = Some key \<and> (key = net \<or> yaml_get_str ''name'' d = Some net) \<longrightarrow>
             key = net \<and> declares_external d \<and> (case yaml_get ''name'' d of None \<Rightarrow> True | Some n \<Rightarrow> yaml_str n = Some net)))
    \<and> (\<forall>(n, service) \<in> set services. net \<in> set (service_network_refs service) \<longrightarrow> n \<in> {''mcp-office'', ''mcp-hub''})"
proof -
  define net where "net = project_network_name (ce_prefix W) project @ ''_office''"
  have owners: "egress_less_network_owners (ce_prefix W) project = [(net, ''mcp-office'')]"
    by (simp add: egress_less_network_owners_def TOGGLEABLE_MCP_SERVICES_def egress_less_network_name_def net_def)
  have "\<forall>c \<in> set (checks_of W doc project manifests ep data_dir). c = []" by (rule checks_Nil [OF assms(1,2)])
  then have check: "check_egress_less_networks W doc project = []" by (simp add: checks_of_def)
  note N = this [unfolded check_egress_less_networks_def owners Let_def assms(3) option.case append_is_Nil_conv]
  have own: "service_network_refs office \<noteq> []" "\<forall>n \<in> set (service_network_refs office). n = net"
    "case Option.bind (Option.bind (yaml_get ''networks'' doc) yaml_map) (\<lambda>m. map_of m (YStr net)) of
       Some decl \<Rightarrow> declares_external decl | None \<Rightarrow> False"
    using conjunct2 [OF conjunct2 [OF N]] assms(4) by (auto simp: gate_Nil list_ex_iff)
  then obtain kvs decl where decl: "Option.bind (yaml_get ''networks'' doc) yaml_map = Some kvs"
      "map_of kvs (YStr net) = Some decl" "declares_external decl"
    by (cases "Option.bind (yaml_get ''networks'' doc) yaml_map") (auto split: option.splits)
  have named: "key = net \<and> declares_external d \<and> (case yaml_get ''name'' d of None \<Rightarrow> True | Some n \<Rightarrow> yaml_str n = Some net)"
    if "(k, d) \<in> set kvs" "yaml_str k = Some key" "key = net \<or> yaml_get_str ''name'' d = Some net" for k d key
  proof -
    have "(key, d) \<in> set (egress_less_keys (ce_prefix W) project doc)"
      using that decl(1) by (force simp: egress_less_keys_def owners List.map_filter_def list_ex_iff split: option.split)
    note egress_less_keys_Nil [OF check this, unfolded owners]
    moreover from this have "key = net" by simp
    ultimately show ?thesis by (auto split: option.splits)
  qed
  have "n \<in> {''mcp-office'', ''mcp-hub''}" if "(n, service) \<in> set services" "net \<in> set (service_network_refs service)" for n service
    using conjunct1 [OF conjunct2 [OF N]] that by (fastforce simp: gate_Nil)
  moreover have "set (service_network_refs office) = {net}" using own by (cases "service_network_refs office") auto
  ultimately show ?thesis unfolding net_def [symmetric] Let_def using own(1) decl named by blast
qed

text \<open>Volume strings are read as they are written: a host path, an absolute target and a mode come back as
  those three parts, unless the host path contains the separator or is a drive letter.\<close>

theorem volume_string_roundtrip:
  assumes "\<not> contains_str '':/'' host" and "length host \<noteq> 1" and "CHR '':'' \<notin> set m" and "CHR ''/'' \<notin> set m"
  shows "parse_short_form_volume (host @ '':/'' @ t @ '':'' @ m) = Some (host, ''/'' @ t, Some m)"
  by (rule parse_volume_format [OF assms])

text \<open>Mount paths are compared by segments: every path normalises to segments without empty, dot or dot-dot
  parts, normalising twice changes nothing, and a normalised path is in an area other than the root
  exactly when the segments of the area are a prefix of its own.\<close>

theorem mount_area_by_segments:
  "\<exists>xs ys. normal_segs xs \<and> normal_segs ys
    \<and> normalize_mount_target t = ''/'' @ join_byte (CHR ''/'') xs \<and> normalize_mount_target a = ''/'' @ join_byte (CHR ''/'') ys
    \<and> normalize_mount_target (normalize_mount_target t) = normalize_mount_target t
    \<and> (ys \<noteq> [] \<longrightarrow> (is_mount_area_target (normalize_mount_target t) (normalize_mount_target a) \<longleftrightarrow> (\<exists>zs. xs = ys @ zs)))"
proof -
  obtain xs ys where "normal_segs xs" "normalize_mount_target t = ''/'' @ join_byte (CHR ''/'') xs"
    "normal_segs ys" "normalize_mount_target a = ''/'' @ join_byte (CHR ''/'') ys"
    using normalize_segs by metis
  then show ?thesis using normalize_canonical mount_area_segments by (intro exI [of _ xs] exI [of _ ys]) simp
qed

section \<open>Concrete documents\<close>

definition ystrs :: "rstr list \<Rightarrow> yaml" where "ystrs ss = YSeq (map YStr ss)"

definition yobj :: "(rstr \<times> yaml) list \<Rightarrow> yaml" where "yobj fs = YMap (map (\<lambda>(k, v). (YStr k, v)) fs)"

definition demo_service :: "(rstr \<times> yaml) list \<Rightarrow> yaml" where
  "demo_service fs = yobj ([(''cap_drop'', ystrs [''ALL'']), (''security_opt'', ystrs [''no-new-privileges:true'']),
     (''user'', YStr ''1000:1000''), (''read_only'', YBool True), (''tmpfs'', ystrs [''/tmp:noexec,nosuid''])] @ fs)"

text \<open>A project with all the services the gate asks about, where claude's environment, the further volumes
  of the proxy, the environment of the hub and the token volume of Slack are still open.\<close>

definition demo_doc :: "yaml \<Rightarrow> yaml list \<Rightarrow> rstr list \<Rightarrow> rstr \<Rightarrow> yaml" where
  "demo_doc claude_env proxy_vols hub_env slack_tokens = yobj
     [(''services'', yobj
        [(''claude'', demo_service [(''volumes'', ystrs [''/p:/workspace:rw'']), (''environment'', claude_env)]),
         (''proxy'', demo_service [(''environment'', ystrs [''POLICY_FILE=/policy/policy.json'']),
            (''volumes'', YSeq (map YStr [''/d/proxy/acme:/config:ro'', ''/d/tokens/acme/llm:/tokens:ro'', ''/d/u:/usage:rw'',
               ''/d/policies/acme:/policy:ro'', ''/d/audit/acme:/audit:rw''] @ proxy_vols))]),
         (''mcp-hub'', demo_service [(''environment'', ystrs (''POLICY_FILE=/policy/policy.json'' # hub_env)),
            (''volumes'', ystrs [''/d/policies/acme:/policy:ro'', ''/d/audit/acme:/audit:rw''])]),
         (''mcp-slack'', demo_service [(''volumes'', ystrs [slack_tokens, ''/p:/workspace:rw''])]),
         (''mcp-office'', demo_service [(''networks'', ystrs [''sw_acme_network_office''])])]),
      (''networks'', yobj [(''sw_acme_network_office'', yobj [(''external'', YBool True)])])]"

definition demo_render :: "path \<Rightarrow> rstr" where
  "demo_render p = concat (map (\<lambda>c. case c of Normal s \<Rightarrow> ''/'' @ s | RootDir \<Rightarrow> [] | CurDir \<Rightarrow> ''/.'' | ParentDir \<Rightarrow> ''/..'') p)"

definition demo_gate :: "yaml \<Rightarrow> check_env" where
  "demo_gate doc = \<lparr> ce_yaml_parse = (\<lambda>_. Inr doc), ce_json_parse = (\<lambda>_. None), ce_url_parse = (\<lambda>_. Inl []),
     ce_engine_path = (\<lambda>p. Inr (demo_render p)), ce_uppercase = to_ascii_uppercase, ce_prefix = ''sw'',
     ce_debug_list = concat, ce_debug_yaml = (\<lambda>_. []), ce_display = demo_render, ce_read = (\<lambda>_. None),
     ce_read_dir = (\<lambda>_. None), ce_uid = (\<lambda>_. None), ce_lmeta = (\<lambda>_. None) \<rparr>"

definition demo_run :: "yaml \<Rightarrow> violation list" where
  "demo_run doc = run_with_data_dir (demo_gate doc) [] ''acme'' []
     \<lparr> ep_project_engine_path = ''/p'', ep_tokens_engine_dir = ''/d/tokens/acme'', ep_telemetry_locked = False \<rparr>
     [RootDir, Normal ''d'']"

definition good_doc :: yaml where "good_doc = demo_doc (ystrs [''LANG=C'']) [] [] ''/d/tokens/acme/slack:/tokens:ro''"

lemma good_doc_passes: "demo_run good_doc = []"
  by code_simp

lemma good_services: "get_services good_doc = Some [
    (''claude'', demo_service [(''volumes'', ystrs [''/p:/workspace:rw'']), (''environment'', ystrs [''LANG=C''])]),
    (''proxy'', demo_service [(''environment'', ystrs [''POLICY_FILE=/policy/policy.json'']),
       (''volumes'', YSeq (map YStr [''/d/proxy/acme:/config:ro'', ''/d/tokens/acme/llm:/tokens:ro'', ''/d/u:/usage:rw'',
          ''/d/policies/acme:/policy:ro'', ''/d/audit/acme:/audit:rw'']))]),
    (''mcp-hub'', demo_service [(''environment'', ystrs [''POLICY_FILE=/policy/policy.json'']),
       (''volumes'', ystrs [''/d/policies/acme:/policy:ro'', ''/d/audit/acme:/audit:rw''])]),
    (''mcp-slack'', demo_service [(''volumes'', ystrs [''/d/tokens/acme/slack:/tokens:ro'', ''/p:/workspace:rw''])]),
    (''mcp-office'', demo_service [(''networks'', ystrs [''sw_acme_network_office''])])]"
  by code_simp

lemmas good_run = good_doc_passes [unfolded demo_run_def]

lemma good_parse: "ce_yaml_parse (demo_gate good_doc) [] = Inr good_doc"
  by (simp add: demo_gate_def)

lemma gate_hardens_services_witness:
  "yaml_get_str ''user'' (demo_service [(''networks'', ystrs [''sw_acme_network_office''])]) = Some ''1000:1000''"
  using gate_hardens_services [OF good_run good_parse good_services, of "''mcp-office''"] by auto

lemma claude_confined_witness:
  "length (filter (targets_volume ''/workspace'')
     (volumes_of (demo_service [(''volumes'', ystrs [''/p:/workspace:rw'']), (''environment'', ystrs [''LANG=C''])]))) = 1"
  using claude_confined [OF good_run good_parse good_services] by simp

lemma policy_pinned_witness:
  "\<exists>src. ce_engine_path (demo_gate good_doc) (policy_config_dir_in [RootDir, Normal ''d''] ''acme'') = Inr src"
  using policy_pinned [OF good_run good_parse good_services, of "''proxy''"] by auto

lemma office_isolated_witness:
  "service_network_refs (demo_service [(''networks'', ystrs [''sw_acme_network_office''])]) \<noteq> []"
  using office_isolated [OF good_run good_parse good_services] by (simp add: Let_def)

lemma volume_string_roundtrip_witness: "parse_short_form_volume ''/d/x:/config:ro'' = Some (''/d/x'', ''/config'', Some ''ro'')"
proof -
  have "\<not> contains_str '':/'' ''/d/x''" by code_simp
  from volume_string_roundtrip [OF this, of "''ro''" "''config''"] show ?thesis by simp
qed

lemma service_volumes_exact_witness:
  "\<exists>v \<in> set (volumes_of (demo_service [(''volumes'', ystrs [''/t:/tokens'', ''/p:/workspace:rw''])])). targets_volume ''/tokens'' v"
proof -
  have "fst (validate_service_volume_mounts (demo_service [(''volumes'', ystrs [''/t:/tokens'', ''/p:/workspace:rw''])])
     \<lparr> vp_container_name = ''mcp-slack'', vp_expected_tokens_path = ''/t'', vp_expected_workspace_path = ''/p'',
       vp_expected_token_mode = ''ro'', vp_expected_workspace_mode = ''rw'', vp_extra_allowed_ro_targets = [],
       vp_rules = SLACK_RULES \<rparr>) = []"
    by code_simp
  then show ?thesis by (simp only: service_volumes_exact)
qed

lemma mount_area_by_segments_witness:
  "normalize_mount_target (normalize_mount_target ''/a/./b//../policy/'') = normalize_mount_target ''/a/./b//../policy/''"
  using mount_area_by_segments [of "''/a/./b//../policy/''" "''/policy''"] by blast

text \<open>Two forms of YAML escape the gate: with claude's environment written as a mapping its secrets are not
  seen, and a map-form volume of the proxy is not seen either, here the root of the host's disk; as a
  sequence and as a string the same entries are reported.\<close>

theorem gate_misses_map_forms:
  "let secrets = [''GITHUB_TOKEN=t'', ''OPENAI_API_KEY=k''];
       map_env = yobj [(''GITHUB_TOKEN'', YStr ''t''), (''OPENAI_API_KEY'', YStr ''k'')];
       map_vol = yobj [(''type'', YStr ''bind''), (''source'', YStr ''/''), (''target'', YStr ''/host'')];
       tokens = ''/d/tokens/acme/slack:/tokens:ro''
   in demo_run (demo_doc map_env [map_vol] [] tokens) = []
      \<and> map vi_rule (demo_run (demo_doc (ystrs secrets) [YStr ''/:/host''] [] tokens))
          = [NoTokensClaude, NoTokensClaude, NoExternalLlmKeysClaude, SpeedwaveProxyVolumes]"
  by code_simp

text \<open>Three checks accept more than their rules say: a token directory of a built-in worker mounted without a
  mode, which the rule wants read-only, a credential of the hub in a variable that starts with the
  worker prefix, and three mounts of the configuration in place of configuration, tokens and usage.\<close>

theorem gate_accepts_too_much:
  "demo_run (demo_doc (ystrs []) [] [''WORKER_GITLAB_TOKEN=t''] ''/d/tokens/acme/slack:/tokens'') = []
   \<and> map vi_rule (demo_run (demo_doc (ystrs []) [] [] ''/d/tokens/acme/slack:/tokens:rw'')) = [PluginTokenMountMode]
   \<and> check_proxy_volumes (yobj [(''services'', yobj [(''proxy'', yobj [(''volumes'',
         ystrs [''/a:/config:ro'', ''/b:/config:ro'', ''/c:/config:ro''])])])])
       \<lparr> ep_project_engine_path = ''/p'', ep_tokens_engine_dir = ''/t'', ep_telemetry_locked = False \<rparr> = []"
  by code_simp

end
