(* ===== verification/Keep_Awake.thy ===== *)
theory Keep_Awake
  imports Prelude
begin

text \<open>
  The keep-awake switch of the desktop application (\<^verbatim>\<open>desktop/src-tauri/src/keep_awake.rs\<close>): recordings,
  transcription passes and chat turns take holds, and while one lives an assertion keeps the computer out of
  idle sleep. The last release leaves the assertion to a timer thread, so work that starts within the grace
  finds it still taken. The operations are functions on the state behind the mutex; holds, timer threads, the
  clock and the answers of the operating system are the labelled steps of a system around it. Log lines and
  the configuration file behind the switch are left out.
\<close>

section \<open>The keeper\<close>

text \<open>What the operating system gives for a taken assertion, and its answer to a request for one.\<close>

type_synonym os_handle = nat
type_synonym acquired = "string + os_handle"

text \<open>The counters are machine words: \<open>usize\<close> on the 64-bit targets and \<open>u64\<close>.\<close>

record keeper =
  kp_holders :: u64
  kp_generation :: u64
  kp_enabled :: "bool option"
  kp_assertion :: "os_handle option"

definition keeper_default :: keeper where
  "keeper_default = \<lparr> kp_holders = 0, kp_generation = 0, kp_enabled = None, kp_assertion = None \<rparr>"

text \<open>In milliseconds.\<close>

definition RELEASE_GRACE :: nat where "RELEASE_GRACE = 30000"

text \<open>The stored switch: unset or unreadable means on.\<close>

definition setting_from :: "string + bool option \<Rightarrow> bool" where
  "setting_from loaded =
     (case loaded of
        Inr stored \<Rightarrow> (case stored of Some b \<Rightarrow> b | None \<Rightarrow> True)
      | Inl _ \<Rightarrow> True)"

definition ensure_assertion :: "bool \<Rightarrow> acquired \<Rightarrow> keeper \<Rightarrow> keeper" where
  "ensure_assertion setting answer st =
     (let enabled = (case kp_enabled st of Some b \<Rightarrow> b | None \<Rightarrow> setting);
          st' = st \<lparr> kp_enabled := Some enabled \<rparr> in
      if kp_assertion st' \<noteq> None \<or> \<not> enabled then st'
      else (case answer of Inr a \<Rightarrow> st' \<lparr> kp_assertion := Some a \<rparr> | Inl _ \<Rightarrow> st'))"

definition drop_assertion :: "keeper \<Rightarrow> keeper" where
  "drop_assertion st = st \<lparr> kp_assertion := None \<rparr>"

definition keeper_hold :: "bool \<Rightarrow> acquired \<Rightarrow> keeper \<Rightarrow> keeper" where
  "keeper_hold setting answer st =
     ensure_assertion setting answer (st \<lparr> kp_holders := kp_holders st + 1, kp_generation := kp_generation st + 1 \<rparr>)"

definition set_enabled :: "bool \<Rightarrow> bool \<Rightarrow> acquired \<Rightarrow> keeper \<Rightarrow> keeper" where
  "set_enabled enabled setting answer st =
     (let st' = st \<lparr> kp_enabled := Some enabled \<rparr> in
      if \<not> enabled then drop_assertion st'
      else if kp_holders st' > 0 then ensure_assertion setting answer st'
      else st')"

text \<open>A release; the generation it returns is the one its delayed release is started with.\<close>

definition keeper_release :: "keeper \<Rightarrow> keeper \<times> u64 option" where
  "keeper_release st =
     (let st' = st \<lparr> kp_holders := (if kp_holders st = 0 then 0 else kp_holders st - 1) \<rparr> in
      if kp_holders st' > 0 \<or> kp_assertion st' = None then (st', None)
      else (st', Some (kp_generation st')))"

definition release_if_idle :: "u64 \<Rightarrow> keeper \<Rightarrow> keeper" where
  "release_if_idle generation st =
     (if kp_holders st = 0 \<and> kp_generation st = generation then drop_assertion st else st)"

definition keeper_renew :: "acquired \<Rightarrow> keeper \<Rightarrow> keeper" where
  "keeper_renew answer st =
     (if kp_holders st = 0 \<or> kp_enabled st \<noteq> Some True then st
      else (case answer of Inr fresh \<Rightarrow> st \<lparr> kp_assertion := Some fresh \<rparr> | Inl _ \<Rightarrow> st))"

section \<open>Holds, timers and the clock\<close>

text \<open>
  The keeper with what surrounds it: how many holds live, how many were ever taken, the delayed releases that
  still sleep, each with the time it wakes up at the earliest, and the clock. A delayed release whose thread
  cannot be started runs without a delay, possibly after other calls.
\<close>

record awake =
  aw_keeper :: keeper
  aw_live :: nat
  aw_taken :: nat
  aw_timers :: "(nat \<times> u64) list"
  aw_now :: nat

definition awake_start :: awake where
  "awake_start = \<lparr> aw_keeper = keeper_default, aw_live = 0, aw_taken = 0, aw_timers = [], aw_now = 0 \<rparr>"

datatype awake_event =
    Hold bool acquired
  | Drop_hold bool
  | Switch bool bool acquired
  | Renew acquired
  | Tick nat
  | Wake "nat \<times> u64"

inductive awake_step :: "nat \<Rightarrow> awake \<Rightarrow> awake_event \<Rightarrow> awake \<Rightarrow> bool" for grace where
  step_hold:
    "awake_step grace s (Hold setting answer)
       (s \<lparr> aw_keeper := keeper_hold setting answer (aw_keeper s), aw_live := aw_live s + 1, aw_taken := aw_taken s + 1 \<rparr>)"
| step_drop:
    "0 < aw_live s \<Longrightarrow> keeper_release (aw_keeper s) = (k, delayed) \<Longrightarrow>
     awake_step grace s (Drop_hold spawned)
       (s \<lparr> aw_keeper := k, aw_live := aw_live s - 1,
            aw_timers := aw_timers s @ (case delayed of None \<Rightarrow> []
                            | Some generation \<Rightarrow> [(if spawned then aw_now s + grace else aw_now s, generation)]) \<rparr>)"
| step_switch:
    "awake_step grace s (Switch enabled setting answer) (s \<lparr> aw_keeper := set_enabled enabled setting answer (aw_keeper s) \<rparr>)"
| step_renew:
    "awake_step grace s (Renew answer) (s \<lparr> aw_keeper := keeper_renew answer (aw_keeper s) \<rparr>)"
| step_tick:
    "awake_step grace s (Tick d) (s \<lparr> aw_now := aw_now s + d \<rparr>)"
| step_wake:
    "(due, generation) \<in> set (aw_timers s) \<Longrightarrow> due \<le> aw_now s \<Longrightarrow>
     awake_step grace s (Wake (due, generation))
       (s \<lparr> aw_keeper := release_if_idle generation (aw_keeper s), aw_timers := remove1 (due, generation) (aw_timers s) \<rparr>)"

inductive_cases awake_stepE: "awake_step grace s e t"
inductive_cases awake_holdE: "awake_step grace s (Hold setting answer) t"
inductive_cases awake_wakeE: "awake_step grace s (Wake d) t"

section \<open>The invariant\<close>

text \<open>As long as fewer than \<open>2 ^ 64\<close> holds were taken the words count the holds exactly.\<close>

definition awake_ok :: "awake \<Rightarrow> bool" where
  "awake_ok s \<longleftrightarrow>
     kp_holders (aw_keeper s) = of_nat (aw_live s) \<and> kp_generation (aw_keeper s) = of_nat (aw_taken s)
   \<and> aw_live s \<le> aw_taken s
   \<and> (\<forall>(due, g) \<in> set (aw_timers s). \<exists>n \<le> aw_taken s. g = of_nat n \<and> (0 < aw_live s \<longrightarrow> n < aw_taken s))
   \<and> (kp_assertion (aw_keeper s) \<noteq> None \<longrightarrow> kp_enabled (aw_keeper s) = Some True)
   \<and> (0 < aw_taken s \<longrightarrow> kp_enabled (aw_keeper s) \<noteq> None)
   \<and> (kp_assertion (aw_keeper s) \<noteq> None \<and> aw_live s = 0 \<longrightarrow>
        (\<exists>due. (due, kp_generation (aw_keeper s)) \<in> set (aw_timers s)))"

definition awake_inv :: "awake \<Rightarrow> bool" where
  "awake_inv s \<longleftrightarrow> (aw_taken s < 2 ^ 64 \<longrightarrow> awake_ok s)"

lemma of_nat_u64_eq: "a < 2 ^ 64 \<Longrightarrow> b < 2 ^ 64 \<Longrightarrow> (of_nat a :: u64) = of_nat b \<longleftrightarrow> a = b"
  by (auto simp: word_unat_eq_iff unat_of_nat take_bit_nat_eq_self)

lemma of_nat_u64_0: "b < 2 ^ 64 \<Longrightarrow> (of_nat b :: u64) = 0 \<longleftrightarrow> b = 0"
  using of_nat_u64_eq [of b 0] by simp

lemmas keeper_defs = keeper_hold_def set_enabled_def keeper_release_def release_if_idle_def keeper_renew_def
  ensure_assertion_def drop_assertion_def Let_def

lemma ensure_assertion_frame [simp]:
  "kp_holders (ensure_assertion setting answer st) = kp_holders st"
  "kp_generation (ensure_assertion setting answer st) = kp_generation st"
  "kp_enabled (ensure_assertion setting answer st) = Some (case kp_enabled st of Some b \<Rightarrow> b | None \<Rightarrow> setting)"
  by (simp_all add: ensure_assertion_def Let_def split: sum.split)

lemma ensure_assertion_assertion:
  "kp_assertion (ensure_assertion setting answer st) =
     (if kp_assertion st \<noteq> None then kp_assertion st
      else if case kp_enabled st of Some b \<Rightarrow> b | None \<Rightarrow> setting
      then (case answer of Inr a \<Rightarrow> Some a | Inl _ \<Rightarrow> None) else None)"
  by (auto simp: ensure_assertion_def Let_def split: sum.split)


lemma awake_ok_start: "awake_ok awake_start"
  by (simp add: awake_ok_def awake_start_def keeper_default_def)

lemma awake_ok_holders: "awake_ok s \<Longrightarrow> aw_taken s < 2 ^ 64 \<Longrightarrow> kp_holders (aw_keeper s) = 0 \<longleftrightarrow> aw_live s = 0"
  by (auto simp: awake_ok_def of_nat_u64_0)

lemma awake_ok_hold:
  assumes "awake_ok s" and "aw_taken s + 1 < 2 ^ 64"
  shows "awake_ok (s \<lparr> aw_keeper := keeper_hold setting answer (aw_keeper s), aw_live := aw_live s + 1, aw_taken := aw_taken s + 1 \<rparr>)"
proof -
  have "\<forall>(due, g) \<in> set (aw_timers s). \<exists>n \<le> aw_taken s + 1. g = of_nat n \<and> n < aw_taken s + 1"
  proof (intro ballI, clarify)
    fix due g
    assume "(due, g) \<in> set (aw_timers s)"
    with assms(1) obtain n where "n \<le> aw_taken s" "g = of_nat n" unfolding awake_ok_def by fast
    then show "\<exists>n \<le> aw_taken s + 1. g = of_nat n \<and> n < aw_taken s + 1" by (intro exI [of _ n]) simp
  qed
  with assms(1) show ?thesis
    unfolding awake_ok_def keeper_hold_def
    by (auto simp: ensure_assertion_assertion split: option.splits if_splits sum.splits)
qed

lemma awake_ok_release:
  assumes "awake_ok s" and "aw_taken s < 2 ^ 64" and "0 < aw_live s" and "keeper_release (aw_keeper s) = (k, delayed)"
  shows "awake_ok (s \<lparr> aw_keeper := k, aw_live := aw_live s - 1,
            aw_timers := aw_timers s @ (case delayed of None \<Rightarrow> [] | Some g \<Rightarrow> [(due, g)]) \<rparr>)"
proof -
  from assms(1-3) have "kp_holders (aw_keeper s) = of_nat (aw_live s)" "kp_holders (aw_keeper s) \<noteq> 0"
    using awake_ok_holders by (auto simp: awake_ok_def)
  moreover have "(of_nat (aw_live s) :: u64) - 1 = of_nat (aw_live s - 1)"
    using assms(3) by (cases "aw_live s") simp_all
  moreover have "aw_live s - 1 < 2 ^ 64" using assms(1,2) unfolding awake_ok_def by linarith
  ultimately have "k = (aw_keeper s) \<lparr> kp_holders := of_nat (aw_live s - 1) \<rparr>"
    and "delayed = (if 0 < aw_live s - 1 \<or> kp_assertion (aw_keeper s) = None then None else Some (kp_generation (aw_keeper s)))"
    using assms(4) of_nat_u64_0 [of "aw_live s - 1"]
    by (auto simp: keeper_release_def Let_def word_gt_0 split: if_splits)
  moreover have "\<forall>(due, g) \<in> set (aw_timers s). \<exists>n \<le> aw_taken s. g = of_nat n \<and> n < aw_taken s"
    using assms(1,3) unfolding awake_ok_def by simp
  ultimately show ?thesis
    using assms(1,3) unfolding awake_ok_def by auto
qed

lemma awake_ok_wake:
  assumes "awake_ok s" and "aw_taken s < 2 ^ 64"
  shows "awake_ok (s \<lparr> aw_keeper := release_if_idle g (aw_keeper s), aw_timers := remove1 (due, g) (aw_timers s) \<rparr>)"
proof (cases "kp_holders (aw_keeper s) = 0 \<and> kp_generation (aw_keeper s) = g")
  case True
  have "set (remove1 (due, g) (aw_timers s)) \<subseteq> set (aw_timers s)" by (rule set_remove1_subset)
  with True assms(1) show ?thesis unfolding awake_ok_def release_if_idle_def drop_assertion_def by auto
next
  case False
  have sub: "set (remove1 (due, g) (aw_timers s)) \<subseteq> set (aw_timers s)" by (rule set_remove1_subset)
  have "(due', kp_generation (aw_keeper s)) \<in> set (remove1 (due, g) (aw_timers s))"
    if "(due', kp_generation (aw_keeper s)) \<in> set (aw_timers s)" "aw_live s = 0" for due'
    using that False awake_ok_holders [OF assms] by (auto simp: in_set_remove1)
  with False sub assms(1) show ?thesis unfolding awake_ok_def release_if_idle_def by auto
qed

lemma awake_ok_switch:
  assumes "awake_ok s" and "aw_taken s < 2 ^ 64"
  shows "awake_ok (s \<lparr> aw_keeper := set_enabled enabled setting answer (aw_keeper s) \<rparr>)"
  using assms awake_ok_holders [OF assms]
  by (auto simp: awake_ok_def set_enabled_def drop_assertion_def Let_def ensure_assertion_assertion word_gt_0
      split: option.splits if_splits sum.splits)

lemma awake_ok_renew:
  assumes "awake_ok s" and "aw_taken s < 2 ^ 64"
  shows "awake_ok (s \<lparr> aw_keeper := keeper_renew answer (aw_keeper s) \<rparr>)"
  using assms awake_ok_holders [OF assms]
  by (auto simp: awake_ok_def keeper_renew_def split: option.splits if_splits sum.splits)

lemma awake_taken_mono: "awake_step grace s e t \<Longrightarrow> aw_taken s \<le> aw_taken t"
  by (erule awake_stepE) auto

lemma awake_inv_step: "awake_inv s \<Longrightarrow> awake_step grace s e t \<Longrightarrow> awake_inv t"
proof -
  assume inv: "awake_inv s" and step: "awake_step grace s e t"
  show "awake_inv t"
    unfolding awake_inv_def
  proof
    assume few: "aw_taken t < 2 ^ 64"
    with awake_taken_mono [OF step] inv have ok: "awake_ok s" "aw_taken s < 2 ^ 64" by (auto simp: awake_inv_def)
    from step show "awake_ok t"
    proof cases
      case step_hold
      with few awake_ok_hold [OF ok(1)] show ?thesis by simp
    next
      case (step_drop k delayed spawned)
      show ?thesis unfolding step_drop(2) by (rule awake_ok_release [OF ok step_drop(3,4)])
    next
      case step_tick
      with ok show ?thesis unfolding awake_ok_def by auto
    qed (use ok awake_ok_wake awake_ok_switch awake_ok_renew in auto)
  qed
qed

interpretation keeper: relational_machine awake_start "awake_step grace" awake_inv for grace
  by unfold_locales (simp add: awake_inv_def awake_ok_start, rule awake_inv_step)


lemma awake_reached:
  "lts_run (awake_step grace) awake_start es s \<Longrightarrow> aw_taken s < 2 ^ 64 \<Longrightarrow> awake_ok s"
  using keeper.inv_reached by (auto simp: awake_inv_def)

lemma awake_run_ok:
  "lts_run (awake_step grace) s es t \<Longrightarrow> awake_inv s \<Longrightarrow> aw_taken t < 2 ^ 64 \<Longrightarrow> awake_ok t"
  using keeper.inv_from by (auto simp: awake_inv_def)

lemma awake_run_taken: "lts_run (awake_step grace) s es t \<Longrightarrow> aw_taken s \<le> aw_taken t"
  by (induction rule: lts_run.induct) (auto dest: awake_taken_mono)

lemma awake_run_now: "lts_run (awake_step grace) s es t \<Longrightarrow> aw_now s \<le> aw_now t"
  by (induction rule: lts_run.induct) (auto elim!: awake_stepE)

section \<open>What the assertion promises\<close>

text \<open>In every state reached with fewer than 2 to the 64 holds the assertion is taken only while the switch is
  on, and once no hold lives and no delayed release is left the computer may sleep.\<close>

theorem keep_awake_no_leak:
  assumes "lts_run (awake_step grace) awake_start es s" and "aw_taken s < 2 ^ 64"
  shows "(kp_assertion (aw_keeper s) \<noteq> None \<longrightarrow> kp_enabled (aw_keeper s) = Some True)
    \<and> (aw_live s = 0 \<and> aw_timers s = [] \<longrightarrow> kp_assertion (aw_keeper s) = None)"
  using awake_reached [OF assms] unfolding awake_ok_def by auto

text \<open>The operating system grants what the event asks for.\<close>

fun granted :: "awake_event \<Rightarrow> bool" where
  "granted (Hold setting answer) = (\<exists>h. answer = Inr h)"
| "granted (Switch enabled setting answer) = (\<exists>h. answer = Inr h)"
| "granted _ = True"

lemma granted_step:
  assumes "awake_step grace s e t" and "granted e" and "awake_ok s" and "aw_taken s < 2 ^ 64"
    and "0 < aw_live s \<and> kp_enabled (aw_keeper s) = Some True \<longrightarrow> kp_assertion (aw_keeper s) \<noteq> None"
  shows "0 < aw_live t \<and> kp_enabled (aw_keeper t) = Some True \<longrightarrow> kp_assertion (aw_keeper t) \<noteq> None"
  using assms(1)
proof cases
  case (step_hold setting answer)
  with assms(2) show ?thesis by (auto simp: keeper_hold_def ensure_assertion_assertion split: option.splits)
next
  case (step_drop k delayed spawned)
  then show ?thesis using assms(5) by (auto simp: keeper_release_def Let_def split: if_splits)
next
  case (step_switch enabled setting answer)
  with assms(2,5) awake_ok_holders [OF assms(3,4)] show ?thesis
    by (auto simp: set_enabled_def drop_assertion_def Let_def ensure_assertion_assertion word_gt_0)
next
  case (step_renew answer)
  with assms(5) show ?thesis by (auto simp: keeper_renew_def split: sum.splits)
next
  case (step_wake due g)
  with assms(5) awake_ok_holders [OF assms(3,4)] show ?thesis by (auto simp: release_if_idle_def)
qed (use assms(5) in simp)

lemma granted_run:
  assumes "lts_run (awake_step grace) s es t" and "\<forall>e \<in> set es. granted e" and "awake_inv s" and "aw_taken t < 2 ^ 64"
    and "0 < aw_live s \<and> kp_enabled (aw_keeper s) = Some True \<longrightarrow> kp_assertion (aw_keeper s) \<noteq> None"
  shows "0 < aw_live t \<and> kp_enabled (aw_keeper t) = Some True \<longrightarrow> kp_assertion (aw_keeper t) \<noteq> None"
  using assms
proof (induction rule: lts_run.induct)
  case (lts_cons s e t es u)
  have "aw_taken t < 2 ^ 64" "aw_taken s < 2 ^ 64"
    using awake_run_taken [OF lts_cons.hyps(2)] awake_taken_mono [OF lts_cons.hyps(1)] lts_cons.prems(3) by auto
  with lts_cons show ?case using granted_step awake_inv_step by (auto simp: awake_inv_def)
qed simp

text \<open>As long as the operating system grants what it is asked for, while a hold lives the assertion is taken
  exactly when the switch is on, through every interleaving of holds, releases, timers, switches and wakes.\<close>

theorem keep_awake_while_working:
  assumes "lts_run (awake_step grace) awake_start es s" and "\<forall>e \<in> set es. granted e" and "aw_taken s < 2 ^ 64"
    and "0 < aw_live s"
  shows "kp_assertion (aw_keeper s) \<noteq> None \<longleftrightarrow> kp_enabled (aw_keeper s) = Some True"
proof
  show "kp_assertion (aw_keeper s) \<noteq> None \<Longrightarrow> kp_enabled (aw_keeper s) = Some True"
    using awake_reached [OF assms(1,3)] by (simp add: awake_ok_def)
  have start: "awake_inv awake_start" by (simp add: awake_inv_def awake_ok_start)
  have none: "0 < aw_live awake_start \<and> kp_enabled (aw_keeper awake_start) = Some True \<longrightarrow> kp_assertion (aw_keeper awake_start) \<noteq> None"
    by (simp add: awake_start_def)
  show "kp_enabled (aw_keeper s) = Some True \<Longrightarrow> kp_assertion (aw_keeper s) \<noteq> None"
    using granted_run [OF assms(1,2) start assms(3) none] assms(4) by blast
qed

section \<open>The grace\<close>

text \<open>Neither the switch turned off nor a delayed release whose thread did not start.\<close>

fun undisturbed :: "awake_event \<Rightarrow> bool" where
  "undisturbed (Switch enabled setting answer) = enabled"
| "undisturbed (Drop_hold spawned) = spawned"
| "undisturbed _ = True"

definition kept_until :: "nat \<Rightarrow> awake \<Rightarrow> bool" where
  "kept_until deadline s \<longleftrightarrow> kp_assertion (aw_keeper s) \<noteq> None
     \<and> (\<forall>(due, g) \<in> set (aw_timers s). g = kp_generation (aw_keeper s) \<longrightarrow> deadline \<le> due)"

lemma awake_ok_fresh:
  assumes "awake_ok s" and "aw_taken s + 1 < 2 ^ 64" and "(due, g) \<in> set (aw_timers s)"
  shows "g \<noteq> kp_generation (aw_keeper s) + 1"
proof -
  from assms(1,3) obtain n where n: "n \<le> aw_taken s" "g = of_nat n" unfolding awake_ok_def by fast
  have "(of_nat n :: u64) \<noteq> of_nat (aw_taken s + 1)" using n assms(2) by (subst of_nat_u64_eq) auto
  with n assms(1) show ?thesis by (simp add: awake_ok_def add.commute)
qed

lemma kept_step:
  assumes "awake_step grace s e t" and "undisturbed e" and "awake_ok s" and "aw_taken t < 2 ^ 64"
    and "kept_until deadline s" and "deadline \<le> aw_now s + grace" and "aw_now t < deadline"
  shows "kept_until deadline t"
  using assms(1)
proof cases
  case (step_hold setting answer)
  with assms(3,4,5) awake_ok_fresh show ?thesis
    by (fastforce simp: kept_until_def keeper_hold_def ensure_assertion_assertion)
next
  case (step_drop k delayed spawned)
  then show ?thesis using assms(2,5,6)
    by (auto simp: kept_until_def keeper_release_def Let_def split: if_splits)
next
  case (step_switch enabled setting answer)
  with assms(2,5) show ?thesis
    by (auto simp: kept_until_def set_enabled_def Let_def ensure_assertion_assertion)
next
  case (step_renew answer)
  with assms(5) show ?thesis by (auto simp: kept_until_def keeper_renew_def split: sum.splits)
next
  case (step_wake due g)
  with assms(5,7) have "g \<noteq> kp_generation (aw_keeper s)" by (auto simp: kept_until_def)
  with step_wake(2) assms(5) set_remove1_subset [of "(due, g)" "aw_timers s"] show ?thesis
    by (auto simp: kept_until_def release_if_idle_def)
qed (use assms(5) in \<open>simp add: kept_until_def\<close>)

lemma kept_run:
  assumes "lts_run (awake_step grace) s es t" and "\<forall>e \<in> set es. undisturbed e" and "awake_inv s" and "aw_taken t < 2 ^ 64"
    and "kept_until deadline s" and "deadline \<le> aw_now s + grace" and "aw_now t < deadline"
  shows "kept_until deadline t"
  using assms
proof (induction rule: lts_run.induct)
  case (lts_cons s e t es u)
  have few: "aw_taken t < 2 ^ 64" "aw_taken s < 2 ^ 64"
    using awake_run_taken [OF lts_cons.hyps(2)] awake_taken_mono [OF lts_cons.hyps(1)] lts_cons.prems(3) by auto
  have now: "aw_now s \<le> aw_now t" "aw_now t < deadline"
    using awake_run_now [OF lts_cons.hyps(2)] lts_cons.hyps(1) lts_cons.prems(6)
    by (auto elim!: awake_stepE)
  have "kept_until deadline t"
    using kept_step [OF lts_cons.hyps(1) _ _ few(1) lts_cons.prems(4,5) now(2)] lts_cons.prems(1,2) few
    by (simp add: awake_inv_def)
  with lts_cons now show ?case using awake_inv_step by auto
qed simp

text \<open>C23. Until the grace has passed after a moment at which a hold lived, the assertion stays taken, whatever
  holds, releases, timers and wakes follow, unless the switch is turned off or a timer thread cannot be
  started.\<close>

theorem keep_awake_grace:
  assumes "lts_run (awake_step grace) awake_start before s" and "0 < aw_live s" and "kp_assertion (aw_keeper s) \<noteq> None"
    and "lts_run (awake_step grace) s es t" and "\<forall>e \<in> set es. undisturbed e" and "aw_taken t < 2 ^ 64"
    and "aw_now t < aw_now s + grace"
  shows "kp_assertion (aw_keeper t) \<noteq> None"
proof -
  have few: "aw_taken s < 2 ^ 64" using awake_run_taken [OF assms(4)] assms(6) by simp
  note ok = awake_reached [OF assms(1) few]
  have "g \<noteq> kp_generation (aw_keeper s)" if timer: "(due, g) \<in> set (aw_timers s)" for due g
  proof -
    from ok timer assms(2) obtain n where "n < aw_taken s" "g = of_nat n" unfolding awake_ok_def by fast
    with ok few show ?thesis by (simp add: awake_ok_def of_nat_u64_eq)
  qed
  then have "kept_until (aw_now s + grace) s" using assms(3) by (auto simp: kept_until_def)
  from kept_run [OF assms(4,5) _ assms(6) this _ assms(7)] ok show ?thesis
    by (simp add: awake_inv_def kept_until_def)
qed


section \<open>The computer may sleep in the end\<close>

lemma idle_step:
  assumes "awake_step grace s e t" and "awake_ok s" and "aw_taken s < 2 ^ 64" and "aw_live s = 0" and "aw_live t = 0"
  shows "aw_taken t = aw_taken s \<and> kp_generation (aw_keeper t) = kp_generation (aw_keeper s)
    \<and> (kp_assertion (aw_keeper s) = None \<longrightarrow> kp_assertion (aw_keeper t) = None)"
  using assms(1)
proof cases
  case step_hold
  with assms(5) show ?thesis by simp
qed (use assms(4) awake_ok_holders [OF assms(2,3)] in
      \<open>auto simp: set_enabled_def drop_assertion_def keeper_renew_def release_if_idle_def Let_def\<close>)

lemma idle_forever:
  assumes "\<And>i. awake_step grace (\<sigma> i) (\<epsilon> i) (\<sigma> (Suc i))" and "\<And>i. n \<le> i \<Longrightarrow> aw_live (\<sigma> i) = 0"
    and "\<And>i. awake_inv (\<sigma> i)" and "aw_taken (\<sigma> n) < 2 ^ 64" and "n \<le> i"
  shows "aw_taken (\<sigma> i) = aw_taken (\<sigma> n) \<and> kp_generation (aw_keeper (\<sigma> i)) = kp_generation (aw_keeper (\<sigma> n))"
  using assms(5)
proof (induction rule: dec_induct)
  case (step i)
  with assms(4) have "awake_ok (\<sigma> i)" "aw_taken (\<sigma> i) < 2 ^ 64" using assms(3) [of i] by (auto simp: awake_inv_def)
  from idle_step [OF assms(1) this assms(2) assms(2)] step show ?case by simp
qed simp

lemma asleep_forever:
  assumes "\<And>i. awake_step grace (\<sigma> i) (\<epsilon> i) (\<sigma> (Suc i))" and "\<And>i. n \<le> i \<Longrightarrow> aw_live (\<sigma> i) = 0"
    and "\<And>i. awake_inv (\<sigma> i)" and "aw_taken (\<sigma> n) < 2 ^ 64" and "n \<le> m" and "kp_assertion (aw_keeper (\<sigma> m)) = None"
    and "m \<le> i"
  shows "kp_assertion (aw_keeper (\<sigma> i)) = None"
  using assms(7)
proof (induction rule: dec_induct)
  case (step i)
  with assms(5) have n: "n \<le> i" by simp
  with idle_forever [where \<sigma> = \<sigma> and \<epsilon> = \<epsilon> and n = n and i = i, OF assms(1-4)] assms(4)
  have "awake_ok (\<sigma> i)" "aw_taken (\<sigma> i) < 2 ^ 64" using assms(3) [of i] by (auto simp: awake_inv_def)
  from idle_step [OF assms(1) this assms(2) assms(2)] n step show ?case by simp
qed (rule assms(6))

text \<open>C9. In every infinite run in which each delayed release that sleeps wakes up at some time, the assertion is
  released for good once no hold lives any more.\<close>

theorem keep_awake_released:
  assumes "\<sigma> 0 = awake_start" and "\<And>i. awake_step grace (\<sigma> i) (\<epsilon> i) (\<sigma> (Suc i))"
    and "\<And>i timer. timer \<in> set (aw_timers (\<sigma> i)) \<Longrightarrow> \<exists>j \<ge> i. \<epsilon> j = Wake timer"
    and "\<And>i. n \<le> i \<Longrightarrow> aw_live (\<sigma> i) = 0" and "aw_taken (\<sigma> n) < 2 ^ 64"
  shows "\<exists>m. \<forall>i \<ge> m. kp_assertion (aw_keeper (\<sigma> i)) = None"
proof -
  have inv: "\<And>i. awake_inv (\<sigma> i)" by (rule keeper.inv_forever [where \<epsilon> = \<epsilon>, OF assms(1,2)])
  have "\<exists>m \<ge> n. kp_assertion (aw_keeper (\<sigma> m)) = None"
  proof (cases "kp_assertion (aw_keeper (\<sigma> n)) = None")
    case False
    with inv [of n] assms(4) [of n] assms(5) obtain due
      where "(due, kp_generation (aw_keeper (\<sigma> n))) \<in> set (aw_timers (\<sigma> n))"
      unfolding awake_inv_def awake_ok_def by auto
    from assms(3) [OF this] obtain j where j: "n \<le> j" "\<epsilon> j = Wake (due, kp_generation (aw_keeper (\<sigma> n)))" by blast
    note same = idle_forever [where \<sigma> = \<sigma> and \<epsilon> = \<epsilon> and n = n, OF assms(2,4) inv assms(5) j(1)]
    then have few: "aw_taken (\<sigma> j) < 2 ^ 64" using assms(5) by simp
    with inv [of j] have "kp_holders (aw_keeper (\<sigma> j)) = 0"
      using awake_ok_holders assms(4) [OF j(1)] by (auto simp: awake_inv_def)
    with assms(2) [of j] j(2) same have "kp_assertion (aw_keeper (\<sigma> (Suc j))) = None"
      by (auto elim!: awake_wakeE simp: release_if_idle_def drop_assertion_def)
    then show ?thesis using j(1) by (intro exI [of _ "Suc j"]) simp
  qed blast
  then obtain m where "n \<le> m" "kp_assertion (aw_keeper (\<sigma> m)) = None" by blast
  then show ?thesis
    using asleep_forever [where \<sigma> = \<sigma> and \<epsilon> = \<epsilon> and n = n and m = m, OF assms(2,4) inv assms(5)] by blast
qed

section \<open>Concrete runs\<close>

definition demo_awake :: "nat \<Rightarrow> bool \<Rightarrow> nat \<Rightarrow> awake" where
  "demo_awake live taken now = \<lparr> aw_keeper = \<lparr> kp_holders = of_nat live, kp_generation = 1, kp_enabled = Some True,
      kp_assertion = (if taken then Some 7 else None) \<rparr>, aw_live = live, aw_taken = 1,
     aw_timers = (if live = 0 \<and> taken then [(30, 1)] else []), aw_now = now \<rparr>"

lemma demo_hold: "awake_step 30 awake_start (Hold True (Inr 7)) (demo_awake 1 True 0)"
  using step_hold [of 30 awake_start True "Inr 7"]
  by (simp add: demo_awake_def awake_start_def keeper_default_def keeper_hold_def ensure_assertion_def)

lemma demo_drop: "awake_step 30 (demo_awake 1 True 0) (Drop_hold True) (demo_awake 0 True 0)"
  using step_drop [of "demo_awake 1 True 0" "(aw_keeper (demo_awake 1 True 0)) \<lparr> kp_holders := 0 \<rparr>" "Some 1" 30 True]
  by (simp add: demo_awake_def keeper_release_def)

lemma demo_tick: "awake_step 30 (demo_awake 0 b n) (Tick d) (demo_awake 0 b (n + d))"
  using step_tick [of 30 "demo_awake 0 b n" d] by (simp add: demo_awake_def)

lemma demo_wake: "awake_step 30 (demo_awake 0 True 30) (Wake (30, 1)) (demo_awake 0 False 30)"
  using step_wake [of 30 1 "demo_awake 0 True 30" 30]
  by (simp add: demo_awake_def release_if_idle_def drop_assertion_def)

lemma demo_run: "lts_run (awake_step 30) awake_start [Hold True (Inr 7)] (demo_awake 1 True 0)"
  by (rule lts_cons [where step = "awake_step 30", OF demo_hold]) simp

lemma keep_awake_no_leak_witness: "kp_enabled (aw_keeper (demo_awake 1 True 0)) = Some True"
  using keep_awake_no_leak [OF demo_run] by (simp add: demo_awake_def)

lemma keep_awake_while_working_witness: "kp_assertion (aw_keeper (demo_awake 1 True 0)) \<noteq> None"
  using keep_awake_while_working [OF demo_run] by (simp add: demo_awake_def)

lemma keep_awake_grace_witness: "kp_assertion (aw_keeper (demo_awake 0 True 29)) \<noteq> None"
proof (rule keep_awake_grace [OF demo_run])
  show "lts_run (awake_step 30) (demo_awake 1 True 0) [Drop_hold True, Tick 29] (demo_awake 0 True 29)"
    using demo_drop demo_tick [of True 0 29] by (auto intro!: lts_cons [where step = "awake_step 30"])
qed (simp_all add: demo_awake_def)

definition demo_states :: "nat \<Rightarrow> awake" where
  "demo_states i = (if i = 0 then awake_start else if i = 1 then demo_awake 1 True 0 else if i = 2 then demo_awake 0 True 0
     else if i = 3 then demo_awake 0 True 30 else demo_awake 0 False 30)"

definition demo_events :: "nat \<Rightarrow> awake_event" where
  "demo_events i = (if i = 0 then Hold True (Inr 7) else if i = 1 then Drop_hold True else if i = 2 then Tick 30
     else if i = 3 then Wake (30, 1) else Tick 0)"

lemma keep_awake_released_witness: "\<exists>m. \<forall>i \<ge> m. kp_assertion (aw_keeper (demo_states i)) = None"
proof (rule keep_awake_released)
  fix i
  show "awake_step 30 (demo_states i) (demo_events i) (demo_states (Suc i))"
    using demo_hold demo_drop demo_tick [of True 0 30] demo_wake demo_tick [of False 30 0]
    by (simp add: demo_states_def demo_events_def eval_nat_numeral)
  show "\<exists>j \<ge> i. demo_events j = Wake timer" if "timer \<in> set (aw_timers (demo_states i))" for timer
    using that by (intro exI [of _ 3]) (auto simp: demo_states_def demo_events_def demo_awake_def awake_start_def split: if_splits)
  show "2 \<le> i \<Longrightarrow> aw_live (demo_states i) = 0" by (simp add: demo_states_def demo_awake_def)
qed (simp_all add: demo_states_def demo_awake_def)

end
