(* ===== verification/Chat_Stream.thy ===== *)
theory Chat_Stream
  imports Proxy_Rewrite Compose_Yaml
begin

text \<open>
  The stream parser of the desktop chat (\<^verbatim>\<open>desktop/src-tauri/src/chat.rs\<close>, with \<^verbatim>\<open>session_model.rs\<close> and the
  display policy of \<^verbatim>\<open>pii_display.rs\<close>): Claude Code prints one JSON value per line, and the parser turns each
  into the chunks the window shows, while it keeps the open tool blocks, the provisional message id, the model
  and the token and cost totals of the session. A parser is a record, a line is a \<^typ>\<open>json\<close> value and every
  method is a function from the old to the new parser. The JSON printer, the reading of a number as a double and
  its printing are fields of \<open>chat_env\<close>; warnings are left out, lines for the session log are results.
\<close>

section \<open>Doubles\<close>

text \<open>
  A finite \<open>f64\<close> is an integer multiple of two to the power of minus 1074 and is represented by that integer.
  Arithmetic is exact and then rounded to 53 significant bits, ties to even; beyond the range it is infinite.
\<close>

type_synonym finite_f64 = int

datatype f64 = Fin finite_f64 | Pos_Inf

definition F64_UNIT :: int where "F64_UNIT = 2 ^ 1074"

definition F64_LIMIT :: int where "F64_LIMIT = 2 ^ 2098"

function bit_length :: "nat \<Rightarrow> nat" where
  "bit_length n = (if n = 0 then 0 else Suc (bit_length (n div 2)))"
  by pat_completeness auto
termination by (relation "measure id") auto

declare bit_length.simps [simp del]

definition f64_round :: "nat \<Rightarrow> f64" where
  "f64_round n =
     (let e = bit_length n - 53; q = n div 2 ^ e; r = n mod 2 ^ e;
          up = (2 * r > 2 ^ e \<or> (2 * r = 2 ^ e \<and> e > 0 \<and> odd q));
          m = (if up then q + 1 else q) * 2 ^ e in
      if int m < F64_LIMIT then Fin (int m) else Pos_Inf)"

text \<open>The difference of two doubles the first of which is not the smaller one.\<close>

definition f64_minus :: "finite_f64 \<Rightarrow> finite_f64 \<Rightarrow> f64" where
  "f64_minus a b = f64_round (nat (a - b))"

text \<open>\<open>round() as u64\<close> of a double that is not negative: half away from zero, then saturating.\<close>

definition f64_round_as_u64 :: "finite_f64 \<Rightarrow> u64" where
  "f64_round_as_u64 x =
     (let n = (2 * x + F64_UNIT) div (2 * F64_UNIT) in if n < 2 ^ 64 then of_int n else - 1)"

section \<open>Reading JSON\<close>

record chat_env = serde +
  ch_f64 :: "rstr \<Rightarrow> finite_f64"
  ch_fmt0 :: "f64 \<Rightarrow> rstr"

text \<open>Indexing a value yields null where there is no such field.\<close>

definition jat :: "json \<Rightarrow> rstr \<Rightarrow> json" where
  "jat v key = (case json_get key v of Some w \<Rightarrow> w | None \<Rightarrow> JNull)"

definition as_bool :: "json \<Rightarrow> bool option" where
  "as_bool v = (case v of JBool b \<Rightarrow> Some b | _ \<Rightarrow> None)"

definition as_f64 :: "'a chat_env_scheme \<Rightarrow> json \<Rightarrow> finite_f64 option" where
  "as_f64 E v = (case v of JNum lit \<Rightarrow> Some (ch_f64 E lit) | _ \<Rightarrow> None)"

definition is_object :: "json \<Rightarrow> bool" where
  "is_object v \<longleftrightarrow> as_object v \<noteq> None"

definition str_or_empty :: "json \<Rightarrow> rstr" where
  "str_or_empty v = (case as_str v of Some s \<Rightarrow> s | None \<Rightarrow> [])"

definition nonempty_str :: "json \<Rightarrow> rstr option" where
  "nonempty_str v = (case as_str v of Some s \<Rightarrow> (if s = [] then None else Some s) | None \<Rightarrow> None)"

definition or_else :: "'a option \<Rightarrow> 'a option \<Rightarrow> 'a option" where
  "or_else a b = (case a of Some x \<Rightarrow> Some x | None \<Rightarrow> b)"

definition unwrap_or :: "'a \<Rightarrow> 'a option \<Rightarrow> 'a" where
  "unwrap_or d x = (case x of Some y \<Rightarrow> y | None \<Rightarrow> d)"

section \<open>Chunks\<close>

record ask_option =
  ao_label :: rstr
  ao_value :: rstr

record ask_question =
  aq_question :: rstr
  aq_header :: rstr
  aq_options :: "ask_option list"
  aq_multi_select :: bool

record usage_info =
  ui_input :: u64
  ui_output :: u64
  ui_cache_read :: "u64 option"
  ui_cache_write :: "u64 option"

record turn_usage =
  tu_input :: u64
  tu_output :: u64
  tu_cache_read :: u64
  tu_cache_write :: u64

record result_chunk =
  rc_session_id :: rstr
  rc_total_cost :: "finite_f64 option"
  rc_usage :: "usage_info option"
  rc_result_text :: "rstr option"
  rc_context_window_size :: "u64 option"
  rc_assistant_uuid :: "rstr option"
  rc_turn_usage :: "turn_usage option"
  rc_turn_cost :: "f64 option"
  rc_model :: "rstr option"
  rc_context_usage :: "turn_usage option"

record rate_limit_chunk =
  rl_status :: rstr
  rl_type :: "rstr option"
  rl_utilization_percent :: "f64 option"
  rl_resets_at :: "u64 option"
  rl_overage_status :: "rstr option"
  rl_is_using_overage :: "bool option"

datatype stream_chunk =
    Text rstr
  | Thinking_Chunk rstr
  | ToolStart rstr rstr
  | ToolInputDelta rstr rstr
  | ToolInputComplete rstr rstr
  | ToolResult rstr rstr bool
  | Result result_chunk
  | AskUserQuestion rstr "ask_question list" nat
  | Error_Chunk rstr bool
  | SystemInit rstr "rstr option"
  | RateLimit rate_limit_chunk
  | UserMessageCommit rstr
  | ControlChip rstr rstr "rstr option"
  | QueueDrained rstr rstr

text \<open>What every text the window shows goes through.\<close>

definition map_question :: "(rstr \<Rightarrow> rstr) \<Rightarrow> ask_question \<Rightarrow> ask_question" where
  "map_question f q = q \<lparr> aq_question := f (aq_question q), aq_header := f (aq_header q),
     aq_options := map (\<lambda>opt. opt \<lparr> ao_label := f (ao_label opt), ao_value := f (ao_value opt) \<rparr>) (aq_options q) \<rparr>"

fun map_chunk_texts :: "(rstr \<Rightarrow> rstr) \<Rightarrow> stream_chunk \<Rightarrow> stream_chunk" where
  "map_chunk_texts f (Text content) = Text (f content)"
| "map_chunk_texts f (Thinking_Chunk content) = Thinking_Chunk (f content)"
| "map_chunk_texts f (ToolResult tool_id content is_error) = ToolResult tool_id (f content) is_error"
| "map_chunk_texts f (Error_Chunk content turn_ended) = Error_Chunk (f content) turn_ended"
| "map_chunk_texts f (Result r) = Result (r \<lparr> rc_result_text := map_option f (rc_result_text r) \<rparr>)"
| "map_chunk_texts f (QueueDrained session_id t) = QueueDrained session_id (f t)"
| "map_chunk_texts f (AskUserQuestion tool_id questions current_index) =
     AskUserQuestion tool_id (map (map_question f) questions) current_index"
| "map_chunk_texts f other = other"

text \<open>The redaction of secrets is the argument of \<open>sanitize_chunk\<close>.\<close>

definition sanitize_chunk :: "(rstr \<Rightarrow> rstr) \<Rightarrow> stream_chunk \<Rightarrow> stream_chunk" where
  "sanitize_chunk sanitize chunk = map_chunk_texts sanitize chunk"

record display_policy =
  dp_key :: "engine_key option"
  dp_keywords :: "compiled_keyword list"

definition is_noop :: "display_policy \<Rightarrow> bool" where
  "is_noop policy \<longleftrightarrow> dp_key policy = None \<and> dp_keywords policy = []"

definition detokenize_for_display :: "crypto \<Rightarrow> unicode \<Rightarrow> display_policy \<Rightarrow> rstr \<Rightarrow> rstr" where
  "detokenize_for_display C U policy text =
     (let result = foldl (\<lambda>t kw. unalias_text_preserving_tokens U t (match_text kw) (kw_alias kw) (kw_case_sensitive kw))
                     text (dp_keywords policy) in
      case dp_key policy of Some key \<Rightarrow> detokenize_text_lossy C key result | None \<Rightarrow> result)"

definition detokenize_chunk :: "crypto \<Rightarrow> unicode \<Rightarrow> stream_chunk \<Rightarrow> display_policy \<Rightarrow> stream_chunk" where
  "detokenize_chunk C U chunk policy =
     (if is_noop policy then chunk else map_chunk_texts (detokenize_for_display C U policy) chunk)"


section \<open>Usage\<close>

definition no_turn_usage :: turn_usage where
  "no_turn_usage = \<lparr> tu_input = 0, tu_output = 0, tu_cache_read = 0, tu_cache_write = 0 \<rparr>"

definition from_usage_info :: "usage_info \<Rightarrow> turn_usage" where
  "from_usage_info usage = \<lparr> tu_input = ui_input usage, tu_output = ui_output usage,
     tu_cache_read = unwrap_or 0 (ui_cache_read usage), tu_cache_write = unwrap_or 0 (ui_cache_write usage) \<rparr>"

definition saturating_sub :: "u64 \<Rightarrow> u64 \<Rightarrow> u64" where
  "saturating_sub a b = (if b \<le> a then a - b else 0)"

definition saturating_add :: "u64 \<Rightarrow> u64 \<Rightarrow> u64" where
  "saturating_add a b = (if a \<le> a + b then a + b else - 1)"

text \<open>Four counters combined one by one.\<close>

definition usage_zip :: "(u64 \<Rightarrow> u64 \<Rightarrow> u64) \<Rightarrow> turn_usage \<Rightarrow> turn_usage \<Rightarrow> turn_usage" where
  "usage_zip f a b = \<lparr> tu_input = f (tu_input a) (tu_input b), tu_output = f (tu_output a) (tu_output b),
     tu_cache_read = f (tu_cache_read a) (tu_cache_read b), tu_cache_write = f (tu_cache_write a) (tu_cache_write b) \<rparr>"

definition usage_delta :: "turn_usage \<Rightarrow> turn_usage \<Rightarrow> turn_usage" where
  "usage_delta current previous = usage_zip saturating_sub current previous"

definition USAGE_INPUT_TOKENS :: rstr where "USAGE_INPUT_TOKENS = ''input_tokens''"
definition USAGE_OUTPUT_TOKENS :: rstr where "USAGE_OUTPUT_TOKENS = ''output_tokens''"
definition USAGE_CACHE_READ_TOKENS :: rstr where "USAGE_CACHE_READ_TOKENS = ''cache_read_input_tokens''"
definition USAGE_CACHE_WRITE_TOKENS :: rstr where "USAGE_CACHE_WRITE_TOKENS = ''cache_creation_input_tokens''"
definition USAGE_CACHE_READ_TOKENS_LEGACY :: rstr where "USAGE_CACHE_READ_TOKENS_LEGACY = ''cache_read_tokens''"
definition USAGE_CACHE_WRITE_TOKENS_LEGACY :: rstr where "USAGE_CACHE_WRITE_TOKENS_LEGACY = ''cache_write_tokens''"

definition is_sidechain_event :: "json \<Rightarrow> bool" where
  "is_sidechain_event parsed \<longleftrightarrow>
     jat parsed ''parent_tool_use_id'' \<noteq> JNull \<or> as_bool (jat parsed ''isSidechain'') = Some True"

definition turn_usage_from_jsonl :: "json \<Rightarrow> turn_usage option" where
  "turn_usage_from_jsonl usage =
     (if is_object usage then
        (let count = (\<lambda>k. unwrap_or 0 (as_u64 (jat usage k))) in
         Some \<lparr> tu_input = count USAGE_INPUT_TOKENS, tu_output = count USAGE_OUTPUT_TOKENS,
                tu_cache_read = count USAGE_CACHE_READ_TOKENS, tu_cache_write = count USAGE_CACHE_WRITE_TOKENS \<rparr>)
      else None)"

definition model_usage_count :: "'a chat_env_scheme \<Rightarrow> json \<Rightarrow> u64 option" where
  "model_usage_count E v =
     (case as_u64 v of
        Some n \<Rightarrow> Some n
      | None \<Rightarrow> (case as_f64 E v of Some n \<Rightarrow> (if n \<ge> 0 then Some (f64_round_as_u64 n) else None) | None \<Rightarrow> None))"

text \<open>The last of the entries with the greatest count, in the order of the object.\<close>

fun max_by_last :: "('x \<Rightarrow> u64) \<Rightarrow> 'x list \<Rightarrow> 'x option" where
  "max_by_last f [] = None"
| "max_by_last f (x # xs) =
     (case max_by_last f xs of
        None \<Rightarrow> Some x
      | Some y \<Rightarrow> (if f x > f y then Some x else Some y))"

definition dominant_model_by_output_tokens :: "'a chat_env_scheme \<Rightarrow> json_map option \<Rightarrow> rstr option" where
  "dominant_model_by_output_tokens E model_usage =
     Option.bind model_usage (\<lambda>mu.
       map_option fst (max_by_last (\<lambda>(_, stats). unwrap_or 0 (model_usage_count E (jat stats ''outputTokens''))) mu))"

definition add_count :: "u64 option \<Rightarrow> u64 \<Rightarrow> u64" where
  "add_count n acc_total = (case n of Some k \<Rightarrow> saturating_add acc_total k | None \<Rightarrow> acc_total)"

definition stats_counts :: "'a chat_env_scheme \<Rightarrow> json \<Rightarrow> u64 option \<times> u64 option \<times> u64 option \<times> u64 option" where
  "stats_counts E stats =
     (model_usage_count E (jat stats ''inputTokens''), model_usage_count E (jat stats ''outputTokens''),
      model_usage_count E (jat stats ''cacheReadInputTokens''), model_usage_count E (jat stats ''cacheCreationInputTokens''))"

definition add_stats :: "'a chat_env_scheme \<Rightarrow> json \<Rightarrow> turn_usage \<times> bool \<Rightarrow> turn_usage \<times> bool" where
  "add_stats E stats acc =
     (case (acc, stats_counts E stats) of
        ((acc_total, any_field), (i, out, cr, cw)) \<Rightarrow>
          (\<lparr> tu_input = add_count i (tu_input acc_total), tu_output = add_count out (tu_output acc_total),
             tu_cache_read = add_count cr (tu_cache_read acc_total), tu_cache_write = add_count cw (tu_cache_write acc_total) \<rparr>,
           any_field \<or> i \<noteq> None \<or> out \<noteq> None \<or> cr \<noteq> None \<or> cw \<noteq> None))"

definition extract_cumulative_usage :: "'a chat_env_scheme \<Rightarrow> json \<Rightarrow> turn_usage option" where
  "extract_cumulative_usage E parsed =
     (case as_object (jat parsed ''modelUsage'') of
        None \<Rightarrow> None
      | Some model_usage \<Rightarrow>
          (if model_usage = [] then None
           else
             (case fold (\<lambda>(_, stats). add_stats E stats) model_usage (no_turn_usage, False) of
                (acc_total, any_field) \<Rightarrow> (if any_field then Some acc_total else None))))"

text \<open>The usage of the turn and the new totals of the session.\<close>

definition compute_turn_usage_from_result ::
  "'a chat_env_scheme \<Rightarrow> json \<Rightarrow> usage_info option \<Rightarrow> turn_usage \<Rightarrow> turn_usage option \<times> turn_usage" where
  "compute_turn_usage_from_result E parsed flat snapshot =
     (case flat of
        Some u \<Rightarrow> (let delta = from_usage_info u in (Some delta, usage_zip saturating_add snapshot delta))
      | None \<Rightarrow>
          (case extract_cumulative_usage E parsed of
             None \<Rightarrow> (None, snapshot)
           | Some cumulative \<Rightarrow> (Some (usage_delta cumulative snapshot), cumulative)))"

definition utilization_fraction_to_percent :: "finite_f64 \<Rightarrow> f64 option" where
  "utilization_fraction_to_percent fraction =
     (if 0 \<le> fraction \<and> fraction \<le> F64_UNIT then Some (f64_round (nat (100 * fraction))) else None)"

section \<open>The parser\<close>

definition SYNTHETIC_MODEL :: rstr where "SYNTHETIC_MODEL = ''<synthetic>''"

text \<open>The model tracker is the last model it saw.\<close>

type_synonym session_model_tracker = "rstr option"

definition observe_init :: "rstr \<Rightarrow> session_model_tracker \<Rightarrow> session_model_tracker" where
  "observe_init model t = (if model \<noteq> [] then Some model else t)"

definition observe_assistant :: "rstr \<Rightarrow> session_model_tracker \<Rightarrow> session_model_tracker" where
  "observe_assistant model t = (if model \<noteq> [] \<and> model \<noteq> SYNTHETIC_MODEL then Some model else t)"

record stream_parser =
  sp_active_blocks :: "u64 \<rightharpoonup> rstr \<times> rstr"
  sp_pending_assistant_uuid :: "rstr option"
  sp_committed_user_uuids :: "rstr set"
  sp_previous_session_usage :: turn_usage
  sp_last_context_usage :: "turn_usage option"
  sp_previous_session_cost :: "finite_f64 option"
  sp_model_tracker :: session_model_tracker
  sp_seen_unknown_types :: "rstr set"

definition MAX_TRACKED_UNKNOWN_TYPES :: nat where "MAX_TRACKED_UNKNOWN_TYPES = 32"

definition ASK_USER_TOOL_NAME :: rstr where "ASK_USER_TOOL_NAME = ''AskUserQuestion''"

definition parser_new :: stream_parser where
  "parser_new = \<lparr> sp_active_blocks = Map.empty, sp_pending_assistant_uuid = None, sp_committed_user_uuids = {},
     sp_previous_session_usage = no_turn_usage, sp_last_context_usage = None, sp_previous_session_cost = None,
     sp_model_tracker = None, sp_seen_unknown_types = {} \<rparr>"

definition restore_session_snapshot ::
  "turn_usage \<Rightarrow> finite_f64 option \<Rightarrow> rstr option \<Rightarrow> turn_usage option \<Rightarrow> stream_parser \<Rightarrow> stream_parser" where
  "restore_session_snapshot usage total_cost model context_usage p =
     p \<lparr> sp_previous_session_usage := usage, sp_previous_session_cost := total_cost,
         sp_model_tracker := (case model of Some m \<Rightarrow> observe_init m (sp_model_tracker p) | None \<Rightarrow> sp_model_tracker p),
         sp_last_context_usage := context_usage \<rparr>"

definition parser_reset :: "stream_parser \<Rightarrow> stream_parser" where
  "parser_reset p = p \<lparr> sp_active_blocks := Map.empty \<rparr>"

text \<open>A line for the session log: its prefix and its message.\<close>

type_synonym log_entry = "rstr \<times> rstr"
type_synonym parsed_line = "stream_chunk list \<times> log_entry option"

definition option_to_vec :: "stream_chunk option \<times> log_entry option \<Rightarrow> parsed_line" where
  "option_to_vec r = (case r of (chunk, log) \<Rightarrow> (case chunk of Some c \<Rightarrow> ([c], log) | None \<Rightarrow> ([], log)))"

definition capture_assistant_uuid :: "json \<Rightarrow> stream_parser \<Rightarrow> stream_parser" where
  "capture_assistant_uuid parsed p =
     (case nonempty_str (jat (jat parsed ''message'') ''id'') of
        Some mid \<Rightarrow> p \<lparr> sp_pending_assistant_uuid := Some mid \<rparr>
      | None \<Rightarrow> p)"

definition capture_assistant_model :: "json \<Rightarrow> stream_parser \<Rightarrow> stream_parser" where
  "capture_assistant_model parsed p =
     (if is_sidechain_event parsed then p
      else case as_str (jat (jat parsed ''message'') ''model'') of
        Some model \<Rightarrow> p \<lparr> sp_model_tracker := observe_assistant model (sp_model_tracker p) \<rparr>
      | None \<Rightarrow> p)"

definition capture_context_usage :: "json \<Rightarrow> stream_parser \<Rightarrow> stream_parser" where
  "capture_context_usage parsed p =
     (if is_sidechain_event parsed then p
      else case turn_usage_from_jsonl (jat (jat parsed ''message'') ''usage'') of
        Some u \<Rightarrow> (if u \<noteq> no_turn_usage then p \<lparr> sp_last_context_usage := Some u \<rparr> else p)
      | None \<Rightarrow> p)"

definition complete_tool_inputs :: "'a chat_env_scheme \<Rightarrow> json \<Rightarrow> stream_chunk list" where
  "complete_tool_inputs E parsed =
     (if is_sidechain_event parsed then []
      else case as_array (jat (jat parsed ''message'') ''content'') of
        None \<Rightarrow> []
      | Some cblocks \<Rightarrow>
          List.map_filter
            (\<lambda>b. case nonempty_str (jat b ''id'') of
                   None \<Rightarrow> None
                 | Some tid \<Rightarrow>
                     (let input = jat b ''input'' in
                      if is_object input then Some (ToolInputComplete tid (json_print (serde.truncate E) input)) else None))
            (filter (\<lambda>b. as_str (jat b ''type'') = Some ''tool_use'' \<and> as_str (jat b ''name'') \<noteq> Some ASK_USER_TOOL_NAME)
               cblocks))"


section \<open>Questions to the user\<close>

definition MAX_ASK_USER_QUESTIONS :: nat where "MAX_ASK_USER_QUESTIONS = 4"

definition SAFETY_CHECK :: rstr where "SAFETY_CHECK = ''safetyCheck''"

record control_request =
  cr_request_id :: rstr
  cr_tool_name :: rstr
  cr_input :: json
  cr_tool_use_id :: rstr
  cr_safety_check :: "rstr option"

definition try_parse_control_request :: "json \<Rightarrow> control_request option" where
  "try_parse_control_request parsed =
     (if as_str (jat parsed ''type'') \<noteq> Some ''control_request'' then None
      else
        (let request = jat parsed ''request'' in
         case (as_str (jat parsed ''request_id''), as_str (jat request ''tool_name''), as_str (jat request ''tool_use_id'')) of
           (Some request_id, Some tool_name, Some tool_use_id) \<Rightarrow>
             Some \<lparr> cr_request_id = request_id, cr_tool_name = tool_name, cr_input = jat request ''input'',
                    cr_tool_use_id = tool_use_id,
                    cr_safety_check =
                      (if as_str (jat request ''decision_reason_type'') = Some SAFETY_CHECK
                       then Some (str_or_empty (jat request ''decision_reason'')) else None) \<rparr>
         | _ \<Rightarrow> None))"

definition parse_ask_option :: "json \<Rightarrow> ask_option option" where
  "parse_ask_option opt =
     (case as_str (jat opt ''label'') of
        None \<Rightarrow> None
      | Some label \<Rightarrow> Some \<lparr> ao_label = label, ao_value = unwrap_or label (as_str (jat opt ''value'')) \<rparr>)"

definition parse_ask_user_question :: "json \<Rightarrow> ask_question option" where
  "parse_ask_user_question v =
     (let question = str_or_empty (jat v ''question'') in
      if trim question = [] then None
      else Some \<lparr> aq_question = question, aq_header = str_or_empty (jat v ''header''),
                  aq_options = (case as_array (jat v ''options'') of
                                  Some arr \<Rightarrow> List.map_filter parse_ask_option arr | None \<Rightarrow> []),
                  aq_multi_select = unwrap_or False (as_bool (jat v ''multiSelect'')) \<rparr>)"

definition parse_ask_user_questions :: "control_request \<Rightarrow> ask_question list" where
  "parse_ask_user_questions req =
     (let raw_questions = (case as_array (jat (cr_input req) ''questions'') of Some arr \<Rightarrow> arr | None \<Rightarrow> [cr_input req]) in
      List.map_filter parse_ask_user_question (take MAX_ASK_USER_QUESTIONS raw_questions))"

section \<open>Lines\<close>

text \<open>A method of the parser: the new parser, the chunk if any and the log line if any.\<close>

type_synonym parser_result = "stream_parser \<times> stream_chunk option \<times> log_entry option"

definition parse_block_start :: "json \<Rightarrow> stream_parser \<Rightarrow> parser_result" where
  "parse_block_start event p =
     (case as_u64 (jat event ''index'') of
        None \<Rightarrow> (p, None, None)
      | Some index \<Rightarrow>
          (let block = jat event ''content_block''; block_type = str_or_empty (jat block ''type'') in
           if block_type = ''tool_use'' then
             (case (nonempty_str (jat block ''id''), nonempty_str (jat block ''name'')) of
                (Some tid, Some tname) \<Rightarrow>
                  (p \<lparr> sp_active_blocks := (sp_active_blocks p)(index \<mapsto> (tid, tname)) \<rparr>,
                   (if tname = ASK_USER_TOOL_NAME then None else Some (ToolStart tid tname)),
                   Some (''TOOL'', ''start: '' @ tname @ '' ('' @ tid @ '')''))
              | _ \<Rightarrow> (p, None, None))
           else if block_type = ''thinking'' then (p, Some (Thinking_Chunk []), None)
           else (p, None, None)))"

definition parse_block_delta :: "json \<Rightarrow> stream_parser \<Rightarrow> stream_chunk option" where
  "parse_block_delta event p =
     (let delta = jat event ''delta''; delta_type = str_or_empty (jat delta ''type'') in
      if delta_type = ''text_delta'' then map_option Text (as_str (jat delta ''text''))
      else if delta_type = ''thinking_delta'' then map_option Thinking_Chunk (as_str (jat delta ''thinking''))
      else if delta_type = ''input_json_delta'' then
        (case (as_u64 (jat event ''index''), as_str (jat delta ''partial_json'')) of
           (Some index, Some partial) \<Rightarrow>
             (case sp_active_blocks p index of
                Some (tid, tname) \<Rightarrow> (if tname = ASK_USER_TOOL_NAME then None else Some (ToolInputDelta tid partial))
              | None \<Rightarrow> None)
         | _ \<Rightarrow> None)
      else None)"

definition parse_block_stop :: "json \<Rightarrow> stream_parser \<Rightarrow> parser_result" where
  "parse_block_stop event p =
     (case as_u64 (jat event ''index'') of
        None \<Rightarrow> (p, None, None)
      | Some index \<Rightarrow>
          (case sp_active_blocks p index of
             Some (tid, tname) \<Rightarrow>
               (p \<lparr> sp_active_blocks := (sp_active_blocks p)(index := None) \<rparr>, None,
                Some (''TOOL'', ''stop: '' @ tname @ '' ('' @ tid @ '')''))
           | None \<Rightarrow> (p, None, None)))"

definition parse_stream_event :: "json \<Rightarrow> stream_parser \<Rightarrow> parser_result" where
  "parse_stream_event event p =
     (let event_type = str_or_empty (jat event ''type'') in
      if event_type = ''content_block_start'' then parse_block_start event p
      else if event_type = ''content_block_delta'' then (p, parse_block_delta event p, None)
      else if event_type = ''content_block_stop'' then parse_block_stop event p
      else if event_type \<in> {''message_start'', ''message_stop''} then (parser_reset p, None, None)
      else (p, None, None))"

definition tool_result_text :: "json \<Rightarrow> rstr" where
  "tool_result_text content =
     (case as_str content of
        Some s \<Rightarrow> s
      | None \<Rightarrow>
          (case as_array content of
             Some arr \<Rightarrow>
               join_byte (CHR 0x0A)
                 (List.map_filter (\<lambda>b. if as_str (jat b ''type'') = Some ''text'' then as_str (jat b ''text'') else None) arr)
           | None \<Rightarrow> []))"

definition tool_result_of :: "json \<Rightarrow> (rstr \<times> rstr \<times> bool) option" where
  "tool_result_of block =
     (if str_or_empty (jat block ''type'') \<noteq> ''tool_result'' then None
      else case nonempty_str (jat block ''tool_use_id'') of
        None \<Rightarrow> None
      | Some tid \<Rightarrow> Some (tid, tool_result_text (jat block ''content''), unwrap_or False (as_bool (jat block ''is_error''))))"

definition bool_str :: "bool \<Rightarrow> rstr" where
  "bool_str b = (if b then ''true'' else ''false'')"

text \<open>Strings joined by a separator.\<close>

fun join_str :: "rstr \<Rightarrow> rstr list \<Rightarrow> rstr" where
  "join_str sep [] = []"
| "join_str sep [s] = s"
| "join_str sep (s # ss) = s @ sep @ join_str sep ss"

definition parse_user_message :: "json \<Rightarrow> stream_parser \<Rightarrow> stream_parser \<times> parsed_line" where
  "parse_user_message parsed p =
     (let message = jat parsed ''message'' in
      case as_array (jat message ''content'') of
        None \<Rightarrow> (p, [], None)
      | Some cblocks \<Rightarrow>
          (let types = map (\<lambda>b. str_or_empty (jat b ''type'')) cblocks;
               tool_results =
                 (let rs = List.map_filter tool_result_of cblocks in
                  (p, map (\<lambda>(tid, content, is_error). ToolResult tid content is_error) rs,
                   (if rs = [] then None
                    else Some (''TOOL'', join_str ''; ''
                          (map (\<lambda>(tid, content, is_error). ''result: '' @ tid @ '' error='' @ bool_str is_error) rs)))))
           in
           if ''text'' \<in> set types \<and> ''tool_result'' \<notin> set types then
             (case nonempty_str (jat message ''id'') of
                Some mid \<Rightarrow>
                  (if mid \<notin> sp_committed_user_uuids p then
                     (p \<lparr> sp_committed_user_uuids := insert mid (sp_committed_user_uuids p) \<rparr>,
                      [UserMessageCommit mid], Some (''USER'', ''commit uuid='' @ mid))
                   else tool_results)
              | None \<Rightarrow> tool_results)
           else tool_results))"

definition EMPTY_ERROR_TEXT :: rstr where
  "EMPTY_ERROR_TEXT = ''The LLM returned an error without details. Check the provider server logs or try a different model.''"

definition parse_result_error :: "json \<Rightarrow> stream_chunk option \<times> log_entry option" where
  "parse_result_error parsed =
     (let result_text = str_or_empty (jat parsed ''result'');
          error_text = (if trim result_text = [] then EMPTY_ERROR_TEXT else result_text) in
      (Some (Error_Chunk error_text True), Some (''RESULT'', ''error: '' @ error_text)))"

definition result_usage :: "json \<Rightarrow> usage_info option" where
  "result_usage parsed =
     (let u = jat parsed ''usage'' in
      if is_object u then
        Some \<lparr> ui_input = unwrap_or 0 (as_u64 (jat u USAGE_INPUT_TOKENS)),
               ui_output = unwrap_or 0 (as_u64 (jat u USAGE_OUTPUT_TOKENS)),
               ui_cache_read = or_else (as_u64 (jat u USAGE_CACHE_READ_TOKENS)) (as_u64 (jat u USAGE_CACHE_READ_TOKENS_LEGACY)),
               ui_cache_write = or_else (as_u64 (jat u USAGE_CACHE_WRITE_TOKENS)) (as_u64 (jat u USAGE_CACHE_WRITE_TOKENS_LEGACY)) \<rparr>
      else None)"

definition turn_cost_of :: "finite_f64 option \<Rightarrow> finite_f64 option \<Rightarrow> f64 option" where
  "turn_cost_of total_cost previous =
     (case (total_cost, previous) of
        (Some current, Some prev) \<Rightarrow> (if current \<ge> prev then Some (f64_minus current prev) else None)
      | (Some current, None) \<Rightarrow> Some (Fin current)
      | _ \<Rightarrow> None)"

definition parse_result :: "'a chat_env_scheme \<Rightarrow> json \<Rightarrow> stream_parser \<Rightarrow> parser_result" where
  "parse_result E parsed p0 =
     (let assistant_uuid = sp_pending_assistant_uuid p0;
          p = p0 \<lparr> sp_pending_assistant_uuid := None \<rparr> in
      if as_bool (jat parsed ''is_error'') = Some True then (p, parse_result_error parsed)
      else
        (let total_cost = or_else (as_f64 E (jat parsed ''total_cost_usd'')) (as_f64 E (jat parsed ''total_cost''));
             model_usage = as_object (jat parsed ''modelUsage'');
             model = or_else (sp_model_tracker p) (dominant_model_by_output_tokens E model_usage);
             tracker = (case (sp_model_tracker p, model) of
                          (None, Some m) \<Rightarrow> observe_assistant m None | _ \<Rightarrow> sp_model_tracker p);
             window = Option.bind model (\<lambda>m. Option.bind model_usage (\<lambda>mu.
                        Option.bind (map_of mu m) (\<lambda>stats. as_u64 (jat stats ''contextWindow''))));
             usage = result_usage parsed;
             result_text = (case as_str (jat parsed ''result'') of
                              Some s \<Rightarrow> (if trim s = [] then None else Some s) | None \<Rightarrow> None) in
         case compute_turn_usage_from_result E parsed usage (sp_previous_session_usage p) of
           (turn_usage, snapshot) \<Rightarrow>
             (p \<lparr> sp_model_tracker := tracker, sp_previous_session_usage := snapshot,
                  sp_previous_session_cost := or_else total_cost (sp_previous_session_cost p) \<rparr>,
              Some (Result \<lparr> rc_session_id = str_or_empty (jat parsed ''session_id''), rc_total_cost = total_cost,
                 rc_usage = usage, rc_result_text = result_text, rc_context_window_size = window,
                 rc_assistant_uuid = assistant_uuid, rc_turn_usage = turn_usage,
                 rc_turn_cost = turn_cost_of total_cost (sp_previous_session_cost p), rc_model = model,
                 rc_context_usage = sp_last_context_usage p \<rparr>),
              Some (''RESULT'', ''turn complete''))))"


definition opt_str :: "rstr option \<Rightarrow> rstr" where
  "opt_str s = unwrap_or ''none'' s"

definition parse_rate_limit_event :: "'a chat_env_scheme \<Rightarrow> json \<Rightarrow> stream_chunk option \<times> log_entry option" where
  "parse_rate_limit_event E parsed =
     (let info = jat parsed ''rate_limit_info'';
          status = unwrap_or ''unknown'' (as_str (jat info ''status''));
          rate_limit_type = as_str (jat info ''rateLimitType'');
          utilization_percent = Option.bind (as_f64 E (jat info ''utilization'')) utilization_fraction_to_percent;
          resets_at = or_else (as_u64 (jat info ''resetsAt'')) (as_u64 (jat info ''resets_at''));
          overage_status = as_str (jat info ''overageStatus'') in
      (Some (RateLimit \<lparr> rl_status = status, rl_type = rate_limit_type, rl_utilization_percent = utilization_percent,
         rl_resets_at = resets_at, rl_overage_status = overage_status,
         rl_is_using_overage = as_bool (jat info ''isUsingOverage'') \<rparr>),
       Some (''RATE_LIMIT'',
         ''status='' @ status @ '' type='' @ opt_str rate_limit_type
         @ '' utilization='' @ (case utilization_percent of None \<Rightarrow> ''none'' | Some v \<Rightarrow> ch_fmt0 E v @ ''%'')
         @ '' resets_at='' @ (case resets_at of None \<Rightarrow> ''none'' | Some v \<Rightarrow> u64_to_string v)
         @ '' overage='' @ opt_str overage_status)))"

definition ACTIONABLE_PATTERNS :: "rstr list" where
  "ACTIONABLE_PATTERNS = [''hit your limit'', ''rate limit'', ''quota exceeded'', ''context length'', ''maximum length'',
     ''billing'', ''Error:'']"

definition system_notice :: "json \<Rightarrow> stream_chunk option \<times> log_entry option" where
  "system_notice parsed =
     (let message = unwrap_or [] (or_else (as_str (jat parsed ''message'')) (as_str (jat parsed ''content''))) in
      if message = [] then (None, None)
      else
        (if list_ex (\<lambda>pat. contains_str pat message) ACTIONABLE_PATTERNS then Some (Error_Chunk message False) else None,
         Some (''SYSTEM'', message)))"

definition parse_system_message :: "json \<Rightarrow> stream_parser \<Rightarrow> parser_result" where
  "parse_system_message parsed p =
     (if as_str (jat parsed ''subtype'') = Some ''init'' then
        (let session_id = nonempty_str (jat parsed ''session_id'') in
         case nonempty_str (jat parsed ''model'') of
           Some model \<Rightarrow>
             (p \<lparr> sp_model_tracker := observe_init model (sp_model_tracker p) \<rparr>, Some (SystemInit model session_id),
              Some (''SYSTEM'', ''init: model='' @ model))
         | None \<Rightarrow>
             (if session_id \<noteq> None then (p, Some (SystemInit [] session_id), Some (''SYSTEM'', ''init''))
              else (p, system_notice parsed)))
      else (p, system_notice parsed))"

definition note_unknown_type :: "rstr \<Rightarrow> stream_parser \<Rightarrow> stream_parser \<times> parsed_line" where
  "note_unknown_type msg_type p =
     (let label = (if msg_type = [] then ''<none>'' else msg_type) in
      if card (sp_seen_unknown_types p) < MAX_TRACKED_UNKNOWN_TYPES \<and> label \<notin> sp_seen_unknown_types p then
        (p \<lparr> sp_seen_unknown_types := insert label (sp_seen_unknown_types p) \<rparr>, [],
         Some (''STREAM'', ''unknown stream-json type '' @ SQ @ label @ SQ @ '' ignored (logged once per session)''))
      else (p, [], None))"

definition one_chunk :: "parser_result \<Rightarrow> stream_parser \<times> parsed_line" where
  "one_chunk r = (fst r, option_to_vec (snd r))"

definition parse_line :: "'a chat_env_scheme \<Rightarrow> json \<Rightarrow> stream_parser \<Rightarrow> stream_parser \<times> parsed_line" where
  "parse_line E parsed p =
     (let msg_type = str_or_empty (jat parsed ''type'') in
      if msg_type = ''stream_event'' then one_chunk (parse_stream_event (jat parsed ''event'') p)
      else if msg_type = ''user'' then parse_user_message parsed p
      else if msg_type = ''result'' then one_chunk (parse_result E parsed p)
      else if msg_type = ''assistant'' then
        (capture_context_usage parsed (capture_assistant_model parsed (capture_assistant_uuid parsed p)),
         complete_tool_inputs E parsed, None)
      else if msg_type = ''system'' then one_chunk (parse_system_message parsed p)
      else if msg_type = ''rate_limit_event'' then (p, option_to_vec (parse_rate_limit_event E parsed))
      else note_unknown_type msg_type p)"

text \<open>A whole stream: the parser in the end and the chunks of every line.\<close>

fun parse_lines :: "'a chat_env_scheme \<Rightarrow> json list \<Rightarrow> stream_parser \<Rightarrow> stream_parser \<times> stream_chunk list list" where
  "parse_lines E [] p = (p, [])"
| "parse_lines E (v # vs) p =
     (case parse_line E v p of (p', chunks, log) \<Rightarrow>
        (case parse_lines E vs p' of (p'', rest) \<Rightarrow> (p'', chunks # rest)))"


section \<open>Well-formed parsers and chunks\<close>

lemmas opt_defs = or_else_def unwrap_or_def nonempty_str_def str_or_empty_def

lemma nonempty_str_not_Nil [simp]: "nonempty_str v \<noteq> Some []"
  by (auto simp: nonempty_str_def split: option.splits)

definition blocks_ok :: "(u64 \<rightharpoonup> rstr \<times> rstr) \<Rightarrow> bool" where
  "blocks_ok m \<longleftrightarrow> (\<forall>index tid tname. m index = Some (tid, tname) \<longrightarrow> tid \<noteq> [] \<and> tname \<noteq> [])"

lemma blocks_ok_simps [simp, intro]:
  "blocks_ok Map.empty" "blocks_ok m \<Longrightarrow> blocks_ok (m(i := None))"
  "blocks_ok m \<Longrightarrow> tid \<noteq> [] \<Longrightarrow> tname \<noteq> [] \<Longrightarrow> blocks_ok (m(i \<mapsto> (tid, tname)))"
  by (auto simp: blocks_ok_def)

lemma blocks_okD: "blocks_ok m \<Longrightarrow> m i = Some (tid, tname) \<Longrightarrow> tid \<noteq> []"
  by (simp add: blocks_ok_def)

definition parser_ok :: "stream_parser \<Rightarrow> bool" where
  "parser_ok p \<longleftrightarrow> blocks_ok (sp_active_blocks p)
   \<and> [] \<notin> sp_committed_user_uuids p \<and> sp_pending_assistant_uuid p \<noteq> Some [] \<and> sp_model_tracker p \<noteq> Some []
   \<and> finite (sp_seen_unknown_types p) \<and> card (sp_seen_unknown_types p) \<le> MAX_TRACKED_UNKNOWN_TYPES"

text \<open>What a chunk of the parser promises: ids and names are there, a failure has a text, a rate limit is between
  zero and a hundred percent, and the chunks of the session itself are not among them.\<close>

fun chunk_ok :: "stream_chunk \<Rightarrow> bool" where
  "chunk_ok (Text content) = True"
| "chunk_ok (Thinking_Chunk content) = True"
| "chunk_ok (ToolStart tid tname) = (tid \<noteq> [] \<and> tname \<noteq> [] \<and> tname \<noteq> ASK_USER_TOOL_NAME)"
| "chunk_ok (ToolInputDelta tid partial) = (tid \<noteq> [])"
| "chunk_ok (ToolInputComplete tid input) = (tid \<noteq> [])"
| "chunk_ok (ToolResult tid content is_error) = (tid \<noteq> [])"
| "chunk_ok (Result r) =
     (rc_assistant_uuid r \<noteq> Some [] \<and> (\<forall>s. rc_result_text r = Some s \<longrightarrow> trim s \<noteq> [])
      \<and> (\<forall>c. rc_turn_cost r = Some c \<longrightarrow> rc_total_cost r \<noteq> None))"
| "chunk_ok (AskUserQuestion tid questions index) = False"
| "chunk_ok (Error_Chunk content turn_ended) = (content \<noteq> [])"
| "chunk_ok (SystemInit model session_id) = (session_id \<noteq> Some [] \<and> (model \<noteq> [] \<or> session_id \<noteq> None))"
| "chunk_ok (RateLimit r) = (\<forall>u. rl_utilization_percent r = Some u \<longrightarrow> (\<exists>x. u = Fin x \<and> 0 \<le> x \<and> x \<le> 100 * F64_UNIT))"
| "chunk_ok (UserMessageCommit uuid) = (uuid \<noteq> [])"
| "chunk_ok (ControlChip command argument uuid) = False"
| "chunk_ok (QueueDrained session_id t) = False"

lemma trim_Nil [simp]: "trim [] = []"
  by (simp add: trim_def chars_def)

lemma parser_ok_new: "parser_ok parser_new"
  by (simp add: parser_ok_def parser_new_def)

lemma parser_ok_blocks:
  "parser_ok p \<Longrightarrow> blocks_ok m \<Longrightarrow> parser_ok (p \<lparr> sp_active_blocks := m \<rparr>)"
  by (simp add: parser_ok_def)

lemma block_start_ok:
  assumes "parser_ok p" and "parse_block_start event p = (p', chunk, log)"
  shows "parser_ok p' \<and> (\<forall>c. chunk = Some c \<longrightarrow> chunk_ok c)"
proof -
  have "blocks_ok (sp_active_blocks p)" using assms(1) by (simp add: parser_ok_def)
  with assms show ?thesis
    by (auto simp: parse_block_start_def Let_def intro!: parser_ok_blocks split: if_splits option.splits)
qed

lemma block_delta_ok: "parser_ok p \<Longrightarrow> parse_block_delta event p = Some c \<Longrightarrow> chunk_ok c"
  by (auto simp: parse_block_delta_def Let_def parser_ok_def dest: blocks_okD split: if_splits option.splits prod.splits)

lemma block_stop_ok:
  assumes "parser_ok p" and "parse_block_stop event p = (p', chunk, log)"
  shows "parser_ok p' \<and> chunk = None"
proof -
  have "blocks_ok (sp_active_blocks p)" using assms(1) by (simp add: parser_ok_def)
  with assms show ?thesis by (auto simp: parse_block_stop_def intro!: parser_ok_blocks split: option.splits)
qed

lemma stream_event_ok:
  assumes "parser_ok p" and "parse_stream_event event p = (p', chunk, log)"
  shows "parser_ok p' \<and> (\<forall>c. chunk = Some c \<longrightarrow> chunk_ok c)"
  using assms block_start_ok [OF assms(1)] block_delta_ok [OF assms(1)]
  by (auto simp: parse_stream_event_def parser_reset_def Let_def intro!: parser_ok_blocks dest: block_stop_ok split: if_splits)

lemma tool_results_ok: "c \<in> set (map (\<lambda>(tid, content, is_error). ToolResult tid content is_error) (List.map_filter tool_result_of bs))
    \<Longrightarrow> chunk_ok c"
  by (auto simp: List.map_filter_def tool_result_of_def split: if_splits option.splits)

lemma user_message_ok:
  assumes "parser_ok p" and "parse_user_message parsed p = (p', chunks, log)"
  shows "parser_ok p' \<and> (\<forall>c \<in> set chunks. chunk_ok c)"
  using assms tool_results_ok
  by (auto simp: parse_user_message_def parser_ok_def Let_def split: if_splits option.splits)

lemma observe_ok:
  "t \<noteq> Some [] \<Longrightarrow> observe_init m t \<noteq> Some []" "t \<noteq> Some [] \<Longrightarrow> observe_assistant m t \<noteq> Some []"
  by (auto simp: observe_init_def observe_assistant_def)

lemma error_text_ok: "(if trim s = [] then EMPTY_ERROR_TEXT else s) \<noteq> []"
  by (auto simp: EMPTY_ERROR_TEXT_def)

lemma turn_cost_ok: "turn_cost_of t prev = Some c \<Longrightarrow> t \<noteq> None"
  by (auto simp: turn_cost_of_def split: option.splits)

lemma shown_text_ok:
  "(case x of Some s \<Rightarrow> if trim s = [] then None else Some s | None \<Rightarrow> None) = Some u \<Longrightarrow> trim u \<noteq> []"
  by (auto split: option.splits if_splits)

lemma result_ok:
  assumes "parser_ok p" and "parse_result E parsed p = (p', chunk, log)"
  shows "parser_ok p' \<and> (\<forall>c. chunk = Some c \<longrightarrow> chunk_ok c)"
proof (cases "as_bool (jat parsed ''is_error'') = Some True")
  case True
  with assms error_text_ok show ?thesis by (auto simp: parse_result_def parse_result_error_def parser_ok_def Let_def)
next
  case False
  obtain tu snap where u: "compute_turn_usage_from_result E parsed (result_usage parsed) (sp_previous_session_usage p) = (tu, snap)"
    by fastforce
  have ok: "sp_model_tracker p \<noteq> Some []" "sp_pending_assistant_uuid p \<noteq> Some []" using assms(1) by (simp_all add: parser_ok_def)
  have shown: "\<forall>s. (case as_str (jat parsed ''result'') of Some s \<Rightarrow> if trim s = [] then None else Some s | None \<Rightarrow> None) = Some s
      \<longrightarrow> trim s \<noteq> []"
    using shown_text_ok by blast
  have tracker: "\<And>m. observe_assistant m None \<noteq> Some []" by (rule observe_ok) simp
  from assms(2) have "p' = fst (parse_result E parsed p)" "chunk = fst (snd (parse_result E parsed p))" by simp_all
  then show ?thesis
    using assms(1) ok(2) shown
    by (auto simp: parse_result_def Let_def False u parser_ok_def tracker dest: turn_cost_ok split: option.split)
qed

lemma assistant_ok:
  assumes "parser_ok p"
  shows "parser_ok (capture_context_usage parsed (capture_assistant_model parsed (capture_assistant_uuid parsed p)))"
  using assms
  by (auto simp: capture_context_usage_def capture_assistant_model_def capture_assistant_uuid_def parser_ok_def observe_ok
      split: option.splits)

lemma complete_inputs_ok: "c \<in> set (complete_tool_inputs E parsed) \<Longrightarrow> chunk_ok c"
  by (auto simp: complete_tool_inputs_def List.map_filter_def Let_def split: if_splits option.splits)

lemma system_message_ok:
  assumes "parser_ok p" and "parse_system_message parsed p = (p', chunk, log)"
  shows "parser_ok p' \<and> (\<forall>c. chunk = Some c \<longrightarrow> chunk_ok c)"
  using assms
  by (auto simp: parse_system_message_def system_notice_def parser_ok_def Let_def observe_ok split: if_splits option.splits)

lemma unknown_type_ok:
  assumes "parser_ok p" and "note_unknown_type t p = (p', chunks, log)"
  shows "parser_ok p' \<and> chunks = []"
  using assms
  by (auto simp: note_unknown_type_def parser_ok_def Let_def split: if_splits)


lemma bit_length_le: "n < 2 ^ k \<Longrightarrow> bit_length n \<le> k"
proof (induction k arbitrary: n)
  case (Suc k)
  then have "n div 2 < 2 ^ k" by (simp add: less_mult_imp_div_less mult.commute)
  from Suc.IH [OF this] show ?case by (subst bit_length.simps) simp
qed (simp add: bit_length.simps)

lemma f64_round_le:
  assumes "n \<le> k * 2 ^ j" and "bit_length n - 53 \<le> j" and "int (k * 2 ^ j) < F64_LIMIT"
  shows "\<exists>m. f64_round n = Fin (int m) \<and> m \<le> k * 2 ^ j"
proof -
  define e where "e = bit_length n - 53"
  define q where "q = n div 2 ^ e"
  define r where "r = n mod 2 ^ e"
  define up where "up = (2 * r > 2 ^ e \<or> (2 * r = 2 ^ e \<and> e > 0 \<and> odd q))"
  have n: "n = q * 2 ^ e + r" by (simp only: q_def r_def div_mult_mod_eq)
  obtain c where c: "k * 2 ^ j = c * 2 ^ e"
    using assms(2) by (metis dvdE dvd_mult2 e_def le_imp_power_dvd mult.commute)
  have "(if up then q + 1 else q) * 2 ^ e \<le> k * 2 ^ j"
  proof (cases up)
    case True
    then have "r > 0" by (cases r) (auto simp: up_def)
    with n assms(1) c have "q * 2 ^ e < c * 2 ^ e" by linarith
    then have "q + 1 \<le> c" by simp
    with True c show ?thesis by (metis mult_le_mono1)
  next
    case False
    with n assms(1) show ?thesis by simp
  qed
  moreover have "f64_round n = (let m = (if up then q + 1 else q) * 2 ^ e in if int m < F64_LIMIT then Fin (int m) else Pos_Inf)"
    by (simp only: f64_round_def Let_def e_def q_def r_def up_def)
  ultimately show ?thesis using assms(3) by (simp only: Let_def) (metis le_less_trans of_nat_le_iff)
qed

lemma utilization_percent_range:
  assumes "utilization_fraction_to_percent f = Some u"
  shows "\<exists>x. u = Fin x \<and> 0 \<le> x \<and> x \<le> 100 * F64_UNIT"
proof -
  have f: "0 \<le> f" "f \<le> F64_UNIT" and u: "u = f64_round (nat (100 * f))"
    using assms by (auto simp: utilization_fraction_to_percent_def split: if_splits)
  have le: "nat (100 * f) \<le> 100 * 2 ^ 1074" using f(2) unfolding F64_UNIT_def by (simp only: nat_le_iff) simp
  have "(100 :: nat) * 2 ^ 1074 < 2 ^ 1081" by simp
  with le have "bit_length (nat (100 * f)) - 53 \<le> 1074" using bit_length_le [of "nat (100 * f)" 1081] by simp
  from f64_round_le [OF le this] obtain m where "u = Fin (int m)" "m \<le> 100 * 2 ^ 1074"
    unfolding u F64_LIMIT_def by auto
  moreover have "int (100 * 2 ^ 1074) = 100 * F64_UNIT" by (simp only: F64_UNIT_def of_nat_mult of_nat_power of_nat_numeral)
  ultimately show ?thesis by (metis of_nat_0_le_iff of_nat_le_iff)
qed

lemma rate_limit_ok: "parse_rate_limit_event E parsed = (Some c, log) \<Longrightarrow> chunk_ok c"
proof -
  assume c: "parse_rate_limit_event E parsed = (Some c, log)"
  have "\<exists>x. u = Fin x \<and> 0 \<le> x \<and> x \<le> 100 * F64_UNIT" if u: "utilization_fraction_to_percent f = Some u" for f u
    using u utilization_percent_range by blast
  with c show ?thesis by (auto simp: parse_rate_limit_event_def Let_def Option.bind_eq_Some_conv)
qed

lemma one_chunk_ok:
  assumes "\<And>p' chunk log. r = (p', chunk, log) \<Longrightarrow> parser_ok p' \<and> (\<forall>c. chunk = Some c \<longrightarrow> chunk_ok c)"
    and "one_chunk r = (p', chunks, log)"
  shows "parser_ok p' \<and> (\<forall>c \<in> set chunks. chunk_ok c) \<and> length chunks \<le> 1"
  using assms by (cases r) (auto simp: one_chunk_def option_to_vec_def split: option.splits)

text \<open>What holds of the result of every method holds of the result of a line.\<close>

lemma parse_line_rule:
  assumes "P (one_chunk (parse_stream_event (jat v ''event'') p))" and "P (parse_user_message v p)"
    and "str_or_empty (jat v ''type'') = ''result'' \<Longrightarrow> P (one_chunk (parse_result E v p))"
    and "P (capture_context_usage v (capture_assistant_model v (capture_assistant_uuid v p)), complete_tool_inputs E v, None)"
    and "P (one_chunk (parse_system_message v p))" and "P (p, option_to_vec (parse_rate_limit_event E v))"
    and "\<And>ty. P (note_unknown_type ty p)"
  shows "P (parse_line E v p)"
proof -
  have if_rule: "P (if b then x else y)" if "b \<Longrightarrow> P x" "P y" for b x y using that by simp
  show ?thesis unfolding parse_line_def Let_def by (intro if_rule assms)
qed

definition line_ok :: "stream_parser \<times> parsed_line \<Rightarrow> bool" where
  "line_ok r \<longleftrightarrow> (case r of (p, chunks, log) \<Rightarrow> parser_ok p \<and> (\<forall>c \<in> set chunks. chunk_ok c))"

lemma line_ok_one_chunk:
  assumes "\<And>p' chunk log. r = (p', chunk, log) \<Longrightarrow> parser_ok p' \<and> (\<forall>c. chunk = Some c \<longrightarrow> chunk_ok c)"
  shows "line_ok (one_chunk r)"
  using one_chunk_ok [OF assms] by (auto simp: line_ok_def split: prod.split)

lemma parse_line_ok:
  assumes "parser_ok p"
  shows "line_ok (parse_line E v p)"
proof (rule parse_line_rule)
  show "line_ok (p, option_to_vec (parse_rate_limit_event E v))"
    using assms rate_limit_ok [of E v]
    by (cases "parse_rate_limit_event E v") (auto simp: line_ok_def option_to_vec_def split: option.splits)
  show "line_ok (capture_context_usage v (capture_assistant_model v (capture_assistant_uuid v p)), complete_tool_inputs E v, None)"
    using assistant_ok [OF assms] complete_inputs_ok by (auto simp: line_ok_def)
  show "line_ok (parse_user_message v p)"
    using user_message_ok [OF assms] by (auto simp: line_ok_def split: prod.split)
  show "line_ok (note_unknown_type ty p)" for ty
    using unknown_type_ok [OF assms, of ty] by (auto simp: line_ok_def split: prod.split)
  show "line_ok (one_chunk (parse_stream_event (jat v ''event'') p))" by (rule line_ok_one_chunk [OF stream_event_ok [OF assms]])
  show "line_ok (one_chunk (parse_result E v p))" by (rule line_ok_one_chunk [OF result_ok [OF assms]])
  show "line_ok (one_chunk (parse_system_message v p))" by (rule line_ok_one_chunk [OF system_message_ok [OF assms]])
qed

lemma parse_lines_ok:
  assumes "parser_ok p" and "parse_lines E vs p = (p', css)"
  shows "parser_ok p' \<and> (\<forall>cs \<in> set css. \<forall>c \<in> set cs. chunk_ok c)"
  using assms
proof (induction vs arbitrary: p css)
  case (Cons v vs)
  from parse_line_ok [OF Cons.prems(1), of E v] Cons show ?case
    by (fastforce simp: line_ok_def split: prod.splits)
qed simp


section \<open>Input of a tool only after its start\<close>

definition open_tools :: "stream_parser \<Rightarrow> rstr set" where
  "open_tools p = {tid. \<exists>i tname. sp_active_blocks p i = Some (tid, tname) \<and> tname \<noteq> ASK_USER_TOOL_NAME}"

definition started_tools :: "stream_chunk list \<Rightarrow> rstr set" where
  "started_tools cs = {tid. \<exists>tname. ToolStart tid tname \<in> set cs}"

definition tools_ok :: "stream_parser \<Rightarrow> stream_parser \<times> parsed_line \<Rightarrow> bool" where
  "tools_ok p r \<longleftrightarrow> (case r of (p', cs, log) \<Rightarrow>
     (\<forall>tid partial. ToolInputDelta tid partial \<in> set cs \<longrightarrow> tid \<in> open_tools p) \<and> open_tools p' \<subseteq> open_tools p \<union> started_tools cs)"

lemma tools_ok_same:
  "sp_active_blocks p' = sp_active_blocks p \<Longrightarrow> (\<And>tid partial. ToolInputDelta tid partial \<notin> set cs) \<Longrightarrow> tools_ok p (p', cs, log)"
  by (auto simp: tools_ok_def open_tools_def)

lemma tools_block_start: "tools_ok p (one_chunk (parse_block_start event p))"
  by (auto simp: tools_ok_def parse_block_start_def one_chunk_def option_to_vec_def open_tools_def started_tools_def Let_def
      split: option.split if_splits)

lemma tools_block_delta: "tools_ok p (one_chunk (p, parse_block_delta event p, log))"
  by (auto simp: tools_ok_def parse_block_delta_def one_chunk_def option_to_vec_def open_tools_def Let_def
      split: option.split if_splits option.split_asm)

lemma tools_block_stop: "tools_ok p (one_chunk (parse_block_stop event p))"
  by (auto simp: tools_ok_def parse_block_stop_def one_chunk_def option_to_vec_def open_tools_def
      split: option.split if_splits)

lemma tools_stream_event: "tools_ok p (one_chunk (parse_stream_event event p))"
  using tools_block_start [of p event] tools_block_delta [of p event None] tools_block_stop [of p event]
  by (auto simp: parse_stream_event_def Let_def one_chunk_def option_to_vec_def parser_reset_def tools_ok_def open_tools_def)

lemma result_frame:
  "sp_active_blocks (fst (parse_result E v p)) = sp_active_blocks p"
  "sp_committed_user_uuids (fst (parse_result E v p)) = sp_committed_user_uuids p"
  "fst (snd (parse_result E v p)) = Some c \<Longrightarrow> (\<exists>r. c = Result r) \<or> (\<exists>s b. c = Error_Chunk s b)"
  by (auto simp: parse_result_def parse_result_error_def Let_def split: prod.splits if_splits)

lemma user_message_frame:
  "sp_active_blocks (fst (parse_user_message v p)) = sp_active_blocks p"
  "c \<in> set (fst (snd (parse_user_message v p))) \<Longrightarrow> (\<exists>a b e. c = ToolResult a b e) \<or> (\<exists>u. c = UserMessageCommit u)"
  by (auto simp: parse_user_message_def Let_def split: option.splits if_splits)

lemma assistant_frame:
  "sp_active_blocks (capture_context_usage v (capture_assistant_model v (capture_assistant_uuid v p))) = sp_active_blocks p"
  "sp_committed_user_uuids (capture_context_usage v (capture_assistant_model v (capture_assistant_uuid v p))) = sp_committed_user_uuids p"
  "sp_previous_session_usage (capture_context_usage v (capture_assistant_model v (capture_assistant_uuid v p))) = sp_previous_session_usage p"
  by (simp_all add: capture_context_usage_def capture_assistant_model_def capture_assistant_uuid_def split: option.split)

lemma complete_inputs_shape: "c \<in> set (complete_tool_inputs E v) \<Longrightarrow> \<exists>a b. c = ToolInputComplete a b"
  by (auto simp: complete_tool_inputs_def List.map_filter_def Let_def split: if_splits option.splits)

lemma system_message_frame:
  "sp_active_blocks (fst (parse_system_message v p)) = sp_active_blocks p"
  "sp_committed_user_uuids (fst (parse_system_message v p)) = sp_committed_user_uuids p"
  "sp_previous_session_usage (fst (parse_system_message v p)) = sp_previous_session_usage p"
  "fst (snd (parse_system_message v p)) = Some c \<Longrightarrow> (\<exists>m s. c = SystemInit m s) \<or> (\<exists>s b. c = Error_Chunk s b)"
  by (auto simp: parse_system_message_def system_notice_def Let_def split: option.splits if_splits)

lemma rate_limit_shape: "fst (parse_rate_limit_event E v) = Some c \<Longrightarrow> \<exists>r. c = RateLimit r"
  by (auto simp: parse_rate_limit_event_def Let_def)

lemma unknown_frame:
  "sp_active_blocks (fst (note_unknown_type t p)) = sp_active_blocks p"
  "sp_committed_user_uuids (fst (note_unknown_type t p)) = sp_committed_user_uuids p"
  "sp_previous_session_usage (fst (note_unknown_type t p)) = sp_previous_session_usage p"
  "fst (snd (note_unknown_type t p)) = []"
  by (simp_all add: note_unknown_type_def Let_def)

lemma set_one_chunk: "set (fst (snd (one_chunk r))) = set_option (fst (snd r))"
  by (cases r) (auto simp: one_chunk_def option_to_vec_def split: option.split)

lemma fst_one_chunk [simp]: "fst (one_chunk r) = fst r"
  by (simp add: one_chunk_def)

lemma set_option_to_vec: "set (fst (option_to_vec r)) = set_option (fst r)"
  by (cases r) (auto simp: option_to_vec_def split: option.split)

lemma tools_ok_frame:
  "sp_active_blocks (fst r) = sp_active_blocks p \<Longrightarrow> (\<And>tid partial. ToolInputDelta tid partial \<notin> set (fst (snd r))) \<Longrightarrow> tools_ok p r"
  by (cases r) (auto intro: tools_ok_same)

lemma tools_line: "tools_ok p (parse_line E v p)"
proof (rule parse_line_rule)
  show "tools_ok p (one_chunk (parse_stream_event (jat v ''event'') p))" by (rule tools_stream_event)
  show "tools_ok p (parse_user_message v p)"
    by (rule tools_ok_frame) (auto simp: user_message_frame(1) dest: user_message_frame(2))
  show "tools_ok p (one_chunk (parse_result E v p))"
    by (rule tools_ok_frame) (auto simp: result_frame(1) set_one_chunk dest!: result_frame(3))
  show "tools_ok p (capture_context_usage v (capture_assistant_model v (capture_assistant_uuid v p)), complete_tool_inputs E v, None)"
    by (rule tools_ok_frame) (auto simp: assistant_frame(1) dest: complete_inputs_shape)
  show "tools_ok p (one_chunk (parse_system_message v p))"
    by (rule tools_ok_frame) (auto simp: system_message_frame(1) set_one_chunk dest!: system_message_frame(4))
  show "tools_ok p (p, option_to_vec (parse_rate_limit_event E v))"
    by (rule tools_ok_frame) (auto simp: set_option_to_vec dest!: rate_limit_shape)
  show "tools_ok p (note_unknown_type ty p)" for ty
    by (rule tools_ok_frame) (simp_all add: unknown_frame)
qed

lemma tools_lines:
  assumes "parse_lines E vs p = (p', css)" and "i < length css" and "ToolInputDelta tid partial \<in> set (css ! i)"
  shows "tid \<in> open_tools p \<or> (\<exists>j < i. tid \<in> started_tools (css ! j))"
  using assms
proof (induction vs arbitrary: p css i)
  case (Cons v vs)
  obtain q cs log where line: "parse_line E v p = (q, cs, log)" by (cases "parse_line E v p") auto
  with Cons.prems(1) obtain rest where rest: "parse_lines E vs q = (p', rest)" "css = cs # rest" by (auto split: prod.splits)
  note ok = tools_line [of p E v, unfolded line tools_ok_def prod.case]
  show ?case
  proof (cases i)
    case 0
    with Cons.prems(3) rest ok show ?thesis by auto
  next
    case (Suc k)
    with Cons.prems rest have "tid \<in> open_tools q \<or> (\<exists>j < k. tid \<in> started_tools (rest ! j))"
      by (intro Cons.IH) simp_all
    with ok rest Suc show ?thesis by (metis Suc_mono UnE nth_Cons_0 nth_Cons_Suc subsetD zero_less_Suc)
  qed
qed simp

text \<open>In every stream the window is sent input of a tool call only after the start of that call, in an
  earlier line.\<close>

theorem tool_input_after_start:
  assumes "parse_lines E vs parser_new = (p, css)" and "i < length css" and "ToolInputDelta tid partial \<in> set (css ! i)"
  shows "\<exists>j < i. \<exists>tname. ToolStart tid tname \<in> set (css ! j)"
  using tools_lines [OF assms] by (auto simp: open_tools_def parser_new_def started_tools_def)


section \<open>Completed inputs\<close>

text \<open>A block of an assistant line that calls a tool other than the question tool.\<close>

definition calls_tool :: "json \<Rightarrow> rstr \<Rightarrow> bool" where
  "calls_tool v tid \<longleftrightarrow> (\<exists>bs b. as_array (jat (jat v ''message'') ''content'') = Some bs \<and> b \<in> set bs
     \<and> as_str (jat b ''type'') = Some ''tool_use'' \<and> as_str (jat b ''name'') \<noteq> Some ASK_USER_TOOL_NAME
     \<and> as_str (jat b ''id'') = Some tid)"

lemma in_map_filter: "y \<in> set (List.map_filter f xs) \<longleftrightarrow> (\<exists>x \<in> set xs. f x = Some y)"
  by (force simp: List.map_filter_def)

lemma nonempty_strD: "nonempty_str v = Some s \<Longrightarrow> as_str v = Some s"
  by (auto simp: nonempty_str_def split: option.splits if_splits)

lemma complete_inputs_calls:
  assumes "ToolInputComplete tid input \<in> set (complete_tool_inputs E v)"
  shows "calls_tool v tid"
proof -
  from assms obtain bs where bs: "as_array (jat (jat v ''message'') ''content'') = Some bs"
    by (cases "as_array (jat (jat v ''message'') ''content'')") (auto simp: complete_tool_inputs_def split: if_splits)
  from assms bs obtain b where "b \<in> set bs" "as_str (jat b ''type'') = Some ''tool_use''"
      "as_str (jat b ''name'') \<noteq> Some ASK_USER_TOOL_NAME" "nonempty_str (jat b ''id'') = Some tid"
    by (auto simp: complete_tool_inputs_def in_map_filter Let_def split: if_splits option.splits)
  with bs show ?thesis by (auto simp: calls_tool_def dest: nonempty_strD)
qed

lemma stream_event_no_input: "fst (snd (parse_stream_event event p)) = Some c \<Longrightarrow> \<forall>tid input. c \<noteq> ToolInputComplete tid input"
  by (auto simp: parse_stream_event_def parse_block_start_def parse_block_delta_def parse_block_stop_def Let_def
      split: if_splits option.splits)

lemma completed_line: "\<forall>tid input. ToolInputComplete tid input \<in> set (fst (snd (parse_line E v p))) \<longrightarrow> calls_tool v tid"
proof -
  define P where "P r \<longleftrightarrow> (\<forall>tid input. ToolInputComplete tid input \<in> set (fst (snd r)) \<longrightarrow> calls_tool v tid)"
    for r :: "stream_parser \<times> parsed_line"
  have "P (parse_line E v p)"
  proof (rule parse_line_rule)
    show "P (one_chunk (parse_stream_event (jat v ''event'') p))"
      using stream_event_no_input by (fastforce simp: P_def set_one_chunk)
    show "P (parse_user_message v p)" by (auto simp: P_def dest: user_message_frame(2))
    show "P (one_chunk (parse_result E v p))" by (auto simp: P_def set_one_chunk dest!: result_frame(3))
    show "P (capture_context_usage v (capture_assistant_model v (capture_assistant_uuid v p)), complete_tool_inputs E v, None)"
      using complete_inputs_calls by (auto simp: P_def)
    show "P (one_chunk (parse_system_message v p))" by (auto simp: P_def set_one_chunk dest!: system_message_frame(4))
    show "P (p, option_to_vec (parse_rate_limit_event E v))" by (auto simp: P_def set_option_to_vec dest!: rate_limit_shape)
    show "P (note_unknown_type ty p)" for ty by (simp add: P_def unknown_frame)
  qed
  then show ?thesis by (simp add: P_def)
qed

lemma completed_lines:
  assumes "parse_lines E vs p = (p', css)" and "i < length css" and "ToolInputComplete tid input \<in> set (css ! i)"
  shows "i < length vs \<and> calls_tool (vs ! i) tid"
  using assms
proof (induction vs arbitrary: p css i)
  case (Cons v vs)
  obtain q cs log where line: "parse_line E v p = (q, cs, log)" by (cases "parse_line E v p") auto
  with Cons.prems(1) obtain rest where rest: "parse_lines E vs q = (p', rest)" "css = cs # rest" by (auto split: prod.splits)
  show ?case
  proof (cases i)
    case 0
    with Cons.prems(3) rest completed_line [of E v p] line show ?thesis by auto
  next
    case (Suc k)
    with Cons.prems rest have "k < length vs \<and> calls_tool (vs ! k) tid" by (intro Cons.IH) simp_all
    with Suc show ?thesis by simp
  qed
qed simp

text \<open>C36. From every stream of JSON values the parser makes well-formed chunks only: tool chunks carry an id,
  failures have a text, a rate limit is between 0 and 100 percent, a turn cost comes with a total; and at most
  32 unknown types are remembered. Neither the start nor the input of a call of the question tool is passed on: a
  start names another tool, a piece of input follows such a start in an earlier line, and a completed input comes
  from a block of its own line that calls a tool other than that. Results name no tool and are passed on for all.\<close>

theorem parsed_chunks_typed:
  "case parse_lines E vs parser_new of (p, css) \<Rightarrow>
     list_all (list_all chunk_ok) css \<and> card (sp_seen_unknown_types p) \<le> MAX_TRACKED_UNKNOWN_TYPES
   \<and> (\<forall>i < length css. \<forall>tid partial. ToolInputDelta tid partial \<in> set (css ! i) \<longrightarrow>
        (\<exists>j < i. \<exists>tname. tname \<noteq> ASK_USER_TOOL_NAME \<and> ToolStart tid tname \<in> set (css ! j)))
   \<and> (\<forall>i < length css. \<forall>tid input. ToolInputComplete tid input \<in> set (css ! i) \<longrightarrow>
        i < length vs \<and> (\<exists>bs b. as_array (jat (jat (vs ! i) ''message'') ''content'') = Some bs \<and> b \<in> set bs
          \<and> as_str (jat b ''type'') = Some ''tool_use'' \<and> as_str (jat b ''name'') \<noteq> Some ASK_USER_TOOL_NAME
          \<and> as_str (jat b ''id'') = Some tid))"
proof -
  obtain p css where run: "parse_lines E vs parser_new = (p, css)" by fastforce
  note ok = parse_lines_ok [OF parser_ok_new run]
  have "\<exists>j < i. \<exists>tname. tname \<noteq> ASK_USER_TOOL_NAME \<and> ToolStart tid tname \<in> set (css ! j)"
    if i: "i < length css" "ToolInputDelta tid partial \<in> set (css ! i)" for i tid partial
  proof -
    from tools_lines [OF run i] obtain j tname where j: "j < i" "ToolStart tid tname \<in> set (css ! j)"
      by (auto simp: open_tools_def parser_new_def started_tools_def)
    with i(1) have "chunk_ok (ToolStart tid tname)" using ok by (meson less_trans nth_mem)
    with j show ?thesis by auto
  qed
  then show ?thesis
    using ok completed_lines [OF run] by (auto simp: run list_all_iff parser_ok_def calls_tool_def)
qed

section \<open>A user message is committed once\<close>

definition commits :: "stream_chunk list \<Rightarrow> rstr list" where
  "commits cs = List.map_filter (\<lambda>c. case c of UserMessageCommit u \<Rightarrow> Some u | _ \<Rightarrow> None) cs"

lemma commits_append: "commits (xs @ ys) = commits xs @ commits ys"
  by (simp add: commits_def List.map_filter_def)

lemma set_commits: "set (commits cs) = {u. UserMessageCommit u \<in> set cs}"
  by (auto simp: commits_def List.map_filter_def split: stream_chunk.splits intro!: image_eqI [of _ _ "UserMessageCommit _"])

lemma commits_empty: "(\<And>u. UserMessageCommit u \<notin> set cs) \<Longrightarrow> commits cs = []"
  using set_commits [of cs] by auto

lemma commits_simps [simp]: "commits [] = []" "commits [UserMessageCommit u] = [u]"
  by (simp_all add: commits_def List.map_filter_simps)

definition commits_ok :: "stream_parser \<Rightarrow> stream_parser \<times> parsed_line \<Rightarrow> bool" where
  "commits_ok p r \<longleftrightarrow> (case r of (p', cs, log) \<Rightarrow>
     distinct (commits cs) \<and> set (commits cs) \<inter> sp_committed_user_uuids p = {}
     \<and> sp_committed_user_uuids p' = sp_committed_user_uuids p \<union> set (commits cs))"

lemma commits_ok_frame:
  assumes "sp_committed_user_uuids (fst r) = sp_committed_user_uuids p" and "\<And>u. UserMessageCommit u \<notin> set (fst (snd r))"
  shows "commits_ok p r"
  using assms commits_empty [OF assms(2)] by (cases r) (simp add: commits_ok_def)

lemma stream_event_frame:
  "sp_committed_user_uuids (fst (parse_stream_event v p)) = sp_committed_user_uuids p"
  "sp_previous_session_usage (fst (parse_stream_event v p)) = sp_previous_session_usage p"
  "fst (snd (parse_stream_event v p)) \<noteq> Some (UserMessageCommit u)" "fst (snd (parse_stream_event v p)) \<noteq> Some (Result r)"
  by (auto simp: parse_stream_event_def parse_block_start_def parse_block_delta_def parse_block_stop_def parser_reset_def Let_def
      split: option.splits)

lemma tool_result_commits: "commits (map (\<lambda>(tid, content, is_error). ToolResult tid content is_error) rs) = []"
  by (rule commits_empty) auto

lemma commits_line: "commits_ok p (parse_line E v p)"
proof (rule parse_line_rule)
  show "commits_ok p (parse_user_message v p)"
    by (auto simp: parse_user_message_def commits_ok_def tool_result_commits Let_def split: option.split)
  show "commits_ok p (one_chunk (parse_stream_event (jat v ''event'') p))"
    by (rule commits_ok_frame) (auto simp: stream_event_frame set_one_chunk)
  show "commits_ok p (one_chunk (parse_result E v p))"
    by (rule commits_ok_frame) (auto simp: result_frame(2) set_one_chunk dest!: result_frame(3))
  show "commits_ok p (capture_context_usage v (capture_assistant_model v (capture_assistant_uuid v p)), complete_tool_inputs E v, None)"
    by (rule commits_ok_frame) (auto simp: assistant_frame(2) dest: complete_inputs_shape)
  show "commits_ok p (one_chunk (parse_system_message v p))"
    by (rule commits_ok_frame) (auto simp: system_message_frame(2) set_one_chunk dest!: system_message_frame(4))
  show "commits_ok p (p, option_to_vec (parse_rate_limit_event E v))"
    by (rule commits_ok_frame) (auto simp: set_option_to_vec dest!: rate_limit_shape)
  show "commits_ok p (note_unknown_type ty p)" for ty
    by (rule commits_ok_frame) (simp_all add: unknown_frame)
qed

lemma commits_lines:
  "case parse_lines E vs p of (p', css) \<Rightarrow>
     distinct (commits (concat css)) \<and> set (commits (concat css)) \<inter> sp_committed_user_uuids p = {}"
proof (induction vs arbitrary: p)
  case (Cons v vs)
  obtain q cs log where line: "parse_line E v p = (q, cs, log)" by (cases "parse_line E v p") auto
  obtain p' rest where rest: "parse_lines E vs q = (p', rest)" by fastforce
  from Cons.IH [of q] rest commits_line [of p E v] line show ?case
    by (auto simp: commits_ok_def commits_append)
qed simp

text \<open>C22. However often Claude Code repeats a user message, the window is told of its id at most once per
  session.\<close>

theorem user_message_committed_once: "distinct (commits (concat (snd (parse_lines E vs parser_new))))"
  using commits_lines [where E = E and vs = vs and p = parser_new] by (auto split: prod.splits)

section \<open>Session totals\<close>

lemma unat_saturating_add: "unat (saturating_add a b) = min (unat a + unat b) (2 ^ 64 - 1)"
proof (cases "a \<le> a + b")
  case True
  then have "unat a + unat b < 2 ^ 64" "unat (a + b) = unat a + unat b"
    using no_olen_add_nat [of a b] unat_add_lem [of a b] by simp_all
  with True show ?thesis by (simp add: saturating_add_def)
next
  case False
  then have "\<not> unat a + unat b < 2 ^ 64" using no_olen_add_nat [of a b] by simp
  with False show ?thesis by (simp add: saturating_add_def unsigned_minus_1_eq_mask mask_eq_exp_minus_1)
qed

lemma unat_saturating_sub: "unat (saturating_sub a b) = unat a - unat b"
  by (auto simp: saturating_sub_def unat_sub word_le_nat_alt)

definition counters :: "(turn_usage \<Rightarrow> u64) set" where
  "counters = {tu_input, tu_output, tu_cache_read, tu_cache_write}"

lemma counter_zip: "f \<in> counters \<Longrightarrow> f (usage_zip g a b) = g (f a) (f b)"
  by (auto simp: counters_def usage_zip_def)

text \<open>What the results of a list of chunks report for a counter.\<close>

fun turn_count :: "(turn_usage \<Rightarrow> u64) \<Rightarrow> stream_chunk \<Rightarrow> nat" where
  "turn_count f (Result r) = (case rc_turn_usage r of Some u \<Rightarrow> unat (f u) | None \<Rightarrow> 0)"
| "turn_count f _ = 0"

definition reported :: "(turn_usage \<Rightarrow> u64) \<Rightarrow> stream_chunk list \<Rightarrow> nat" where
  "reported f cs = sum_list (map (turn_count f) cs)"

lemma reported_simps [simp]: "reported f [] = 0" "reported f (c # cs) = turn_count f c + reported f cs"
  "reported f (xs @ ys) = reported f xs + reported f ys"
  by (simp_all add: reported_def)

lemma reported_none: "(\<And>r. Result r \<notin> set cs) \<Longrightarrow> reported f cs = 0"
proof (induction cs)
  case (Cons c cs)
  then show ?case by (cases c) auto
qed simp

lemma compute_usage_counts:
  assumes "compute_turn_usage_from_result E v flat snap = (tu, snap')" and "f \<in> counters"
  defines "turn \<equiv> (case tu of Some u \<Rightarrow> unat (f u) | None \<Rightarrow> 0)"
  shows "unat (f snap') \<le> unat (f snap) + turn
    \<and> (flat \<noteq> None \<and> unat (f snap) + turn < 2 ^ 64 \<longrightarrow> unat (f snap') = unat (f snap) + turn)"
  using assms(1,2)
  by (auto simp: turn_def compute_turn_usage_from_result_def usage_delta_def counter_zip unat_saturating_add unat_saturating_sub
      Let_def split: option.splits)

definition flat_result :: "json \<Rightarrow> bool" where
  "flat_result v \<longleftrightarrow> (str_or_empty (jat v ''type'') = ''result'' \<longrightarrow> is_object (jat v ''usage''))"

definition totals_ok :: "(turn_usage \<Rightarrow> u64) \<Rightarrow> bool \<Rightarrow> stream_parser \<Rightarrow> stream_parser \<times> parsed_line \<Rightarrow> bool" where
  "totals_ok f flat p r \<longleftrightarrow> (case r of (p', cs, log) \<Rightarrow>
     (let old = unat (f (sp_previous_session_usage p)); new = unat (f (sp_previous_session_usage p')) in
      new \<le> old + reported f cs \<and> (flat \<and> old + reported f cs < 2 ^ 64 \<longrightarrow> new = old + reported f cs)))"

lemma totals_ok_frame:
  assumes "sp_previous_session_usage (fst r) = sp_previous_session_usage p" and "\<And>x. Result x \<notin> set (fst (snd r))"
  shows "totals_ok f flat p r"
  using assms reported_none [OF assms(2)] by (cases r) (simp add: totals_ok_def)

lemma totals_result:
  assumes "f \<in> counters"
  shows "totals_ok f (is_object (jat v ''usage'')) p (one_chunk (parse_result E v p))"
proof (cases "as_bool (jat v ''is_error'') = Some True")
  case True
  then show ?thesis
    by (intro totals_ok_frame) (auto simp: parse_result_def parse_result_error_def Let_def set_one_chunk)
next
  case False
  obtain tu snap where u: "compute_turn_usage_from_result E v (result_usage v) (sp_previous_session_usage p) = (tu, snap)"
    by fastforce
  have "result_usage v \<noteq> None \<longleftrightarrow> is_object (jat v ''usage'')" by (simp add: result_usage_def Let_def)
  with compute_usage_counts [OF u assms] False show ?thesis
    by (auto simp: totals_ok_def parse_result_def one_chunk_def option_to_vec_def Let_def u)
qed

lemma totals_line:
  assumes "f \<in> counters" and "b \<longrightarrow> flat_result v"
  shows "totals_ok f b p (parse_line E v p)"
proof (rule parse_line_rule)
  show "totals_ok f b p (one_chunk (parse_result E v p))" if "str_or_empty (jat v ''type'') = ''result''"
    using totals_result [OF assms(1), of v p E] that assms(2) by (auto simp: flat_result_def totals_ok_def Let_def)
  show "totals_ok f b p (parse_user_message v p)"
    by (rule totals_ok_frame) (auto simp: parse_user_message_def Let_def split: option.splits)
  show "totals_ok f b p (one_chunk (parse_stream_event (jat v ''event'') p))"
    by (rule totals_ok_frame) (auto simp: stream_event_frame set_one_chunk)
  show "totals_ok f b p (capture_context_usage v (capture_assistant_model v (capture_assistant_uuid v p)), complete_tool_inputs E v, None)"
    by (rule totals_ok_frame) (auto simp: assistant_frame(3) dest: complete_inputs_shape)
  show "totals_ok f b p (one_chunk (parse_system_message v p))"
    by (rule totals_ok_frame) (auto simp: system_message_frame(3) set_one_chunk dest!: system_message_frame(4))
  show "totals_ok f b p (p, option_to_vec (parse_rate_limit_event E v))"
    by (rule totals_ok_frame) (auto simp: set_option_to_vec dest!: rate_limit_shape)
  show "totals_ok f b p (note_unknown_type ty p)" for ty
    by (rule totals_ok_frame) (simp_all add: unknown_frame)
qed

lemma totals_lines:
  assumes "f \<in> counters" and "b \<longrightarrow> list_all flat_result vs"
  shows "case parse_lines E vs p of (p', css) \<Rightarrow> totals_ok f b p (p', concat css, None)"
  using assms(2)
proof (induction vs arbitrary: p)
  case (Cons v vs)
  obtain q cs log where line: "parse_line E v p = (q, cs, log)" by (cases "parse_line E v p") auto
  obtain p' rest where rest: "parse_lines E vs q = (p', rest)" by fastforce
  from Cons.IH [of q] rest totals_line [OF assms(1), of b v p E] line Cons.prems show ?case
    by (auto simp: totals_ok_def Let_def)
qed (simp add: totals_ok_def)

text \<open>C17. The totals of a session never exceed what the results of its turns report, counter by counter; when every
  result states its own usage and nothing overflows, they are exactly the sum.\<close>

theorem turn_usage_adds_up:
  assumes "parse_lines E vs p = (p', css)" and "f \<in> {tu_input, tu_output, tu_cache_read, tu_cache_write}"
  shows "unat (f (sp_previous_session_usage p')) \<le> unat (f (sp_previous_session_usage p)) + reported f (concat css)
    \<and> (list_all flat_result vs \<and> unat (f (sp_previous_session_usage p)) + reported f (concat css) < 2 ^ 64 \<longrightarrow>
         unat (f (sp_previous_session_usage p')) = unat (f (sp_previous_session_usage p)) + reported f (concat css))"
  using totals_lines [where E = E and vs = vs and p = p and f = f and b = "list_all flat_result vs"] assms
  by (auto simp: totals_ok_def counters_def Let_def)

section \<open>Concrete streams\<close>

text \<open>For evaluation the limit is reached by squaring, and the digits of a literal are read as integers.\<close>

lemma F64_LIMIT_code [code]:
  "F64_LIMIT = (let a = 2 ^ 16; b = a * a; c = b * b; d = c * c * 8; e = d * d; f = e * e; g = 2 * (f * f) in g * g)"
  by (simp add: F64_LIMIT_def Let_def)

lemma foldl_digits_int:
  "list_all is_ascii_digit lit \<Longrightarrow>
   int (foldl (\<lambda>n d. n * 10 + (code d - 48)) a lit) = foldl (\<lambda>n d. n * 10 + (int (code d) - 48)) (int a) lit"
proof (induction lit arbitrary: a)
  case (Cons d ds)
  then have "48 \<le> code d" by (simp add: is_ascii_digit_def less_eq_char_def)
  with Cons show ?case by (simp add: of_nat_diff algebra_simps)
qed simp

lemma as_u64_code [code]:
  "as_u64 v =
     (case v of
        JNum lit \<Rightarrow>
          (if lit \<noteq> [] \<and> list_all is_ascii_digit lit then
             (let n = foldl (\<lambda>n d. n * 10 + (int (code d) - 48)) 0 lit in
              if n < 2 ^ 64 then Some (word_of_int n) else None)
           else None)
      | _ \<Rightarrow> None)"
proof (cases v)
  case (JNum lit)
  show ?thesis
  proof (cases "lit \<noteq> [] \<and> list_all is_ascii_digit lit")
    case True
    define n where "n = foldl (\<lambda>n d. n * 10 + (code d - 48)) 0 lit"
    have "foldl (\<lambda>n d. n * 10 + (int (code d) - 48)) 0 lit = int n"
      unfolding n_def using foldl_digits_int [of lit 0] True by simp
    moreover have "int n < 2 ^ 64 \<longleftrightarrow> n < 2 ^ 64" by simp
    moreover have "as_u64 v = (if n < 2 ^ 64 then Some (word_of_nat n) else None)"
      unfolding as_u64_def JNum Let_def json.case n_def using True by presburger
    ultimately show ?thesis using JNum True by simp
  qed (auto simp: as_u64_def JNum)
qed (simp_all add: as_u64_def)

definition demo_chat :: chat_env where
  "demo_chat = \<lparr> json_print = (\<lambda>_. ''{}''), json_parse = (\<lambda>_. None),
     ch_f64 = (\<lambda>lit. foldl (\<lambda>n d. n * 10 + (of_nat (code d) - 48)) 0 lit), ch_fmt0 = (\<lambda>_. ''0'') \<rparr>"

definition demo_result :: "bool \<Rightarrow> rstr \<Rightarrow> rstr \<Rightarrow> json" where
  "demo_result failed cost tokens = JObj [(''type'', JStr ''result''), (''session_id'', JStr ''s''), (''is_error'', JBool failed),
     (''result'', JStr ''text''), (''total_cost_usd'', JNum cost),
     (''modelUsage'', JObj [(''m'', JObj [(''inputTokens'', JNum tokens)])])]"

definition demo_tool :: "rstr \<Rightarrow> (rstr \<times> json) list \<Rightarrow> json" where
  "demo_tool ty fs = JObj [(''type'', JStr ''stream_event''), (''event'', JObj ([(''type'', JStr ty), (''index'', JNum ''1'')] @ fs))]"

definition demo_tool_stream :: "json list" where
  "demo_tool_stream =
     [demo_tool ''content_block_start'' [(''content_block'',
        JObj [(''type'', JStr ''tool_use''), (''id'', JStr ''t1''), (''name'', JStr ''Bash'')])],
      demo_tool ''content_block_delta'' [(''delta'',
        JObj [(''type'', JStr ''input_json_delta''), (''partial_json'', JStr ''x'')])]]"

lemma demo_tool_chunks: "snd (parse_lines demo_chat demo_tool_stream parser_new) = [[ToolStart ''t1'' ''Bash''], [ToolInputDelta ''t1'' ''x'']]"
  by code_simp

lemma parsed_chunks_typed_witness: "\<exists>tname. tname \<noteq> ASK_USER_TOOL_NAME \<and> ToolStart ''t1'' tname \<in> set [ToolStart ''t1'' ''Bash'']"
proof -
  obtain p where run: "parse_lines demo_chat demo_tool_stream parser_new = (p, [[ToolStart ''t1'' ''Bash''], [ToolInputDelta ''t1'' ''x'']])"
    using demo_tool_chunks by (metis prod.collapse)
  from parsed_chunks_typed [of demo_tool_stream demo_chat, unfolded run prod.case]
  have "\<exists>j < 1. \<exists>tname. tname \<noteq> ASK_USER_TOOL_NAME
      \<and> ToolStart ''t1'' tname \<in> set ([[ToolStart ''t1'' ''Bash''], [ToolInputDelta ''t1'' ''x'']] ! j)"
    by (elim conjE allE [of _ 1] allE [of _ "''t1''"]) simp
  then show ?thesis by simp
qed

lemma tool_input_after_start_witness: "\<exists>tname. ToolStart ''t1'' tname \<in> set [ToolStart ''t1'' ''Bash'']"
  using tool_input_after_start [where vs = demo_tool_stream and E = demo_chat and i = 1 and tid = "''t1''" and partial = "''x''",
      OF prod.collapse [symmetric]]
  by (simp add: demo_tool_chunks)

lemma turn_usage_adds_up_witness:
  "unat (tu_input (sp_previous_session_usage (fst (parse_lines demo_chat [demo_result False ''3'' ''70''] parser_new)))) \<le> 70"
proof -
  have "snd (parse_lines demo_chat [demo_result False ''3'' ''70''] parser_new) =
    [[Result \<lparr> rc_session_id = ''s'', rc_total_cost = Some 3, rc_usage = None, rc_result_text = Some ''text'',
        rc_context_window_size = None, rc_assistant_uuid = None,
        rc_turn_usage = Some \<lparr> tu_input = 70, tu_output = 0, tu_cache_read = 0, tu_cache_write = 0 \<rparr>,
        rc_turn_cost = Some (Fin 3), rc_model = Some ''m'', rc_context_usage = None \<rparr>]]"
    by code_simp
  with turn_usage_adds_up [where p = parser_new and f = tu_input and E = demo_chat and vs = "[demo_result False ''3'' ''70'']",
      OF prod.collapse [symmetric]]
  show ?thesis by (simp add: parser_new_def no_turn_usage_def)
qed

text \<open>A turn that fails is not charged: its cost and its tokens are reported with the next turn that succeeds,
  here three units and 30 tokens of which that turn used one and 10.\<close>

theorem failed_turn_charged_to_next:
  "map (map (\<lambda>c. case c of Result r \<Rightarrow> Some (rc_turn_cost r, map_option tu_input (rc_turn_usage r)) | _ \<Rightarrow> None))
     (snd (parse_lines demo_chat
        [demo_result False ''1'' ''10'', demo_result True ''3'' ''30'', demo_result False ''4'' ''40''] parser_new))
   = [[Some (Some (Fin 1), Some 10)], [None], [Some (Some (Fin 3), Some 30)]]"
  by code_simp

end
