(* ===== verification/Chat_Control.thy ===== *)
theory Chat_Control
  imports Chat_Stream
begin

text \<open>
  The control channel of a chat session (\<^verbatim>\<open>desktop/src-tauri/src/control_channel.rs\<close>) with the model ids and slash
  commands it is used for (\<^verbatim>\<open>crates/speedwave-runtime/src/model_id.rs\<close>, \<^verbatim>\<open>slash.rs\<close> and \<^verbatim>\<open>config.rs\<close>). A request
  written to Claude Code registers a waiter under a fresh id; a response is routed to the waiter of its id; a
  waiter ends with its answer, at its timeout or when the channel closes. The channel is the table behind its
  mutex together with the mailboxes of the waiters; calls of several threads are interleaved as steps.
\<close>

section \<open>Requests\<close>

definition MSG_TYPE_CONTROL_REQUEST :: rstr where "MSG_TYPE_CONTROL_REQUEST = ''control_request''"
definition MSG_TYPE_CONTROL_RESPONSE :: rstr where "MSG_TYPE_CONTROL_RESPONSE = ''control_response''"

definition SUBTYPE_INITIALIZE :: rstr where "SUBTYPE_INITIALIZE = ''initialize''"
definition SUBTYPE_GET_USAGE :: rstr where "SUBTYPE_GET_USAGE = ''get_usage''"
definition SUBTYPE_GET_CONTEXT_USAGE :: rstr where "SUBTYPE_GET_CONTEXT_USAGE = ''get_context_usage''"
definition SUBTYPE_SET_MODEL :: rstr where "SUBTYPE_SET_MODEL = ''set_model''"
definition SUBTYPE_APPLY_FLAG_SETTINGS :: rstr where "SUBTYPE_APPLY_FLAG_SETTINGS = ''apply_flag_settings''"

text \<open>Timeouts are in milliseconds.\<close>

definition INITIALIZE_TIMEOUT :: nat where "INITIALIZE_TIMEOUT = 15000"
definition GET_USAGE_TIMEOUT :: nat where "GET_USAGE_TIMEOUT = 10000"
definition GET_CONTEXT_USAGE_TIMEOUT :: nat where "GET_CONTEXT_USAGE_TIMEOUT = 5000"
definition SET_MODEL_TIMEOUT :: nat where "SET_MODEL_TIMEOUT = 15000"
definition APPLY_EFFORT_TIMEOUT :: nat where "APPLY_EFFORT_TIMEOUT = 10000"

datatype control_query = Initialize | Usage | ContextUsage

fun query_subtype :: "control_query \<Rightarrow> rstr" where
  "query_subtype Initialize = SUBTYPE_INITIALIZE"
| "query_subtype Usage = SUBTYPE_GET_USAGE"
| "query_subtype ContextUsage = SUBTYPE_GET_CONTEXT_USAGE"

fun query_timeout :: "control_query \<Rightarrow> nat" where
  "query_timeout Initialize = INITIALIZE_TIMEOUT"
| "query_timeout Usage = GET_USAGE_TIMEOUT"
| "query_timeout ContextUsage = GET_CONTEXT_USAGE_TIMEOUT"

text \<open>An object of the \<open>json!\<close> macro: its fields in key order.\<close>

definition json_object :: "(rstr \<times> json) list \<Rightarrow> json" where
  "json_object fs = JObj (foldl (\<lambda>m (k, v). bt_insert k v m) [] fs)"

fun request_body :: "control_query \<Rightarrow> json" where
  "request_body Initialize = json_object [(''subtype'', JStr SUBTYPE_INITIALIZE)]"
| "request_body Usage = json_object [(''subtype'', JStr SUBTYPE_GET_USAGE), (''skip_behaviors'', JBool True)]"
| "request_body ContextUsage = json_object [(''subtype'', JStr SUBTYPE_GET_CONTEXT_USAGE), (''detail'', JStr ''summary'')]"

definition control_request_json :: "rstr \<Rightarrow> json \<Rightarrow> json" where
  "control_request_json request_id body =
     json_object [(''type'', JStr MSG_TYPE_CONTROL_REQUEST), (''request_id'', JStr request_id), (''request'', body)]"

definition build_control_request :: "rstr \<Rightarrow> control_query \<Rightarrow> json" where
  "build_control_request request_id query = control_request_json request_id (request_body query)"

definition build_set_model_request :: "rstr \<Rightarrow> rstr \<Rightarrow> json" where
  "build_set_model_request request_id model =
     control_request_json request_id (json_object [(''subtype'', JStr SUBTYPE_SET_MODEL), (''model'', JStr model)])"

definition build_apply_effort_request :: "rstr \<Rightarrow> rstr \<Rightarrow> json" where
  "build_apply_effort_request request_id level =
     control_request_json request_id
       (json_object [(''subtype'', JStr SUBTYPE_APPLY_FLAG_SETTINGS),
          (''settings'', json_object [(''effortLevel'', JStr level)])])"

section \<open>The channel\<close>

datatype control_error =
    Write rstr
  | Timeout rstr nat
  | SessionEnded
  | Rejected_Request rstr
  | Malformed_Payload rstr

fun control_error_str :: "control_error \<Rightarrow> rstr" where
  "control_error_str (Write e) = ''failed to write control request: '' @ e"
| "control_error_str (Timeout subtype limit) =
     ''control request '' @ SQ @ subtype @ SQ @ '' got no response within '' @ nat_str limit @ '' ms''"
| "control_error_str SessionEnded = ''chat session ended before the control response''"
| "control_error_str (Rejected_Request e) = ''Claude Code rejected the control request: '' @ e"
| "control_error_str (Malformed_Payload e) = ''control response was not understood: '' @ e"

datatype control_outcome = Outcome_Success json | Outcome_Rejected rstr

datatype routed = Delivered | Unmatched | Malformed_Response

text \<open>
  The table of waiters and its flag; beside it what the senders put into the mailboxes and the process-wide
  counter the request ids are made of.
\<close>

record control_channel =
  ch_by_id :: "rstr set"
  ch_closed :: bool
  ch_mail :: "rstr \<rightharpoonup> control_outcome"
  ch_next :: u64

definition channel_default :: "u64 \<Rightarrow> control_channel" where
  "channel_default n = \<lparr> ch_by_id = {}, ch_closed = False, ch_mail = Map.empty, ch_next = n \<rparr>"

definition request_id_of :: "rstr \<Rightarrow> u64 \<Rightarrow> rstr" where
  "request_id_of subtype n = ''req_'' @ subtype @ ''_'' @ u64_to_string n"

definition outcome_of :: "json \<Rightarrow> control_outcome" where
  "outcome_of response =
     (let subtype = as_str (jat response ''subtype'') in
      if subtype = Some ''success'' then Outcome_Success (jat response ''response'')
      else if subtype = Some ''error'' then Outcome_Rejected (unwrap_or ''no error text'' (as_str (jat response ''error'')))
      else Outcome_Rejected (''unknown control_response subtype '' @ unwrap_or ''<none>'' subtype))"

definition route_response :: "json \<Rightarrow> control_channel \<Rightarrow> routed \<times> control_channel" where
  "route_response parsed c =
     (let response = jat parsed ''response'' in
      case as_str (jat response ''request_id'') of
        None \<Rightarrow> (Malformed_Response, c)
      | Some request_id \<Rightarrow>
          (if request_id \<in> ch_by_id c then
             (Delivered, c \<lparr> ch_by_id := ch_by_id c - {request_id}, ch_mail := (ch_mail c)(request_id \<mapsto> outcome_of response) \<rparr>)
           else (Unmatched, c)))"

definition channel_close :: "control_channel \<Rightarrow> control_channel" where
  "channel_close c = c \<lparr> ch_closed := True, ch_by_id := {} \<rparr>"

text \<open>A pending request is its id and its subtype; registering gives it a new mailbox.\<close>

type_synonym pending_control = "rstr \<times> rstr"

definition register :: "rstr \<Rightarrow> control_channel \<Rightarrow> (control_error + pending_control) \<times> control_channel" where
  "register subtype c =
     (let request_id = request_id_of subtype (ch_next c); c' = c \<lparr> ch_next := ch_next c + 1 \<rparr> in
      if ch_closed c then (Inl SessionEnded, c')
      else (Inr (request_id, subtype),
            c' \<lparr> ch_by_id := insert request_id (ch_by_id c), ch_mail := (ch_mail c)(request_id := None) \<rparr>))"

definition forget :: "pending_control \<Rightarrow> control_channel \<Rightarrow> control_channel" where
  "forget p c = c \<lparr> ch_by_id := ch_by_id c - {fst p} \<rparr>"

text \<open>Registering and writing: the result of the write is an argument, the written payload part of the result.\<close>

definition send_session_change ::
  "rstr \<Rightarrow> (rstr \<Rightarrow> json) \<Rightarrow> rstr option \<Rightarrow> control_channel \<Rightarrow> (control_error + pending_control) \<times> json option \<times> control_channel" where
  "send_session_change subtype build write_error c =
     (case register subtype c of
        (Inl e, c') \<Rightarrow> (Inl e, None, c')
      | (Inr p, c') \<Rightarrow>
          (case write_error of
             None \<Rightarrow> (Inr p, Some (build (fst p)), c')
           | Some e \<Rightarrow> (Inl (Write e), None, forget p c')))"

definition send_set_model ::
  "rstr \<Rightarrow> rstr option \<Rightarrow> control_channel \<Rightarrow> (control_error + pending_control) \<times> json option \<times> control_channel" where
  "send_set_model model = send_session_change SUBTYPE_SET_MODEL (\<lambda>i. build_set_model_request i model)"

definition send_apply_effort ::
  "rstr \<Rightarrow> rstr option \<Rightarrow> control_channel \<Rightarrow> (control_error + pending_control) \<times> json option \<times> control_channel" where
  "send_apply_effort level = send_session_change SUBTYPE_APPLY_FLAG_SETTINGS (\<lambda>i. build_apply_effort_request i level)"

definition send_query ::
  "control_query \<Rightarrow> rstr option \<Rightarrow> control_channel \<Rightarrow> (control_error + pending_control) \<times> json option \<times> control_channel" where
  "send_query query = send_session_change (query_subtype query) (\<lambda>i. build_control_request i query)"

text \<open>
  A wait that returns now: with the answer if there is one, else with the end of the session if nobody can
  answer any more, else because its timeout has passed, if it has. No result means it goes on waiting.
\<close>

definition pending_wait :: "bool \<Rightarrow> nat \<Rightarrow> pending_control \<Rightarrow> control_channel \<Rightarrow> ((control_error + json) \<times> control_channel) option" where
  "pending_wait timed_out limit p c =
     (case ch_mail c (fst p) of
        Some (Outcome_Success v) \<Rightarrow> Some (Inr v, c)
      | Some (Outcome_Rejected e) \<Rightarrow> Some (Inl (Rejected_Request e), c)
      | None \<Rightarrow>
          (if fst p \<notin> ch_by_id c then Some (Inl SessionEnded, c)
           else if timed_out then Some (Inl (Timeout (snd p) limit), forget p c)
           else None))"

datatype model_switch_outcome = Confirmed | Unconfirmed | Refused rstr

fun switch_outcome_of :: "control_error + json \<Rightarrow> control_error + model_switch_outcome" where
  "switch_outcome_of (Inr v) = Inr Confirmed"
| "switch_outcome_of (Inl (Timeout s l)) = Inr Unconfirmed"
| "switch_outcome_of (Inl (Rejected_Request reason)) = Inr (Refused reason)"
| "switch_outcome_of (Inl e) = Inl e"

fun switch_failure :: "control_error + model_switch_outcome \<Rightarrow> nat \<Rightarrow> rstr option" where
  "switch_failure (Inr Confirmed) limit = None"
| "switch_failure (Inr Unconfirmed) limit = Some (''Claude Code gave no answer within '' @ nat_str (limit div 1000) @ '' s'')"
| "switch_failure (Inr (Refused reason)) limit = Some reason"
| "switch_failure (Inl e) limit = Some (control_error_str e)"


section \<open>What a waiter gets\<close>

text \<open>What threads do to a channel: send a request of some kind, route a response, give up or close it.\<close>

datatype channel_event =
    Send rstr "rstr \<Rightarrow> json" "rstr option"
  | Route json
  | Give_Up pending_control
  | Close

fun channel_step :: "control_channel \<Rightarrow> channel_event \<Rightarrow> control_channel" where
  "channel_step c (Send subtype build write_error) = snd (snd (send_session_change subtype build write_error c))"
| "channel_step c (Route parsed) = snd (route_response parsed c)"
| "channel_step c (Give_Up p) = forget p c"
| "channel_step c Close = channel_close c"

definition channel_ok :: "control_channel \<Rightarrow> bool" where
  "channel_ok c \<longleftrightarrow> ch_by_id c \<inter> dom (ch_mail c) = {} \<and> (ch_closed c \<longrightarrow> ch_by_id c = {})"

lemma channel_ok_send: "channel_ok c \<Longrightarrow> channel_ok (snd (snd (send_session_change subtype build e c)))"
  by (auto simp: channel_ok_def send_session_change_def register_def forget_def Let_def split: option.splits if_splits)

lemma channel_ok_route: "channel_ok c \<Longrightarrow> channel_ok (snd (route_response parsed c))"
  by (auto simp: channel_ok_def route_response_def Let_def split: option.splits if_splits)

interpretation channel: invariant_machine "channel_default n" channel_step channel_ok for n
proof
  show "channel_ok (channel_default n)" by (simp add: channel_ok_def channel_default_def)
  show "channel_ok (channel_step c e)" if "channel_ok c" for c e
    using that channel_ok_send channel_ok_route
    by (cases e) (auto simp: channel_ok_def channel_close_def forget_def)
qed

definition answered_by :: "rstr \<Rightarrow> control_outcome \<Rightarrow> channel_event \<Rightarrow> bool" where
  "answered_by i out e \<longleftrightarrow> (\<exists>parsed. e = Route parsed \<and> as_str (jat (jat parsed ''response'') ''request_id'') = Some i
     \<and> outcome_of (jat parsed ''response'') = out)"

lemma mail_step:
  assumes "ch_mail (channel_step c e) i = Some out"
  shows "ch_mail c i = Some out \<or> answered_by i out e"
proof (cases e)
  case (Send subtype build err)
  with assms show ?thesis
    by (auto simp: send_session_change_def register_def forget_def Let_def split: option.splits if_splits)
next
  case (Route parsed)
  with assms show ?thesis
    by (auto simp: route_response_def answered_by_def Let_def split: option.splits if_splits)
qed (use assms in \<open>auto simp: forget_def channel_close_def\<close>)

lemma mail_run:
  "ch_mail (run_steps channel_step c es) i = Some out \<Longrightarrow> ch_mail c i = Some out \<or> (\<exists>e \<in> set es. answered_by i out e)"
proof (induction es arbitrary: c)
  case (Cons e es)
  then show ?case using mail_step by fastforce
qed simp

text \<open>C10. Whatever else happens on a channel, a waiter that gets a value or a refusal gets it from a response that
  carries its own request id.\<close>

theorem control_answer_is_own:
  assumes "pending_wait timed_out limit p (run_steps channel_step (channel_default n) es) = Some (answer, c)"
    and "answer \<notin> {Inl SessionEnded, Inl (Timeout (snd p) limit)}"
  shows "\<exists>parsed. Route parsed \<in> set es \<and> as_str (jat (jat parsed ''response'') ''request_id'') = Some (fst p)
    \<and> (case answer of Inr v \<Rightarrow> as_str (jat (jat parsed ''response'') ''subtype'') = Some ''success''
                            \<and> v = jat (jat parsed ''response'') ''response''
       | Inl e \<Rightarrow> as_str (jat (jat parsed ''response'') ''subtype'') \<noteq> Some ''success'' \<and> (\<exists>s. e = Rejected_Request s))"
proof -
  from assms obtain out where out: "ch_mail (run_steps channel_step (channel_default n) es) (fst p) = Some out"
    and answer: "answer = (case out of Outcome_Success v \<Rightarrow> Inr v | Outcome_Rejected e \<Rightarrow> Inl (Rejected_Request e))"
    by (auto simp: pending_wait_def split: option.splits control_outcome.splits if_splits)
  from mail_run [OF out] obtain parsed where "Route parsed \<in> set es"
    "as_str (jat (jat parsed ''response'') ''request_id'') = Some (fst p)" "outcome_of (jat parsed ''response'') = out"
    by (auto simp: channel_default_def answered_by_def)
  then show ?thesis
    using answer by (intro exI [of _ parsed]) (auto simp: outcome_of_def Let_def split: if_splits)
qed

lemma closed_run:
  "ch_closed c \<Longrightarrow> ch_closed (run_steps channel_step c es)"
proof (induction es arbitrary: c)
  case (Cons e es)
  then have "ch_closed (channel_step c e)"
    by (cases e) (auto simp: send_session_change_def register_def forget_def route_response_def channel_close_def Let_def
        split: option.splits if_splits)
  with Cons.IH show ?case by simp
qed simp

text \<open>Once a channel is closed, whatever threads still do to it, no wait on it blocks any more and no request
  is accepted.\<close>

theorem closed_channel_never_blocks:
  assumes "Close \<in> set es" and "c = run_steps channel_step (channel_default n) es"
  shows "pending_wait False limit p c \<noteq> None \<and> fst (register subtype c) = Inl SessionEnded"
proof -
  from assms(1) obtain xs ys where es: "es = xs @ Close # ys" by (auto dest: split_list)
  have "ch_closed c" unfolding assms(2) es run_steps_append by (simp add: closed_run channel_close_def)
  moreover have "channel_ok c" unfolding assms(2) by (rule channel.inv_run)
  ultimately show ?thesis
    by (auto simp: channel_ok_def pending_wait_def register_def Let_def split: option.splits control_outcome.splits)
qed

section \<open>Model ids and slash commands\<close>

datatype llm_provider_kind = AnthropicOauth | AnthropicApiKey | Local | OpenRouter

definition is_anthropic :: "llm_provider_kind \<Rightarrow> bool" where
  "is_anthropic kind \<longleftrightarrow> kind \<in> {AnthropicOauth, AnthropicApiKey}"

definition wire_model_id :: "llm_provider_kind \<Rightarrow> rstr \<Rightarrow> rstr \<Rightarrow> rstr" where
  "wire_model_id kind entry_id catalog_id =
     (if is_anthropic kind then catalog_id
      else if starts_with (entry_id @ ''/'') catalog_id then catalog_id
      else entry_id @ ''/'' @ catalog_id)"

definition normalize_observed :: "rstr \<Rightarrow> rstr \<Rightarrow> rstr" where
  "normalize_observed observed entry_id = unwrap_or observed (strip_prefix (entry_id @ ''/'') observed)"

definition soft_impose_target :: "llm_provider_kind \<Rightarrow> rstr \<Rightarrow> rstr option \<Rightarrow> rstr \<Rightarrow> rstr option" where
  "soft_impose_target kind entry_id entry_model observed_model =
     (if is_anthropic kind then None
      else case entry_model of
        None \<Rightarrow> None
      | Some model \<Rightarrow>
          (let expected = wire_model_id kind entry_id model in
           if normalize_observed observed_model entry_id = normalize_observed expected entry_id then None
           else Some expected))"

definition trim_start :: "rstr \<Rightarrow> rstr" where
  "trim_start s = concat (dropWhile is_whitespace (chars s))"

definition is_bare_slash :: "rstr \<Rightarrow> bool" where
  "is_bare_slash text \<longleftrightarrow> trim text = ''/''"

definition parse_control_command :: "rstr \<Rightarrow> (rstr \<times> rstr) option" where
  "parse_control_command text =
     (let trimmed = trim text in
      case or_else (map_option (\<lambda>a. (''model'', a)) (strip_prefix ''/model '' trimmed))
                   (map_option (\<lambda>a. (''effort'', a)) (strip_prefix ''/effort '' trimmed)) of
        None \<Rightarrow> None
      | Some (command, rest) \<Rightarrow>
          (let argument = trim_start rest in
           if argument = [] \<or> list_ex is_whitespace (chars argument) then None else Some (command, argument)))"

definition settles_model :: "rstr \<Rightarrow> bool" where
  "settles_model text \<longleftrightarrow> (case parse_control_command text of Some (command, _) \<Rightarrow> command = ''model'' | None \<Rightarrow> False)"


lemma split_once_at_byte: "c \<notin> set a \<Longrightarrow> split_once [c] (a @ c # s) = Some (a, s)"
proof -
  assume c: "c \<notin> set a"
  then have "find_str [c] (a @ c # s) = Some (length a)"
    by (induction a) (auto simp: starts_with_def)
  then show ?thesis by (simp add: split_once_def)
qed

text \<open>The proxy sends a provider the catalog id of its model, unless the catalog id itself starts with the id
  of the entry and a slash: then that part is taken for the route and lost.\<close>

theorem wire_model_reaches_provider:
  assumes "\<not> is_anthropic kind" and "CHR ''/'' \<notin> set entry_id"
  shows "split_once ''/'' (wire_model_id kind entry_id catalog_id) =
    Some (entry_id, if starts_with (entry_id @ ''/'') catalog_id then drop (length entry_id + 1) catalog_id else catalog_id)"
proof (cases "starts_with (entry_id @ ''/'') catalog_id")
  case True
  then obtain rest where "catalog_id = entry_id @ ''/'' @ rest" by (auto simp: starts_with_iff)
  with True assms split_once_at_byte [of "CHR ''/''" entry_id rest] show ?thesis by (simp add: wire_model_id_def)
next
  case False
  with assms split_once_at_byte [of "CHR ''/''" entry_id catalog_id] show ?thesis by (simp add: wire_model_id_def)
qed

text \<open>A router model of OpenRouter named after the router reaches it under another name: \<open>openrouter/auto\<close> is
  requested as \<open>auto\<close>.\<close>

theorem openrouter_auto_loses_prefix:
  "split_once ''/'' (wire_model_id OpenRouter ''openrouter'' ''openrouter/auto'') = Some (''openrouter'', ''auto'')
   \<and> split_once ''/'' (wire_model_id OpenRouter ''openrouter'' ''meta/llama'') = Some (''openrouter'', ''meta/llama'')"
  by code_simp


lemma wire_model_reaches_provider_witness:
  "split_once ''/'' (wire_model_id Local ''local'' ''qwen'') = Some (''local'', ''qwen'')"
  using wire_model_reaches_provider [of Local "''local''" "''qwen''"] by (simp add: is_anthropic_def starts_with_def)

definition demo_answer :: json where
  "demo_answer = JObj [(''response'', JObj [(''request_id'', JStr ''req_get_usage_1''), (''subtype'', JStr ''success''),
     (''response'', JBool True)])]"

lemma control_answer_is_own_witness:
  "\<exists>parsed. Route parsed \<in> set [Send SUBTYPE_GET_USAGE (\<lambda>_. JNull) None, Route demo_answer]
    \<and> as_str (jat (jat parsed ''response'') ''request_id'') = Some ''req_get_usage_1''"
proof -
  have "request_id_of SUBTYPE_GET_USAGE 1 = ''req_get_usage_1''" by code_simp
  then have "pending_wait False 0 (''req_get_usage_1'', SUBTYPE_GET_USAGE)
      (run_steps channel_step (channel_default 1) [Send SUBTYPE_GET_USAGE (\<lambda>_. JNull) None, Route demo_answer])
    = Some (Inr (JBool True),
        run_steps channel_step (channel_default 1) [Send SUBTYPE_GET_USAGE (\<lambda>_. JNull) None, Route demo_answer])"
    by (simp add: pending_wait_def channel_default_def send_session_change_def register_def route_response_def Let_def
        demo_answer_def jat_def json_get_def as_str_def outcome_of_def)
  from control_answer_is_own [OF this] show ?thesis by auto
qed

lemma closed_channel_never_blocks_witness:
  "fst (register SUBTYPE_SET_MODEL (run_steps channel_step (channel_default 1) [Close])) = Inl SessionEnded"
  using closed_channel_never_blocks [OF _ refl, of "[Close]"] by simp

end
