(* ===== verification/Chat_Session.thy ===== *)
theory Chat_Session
  imports Chat_Control
begin

text \<open>
  A chat tab's session (desktop/src-tauri/src/chat.rs): the child process with its standard input, the
  questions Claude asked, the thread that reads the child's lines, and the commands of the window. The
  reader and the commands share the state behind locks; here each of them is a function on the shared
  state, and an interleaving is a sequence of such steps. What they do to the outside is a list of effects:
  lines written to the child, chunks emitted to the window, notifications.
  The result of a write and the state of the child process are arguments. Log lines, poisoned locks and
  the session-info probe are left out.
\<close>

section \<open>Questions and answers\<close>

record partial_answers =
  pa_request :: control_request
  pa_questions :: "ask_question list"
  pa_answers :: "rstr option list"

definition partial_new :: "control_request \<Rightarrow> ask_question list \<Rightarrow> partial_answers" where
  "partial_new request questions =
     \<lparr> pa_request = request, pa_questions = questions, pa_answers = replicate (length questions) None \<rparr>"

datatype fill_outcome = Pending | Completed partial_answers

definition validate_slot :: "partial_answers \<Rightarrow> nat \<Rightarrow> rstr \<Rightarrow> rstr + unit" where
  "validate_slot entry question_idx tool_use_id =
     (if question_idx \<ge> length (pa_questions entry) then
        Inl (''invalid question index '' @ u64_to_string (of_nat question_idx) @ '' for tool_use_id: '' @ tool_use_id)
      else if question_idx \<ge> length (pa_answers entry) then
        Inl (''answers/questions length mismatch for tool_use_id: '' @ tool_use_id)
      else if pa_answers entry ! question_idx \<noteq> None then
        Inl (''question '' @ u64_to_string (of_nat question_idx) @ '' already answered for tool_use_id: '' @ tool_use_id)
      else Inr ())"

definition MAX_ASK_USER_ANSWER_LEN :: int where "MAX_ASK_USER_ANSWER_LEN = 12 * 1024"
definition MAX_ASK_USER_WIRE_BYTES :: int where "MAX_ASK_USER_WIRE_BYTES = 64 * 1024"
definition MAX_WIRE_BYTES :: int where "MAX_WIRE_BYTES = 1024 * 1024"
definition MAX_MESSAGE_LEN :: int where "MAX_MESSAGE_LEN = 1000000"

text \<open>Assigning a field by index: null becomes an object, anything else that is no object panics.\<close>

fun index_assign :: "rstr \<Rightarrow> json \<Rightarrow> json \<Rightarrow> json option" where
  "index_assign key v (JObj fs) = Some (JObj (bt_insert key v fs))"
| "index_assign key v JNull = Some (JObj [(key, v)])"
| "index_assign key v _ = None"

text \<open>The answers of the questions in order; none if two of them have the same text.\<close>

fun collect_answers :: "(rstr \<times> rstr) list \<Rightarrow> (rstr \<times> json) list \<Rightarrow> (rstr \<times> json) list option" where
  "collect_answers [] acc = Some acc"
| "collect_answers ((key, v) # qs) acc =
     (if map_of acc key \<noteq> None then None else collect_answers qs (bt_insert key (JStr v) acc))"

definition DUPLICATE_QUESTION :: rstr where
  "DUPLICATE_QUESTION = ''AskUserQuestion request contained duplicate question text'' @ [CHR 32, CHR 0xE2, CHR 0x80, CHR 0x94, CHR 32] @
     ''cannot build a complete answers map (refer to log for count)''"

definition control_response_json :: "rstr \<Rightarrow> json \<Rightarrow> json" where
  "control_response_json request_id decision =
     json_object [(''type'', JStr ''control_response''),
       (''response'', json_object [(''subtype'', JStr ''success''), (''request_id'', JStr request_id), (''response'', decision)])]"

definition allow_decision :: "json \<Rightarrow> json" where
  "allow_decision updated_input = json_object [(''behavior'', JStr ''allow''), (''updatedInput'', updated_input)]"

text \<open>No result stands for the panic of the index assignment.\<close>

definition build_ask_user_response_multi :: "partial_answers \<Rightarrow> (rstr + json) option" where
  "build_ask_user_response_multi partial =
     (case collect_answers (zip (map aq_question (pa_questions partial)) (map (unwrap_or []) (pa_answers partial))) [] of
        None \<Rightarrow> Some (Inl DUPLICATE_QUESTION)
      | Some collected \<Rightarrow>
          map_option (\<lambda>updated_input.
             Inr (control_response_json (cr_request_id (pa_request partial)) (allow_decision updated_input)))
            (index_assign ''answers'' (JObj collected) (cr_input (pa_request partial))))"

section \<open>Permissions\<close>

definition SAFETY_CHECK_DECLINED :: rstr where
  "SAFETY_CHECK_DECLINED = ''Speedwave runs Claude Code with no one to approve a tool call, so it declines every call Claude Code's safety check holds for manual approval. Run it with an explicit, resolved target instead''"

definition build_tool_permission_response :: "control_request \<Rightarrow> json" where
  "build_tool_permission_response request =
     control_response_json (cr_request_id request)
       (case cr_safety_check request of
          Some reason \<Rightarrow>
            json_object [(''behavior'', JStr ''deny''),
              (''message'', JStr (SAFETY_CHECK_DECLINED @ ''. Claude Code's reason: '' @ reason))]
        | None \<Rightarrow> allow_decision (cr_input request))"

section \<open>Messages\<close>

text \<open>A block of a message is a text.\<close>

datatype wire_content_block = Text_Block rstr

fun block_text :: "wire_content_block \<Rightarrow> rstr" where
  "block_text (Text_Block t) = t"

definition text_only :: "rstr \<Rightarrow> wire_content_block list" where
  "text_only t = [Text_Block t]"

definition is_blank_or_slash_only :: "wire_content_block list \<Rightarrow> bool" where
  "is_blank_or_slash_only bs \<longleftrightarrow> (let joined = concat (map block_text bs) in trim joined = [] \<or> is_bare_slash joined)"

definition build_user_message :: "wire_content_block list \<Rightarrow> json" where
  "build_user_message bs =
     json_object [(''type'', JStr ''user''),
       (''message'', json_object [(''role'', JStr ''user''),
          (''content'', JArr (map (\<lambda>b. json_object [(''type'', JStr ''text''), (''text'', JStr (block_text b))]) bs))])]"

section \<open>The one-slot queue\<close>

record queued_message =
  qm_text :: rstr
  qm_queued_at :: u64

type_synonym message_queue = "rstr \<rightharpoonup> queued_message"

definition queue_put :: "rstr \<Rightarrow> queued_message \<Rightarrow> message_queue \<Rightarrow> queued_message option \<times> message_queue" where
  "queue_put session_id msg q = (q session_id, q(session_id \<mapsto> msg))"

definition queue_take :: "rstr \<Rightarrow> message_queue \<Rightarrow> queued_message option \<times> message_queue" where
  "queue_take session_id q = (q session_id, q(session_id := None))"

definition queue_cancel :: "rstr \<Rightarrow> message_queue \<Rightarrow> bool \<times> message_queue" where
  "queue_cancel session_id q = (q session_id \<noteq> None, q(session_id := None))"

definition MAX_QUEUED_LEN :: int where "MAX_QUEUED_LEN = 1000000"

definition queue_message_cmd :: "rstr \<Rightarrow> rstr \<Rightarrow> u64 \<Rightarrow> message_queue \<Rightarrow> (rstr + queued_message option) \<times> message_queue" where
  "queue_message_cmd session_id t now q =
     (if int (length t) > MAX_QUEUED_LEN then (Inl ''Message too long'', q)
      else if session_id = [] then (Inl ''session_id required'', q)
      else (case queue_put session_id \<lparr> qm_text = t, qm_queued_at = now \<rparr> q of (prior, q') \<Rightarrow> (Inr prior, q')))"

definition cancel_queued_message_cmd :: "rstr \<Rightarrow> message_queue \<Rightarrow> (rstr + bool) \<times> message_queue" where
  "cancel_queued_message_cmd session_id q =
     (if session_id = [] then (Inl ''session_id required'', q)
      else (case queue_cancel session_id q of (was, q') \<Rightarrow> (Inr was, q')))"

section \<open>The shared state of a session\<close>

datatype session_event = TurnFinished | AwaitingInput | SessionError

datatype effect =
    Wrote json
  | Emitted stream_chunk
  | Notified session_event

datatype write_result = Written | Write_Error rstr | Flush_Error rstr

datatype child_status = Running | Exited bool rstr | Wait_Failed rstr

definition NO_TYPED_COMMAND :: u8 where "NO_TYPED_COMMAND = 0"
definition TYPED_COMMAND_WRITTEN :: u8 where "TYPED_COMMAND_WRITTEN = 1"
definition TYPED_COMMAND_RUNNING :: u8 where "TYPED_COMMAND_RUNNING = 2"

text \<open>The reader's parser and the queue are part of the state; \<open>se_turn_awake\<close> is the held sleep prevention.\<close>

record chat_session =
  se_child :: bool
  se_stdin :: bool
  se_pending :: "rstr \<rightharpoonup> partial_answers"
  se_control :: control_channel
  se_stopping :: bool
  se_awaited :: bool
  se_turn_awake :: bool
  se_settled :: bool
  se_typed_command :: u8
  se_transcript :: "rstr option"
  se_instance_id :: "rstr option"
  se_parser :: stream_parser
  se_reading :: bool
  se_queue :: message_queue

definition session_new :: "u64 \<Rightarrow> message_queue \<Rightarrow> chat_session" where
  "session_new n q =
     \<lparr> se_child = False, se_stdin = False, se_pending = Map.empty, se_control = channel_default n,
       se_stopping = False, se_awaited = True, se_turn_awake = False, se_settled = False,
       se_typed_command = NO_TYPED_COMMAND, se_transcript = None, se_instance_id = None,
       se_parser = parser_new, se_reading = False, se_queue = q \<rparr>"

text \<open>The model is settled: by the app, or by a command the user typed, whose reply is then awaited.\<close>

definition settle :: "chat_session \<Rightarrow> chat_session" where
  "settle s = s \<lparr> se_settled := True \<rparr>"

definition settle_by_command :: "chat_session \<Rightarrow> chat_session" where
  "settle_by_command s = (settle s) \<lparr> se_typed_command := TYPED_COMMAND_WRITTEN \<rparr>"

definition input_started :: "chat_session \<Rightarrow> chat_session" where
  "input_started s =
     (if se_typed_command s = TYPED_COMMAND_WRITTEN then s \<lparr> se_typed_command := TYPED_COMMAND_RUNNING \<rparr> else s)"

definition take_command_reply :: "chat_session \<Rightarrow> bool \<times> chat_session" where
  "take_command_reply s =
     (if se_typed_command s = TYPED_COMMAND_RUNNING then (True, s \<lparr> se_typed_command := NO_TYPED_COMMAND \<rparr>) else (False, s))"

text \<open>Whether a result is awaited, and the sleep prevention of a turn.\<close>

definition is_turn_result :: "stream_chunk \<Rightarrow> bool" where
  "is_turn_result c = (case c of Result _ \<Rightarrow> True | _ \<Rightarrow> False)"

definition is_error_chunk :: "stream_chunk \<Rightarrow> bool" where
  "is_error_chunk c = (case c of Error_Chunk _ _ \<Rightarrow> True | _ \<Rightarrow> False)"

fun turn_end_event :: "stream_chunk list \<Rightarrow> session_event option" where
  "turn_end_event [] = None"
| "turn_end_event (c # cs) =
     (case c of
        Result _ \<Rightarrow> Some TurnFinished
      | Error_Chunk _ turn_ended \<Rightarrow> (if turn_ended then Some SessionError else turn_end_event cs)
      | _ \<Rightarrow> turn_end_event cs)"

definition unless_next_turn_started :: "session_event option \<Rightarrow> bool \<Rightarrow> session_event option" where
  "unless_next_turn_started event next_turn_started =
     (case event of Some e \<Rightarrow> (if next_turn_started \<and> e = TurnFinished then None else Some e) | None \<Rightarrow> None)"

definition release_turn :: "chat_session \<Rightarrow> chat_session" where
  "release_turn s = s \<lparr> se_turn_awake := False \<rparr>"

definition hold_turn :: "chat_session \<Rightarrow> chat_session" where
  "hold_turn s = s \<lparr> se_turn_awake := True \<rparr>"

definition message_written :: "chat_session \<Rightarrow> chat_session" where
  "message_written s = hold_turn (s \<lparr> se_awaited := True \<rparr>)"

definition observe_chunks :: "stream_chunk list \<Rightarrow> chat_session \<Rightarrow> chat_session" where
  "observe_chunks cs s =
     (let s' = (if turn_end_event cs \<noteq> None then release_turn s else s) in
      if list_ex (\<lambda>c. is_turn_result c \<or> is_error_chunk c) cs then s' \<lparr> se_awaited := False \<rparr>
      else if cs \<noteq> [] then s' \<lparr> se_awaited := True \<rparr>
      else s')"

section \<open>The reader thread\<close>

text \<open>The provider the session runs on, and what the reader shows a chunk through.\<close>

record soft_impose_config =
  si_kind :: llm_provider_kind
  si_entry_id :: rstr
  si_entry_model :: "rstr option"

record reader_env = chat_env +
  re_crypto :: crypto
  re_unicode :: unicode
  re_sanitize :: "rstr \<Rightarrow> rstr"
  re_policy :: display_policy
  re_impose :: soft_impose_config

definition emit_sanitized_chunk :: "'a reader_env_scheme \<Rightarrow> stream_chunk \<Rightarrow> effect" where
  "emit_sanitized_chunk R chunk =
     Emitted (sanitize_chunk (re_sanitize R) (detokenize_chunk (re_crypto R) (re_unicode R) chunk (re_policy R)))"

text \<open>The writes of one line: the answer or the queued message, and the error of a \<open>set_model\<close> request.\<close>

record line_io =
  io_write :: write_result
  io_impose :: "rstr option"

text \<open>A step of the reader: the state, the effects and whether it goes on reading.\<close>

type_synonym reader_result = "chat_session \<times> effect list \<times> bool"

definition reader_control_request :: "'a reader_env_scheme \<Rightarrow> write_result \<Rightarrow> control_request \<Rightarrow> chat_session \<Rightarrow> reader_result" where
  "reader_control_request R w ctrl s =
     (if cr_tool_name ctrl = ASK_USER_TOOL_NAME then
        (let questions = parse_ask_user_questions ctrl in
         if questions = [] then (s, [], True)
         else
           (release_turn (s \<lparr> se_pending := (se_pending s)(cr_tool_use_id ctrl \<mapsto> partial_new ctrl questions) \<rparr>),
            [emit_sanitized_chunk R (AskUserQuestion (cr_tool_use_id ctrl) questions 0), Notified AwaitingInput], True))
      else
        (let response = build_tool_permission_response ctrl in
         case w of
           Written \<Rightarrow> (s, [Wrote response], True)
         | Write_Error e \<Rightarrow> (s, [emit_sanitized_chunk R (Error_Chunk (''Failed to write auto-approve to stdin: '' @ e) False)], False)
         | Flush_Error e \<Rightarrow> (s, [Wrote response, emit_sanitized_chunk R (Error_Chunk (''Failed to flush auto-approve to stdin: '' @ e) False)], False)))"

text \<open>Imposing the configured model on a session that runs another one, once.\<close>

definition send_soft_impose :: "rstr \<Rightarrow> rstr option \<Rightarrow> chat_session \<Rightarrow> pending_control option \<times> chat_session \<times> effect list" where
  "send_soft_impose model write_error s =
     (if se_settled s then (None, s, [])
      else
        (let s1 = settle s in
         case send_set_model model write_error (se_control s1) of
           (answer, written, c) \<Rightarrow>
             (case answer of Inr p \<Rightarrow> Some p | Inl _ \<Rightarrow> None, s1 \<lparr> se_control := c \<rparr>,
              (case written of Some v \<Rightarrow> [Wrote v] | None \<Rightarrow> []))))"

definition is_system_init :: "stream_chunk \<Rightarrow> bool" where
  "is_system_init c = (case c of SystemInit _ _ \<Rightarrow> True | _ \<Rightarrow> False)"

definition soft_impose_step ::
  "soft_impose_config \<Rightarrow> json \<Rightarrow> stream_chunk list \<Rightarrow> rstr option \<Rightarrow> chat_session \<Rightarrow> chat_session \<times> effect list" where
  "soft_impose_step cfg line cs write_error s =
     (if \<not> list_ex is_system_init cs then (s, [])
      else
        (case nonempty_str (jat line ''model'') of
           None \<Rightarrow> (s, [])
         | Some observed \<Rightarrow>
             (case soft_impose_target (si_kind cfg) (si_entry_id cfg) (si_entry_model cfg) observed of
                None \<Rightarrow> (s, [])
              | Some model \<Rightarrow> snd (send_soft_impose model write_error s))))"

text \<open>A model command the user typed and Claude refused.\<close>

definition MODEL_SWITCHED_PREFIX :: rstr where "MODEL_SWITCHED_PREFIX = ''Set model to ''"

definition refused_model_command :: "json \<Rightarrow> chat_session \<Rightarrow> rstr option \<times> chat_session" where
  "refused_model_command line s =
     (if jat line ''type'' = JStr ''system'' \<and> jat line ''subtype'' = JStr ''init'' then (None, input_started s)
      else if jat line ''type'' \<noteq> JStr ''assistant'' \<or> jat (jat line ''message'') ''model'' \<noteq> JStr SYNTHETIC_MODEL then (None, s)
      else
        (case as_array (jat (jat line ''message'') ''content'') of
           None \<Rightarrow> (None, s)
         | Some items \<Rightarrow>
             (let reply = join_byte (CHR 10) (List.map_filter (\<lambda>b. as_str (jat b ''text'')) items) in
              if reply = [] then (None, s)
              else
                (case take_command_reply s of
                   (taken, s') \<Rightarrow>
                     (if \<not> taken then (None, s')
                      else (if starts_with reply MODEL_SWITCHED_PREFIX then None else Some reply, s'))))))"

text \<open>The message the user queued for after this turn.\<close>

definition control_chip :: "rstr \<Rightarrow> stream_chunk list" where
  "control_chip t = (case parse_control_command t of Some (command, argument) \<Rightarrow> [ControlChip command argument None] | None \<Rightarrow> [])"

definition write_and_emit_drained_message ::
  "(stream_chunk \<Rightarrow> effect) \<Rightarrow> rstr \<Rightarrow> rstr \<Rightarrow> write_result \<Rightarrow> chat_session \<Rightarrow> bool \<times> chat_session \<times> effect list" where
  "write_and_emit_drained_message emit session_id t w s =
     (let payload = build_user_message (text_only t);
          s' = (if settles_model t then settle_by_command s else s) in
      case w of
        Written \<Rightarrow> (True, s', Wrote payload # map emit (control_chip t @ [QueueDrained session_id t]))
      | Write_Error _ \<Rightarrow> (False, s', [])
      | Flush_Error _ \<Rightarrow> (False, s', [Wrote payload]))"

definition drain_queued_message ::
  "(stream_chunk \<Rightarrow> effect) \<Rightarrow> rstr \<Rightarrow> write_result \<Rightarrow> chat_session \<Rightarrow> bool \<times> chat_session \<times> effect list" where
  "drain_queued_message emit session_id w s =
     (case queue_take session_id (se_queue s) of
        (None, _) \<Rightarrow> (False, s, [])
      | (Some m, q) \<Rightarrow> write_and_emit_drained_message emit session_id (qm_text m) w (s \<lparr> se_queue := q \<rparr>))"

fun chunk_transcript :: "stream_chunk \<Rightarrow> rstr option" where
  "chunk_transcript (SystemInit _ sid) = sid"
| "chunk_transcript (Result r) = Some (rc_session_id r)"
| "chunk_transcript _ = None"

definition note_transcript :: "stream_chunk list \<Rightarrow> chat_session \<Rightarrow> chat_session" where
  "note_transcript cs s =
     foldl (\<lambda>s c. case chunk_transcript c of Some sid \<Rightarrow> s \<lparr> se_transcript := Some sid \<rparr> | None \<Rightarrow> s) s cs"

fun result_session_id :: "stream_chunk list \<Rightarrow> rstr option" where
  "result_session_id [] = None"
| "result_session_id (c # cs) = (case c of Result r \<Rightarrow> Some (rc_session_id r) | _ \<Rightarrow> result_session_id cs)"

text \<open>A line of output that is no control message: the parser, then what its chunks mean for the session.\<close>

definition reader_output_line :: "'a reader_env_scheme \<Rightarrow> line_io \<Rightarrow> json \<Rightarrow> chat_session \<Rightarrow> reader_result" where
  "reader_output_line R io parsed s =
     (case parse_line R parsed (se_parser s) of (p, cs, _) \<Rightarrow>
      (case soft_impose_step (re_impose R) parsed cs (io_impose io) (s \<lparr> se_parser := p \<rparr>) of (s1, imposed) \<Rightarrow>
      (case refused_model_command parsed s1 of (refusal, s2) \<Rightarrow>
       let refused = (case refusal of Some e \<Rightarrow> [emit_sanitized_chunk R (Error_Chunk e False)] | None \<Rightarrow> []);
           turn_event = turn_end_event cs;
           s3 = note_transcript cs (observe_chunks cs s2);
           shown = map (emit_sanitized_chunk R) cs
       in case (case result_session_id cs of
                  Some session_id \<Rightarrow> drain_queued_message (emit_sanitized_chunk R) session_id (io_write io) s3
                | None \<Rightarrow> (False, s3, [])) of
            (next_turn_started, s4, drained) \<Rightarrow>
              (if next_turn_started then message_written s4 else s4,
               imposed @ refused @ shown @ drained @
                 (case unless_next_turn_started turn_event next_turn_started of Some e \<Rightarrow> [Notified e] | None \<Rightarrow> []),
               True))))"

definition consume_control_response :: "json \<Rightarrow> chat_session \<Rightarrow> chat_session option" where
  "consume_control_response parsed s =
     (if as_str (jat parsed ''type'') \<noteq> Some MSG_TYPE_CONTROL_RESPONSE then None
      else Some (s \<lparr> se_control := snd (route_response parsed (se_control s)) \<rparr>))"

text \<open>A line: text that is no JSON, or a value.\<close>

fun reader_line :: "'a reader_env_scheme \<Rightarrow> line_io \<Rightarrow> rstr + json \<Rightarrow> chat_session \<Rightarrow> reader_result" where
  "reader_line R io (Inl raw) s = (s, [], True)"
| "reader_line R io (Inr parsed) s =
     (case consume_control_response parsed s of
        Some s' \<Rightarrow> (s', [], True)
      | None \<Rightarrow>
          (case try_parse_control_request parsed of
             Some ctrl \<Rightarrow> reader_control_request R (io_write io) ctrl s
           | None \<Rightarrow>
               (if str_or_empty (jat parsed ''type'') = ''control_request'' then (s, [], True)
                else reader_output_line R io parsed s)))"

definition SESSION_ENDED_UNEXPECTEDLY :: rstr where
  "SESSION_ENDED_UNEXPECTEDLY = ''Claude session ended unexpectedly. Check the session log for details.''"

text \<open>The end of the reader, after the last line or an error.\<close>

definition reader_end :: "'a reader_env_scheme \<Rightarrow> chat_session \<Rightarrow> chat_session \<times> effect list" where
  "reader_end R s =
     (let s' = release_turn (s \<lparr> se_control := channel_close (se_control s), se_reading := False \<rparr>) in
      (s', if se_awaited s' \<and> \<not> se_stopping s'
           then [emit_sanitized_chunk R (Error_Chunk SESSION_ENDED_UNEXPECTEDLY False), Notified SessionError] else []))"

text \<open>One turn of the reader's loop; no line stands for the end of the stream or a read error.\<close>

fun reader_step :: "'a reader_env_scheme \<Rightarrow> line_io \<Rightarrow> (rstr + json) option \<Rightarrow> chat_session \<Rightarrow> chat_session \<times> effect list" where
  "reader_step R io None s = (if se_reading s then reader_end R s else (s, []))"
| "reader_step R io (Some line) s =
     (if \<not> se_reading s then (s, [])
      else
        (case reader_line R io line s of (s', effs, goes_on) \<Rightarrow>
           (if goes_on then (s', effs) else (case reader_end R s' of (s'', effs') \<Rightarrow> (s'', effs @ effs')))))"

section \<open>The commands\<close>

definition OOM_MESSAGE :: rstr where
  "OOM_MESSAGE = ''The Claude session was killed (exit code 137 / SIGKILL).'' @ [CHR 10, CHR 10] @
     ''The most common cause is the container running out of memory, but a host-side process restart can also produce this code.'' @ [CHR 10, CHR 10] @
     ''Suggestions:'' @ [CHR 10] @ ''  - Close memory-intensive applications and retry'' @ [CHR 10] @
     ''  - Start a shorter conversation to reduce context size'' @ [CHR 10] @
     ''  - On macOS: check Activity Monitor for Lima VM memory pressure'' @ [CHR 10] @
     ''  - Check the Desktop log for a 'killing a LIVE worker' line just before the crash '' @ [CHR 0xE2, CHR 0x80, CHR 0x94] @
     '' that points to a worker restart, not memory'' @ [CHR 10, CHR 10] @
     ''If this persists, please report at https://github.com/speednet-software/speedwave/issues''"

text \<open>The check every command starts with: there is a child and it has not ended.\<close>

definition live_child :: "child_status \<Rightarrow> chat_session \<Rightarrow> (rstr + unit) \<times> chat_session" where
  "live_child status s =
     (if \<not> se_child s then (Inl ''no active session'', s)
      else
        (case status of
           Running \<Rightarrow> (Inr (), s)
         | Wait_Failed e \<Rightarrow> (Inl e, s)
         | Exited oom text \<Rightarrow>
             (Inl (if oom then OOM_MESSAGE else ''session exited ('' @ text @ '')''), s \<lparr> se_child := False \<rparr>)))"

text \<open>A command panics, fails with a message, or is done.\<close>

datatype reply = Panicked | Failed rstr | Done

text \<open>What a command did; of a failed write the line may have reached the child.\<close>

type_synonym command_result = "reply \<times> chat_session \<times> effect list"

text \<open>
  Sending a message. The first part runs up to the end of the write, the second one after the lock of the
  standard input is given back; the reader may run between the two.
\<close>

definition settle_typed :: "wire_content_block list \<Rightarrow> chat_session \<Rightarrow> chat_session" where
  "settle_typed bs s = (case bs of [Text_Block t] \<Rightarrow> (if settles_model t then settle_by_command s else s) | _ \<Rightarrow> s)"

definition send_message_write :: "'a serde_scheme \<Rightarrow> child_status \<Rightarrow> write_result \<Rightarrow> wire_content_block list \<Rightarrow> chat_session \<Rightarrow> command_result" where
  "send_message_write S status w bs s =
     (if is_blank_or_slash_only bs then (Failed ''empty message'', s, [])
      else
        (case live_child status s of
           (Inl e, s') \<Rightarrow> (Failed e, s', [])
         | (Inr _, s') \<Rightarrow>
             (if \<not> se_stdin s' then (Failed ''no active session'', s', [])
              else
                (let input = build_user_message bs; serialized = json_print S input in
                 if int (length serialized) > MAX_WIRE_BYTES then
                   (Failed (''user message too large: '' @ u64_to_string (of_nat (length serialized)) @ '' bytes exceeds '' @
                      u64_to_string (of_int MAX_WIRE_BYTES) @ '' byte limit''), s', [])
                 else
                   (let s2 = hold_turn (settle_typed bs s') in
                    case w of
                      Written \<Rightarrow> (Done, s2, [Wrote input])
                    | Write_Error e \<Rightarrow> (Failed e, release_turn s2, [])
                    | Flush_Error e \<Rightarrow> (Failed e, release_turn s2, [Wrote input]))))))"

definition send_message_done :: "(stream_chunk \<Rightarrow> effect) \<Rightarrow> wire_content_block list \<Rightarrow> chat_session \<Rightarrow> chat_session \<times> effect list" where
  "send_message_done emit bs s =
     (message_written s, case bs of [Text_Block t] \<Rightarrow> map emit (control_chip t) | _ \<Rightarrow> [])"

definition send_message :: "'a serde_scheme \<Rightarrow> (stream_chunk \<Rightarrow> effect) \<Rightarrow> child_status \<Rightarrow> write_result \<Rightarrow> wire_content_block list \<Rightarrow> chat_session \<Rightarrow> command_result" where
  "send_message S emit status w bs s =
     (case send_message_write S status w bs s of
        (Done, s', effs) \<Rightarrow> (case send_message_done emit bs s' of (s'', effs') \<Rightarrow> (Done, s'', effs @ effs'))
      | failed \<Rightarrow> failed)"

text \<open>Answering a question.\<close>

definition fill_slot :: "rstr \<Rightarrow> nat \<Rightarrow> rstr \<Rightarrow> chat_session \<Rightarrow> (rstr + fill_outcome) \<times> chat_session" where
  "fill_slot tool_use_id question_idx answer s =
     (case se_pending s tool_use_id of
        None \<Rightarrow> (Inl (''no pending control request for tool_use_id: '' @ tool_use_id), s)
      | Some entry \<Rightarrow>
          (let removed = s \<lparr> se_pending := (se_pending s)(tool_use_id := None) \<rparr> in
           case validate_slot entry question_idx tool_use_id of
             Inl e \<Rightarrow> (Inl e, removed \<lparr> se_pending := (se_pending removed)(tool_use_id \<mapsto> entry) \<rparr>)
           | Inr _ \<Rightarrow>
               (let entry' = entry \<lparr> pa_answers := (pa_answers entry)[question_idx := Some answer] \<rparr> in
                if None \<in> set (pa_answers entry')
                then (Inr Pending, removed \<lparr> se_pending := (se_pending removed)(tool_use_id \<mapsto> entry') \<rparr>)
                else (Inr (Completed entry'), removed))))"

definition restore_partial :: "rstr \<Rightarrow> partial_answers \<Rightarrow> nat option \<Rightarrow> chat_session \<Rightarrow> chat_session" where
  "restore_partial tool_use_id partial cleared_idx s =
     s \<lparr> se_pending := (se_pending s)(tool_use_id \<mapsto>
       (case cleared_idx of
          Some idx \<Rightarrow> partial \<lparr> pa_answers := (pa_answers partial)[idx := None] \<rparr>
        | None \<Rightarrow> partial)) \<rparr>"

definition submit_completed :: "'a serde_scheme \<Rightarrow> write_result \<Rightarrow> rstr \<Rightarrow> nat \<Rightarrow> partial_answers \<Rightarrow> chat_session \<Rightarrow> command_result" where
  "submit_completed S w tool_use_id question_idx partial s =
     (let restored = restore_partial tool_use_id partial (Some question_idx) in
      case build_ask_user_response_multi partial of
        None \<Rightarrow> (Panicked, s, [])
      | Some (Inl e) \<Rightarrow> (Failed e, restored s, [])
      | Some (Inr response) \<Rightarrow>
          (let serialized = json_print S response in
           if int (length serialized) > MAX_ASK_USER_WIRE_BYTES then
             (Failed (''AskUserQuestion response exceeds '' @ u64_to_string (of_int MAX_ASK_USER_WIRE_BYTES) @
                '' byte cap (got '' @ u64_to_string (of_nat (length serialized)) @ '')''), restored s, [])
           else if \<not> se_stdin s then (Failed ''no active session'', s, [])
           else
             (case w of
                Written \<Rightarrow> (Done, hold_turn s, [Wrote response])
              | Write_Error e \<Rightarrow> (Failed (''failed to write answer to stdin: '' @ e), restored (release_turn (hold_turn s)), [])
              | Flush_Error e \<Rightarrow> (Failed (''failed to write answer to stdin: '' @ e), restored (release_turn (hold_turn s)), [Wrote response]))))"

definition submit_question_answer :: "'a serde_scheme \<Rightarrow> child_status \<Rightarrow> write_result \<Rightarrow> rstr \<Rightarrow> nat \<Rightarrow> rstr \<Rightarrow> chat_session \<Rightarrow> command_result" where
  "submit_question_answer S status w tool_use_id question_idx answer s =
     (if int (length answer) > MAX_ASK_USER_ANSWER_LEN then
        (Failed (''answer too long (max '' @ u64_to_string (of_int MAX_ASK_USER_ANSWER_LEN) @ '' bytes)''), s, [])
      else
        (case live_child status s of
           (Inl e, s') \<Rightarrow> (Failed e, s', [])
         | (Inr _, s') \<Rightarrow>
             (case fill_slot tool_use_id question_idx answer s' of
                (Inl e, s'') \<Rightarrow> (Failed e, s'', [])
              | (Inr Pending, s'') \<Rightarrow> (Done, s'', [])
              | (Inr (Completed p), s'') \<Rightarrow> submit_completed S w tool_use_id question_idx p s'')))"

text \<open>Interrupting the turn; the request ids come from a process-wide counter.\<close>

definition build_interrupt_payload :: "rstr \<Rightarrow> json" where
  "build_interrupt_payload request_id =
     json_object [(''type'', JStr MSG_TYPE_CONTROL_REQUEST), (''request_id'', JStr request_id),
       (''request'', json_object [(''subtype'', JStr ''interrupt'')])]"

definition interrupt :: "child_status \<Rightarrow> write_result \<Rightarrow> u64 \<Rightarrow> chat_session \<Rightarrow> command_result" where
  "interrupt status w counter s =
     (case (if se_child s then live_child status s else (Inr (), s)) of
        (Inl e, s') \<Rightarrow> (Failed e, s', [])
      | (Inr _, s') \<Rightarrow>
          (if \<not> se_stdin s' then (Failed ''no active session'', s', [])
           else
             (let payload = build_interrupt_payload (''req_interrupt_'' @ u64_to_string counter) in
              case w of
                Written \<Rightarrow> (Done, s', [Wrote payload])
              | Write_Error e \<Rightarrow> (Failed e, s', [])
              | Flush_Error e \<Rightarrow> (Failed e, s', [Wrote payload]))))"

text \<open>Starting, for a resumed transcript or a new one, with the model imposed at once where the container was rendered
  with another one, and stopping.\<close>

definition session_started :: "rstr \<Rightarrow> rstr option \<Rightarrow> u64 \<Rightarrow> stream_parser \<Rightarrow> chat_session \<Rightarrow> chat_session" where
  "session_started instance_id resume n seeded s =
     s \<lparr> se_instance_id := Some instance_id, se_stopping := False, se_transcript := resume, se_stdin := True,
         se_control := channel_default n, se_awaited := True, se_turn_awake := False, se_settled := False,
         se_typed_command := NO_TYPED_COMMAND, se_parser := seeded, se_reading := True, se_child := True \<rparr>"

definition spawn_soft_impose_target :: "soft_impose_config \<Rightarrow> rstr option \<Rightarrow> rstr option" where
  "spawn_soft_impose_target cfg rendered_model =
     Option.bind rendered_model (soft_impose_target (si_kind cfg) (si_entry_id cfg) (si_entry_model cfg))"

definition session_start ::
  "soft_impose_config \<Rightarrow> rstr option \<Rightarrow> rstr option \<Rightarrow> rstr \<Rightarrow> rstr option \<Rightarrow> u64 \<Rightarrow> stream_parser \<Rightarrow> chat_session \<Rightarrow> chat_session \<times> effect list" where
  "session_start cfg rendered_model write_error instance_id resume n seeded s =
     (let started = session_started instance_id resume n seeded s in
      case spawn_soft_impose_target cfg rendered_model of
        None \<Rightarrow> (started, [])
      | Some model \<Rightarrow> snd (send_soft_impose model write_error started))"

definition session_stop :: "chat_session \<Rightarrow> chat_session" where
  "session_stop s =
     (release_turn (s \<lparr> se_stopping := True, se_stdin := False, se_control := channel_close (se_control s) \<rparr>))
       \<lparr> se_instance_id := None, se_child := False, se_pending := Map.empty \<rparr>"

text \<open>
  The waits of \<open>stop\<close> after the reaping of the instance, in milliseconds: a sleep of at least its length between two polls of the child, until
  its deadline; then of each thread, until the deadline they share. The result is the time of the return.
\<close>

datatype child_poll = Still_running | Reaped | Poll_error

definition STOP_DEADLINE_MS :: nat where "STOP_DEADLINE_MS = 5000"
definition STOP_POLL_MS :: nat where "STOP_POLL_MS = 50"
definition READER_GRACE_MS :: nat where "READER_GRACE_MS = 200"
definition READER_POLL_MS :: nat where "READER_POLL_MS = 10"

function await_exit :: "(nat \<Rightarrow> child_poll) \<Rightarrow> (nat \<Rightarrow> nat) \<Rightarrow> nat \<Rightarrow> nat \<Rightarrow> nat" where
  "await_exit poll late deadline now =
     (case poll now of
        Reaped \<Rightarrow> now
      | Poll_error \<Rightarrow> now
      | Still_running \<Rightarrow> (if now \<ge> deadline then now else await_exit poll late deadline (now + STOP_POLL_MS + late now)))"
  by pat_completeness auto
termination by (relation "measure (\<lambda>(poll, late, deadline, now). deadline - now)") (auto simp: STOP_POLL_MS_def)

declare await_exit.simps [simp del]

function await_reader :: "(nat \<Rightarrow> bool) \<Rightarrow> (nat \<Rightarrow> nat) \<Rightarrow> nat \<Rightarrow> nat \<Rightarrow> nat" where
  "await_reader finished late deadline now =
     (if \<not> finished now \<and> now < deadline then await_reader finished late deadline (now + READER_POLL_MS + late now) else now)"
  by pat_completeness auto
termination by (relation "measure (\<lambda>(finished, late, deadline, now). deadline - now)") (auto simp: READER_POLL_MS_def)

declare await_reader.simps [simp del]

fun await_readers :: "(nat \<Rightarrow> bool) list \<Rightarrow> (nat \<Rightarrow> nat) \<Rightarrow> nat \<Rightarrow> nat \<Rightarrow> nat" where
  "await_readers [] late deadline now = now"
| "await_readers (finished # hs) late deadline now = await_readers hs late deadline (await_reader finished late deadline now)"

text \<open>
  The container exec that reaps the instance, of \<open>session/instance.rs\<close> and \<open>wait_for_piped_child\<close>: the
  runtime takes its time to prepare it and may fail; once it runs it is polled until its deadline and then
  killed and waited for; when it has ended by itself, its two outputs are awaited one after the other, each
  within a grace of its own.
\<close>

record reap_exec =
  rx_prepare :: nat
  rx_spawned :: bool
  rx_poll :: "nat \<Rightarrow> child_poll"
  rx_kill_wait :: nat
  rx_stdout_closed :: "nat option"
  rx_stderr_closed :: "nat option"

definition REAP_EXIT_WAIT_TENTHS :: nat where "REAP_EXIT_WAIT_TENTHS = 30"
definition REAP_KILL_WAIT_TENTHS :: nat where "REAP_KILL_WAIT_TENTHS = 10"
definition REAP_TRANSPORT_MARGIN_MS :: nat where "REAP_TRANSPORT_MARGIN_MS = 20000"
definition REAP_DEADLINE_MS :: nat where
  "REAP_DEADLINE_MS = (REAP_EXIT_WAIT_TENTHS + REAP_KILL_WAIT_TENTHS) * 100 + REAP_TRANSPORT_MARGIN_MS"
definition TIMEOUT_POLL_INTERVAL_MS :: nat where "TIMEOUT_POLL_INTERVAL_MS = 50"
definition PIPE_DRAIN_GRACE_MS :: nat where "PIPE_DRAIN_GRACE_MS = 5000"

function await_piped :: "(nat \<Rightarrow> child_poll) \<Rightarrow> (nat \<Rightarrow> nat) \<Rightarrow> nat \<Rightarrow> nat \<Rightarrow> nat \<times> child_poll" where
  "await_piped poll late deadline now =
     (case poll now of
        Reaped \<Rightarrow> (now, Reaped)
      | Poll_error \<Rightarrow> (now, Poll_error)
      | Still_running \<Rightarrow>
          (if now \<ge> deadline then (now, Still_running)
           else await_piped poll late deadline (now + TIMEOUT_POLL_INTERVAL_MS + late now)))"
  by pat_completeness auto
termination
  by (relation "measure (\<lambda>(poll, late, deadline, now). deadline - now)") (auto simp: TIMEOUT_POLL_INTERVAL_MS_def)

declare await_piped.simps [simp del]

text \<open>When \<open>recv_timeout\<close> returns, and whether the output was read to its end.\<close>

definition exited_child_output :: "(nat \<Rightarrow> nat) \<Rightarrow> nat option \<Rightarrow> nat \<Rightarrow> nat \<times> bool" where
  "exited_child_output late closed now =
     (case closed of
        Some t \<Rightarrow> (if t \<le> now + PIPE_DRAIN_GRACE_MS then (max now t, True) else (now + PIPE_DRAIN_GRACE_MS + late now, False))
      | None \<Rightarrow> (now + PIPE_DRAIN_GRACE_MS + late now, False))"

definition wait_for_piped_child :: "reap_exec \<Rightarrow> (nat \<Rightarrow> nat) \<Rightarrow> nat \<Rightarrow> nat \<Rightarrow> nat" where
  "wait_for_piped_child X late timeout start =
     (case await_piped (rx_poll X) late (start + timeout) start of
        (now, Reaped) \<Rightarrow>
          (case exited_child_output late (rx_stdout_closed X) now of
             (now', True) \<Rightarrow> fst (exited_child_output late (rx_stderr_closed X) now')
           | (now', False) \<Rightarrow> now')
      | (now, Poll_error) \<Rightarrow> now
      | (now, Still_running) \<Rightarrow> now + rx_kill_wait X)"

text \<open>When \<open>run_reap\<close> returns, and \<open>ChatSession::reap_instance\<close>, with \<open>None\<close> for a session without an instance.\<close>

definition run_reap_returns_at :: "reap_exec \<Rightarrow> (nat \<Rightarrow> nat) \<Rightarrow> nat \<Rightarrow> nat \<Rightarrow> nat" where
  "run_reap_returns_at X late deadline now =
     (let now' = now + rx_prepare X in
      if rx_spawned X then wait_for_piped_child X late deadline now' else now')"

definition reap_returns_at :: "reap_exec option \<Rightarrow> (nat \<Rightarrow> nat) \<Rightarrow> nat \<Rightarrow> nat" where
  "reap_returns_at reap late now =
     (case reap of None \<Rightarrow> now | Some X \<Rightarrow> run_reap_returns_at X late REAP_DEADLINE_MS now)"

definition stop_returns_at ::
  "reap_exec option \<Rightarrow> (nat \<Rightarrow> child_poll) option \<Rightarrow> (nat \<Rightarrow> bool) list \<Rightarrow> (nat \<Rightarrow> nat) \<Rightarrow> nat \<Rightarrow> nat" where
  "stop_returns_at reap child readers late now0 =
     (let now = reap_returns_at reap late now0;
          now' = (case child of Some poll \<Rightarrow> await_exit poll late (now + STOP_DEADLINE_MS) now | None \<Rightarrow> now) in
      await_readers readers late (now' + READER_GRACE_MS) now')"

section \<open>A session as a machine\<close>

text \<open>
  What the window and the child do. A message is sent in its two parts, so that the reader and the other
  commands may run between them.
\<close>

datatype session_action =
    Read line_io "(rstr + json) option"
  | Send_write child_status write_result "wire_content_block list"
  | Send_done "wire_content_block list"
  | Answer child_status write_result rstr nat rstr
  | Interrupt child_status write_result u64
  | Queue_message rstr rstr u64
  | Cancel_queued rstr
  | Start "rstr option" "rstr option" rstr "rstr option" u64 stream_parser
  | Stop

fun session_act :: "'a reader_env_scheme \<Rightarrow> session_action \<Rightarrow> chat_session \<Rightarrow> chat_session \<times> effect list" where
  "session_act R (Read io line) s = reader_step R io line s"
| "session_act R (Send_write status w bs) s = snd (send_message_write R status w bs s)"
| "session_act R (Send_done bs) s = send_message_done (emit_sanitized_chunk R) bs s"
| "session_act R (Answer status w tid i answer) s = snd (submit_question_answer R status w tid i answer s)"
| "session_act R (Interrupt status w n) s = snd (interrupt status w n s)"
| "session_act R (Queue_message sid t now) s = (s \<lparr> se_queue := snd (queue_message_cmd sid t now (se_queue s)) \<rparr>, [])"
| "session_act R (Cancel_queued sid) s = (s \<lparr> se_queue := snd (cancel_queued_message_cmd sid (se_queue s)) \<rparr>, [])"
| "session_act R (Start rendered e instance_id resume n seeded) s = session_start (re_impose R) rendered e instance_id resume n seeded s"
| "session_act R Stop s = (session_stop s, [])"

definition session_step :: "'a reader_env_scheme \<Rightarrow> chat_session \<Rightarrow> session_action \<Rightarrow> chat_session" where
  "session_step R s a = fst (session_act R a s)"

fun session_effects :: "'a reader_env_scheme \<Rightarrow> session_action list \<Rightarrow> chat_session \<Rightarrow> effect list" where
  "session_effects R [] s = []"
| "session_effects R (a # actions) s = snd (session_act R a s) @ session_effects R actions (session_step R s a)"

text \<open>
  The invariant: a pending entry is the questions of its own request, with an answer or a gap for each and at
  least one gap, on an input the answers can be put into; and a child has its standard input.
\<close>

definition entry_ok :: "rstr \<Rightarrow> partial_answers \<Rightarrow> bool" where
  "entry_ok tid e \<longleftrightarrow>
     cr_tool_use_id (pa_request e) = tid \<and> cr_tool_name (pa_request e) = ASK_USER_TOOL_NAME \<and>
     (\<exists>fs. cr_input (pa_request e) = JObj fs) \<and>
     pa_questions e = parse_ask_user_questions (pa_request e) \<and> pa_questions e \<noteq> [] \<and>
     length (pa_answers e) = length (pa_questions e) \<and> None \<in> set (pa_answers e)"

definition session_ok :: "chat_session \<Rightarrow> bool" where
  "session_ok s \<longleftrightarrow> (\<forall>tid e. se_pending s tid = Some e \<longrightarrow> entry_ok tid e) \<and> (se_child s \<longrightarrow> se_stdin s)"

text \<open>What leaves the pending questions and the child alone.\<close>

definition same_core :: "chat_session \<Rightarrow> chat_session \<Rightarrow> bool" where
  "same_core s t \<longleftrightarrow> se_pending t = se_pending s \<and> se_child t = se_child s \<and> se_stdin t = se_stdin s"

lemma same_core_refl [simp]: "same_core s s"
  by (simp add: same_core_def)

lemma same_core_trans: "same_core s t \<Longrightarrow> same_core t u \<Longrightarrow> same_core s u"
  by (simp add: same_core_def)

lemma session_ok_core: "same_core s t \<Longrightarrow> session_ok t \<longleftrightarrow> session_ok s"
  by (simp add: same_core_def session_ok_def)

lemmas session_upd_defs = settle_by_command_def settle_def input_started_def release_turn_def hold_turn_def
  message_written_def observe_chunks_def Let_def

lemma settle_by_command_frame [simp]: "same_core s (settle_by_command s)" "same_core s (settle s)" "same_core s (input_started s)"
    "same_core s (release_turn s)" "same_core s (hold_turn s)" "same_core s (message_written s)"
    "same_core s (s \<lparr> se_parser := p \<rparr>)" "same_core s (s \<lparr> se_queue := q \<rparr>)" "same_core s (s \<lparr> se_control := c \<rparr>)"
    "same_core s (observe_chunks cs s)"
  by (simp_all add: same_core_def session_upd_defs)

lemma note_transcript_frame [simp]: "same_core s (note_transcript cs s)"
proof (induction cs arbitrary: s)
  case (Cons c cs)
  show ?case
  proof (cases "chunk_transcript c")
    case None
    with Cons show ?thesis by (simp add: note_transcript_def)
  next
    case (Some sid)
    have "same_core s (s \<lparr> se_transcript := Some sid \<rparr>)" by (simp add: same_core_def)
    with Cons [of "s \<lparr> se_transcript := Some sid \<rparr>"] Some show ?thesis
      by (auto simp: note_transcript_def intro: same_core_trans)
  qed
qed (simp add: note_transcript_def)

lemma send_soft_impose_frame: "same_core s (fst (snd (send_soft_impose model w s)))"
  by (auto simp: send_soft_impose_def settle_def same_core_def Let_def split: prod.splits)

lemma soft_impose_step_frame: "same_core s (fst (soft_impose_step cfg line cs w s))"
  by (auto simp: soft_impose_step_def send_soft_impose_frame split: option.splits)

lemma take_command_reply_frame: "same_core s (snd (take_command_reply s))"
  by (simp add: take_command_reply_def same_core_def)

lemma refused_frame: "same_core s (snd (refused_model_command line s))"
  using take_command_reply_frame [of s]
  by (auto simp: refused_model_command_def Let_def split: option.splits prod.splits)

lemma drain_frame: "same_core s (fst (snd (drain_queued_message emit sid w s)))"
  by (auto simp: drain_queued_message_def queue_take_def write_and_emit_drained_message_def Let_def same_core_def
        settle_by_command_def settle_def split: option.splits write_result.splits)

text \<open>The parts of an output line, in the order they happen.\<close>

lemma reader_output_parts:
  assumes "reader_output_line R io parsed s = (s', effs, goes_on)"
  obtains p cs lg s1 e1 refusal s2 d s4 e4
  where "parse_line R parsed (se_parser s) = (p, cs, lg)"
    and "soft_impose_step (re_impose R) parsed cs (io_impose io) (s \<lparr> se_parser := p \<rparr>) = (s1, e1)"
    and "refused_model_command parsed s1 = (refusal, s2)"
    and "(case result_session_id cs of
        Some session_id \<Rightarrow> drain_queued_message (emit_sanitized_chunk R) session_id (io_write io) (note_transcript cs (observe_chunks cs s2))
      | None \<Rightarrow> (False, note_transcript cs (observe_chunks cs s2), [])) = (d, s4, e4)"
    and "s' = (if d then message_written s4 else s4)"
    and "effs = e1 @ (case refusal of Some e \<Rightarrow> [emit_sanitized_chunk R (Error_Chunk e False)] | None \<Rightarrow> []) @
      map (emit_sanitized_chunk R) cs @ e4 @
      (case unless_next_turn_started (turn_end_event cs) d of Some e \<Rightarrow> [Notified e] | None \<Rightarrow> [])"
proof -
  obtain p cs lg where p: "parse_line R parsed (se_parser s) = (p, cs, lg)" by (metis prod_cases3)
  obtain s1 e1 where 1: "soft_impose_step (re_impose R) parsed cs (io_impose io) (s \<lparr> se_parser := p \<rparr>) = (s1, e1)" by fastforce
  obtain refusal s2 where 2: "refused_model_command parsed s1 = (refusal, s2)" by fastforce
  obtain d s4 e4 where 4: "(case result_session_id cs of
        Some session_id \<Rightarrow> drain_queued_message (emit_sanitized_chunk R) session_id (io_write io) (note_transcript cs (observe_chunks cs s2))
      | None \<Rightarrow> (False, note_transcript cs (observe_chunks cs s2), [])) = (d, s4, e4)"
    by (metis prod_cases3)
  show thesis
    by (rule that [OF p 1 2 4]) (use assms in \<open>simp_all add: reader_output_line_def p 1 2 4 Let_def\<close>)
qed

lemma reader_output_frame: "same_core s (fst (reader_output_line R io parsed s))"
proof -
  obtain s' effs goes_on where line: "reader_output_line R io parsed s = (s', effs, goes_on)" by (metis prod_cases3)
  then show ?thesis
  proof (rule reader_output_parts)
    fix p cs lg s1 e1 refusal s2 d s4 e4
    assume 1: "soft_impose_step (re_impose R) parsed cs (io_impose io) (s \<lparr> se_parser := p \<rparr>) = (s1, e1)"
      and 2: "refused_model_command parsed s1 = (refusal, s2)"
      and 4: "(case result_session_id cs of
        Some session_id \<Rightarrow> drain_queued_message (emit_sanitized_chunk R) session_id (io_write io) (note_transcript cs (observe_chunks cs s2))
      | None \<Rightarrow> (False, note_transcript cs (observe_chunks cs s2), [])) = (d, s4, e4)"
      and s': "s' = (if d then message_written s4 else s4)"
    have "same_core s s1"
      using soft_impose_step_frame [of "s \<lparr> se_parser := p \<rparr>" "re_impose R" parsed cs "io_impose io"] 1
      by (simp add: same_core_def)
    with refused_frame [of s1 parsed] 2 have c2: "same_core s s2" by (auto intro: same_core_trans)
    have c3: "same_core s (note_transcript cs (observe_chunks cs s2))"
      by (rule same_core_trans [OF c2 same_core_trans [OF settle_by_command_frame(10) note_transcript_frame]])
    have "same_core s s4"
      using 4 c3 drain_frame [of _ "emit_sanitized_chunk R" _ "io_write io"] same_core_trans [OF c3]
      by (auto split: option.splits dest: arg_cong [of _ _ "\<lambda>x. fst (snd x)"]) (metis fst_conv snd_conv)
    then show "same_core s (fst (reader_output_line R io parsed s))"
      unfolding line s' fst_conv by (cases d) (simp_all add: same_core_def message_written_def hold_turn_def)
  qed
qed

text \<open>The questions the reader registers make an entry that is in order.\<close>

lemma jat_non_object: "\<forall>fs. v \<noteq> JObj fs \<Longrightarrow> jat v k = JNull"
  by (cases v) (auto simp: jat_def json_get_def)

lemma parse_questions_object:
  assumes "parse_ask_user_questions ctrl \<noteq> []"
  shows "\<exists>fs. cr_input ctrl = JObj fs"
proof (rule ccontr)
  assume "\<not> ?thesis"
  then have none: "jat (cr_input ctrl) k = JNull" for k by (auto intro: jat_non_object)
  have "trim [] = []" by (simp add: trim_def chars_def)
  then have "parse_ask_user_question (cr_input ctrl) = None"
    by (simp add: parse_ask_user_question_def none str_or_empty_def unwrap_or_def as_str_def)
  with assms show False
    by (simp add: parse_ask_user_questions_def none as_array_def MAX_ASK_USER_QUESTIONS_def map_filter_simps)
qed

lemma entry_ok_new:
  assumes "cr_tool_name ctrl = ASK_USER_TOOL_NAME" "parse_ask_user_questions ctrl \<noteq> []"
  shows "entry_ok (cr_tool_use_id ctrl) (partial_new ctrl (parse_ask_user_questions ctrl))"
  using assms parse_questions_object [of ctrl] by (simp add: entry_ok_def partial_new_def)

lemma session_ok_insert: "session_ok s \<Longrightarrow> entry_ok tid e \<Longrightarrow> session_ok (s \<lparr> se_pending := (se_pending s)(tid \<mapsto> e) \<rparr>)"
  by (auto simp: session_ok_def)

lemma session_ok_remove: "session_ok s \<Longrightarrow> session_ok (s \<lparr> se_pending := (se_pending s)(tid := None) \<rparr>)"
  by (auto simp: session_ok_def)

lemma session_ok_entry: "session_ok s \<Longrightarrow> se_pending s tid = Some e \<Longrightarrow> entry_ok tid e"
  by (simp add: session_ok_def)

lemma session_ok_reader_request: "session_ok s \<Longrightarrow> session_ok (fst (reader_control_request R w ctrl s))"
  by (auto simp: reader_control_request_def Let_def release_turn_def session_ok_def
      intro: entry_ok_new split: write_result.splits)

lemma session_ok_line: "session_ok s \<Longrightarrow> session_ok (fst (reader_line R io line s))"
proof (cases line)
  case (Inr parsed)
  assume ok: "session_ok s"
  have "session_ok s'" if "consume_control_response parsed s = Some s'" for s'
    using that ok by (auto simp: consume_control_response_def session_ok_def split: if_splits)
  with ok show ?thesis
    using session_ok_reader_request [OF ok] session_ok_core [OF reader_output_frame [of s R io parsed]] Inr
    by (auto split: option.splits)
qed simp

lemma session_ok_end: "session_ok s \<Longrightarrow> session_ok (fst (reader_end R s))"
  by (simp add: reader_end_def release_turn_def session_ok_def Let_def)

lemma session_ok_read: "session_ok s \<Longrightarrow> session_ok (fst (reader_step R io line s))"
proof (cases line)
  case (Some l)
  assume ok: "session_ok s"
  obtain s' effs goes_on where r: "reader_line R io l s = (s', effs, goes_on)" by (metis prod_cases3)
  with session_ok_line [OF ok, of R io l] have "session_ok s'" by simp
  with Some r ok session_ok_end [of s' R] show ?thesis by (auto split: prod.splits)
qed (simp add: session_ok_end)

lemma live_child_ok: "session_ok s \<Longrightarrow> session_ok (snd (live_child status s))"
  by (auto simp: live_child_def session_ok_def split: child_status.splits)

lemma live_child_Inr: "live_child status s = (Inr u, s') \<Longrightarrow> s' = s \<and> se_child s"
  by (auto simp: live_child_def split: if_splits child_status.splits)

lemma live_child_Inl: "live_child status s = (Inl e, s') \<Longrightarrow> se_pending s' = se_pending s"
  by (auto simp: live_child_def split: if_splits child_status.splits)

text \<open>Filling a slot, on an entry that is in order.\<close>

lemma validate_slot_Inr: "validate_slot e i tid = Inr u \<longleftrightarrow> i < length (pa_questions e) \<and> i < length (pa_answers e) \<and> pa_answers e ! i = None"
  by (auto simp: validate_slot_def)

lemma fill_slot_Inl: "fill_slot tid i a s = (Inl m, s') \<Longrightarrow> se_pending s' = se_pending s \<and> se_child s' = se_child s \<and> se_stdin s' = se_stdin s"
  by (auto simp: fill_slot_def Let_def fun_eq_iff split: option.splits sum.splits if_splits)

lemma fill_slot_Inr:
  assumes "fill_slot tid i a s = (Inr out, s')"
  obtains e where "se_pending s tid = Some e" and "validate_slot e i tid = Inr ()"
    and "out = (let e' = e \<lparr> pa_answers := (pa_answers e)[i := Some a] \<rparr> in if None \<in> set (pa_answers e') then Pending else Completed e')"
    and "s' = s \<lparr> se_pending := (se_pending s)(tid := (case out of Pending \<Rightarrow> Some (e \<lparr> pa_answers := (pa_answers e)[i := Some a] \<rparr>) | Completed _ \<Rightarrow> None)) \<rparr>"
  using assms by (auto simp: fill_slot_def Let_def split: option.splits sum.splits if_splits)

lemma restore_undoes:
  assumes "se_pending s tid = Some e" "pa_answers e ! i = None"
  shows "(se_pending s)(tid \<mapsto> e \<lparr> pa_answers := (pa_answers e)[i := Some a, i := None] \<rparr>) = se_pending s"
proof -
  have "(pa_answers e)[i := Some a, i := None] = pa_answers e"
    using assms(2) list_update_id [of "pa_answers e" i] by (simp add: list_update_overwrite)
  with assms(1) show ?thesis by (simp add: fun_eq_iff)
qed

lemma entry_ok_fill:
  assumes "entry_ok tid e" "i < length (pa_answers e)" "None \<in> set ((pa_answers e)[i := Some a])"
  shows "entry_ok tid (e \<lparr> pa_answers := (pa_answers e)[i := Some a] \<rparr>)"
  using assms by (auto simp: entry_ok_def)

lemma build_answers_no_panic: "entry_ok tid e \<Longrightarrow> build_ask_user_response_multi (e \<lparr> pa_answers := xs \<rparr>) \<noteq> None"
  by (auto simp: build_ask_user_response_multi_def entry_ok_def split: option.splits)

text \<open>The completed answers go out whole, or everything is as before.\<close>

lemma submit_completed_cases:
  assumes "submit_completed S w tid i e' s = (r, s', effs)" "build_ask_user_response_multi e' \<noteq> None" "se_stdin s"
  shows "(\<exists>m. r = Failed m \<and> se_pending s' = se_pending (restore_partial tid e' (Some i) s) \<and> (effs = [] \<or> (\<exists>m. w = Flush_Error m))) \<or>
     (\<exists>response. r = Done \<and> se_pending s' = se_pending s \<and> build_ask_user_response_multi e' = Some (Inr response) \<and> effs = [Wrote response])"
  using assms
  by (auto simp: submit_completed_def Let_def hold_turn_def release_turn_def restore_partial_def
      split: option.splits sum.splits if_splits write_result.splits)

lemma submit_completed_core: "submit_completed S w tid i e' s = (r, s', effs) \<Longrightarrow> se_child s' = se_child s \<and> se_stdin s' = se_stdin s"
  by (auto simp: submit_completed_def Let_def hold_turn_def release_turn_def restore_partial_def
      split: option.splits sum.splits if_splits write_result.splits)

lemma submit_forms:
  assumes "submit_question_answer S status w tid i a s = (r, s', effs)"
  shows "(\<exists>m. r = Failed m \<and> effs = [] \<and> se_pending s' = se_pending s)
    \<or> (fill_slot tid i a s = (Inr Pending, s') \<and> r = Done \<and> effs = [])
    \<or> (\<exists>p s2. se_child s \<and> fill_slot tid i a s = (Inr (Completed p), s2) \<and> submit_completed S w tid i p s2 = (r, s', effs))"
proof (cases "int (length a) > MAX_ASK_USER_ANSWER_LEN")
  case True
  with assms show ?thesis by (auto simp: submit_question_answer_def)
next
  case False
  obtain live s1 where l: "live_child status s = (live, s1)" by fastforce
  show ?thesis
  proof (cases live)
    case (Inl m)
    with assms False l live_child_Inl [of status s m s1] show ?thesis by (auto simp: submit_question_answer_def)
  next
    case (Inr u)
    with l live_child_Inr [of status s u s1] have s1: "s1 = s" "se_child s" by auto
    obtain out s2 where f: "fill_slot tid i a s = (out, s2)" by fastforce
    with assms False l Inr s1 fill_slot_Inl [of tid i a s _ s2] show ?thesis
      by (cases out) (auto simp: submit_question_answer_def split: fill_outcome.splits)
  qed
qed

lemma fill_slot_Completed:
  assumes "fill_slot tid i a s = (Inr (Completed p), s2)"
  obtains e where "se_pending s tid = Some e" "i < length (pa_questions e)" "pa_answers e ! i = None"
    and "p = e \<lparr> pa_answers := (pa_answers e)[i := Some a] \<rparr>" "None \<notin> set ((pa_answers e)[i := Some a])"
    and "s2 = s \<lparr> se_pending := (se_pending s)(tid := None) \<rparr>"
  using assms by (rule fill_slot_Inr) (auto simp: Let_def validate_slot_Inr split: if_splits)

lemma fill_slot_Pending:
  assumes "fill_slot tid i a s = (Inr Pending, s2)"
  obtains e where "se_pending s tid = Some e" "i < length (pa_questions e)" "pa_answers e ! i = None"
    and "None \<in> set ((pa_answers e)[i := Some a])"
    and "s2 = s \<lparr> se_pending := (se_pending s)(tid \<mapsto> e \<lparr> pa_answers := (pa_answers e)[i := Some a] \<rparr>) \<rparr>"
  using assms by (rule fill_slot_Inr) (auto simp: Let_def validate_slot_Inr split: if_splits)

lemma submit_cases:
  assumes ok: "session_ok s" and run: "submit_question_answer S status w tid i a s = (r, s', effs)"
  shows "case r of
      Panicked \<Rightarrow> False
    | Failed m \<Rightarrow> se_pending s' = se_pending s \<and> (effs = [] \<or> (\<exists>m. w = Flush_Error m))
    | Done \<Rightarrow> \<exists>e. se_pending s tid = Some e \<and> i < length (pa_questions e) \<and> pa_answers e ! i = None \<and>
        (let e' = e \<lparr> pa_answers := (pa_answers e)[i := Some a] \<rparr> in
         if None \<in> set (pa_answers e') then se_pending s' = (se_pending s)(tid \<mapsto> e') \<and> effs = []
         else se_pending s' = (se_pending s)(tid := None) \<and>
           (\<exists>response. build_ask_user_response_multi e' = Some (Inr response) \<and> effs = [Wrote response]))"
  using submit_forms [OF run]
proof (elim disjE exE conjE)
  fix p s2
  assume child: "se_child s" and f: "fill_slot tid i a s = (Inr (Completed p), s2)"
    and sub: "submit_completed S w tid i p s2 = (r, s', effs)"
  obtain e where e: "se_pending s tid = Some e" and slot: "i < length (pa_questions e)" "pa_answers e ! i = None"
    and p: "p = e \<lparr> pa_answers := (pa_answers e)[i := Some a] \<rparr>" and full: "None \<notin> set ((pa_answers e)[i := Some a])"
    and s2: "s2 = s \<lparr> se_pending := (se_pending s)(tid := None) \<rparr>"
    by (rule fill_slot_Completed [OF f])
  have nn: "build_ask_user_response_multi p \<noteq> None"
    unfolding p by (rule build_answers_no_panic [OF session_ok_entry [OF ok e]])
  have stdin: "se_stdin s2" using ok child by (simp add: s2 session_ok_def)
  have res: "se_pending (restore_partial tid p (Some i) s2) = se_pending s"
    using restore_undoes [OF e slot(2), of a] by (simp add: restore_partial_def s2 p)
  from submit_completed_cases [OF sub nn stdin] res full e slot show ?thesis
    by (auto simp: s2 p Let_def)
qed (auto elim!: fill_slot_Pending simp: Let_def)

lemma submit_core:
  assumes "submit_question_answer S status w tid i a s = (r, s', effs)"
  shows "(se_child s' \<longrightarrow> se_child s) \<and> se_stdin s' = se_stdin s"
proof -
  obtain live s1 where l: "live_child status s = (live, s1)" by fastforce
  then have core: "(se_child s1 \<longrightarrow> se_child s) \<and> se_stdin s1 = se_stdin s"
    by (auto simp: live_child_def split: if_splits child_status.splits)
  obtain out s2 where f: "fill_slot tid i a s1 = (out, s2)" by fastforce
  then have "se_child s2 = se_child s1 \<and> se_stdin s2 = se_stdin s1"
    by (auto simp: fill_slot_def Let_def split: option.splits sum.splits if_splits)
  with core l f assms submit_completed_core [of S w tid i _ s2 r s' effs] show ?thesis
    by (auto simp: submit_question_answer_def split: if_splits sum.splits fill_outcome.splits)
qed

lemma session_ok_submit:
  assumes ok: "session_ok s"
  shows "session_ok (fst (snd (submit_question_answer S status w tid i a s)))"
proof -
  obtain r s' effs where run: "submit_question_answer S status w tid i a s = (r, s', effs)" by (metis prod_cases3)
  have core: "se_child s' \<longrightarrow> se_stdin s'" using submit_core [OF run] ok by (simp add: session_ok_def)
  have "\<forall>t e. se_pending s' t = Some e \<longrightarrow> entry_ok t e"
  proof (cases r)
    case Done
    with submit_cases [OF ok run] obtain e where e: "se_pending s tid = Some e" "i < length (pa_questions e)"
      and s': "let e' = e \<lparr> pa_answers := (pa_answers e)[i := Some a] \<rparr> in
         if None \<in> set (pa_answers e') then se_pending s' = (se_pending s)(tid \<mapsto> e') \<and> effs = []
         else se_pending s' = (se_pending s)(tid := None) \<and>
           (\<exists>response. build_ask_user_response_multi e' = Some (Inr response) \<and> effs = [Wrote response])" by auto
    have eok: "entry_ok tid e" by (rule session_ok_entry [OF ok e(1)])
    have i: "i < length (pa_answers e)" using eok e(2) by (simp add: entry_ok_def)
    show ?thesis
    proof (cases "None \<in> set ((pa_answers e)[i := Some a])")
      case True
      with s' entry_ok_fill [OF eok i True] session_ok_entry [OF ok] show ?thesis by (simp add: Let_def)
    next
      case False
      with s' session_ok_entry [OF ok] show ?thesis by (simp add: Let_def)
    qed
  qed (use submit_cases [OF ok run] ok in \<open>auto simp: session_ok_def\<close>)
  with core run show ?thesis by (simp add: session_ok_def)
qed

lemma settle_typed_frame: "same_core s (settle_typed bs s)"
proof (cases "\<exists>x. bs = [Text_Block x]")
  case True
  then show ?thesis by (auto simp: settle_typed_def)
next
  case False
  then have "settle_typed bs s = s"
    by (cases bs; cases "tl bs"; cases "hd bs") (auto simp: settle_typed_def)
  then show ?thesis by simp
qed

definition may_lose_child :: "chat_session \<Rightarrow> chat_session \<Rightarrow> bool" where
  "may_lose_child s t \<longleftrightarrow> se_pending t = se_pending s \<and> se_stdin t = se_stdin s \<and> (se_child t \<longrightarrow> se_child s)"

lemma may_lose_child_ok: "may_lose_child s t \<Longrightarrow> session_ok s \<Longrightarrow> session_ok t"
  by (auto simp: may_lose_child_def session_ok_def)

lemma may_lose_child_live: "may_lose_child s (snd (live_child status s))"
  by (simp add: may_lose_child_def live_child_def split: child_status.split)

lemma may_lose_child_core: "may_lose_child s t \<Longrightarrow> same_core t u \<Longrightarrow> may_lose_child s u"
  by (simp add: may_lose_child_def same_core_def)

lemma send_write_frame: "may_lose_child s (fst (snd (send_message_write S status w bs s)))"
proof -
  obtain r s1 where l: "live_child status s = (r, s1)" by fastforce
  have m: "may_lose_child s s1" using may_lose_child_live [of s status] l by simp
  have t: "same_core s1 (hold_turn (settle_typed bs s1))"
    by (rule same_core_trans [OF settle_typed_frame settle_by_command_frame(5)])
  have r: "same_core s1 (release_turn (hold_turn (settle_typed bs s1)))"
    by (rule same_core_trans [OF t settle_by_command_frame(4)])
  have "may_lose_child s s" by (simp add: may_lose_child_def)
  then show ?thesis using l m may_lose_child_core [OF m t] may_lose_child_core [OF m r]
    by (cases r; cases w) (simp_all add: send_message_write_def Let_def)
qed

lemma interrupt_frame: "may_lose_child s (fst (snd (interrupt status w n s)))"
proof -
  obtain r s1 where l: "(if se_child s then live_child status s else (Inr (), s)) = (r, s1)" by fastforce
  then have "may_lose_child s s1"
    using may_lose_child_live [of s status] by (auto simp: may_lose_child_def split: if_splits)
  then show ?thesis by (cases r; cases w) (simp_all add: interrupt_def l Let_def)
qed

lemma session_ok_step:
  assumes "session_ok s"
  shows "session_ok (session_step R s a)"
proof (cases a)
  case (Read io line)
  with assms show ?thesis using session_ok_read [of s R io line] by (simp add: session_step_def)
next
  case (Send_write status w bs)
  with may_lose_child_ok [OF send_write_frame assms] show ?thesis by (simp add: session_step_def)
next
  case (Send_done bs)
  with assms show ?thesis by (simp add: session_step_def send_message_done_def session_ok_core [OF settle_by_command_frame(6)])
next
  case (Answer status w tid i answer)
  with assms show ?thesis by (simp add: session_step_def session_ok_submit)
next
  case (Interrupt status w n)
  with may_lose_child_ok [OF interrupt_frame assms] show ?thesis by (simp add: session_step_def)
next
  case (Start rendered e instance_id resume n seeded)
  have ok: "session_ok (session_started instance_id resume n seeded s)"
    using assms by (simp add: session_ok_def session_started_def)
  with session_ok_core [OF send_soft_impose_frame] Start show ?thesis
    by (simp add: session_step_def session_start_def Let_def split: option.split)
next
  case Stop
  then show ?thesis by (simp add: session_step_def session_ok_def session_stop_def release_turn_def)
qed (use assms in \<open>simp_all add: session_step_def session_ok_def\<close>)

interpretation session: invariant_machine "session_new n q" "session_step R" session_ok for n q R
  by unfold_locales (simp add: session_ok_def session_new_def, rule session_ok_step)

section \<open>Answering questions\<close>

text \<open>C8. In every reachable state of a session, answering a question never panics; a failed answer leaves
  every pending question as it was and has written nothing, unless only the flush failed; an accepted answer goes
  to a question that was open, and either fills its slot and writes nothing, or was the last one: then the entry
  is gone and its one complete response was written.\<close>

theorem answer_all_or_nothing:
  assumes "s = run_steps (session_step R) (session_new n q) actions"
    and "submit_question_answer S status w tid i a s = (r, s', effs)"
  shows "case r of
      Panicked \<Rightarrow> False
    | Failed m \<Rightarrow> se_pending s' = se_pending s \<and> (effs = [] \<or> (\<exists>m. w = Flush_Error m))
    | Done \<Rightarrow> \<exists>e. se_pending s tid = Some e \<and> i < length (pa_questions e) \<and> pa_answers e ! i = None \<and>
        (let e' = e \<lparr> pa_answers := (pa_answers e)[i := Some a] \<rparr> in
         if None \<in> set (pa_answers e') then se_pending s' = (se_pending s)(tid \<mapsto> e') \<and> effs = []
         else se_pending s' = (se_pending s)(tid := None) \<and>
           (\<exists>response. build_ask_user_response_multi e' = Some (Inr response) \<and> effs = [Wrote response]))"
  by (rule submit_cases [OF _ assms(2)]) (simp add: assms(1) session.inv_run)

text \<open>Collecting the answers of questions with different texts.\<close>

lemma bt_insert_map_of: "map_of (bt_insert k v m) = (map_of m)(k \<mapsto> v)"
proof (induction k v m rule: bt_insert.induct)
  case (2 k v j w m)
  then show ?case by (auto simp: fun_eq_iff)
qed simp

lemma collect_answers_distinct:
  assumes "distinct (map fst qs)" "\<forall>k \<in> fst ` set qs. map_of acc k = None"
  shows "\<exists>m. collect_answers qs acc = Some m \<and>
    map_of m = (\<lambda>k. case map_of qs k of Some v \<Rightarrow> Some (JStr v) | None \<Rightarrow> map_of acc k)"
  using assms
proof (induction qs arbitrary: acc)
  case (Cons kv qs)
  obtain k v where kv: "kv = (k, v)" by fastforce
  have "\<exists>m. collect_answers qs (bt_insert k (JStr v) acc) = Some m \<and>
      map_of m = (\<lambda>j. case map_of qs j of Some v \<Rightarrow> Some (JStr v) | None \<Rightarrow> map_of (bt_insert k (JStr v) acc) j)"
    by (rule Cons.IH) (use Cons.prems kv in \<open>auto simp: bt_insert_map_of\<close>)
  moreover have "map_of qs k = None" using Cons.prems(1) kv by (simp add: map_of_eq_None_iff)
  ultimately obtain m where m: "collect_answers qs (bt_insert k (JStr v) acc) = Some m" and none: "map_of qs k = None"
    and f: "map_of m = (\<lambda>j. case map_of qs j of Some v \<Rightarrow> Some (JStr v) | None \<Rightarrow> map_of (bt_insert k (JStr v) acc) j)" by blast
  have "map_of m = (\<lambda>j. case map_of (kv # qs) j of Some v \<Rightarrow> Some (JStr v) | None \<Rightarrow> map_of acc j)"
    unfolding f using none by (auto simp: kv bt_insert_map_of fun_eq_iff split: option.split)
  with m Cons.prems(2) show ?case by (simp add: kv)
qed simp

lemma collect_answers_not_distinct:
  assumes "\<not> distinct (map fst qs) \<or> (\<exists>k \<in> fst ` set qs. map_of acc k \<noteq> None)"
  shows "collect_answers qs acc = None"
  using assms
proof (induction qs acc rule: collect_answers.induct)
  case (2 key v qs acc)
  show ?case
  proof (cases "map_of acc key = None")
    case True
    with "2.prems" have "\<not> distinct (map fst qs) \<or> (\<exists>k \<in> fst ` set qs. map_of (bt_insert key (JStr v) acc) k \<noteq> None)"
      by (auto simp: bt_insert_map_of)
    with 2(1) True show ?thesis by simp
  qed simp
qed simp

text \<open>The entry of a request with some of its questions answered.\<close>

definition answered_entry :: "control_request \<Rightarrow> ask_question list \<Rightarrow> (nat \<Rightarrow> rstr) \<Rightarrow> nat set \<Rightarrow> partial_answers" where
  "answered_entry ctrl qs ans A =
     \<lparr> pa_request = ctrl, pa_questions = qs, pa_answers = map (\<lambda>i. if i \<in> A then Some (ans i) else None) [0..<length qs] \<rparr>"

lemma answered_entry_none: "answered_entry ctrl qs ans {} = partial_new ctrl qs"
  by (simp add: answered_entry_def partial_new_def map_replicate_const)

lemma answered_entry_fill:
  assumes "i < length qs" "i \<notin> A"
  shows "validate_slot (answered_entry ctrl qs ans A) i tid = Inr ()"
    and "answered_entry ctrl qs ans A \<lparr> pa_answers := (pa_answers (answered_entry ctrl qs ans A))[i := Some (ans i)] \<rparr>
         = answered_entry ctrl qs ans (insert i A)"
proof -
  show "validate_slot (answered_entry ctrl qs ans A) i tid = Inr ()"
    using assms by (simp add: validate_slot_def answered_entry_def)
  have "(map (\<lambda>i. if i \<in> A then Some (ans i) else None) [0..<length qs])[i := Some (ans i)]
      = map (\<lambda>j. if j \<in> insert i A then Some (ans j) else None) [0..<length qs]"
    by (rule nth_equalityI) (use assms in \<open>auto simp: nth_list_update\<close>)
  then show "answered_entry ctrl qs ans A \<lparr> pa_answers := (pa_answers (answered_entry ctrl qs ans A))[i := Some (ans i)] \<rparr>
         = answered_entry ctrl qs ans (insert i A)"
    unfolding answered_entry_def by simp
qed

lemma answered_entry_open: "None \<in> set (pa_answers (answered_entry ctrl qs ans A)) \<longleftrightarrow> (\<exists>i < length qs. i \<notin> A)"
  by (auto simp: answered_entry_def)

lemma live_child_running: "se_child s \<Longrightarrow> live_child Running s = (Inr (), s)"
  by (simp add: live_child_def)

lemma submit_open:
  assumes "se_child s" "int (length (ans i)) \<le> MAX_ASK_USER_ANSWER_LEN"
    and "se_pending s tid = Some (answered_entry ctrl qs ans A)" "i < length qs" "i \<notin> A" "\<exists>j < length qs. j \<notin> insert i A"
  shows "snd (submit_question_answer S Running w tid i (ans i) s) =
    (s \<lparr> se_pending := (se_pending s)(tid \<mapsto> answered_entry ctrl qs ans (insert i A)) \<rparr>, [])"
proof -
  have "None \<in> set (pa_answers (answered_entry ctrl qs ans (insert i A)))"
    using assms(6) unfolding answered_entry_open .
  then show ?thesis using assms(1-3) answered_entry_fill [OF assms(4,5), of ctrl ans]
    by (simp add: submit_question_answer_def live_child_running fill_slot_def Let_def)
qed

lemma submit_last:
  assumes "se_child s" "se_stdin s" "int (length (ans i)) \<le> MAX_ASK_USER_ANSWER_LEN"
    and "se_pending s tid = Some (answered_entry ctrl qs ans A)" "i < length qs" "i \<notin> A" "\<not> (\<exists>j < length qs. j \<notin> insert i A)"
    and "build_ask_user_response_multi (answered_entry ctrl qs ans (insert i A)) = Some (Inr response)"
    and "int (length (json_print S response)) \<le> MAX_ASK_USER_WIRE_BYTES"
  shows "snd (snd (submit_question_answer S Running Written tid i (ans i) s)) = [Wrote response]"
proof -
  have "None \<notin> set (pa_answers (answered_entry ctrl qs ans (insert i A)))"
    using assms(7) unfolding answered_entry_open .
  then show ?thesis using assms(1-4,8,9) answered_entry_fill [OF assms(5,6), of ctrl ans]
    by (simp add: submit_question_answer_def live_child_running fill_slot_def submit_completed_def Let_def)
qed

lemma answer_rest:
  assumes "se_child s" "se_stdin s" "\<forall>i < length qs. int (length (ans i)) \<le> MAX_ASK_USER_ANSWER_LEN"
    and "build_ask_user_response_multi (answered_entry ctrl qs ans {..<length qs}) = Some (Inr response)"
    and "int (length (json_print R response)) \<le> MAX_ASK_USER_WIRE_BYTES"
    and "se_pending s tid = Some (answered_entry ctrl qs ans A)"
    and "distinct js" "js \<noteq> []" "set js \<inter> A = {}" "set js \<union> A = {..<length qs}"
  shows "session_effects R (map (\<lambda>i. Answer Running Written tid i (ans i)) js) s = [Wrote response]"
  using assms
proof (induction js arbitrary: s A)
  case (Cons i js)
  have i: "i < length qs" "i \<notin> A" using Cons.prems(9,10) by auto
  have len: "int (length (ans i)) \<le> MAX_ASK_USER_ANSWER_LEN" using Cons.prems(3) i(1) by blast
  show ?case
  proof (cases "js = []")
    case True
    with Cons.prems(10) have all: "insert i A = {..<length qs}" by simp
    then have "\<not> (\<exists>j < length qs. j \<notin> insert i A)" by auto
    from submit_last [OF Cons.prems(1,2) len Cons.prems(6) i this _ Cons.prems(5)] Cons.prems(4) all
    show ?thesis by (simp add: True)
  next
    case False
    have "hd js \<in> set js" using False by simp
    then have "\<exists>j < length qs. j \<notin> insert i A" using Cons.prems(7,9,10) by (intro exI [of _ "hd js"]) auto
    note opn = submit_open [OF Cons.prems(1) len Cons.prems(6) i this, of R Written]
    define s' where "s' = s \<lparr> se_pending := (se_pending s)(tid \<mapsto> answered_entry ctrl qs ans (insert i A)) \<rparr>"
    have "session_effects R (map (\<lambda>i. Answer Running Written tid i (ans i)) js) s' = [Wrote response]"
    proof (rule Cons.IH)
      show "set js \<inter> insert i A = {}" "set js \<union> insert i A = {..<length qs}" using Cons.prems(7,9,10) by auto
    qed (use Cons.prems False in \<open>simp_all add: s'_def\<close>)
    with opn show ?thesis by (simp add: session_step_def s'_def)
  qed
qed simp

text \<open>The full response.\<close>

definition response_parts :: "control_request \<Rightarrow> json \<Rightarrow> json" where
  "response_parts ctrl updated = control_response_json (cr_request_id ctrl) (allow_decision updated)"

lemma full_response:
  assumes input: "cr_input ctrl = JObj fs" and dist: "distinct (map aq_question qs)"
  obtains updated where "build_ask_user_response_multi (answered_entry ctrl qs ans {..<length qs}) = Some (Inr (response_parts ctrl updated))"
    and "\<forall>i < length qs. as_str (jat (jat updated ''answers'') (aq_question (qs ! i))) = Some (ans i)"
    and "\<forall>k. k \<noteq> ''answers'' \<longrightarrow> jat updated k = jat (cr_input ctrl) k"
proof -
  let ?kvs = "zip (map aq_question qs) (map (unwrap_or []) (pa_answers (answered_entry ctrl qs ans {..<length qs})))"
  have len: "length (pa_answers (answered_entry ctrl qs ans {..<length qs})) = length qs" by (simp add: answered_entry_def)
  have keys: "map fst ?kvs = map aq_question qs" by (simp add: len)
  obtain m where m: "collect_answers ?kvs [] = Some m"
    and look: "map_of m = (\<lambda>k. case map_of ?kvs k of Some v \<Rightarrow> Some (JStr v) | None \<Rightarrow> map_of [] k)"
    using collect_answers_distinct [of ?kvs "[]"] keys dist by auto
  define updated where "updated = JObj (bt_insert ''answers'' (JObj m) fs)"
  have at: "jat updated ''answers'' = JObj m" by (simp add: updated_def jat_def json_get_def bt_insert_map_of)
  have "as_str (jat (JObj m) (aq_question (qs ! i))) = Some (ans i)" if "i < length qs" for i
  proof -
    have "?kvs ! i = (aq_question (qs ! i), ans i)" using that len by (simp add: answered_entry_def unwrap_or_def)
    then have "(aq_question (qs ! i), ans i) \<in> set ?kvs" using that len by (metis length_map length_zip min.idem nth_mem)
    with keys dist have "map_of ?kvs (aq_question (qs ! i)) = Some (ans i)" by (simp add: map_of_is_SomeI)
    then show ?thesis by (simp add: jat_def json_get_def look as_str_def)
  qed
  moreover have "build_ask_user_response_multi (answered_entry ctrl qs ans {..<length qs}) = Some (Inr (response_parts ctrl updated))"
    using m by (simp add: build_ask_user_response_multi_def answered_entry_def input response_parts_def updated_def)
  moreover have "\<forall>k. k \<noteq> ''answers'' \<longrightarrow> jat updated k = jat (cr_input ctrl) k"
    by (simp add: updated_def jat_def json_get_def bt_insert_map_of input)
  ultimately show thesis using that [of updated] by (simp add: at)
qed

text \<open>C20. However the user orders the answers to the questions of a request: nothing is written before the last
  one, and then one response, which allows the call with each question's own answer under its text and with every
  other field of the input as Claude sent it. The questions have different texts, each answer and the response are
  within their size caps, the child runs and takes what is written, each question is answered once, and no other
  action comes between the answers.\<close>

theorem answers_in_any_order:
  assumes "se_child s" "se_stdin s" "se_pending s tid = Some (partial_new ctrl qs)"
    and "cr_input ctrl = JObj fs" "distinct (map aq_question qs)" "qs \<noteq> []"
    and "distinct js" "set js = {..<length qs}"
    and "\<forall>i < length qs. int (length (ans i)) \<le> MAX_ASK_USER_ANSWER_LEN"
    and "\<forall>updated. int (length (json_print R (response_parts ctrl updated))) \<le> MAX_ASK_USER_WIRE_BYTES \<or>
           build_ask_user_response_multi (answered_entry ctrl qs ans {..<length qs}) \<noteq> Some (Inr (response_parts ctrl updated))"
  shows "\<exists>updated. session_effects R (map (\<lambda>i. Answer Running Written tid i (ans i)) js) s = [Wrote (response_parts ctrl updated)] \<and>
    (\<forall>i < length qs. as_str (jat (jat updated ''answers'') (aq_question (qs ! i))) = Some (ans i)) \<and>
    (\<forall>k. k \<noteq> ''answers'' \<longrightarrow> jat updated k = jat (cr_input ctrl) k)"
proof -
  obtain updated where full: "build_ask_user_response_multi (answered_entry ctrl qs ans {..<length qs}) = Some (Inr (response_parts ctrl updated))"
    and parts: "\<forall>i < length qs. as_str (jat (jat updated ''answers'') (aq_question (qs ! i))) = Some (ans i)"
      "\<forall>k. k \<noteq> ''answers'' \<longrightarrow> jat updated k = jat (cr_input ctrl) k"
    by (rule full_response [OF assms(4,5), of ans])
  have "0 \<in> set js" unfolding assms(8) using assms(6) by simp
  then have "js \<noteq> []" by (rule length_pos_if_in_set [THEN length_greater_0_conv [THEN iffD1]])
  have size: "int (length (json_print R (response_parts ctrl updated))) \<le> MAX_ASK_USER_WIRE_BYTES"
    using assms(10) [THEN spec [of _ updated]] full by simp
  have start: "se_pending s tid = Some (answered_entry ctrl qs ans {})" by (simp add: answered_entry_none assms(3))
  have "session_effects R (map (\<lambda>i. Answer Running Written tid i (ans i)) js) s = [Wrote (response_parts ctrl updated)]"
    by (rule answer_rest [OF assms(1,2,9) full size start assms(7) \<open>js \<noteq> []\<close>]) (simp_all add: assms(8))
  then show ?thesis using parts by (intro exI [of _ updated] conjI)
qed

section \<open>Questions with the same text\<close>

lemma build_answers_duplicate:
  assumes "entry_ok tid e" "\<not> distinct (map aq_question (pa_questions e))"
  shows "build_ask_user_response_multi (e \<lparr> pa_answers := (pa_answers e)[i := x] \<rparr>) = Some (Inl DUPLICATE_QUESTION)"
proof -
  have len: "length (pa_answers e) = length (pa_questions e)" using assms(1) by (simp add: entry_ok_def)
  have "collect_answers (zip (map aq_question (pa_questions e)) (map (unwrap_or []) ((pa_answers e)[i := x]))) [] = None"
    by (rule collect_answers_not_distinct) (simp add: len assms(2))
  then show ?thesis by (simp add: build_ask_user_response_multi_def)
qed

lemma duplicate_submit:
  assumes ok: "session_ok s" and e: "se_pending s tid = Some e" and dup: "\<not> distinct (map aq_question (pa_questions e))"
    and run: "submit_question_answer R status w tid i a s = (r, s', effs)"
  shows "effs = [] \<and> (\<exists>e'. se_pending s' tid = Some e' \<and> pa_questions e' = pa_questions e)"
proof -
  have built: "build_ask_user_response_multi (e \<lparr> pa_answers := (pa_answers e)[i := Some a] \<rparr>) = Some (Inl DUPLICATE_QUESTION)"
    by (rule build_answers_duplicate [OF session_ok_entry [OF ok e] dup])
  show ?thesis
    using submit_forms [OF run]
  proof (elim disjE exE conjE)
    fix p s2
    assume f: "fill_slot tid i a s = (Inr (Completed p), s2)" and sub: "submit_completed R w tid i p s2 = (r, s', effs)"
    from f e have p: "p = e \<lparr> pa_answers := (pa_answers e)[i := Some a] \<rparr>" by (auto elim: fill_slot_Completed)
    from sub built show ?thesis by (auto simp: submit_completed_def p restore_partial_def Let_def)
  qed (use e in \<open>auto elim!: fill_slot_Pending\<close>)
qed

text \<open>A request that asks two questions with the same text can never be answered: whatever is sent for it, in
  whatever order, nothing is written to Claude and the request stays pending.\<close>

theorem duplicate_questions_never_answered:
  assumes "session_ok s" and "se_pending s tid = Some e" and "\<not> distinct (map aq_question (pa_questions e))"
  shows "session_effects R (map (\<lambda>(status, w, i, a). Answer status w tid i a) xs) s = [] \<and>
    se_pending (run_steps (session_step R) s (map (\<lambda>(status, w, i, a). Answer status w tid i a) xs)) tid \<noteq> None"
  using assms
proof (induction xs arbitrary: s e)
  case (Cons x xs)
  obtain status w i a where x: "x = (status, w, i, a)" by (metis prod_cases4)
  obtain r s' effs where run: "submit_question_answer R status w tid i a s = (r, s', effs)" by (metis prod_cases3)
  from duplicate_submit [OF Cons.prems run] obtain e' where e': "effs = []" "se_pending s' tid = Some e'" "pa_questions e' = pa_questions e"
    by blast
  have "session_ok s'" using session_ok_submit [OF Cons.prems(1), of R status w tid i a] run by simp
  from Cons.IH [OF this e'(2)] e' Cons.prems(3) run show ?case by (simp add: x session_step_def)
qed simp

section \<open>Stopping\<close>

lemma await_exit_le:
  assumes "\<forall>t. late t \<le> d" "now \<le> deadline"
  shows "await_exit poll late deadline now \<le> deadline + STOP_POLL_MS + d"
  using assms
proof (induction poll late deadline now rule: await_exit.induct)
  case (1 poll late deadline now)
  show ?case
  proof (cases "poll now = Still_running \<and> now < deadline")
    case True
    define later where "later = now + STOP_POLL_MS + late now"
    have step: "await_exit poll late deadline now = await_exit poll late deadline later"
      using True by (simp add: await_exit.simps [of poll late deadline now] later_def)
    have bound: "later \<le> deadline + STOP_POLL_MS + d" using True "1.prems"(1) by (simp add: later_def add_mono less_imp_le)
    show ?thesis
    proof (cases "later \<le> deadline")
      case True
      with \<open>poll now = Still_running \<and> now < deadline\<close> "1.IH" "1.prems"(1) step show ?thesis by (simp add: later_def)
    next
      case False
      then have "await_exit poll late deadline later = later"
        by (simp add: await_exit.simps [of poll late deadline later] split: child_poll.split)
      with step bound show ?thesis by simp
    qed
  next
    case False
    then have "await_exit poll late deadline now = now"
      by (auto simp: await_exit.simps [of poll late deadline now] split: child_poll.split)
    with "1.prems" show ?thesis by simp
  qed
qed

lemma await_reader_le:
  assumes "\<forall>t. late t \<le> d"
  shows "await_reader finished late deadline now \<le> max now (deadline + READER_POLL_MS + d)"
  using assms
proof (induction finished late deadline now rule: await_reader.induct)
  case (1 finished late deadline now)
  show ?case
  proof (cases "\<not> finished now \<and> now < deadline")
    case True
    define later where "later = now + READER_POLL_MS + late now"
    have "later \<le> deadline + READER_POLL_MS + d" using True "1.prems" by (simp add: later_def add_mono less_imp_le)
    moreover have "await_reader finished late deadline later \<le> max later (deadline + READER_POLL_MS + d)"
      using "1.IH" True "1.prems" by (simp add: later_def)
    ultimately show ?thesis
      using True by (simp add: await_reader.simps [of finished late deadline now] later_def)
  next
    case False
    then show ?thesis by (auto simp: await_reader.simps [of finished late deadline now])
  qed
qed

lemma await_readers_le:
  assumes "\<forall>t. late t \<le> d"
  shows "await_readers hs late deadline now \<le> max now (deadline + READER_POLL_MS + d)"
proof (induction hs arbitrary: now)
  case (Cons finished hs)
  from Cons [of "await_reader finished late deadline now"] await_reader_le [OF assms, of finished deadline now]
  show ?case by simp
qed simp

lemma await_piped_le:
  assumes "\<forall>t. late t \<le> d" "now \<le> deadline"
  shows "fst (await_piped poll late deadline now) \<le> deadline + TIMEOUT_POLL_INTERVAL_MS + d"
  using assms
proof (induction poll late deadline now rule: await_piped.induct)
  case (1 poll late deadline now)
  show ?case
  proof (cases "poll now = Still_running \<and> now < deadline")
    case True
    define later where "later = now + TIMEOUT_POLL_INTERVAL_MS + late now"
    have step: "await_piped poll late deadline now = await_piped poll late deadline later"
      using True by (simp add: await_piped.simps [of poll late deadline now] later_def)
    have bound: "later \<le> deadline + TIMEOUT_POLL_INTERVAL_MS + d" using True "1.prems"(1) by (simp add: later_def add_mono less_imp_le)
    show ?thesis
    proof (cases "later \<le> deadline")
      case le: True
      with "1.IH" True "1.prems" show ?thesis by (simp add: step later_def)
    next
      case False
      then have "fst (await_piped poll late deadline later) = later"
        by (cases "poll later") (simp_all add: await_piped.simps [of poll late deadline later])
      with bound show ?thesis by (simp add: step)
    qed
  next
    case False
    then have "fst (await_piped poll late deadline now) = now"
      by (cases "poll now") (simp_all add: await_piped.simps [of poll late deadline now])
    with "1.prems" show ?thesis by simp
  qed
qed

lemma exited_child_output_le:
  assumes "\<forall>t. late t \<le> d"
  shows "fst (exited_child_output late closed now) \<le> now + PIPE_DRAIN_GRACE_MS + d"
  using assms by (auto simp: exited_child_output_def split: option.split)

lemma reap_deadline: "REAP_DEADLINE_MS = 24000"
  by (simp add: REAP_DEADLINE_MS_def REAP_EXIT_WAIT_TENTHS_def REAP_KILL_WAIT_TENTHS_def REAP_TRANSPORT_MARGIN_MS_def)

lemma wait_for_piped_child_le:
  assumes "\<forall>t. late t \<le> d"
  shows "wait_for_piped_child X late timeout start
    \<le> start + timeout + TIMEOUT_POLL_INTERVAL_MS + d + max (rx_kill_wait X) (2 * (PIPE_DRAIN_GRACE_MS + d))"
proof -
  obtain now p where w: "await_piped (rx_poll X) late (start + timeout) start = (now, p)" by fastforce
  have now: "now \<le> start + timeout + TIMEOUT_POLL_INTERVAL_MS + d"
    using await_piped_le [OF assms, of start "start + timeout" "rx_poll X"] w by simp
  obtain now1 b where o: "exited_child_output late (rx_stdout_closed X) now = (now1, b)" by fastforce
  have "now1 \<le> now + PIPE_DRAIN_GRACE_MS + d"
    using exited_child_output_le [OF assms, of "rx_stdout_closed X" now] o by simp
  moreover have "fst (exited_child_output late (rx_stderr_closed X) now1) \<le> now1 + PIPE_DRAIN_GRACE_MS + d"
    by (rule exited_child_output_le [OF assms])
  ultimately have "wait_for_piped_child X late timeout start \<le> now + max (rx_kill_wait X) (2 * (PIPE_DRAIN_GRACE_MS + d))"
  proof (cases p)
    case Reaped
    assume "now1 \<le> now + PIPE_DRAIN_GRACE_MS + d"
      "fst (exited_child_output late (rx_stderr_closed X) now1) \<le> now1 + PIPE_DRAIN_GRACE_MS + d"
    then have "(if b then fst (exited_child_output late (rx_stderr_closed X) now1) else now1) \<le> now + 2 * (PIPE_DRAIN_GRACE_MS + d)"
      by simp
    then have "(if b then fst (exited_child_output late (rx_stderr_closed X) now1) else now1)
        \<le> now + max (rx_kill_wait X) (2 * (PIPE_DRAIN_GRACE_MS + d))" by linarith
    then show ?thesis by (cases b) (simp_all add: wait_for_piped_child_def w o Reaped)
  qed (simp_all add: wait_for_piped_child_def w o)
  with now show ?thesis by linarith
qed

text \<open>C34. Stopping a session returns: if no sleep or wait oversleeps by more than d milliseconds, the container exec
  that reaps the instance is prepared within r and, when it has to be killed, is gone within k, at most r, the
  larger of k and 10000 + 2 d, and 29310 + 3 d milliseconds after its start, whatever the exec, the
  child and however many reader threads do.\<close>

theorem stop_returns:
  assumes "\<forall>t. late t \<le> d" and "\<forall>X. reap = Some X \<longrightarrow> rx_prepare X \<le> r \<and> rx_kill_wait X \<le> k"
  shows "stop_returns_at reap child readers late now \<le> now + r + max k (10000 + 2 * d) + 29310 + 3 * d"
proof -
  define reaped where "reaped = reap_returns_at reap late now"
  define mid where "mid = (case child of Some poll \<Rightarrow> await_exit poll late (reaped + STOP_DEADLINE_MS) reaped | None \<Rightarrow> reaped)"
  have "reaped \<le> now + r + 24050 + d + max k (10000 + 2 * d)"
  proof (cases reap)
    case (Some X)
    with assms(2) have prepare: "rx_prepare X \<le> r" and kill: "rx_kill_wait X \<le> k" by simp_all
    have "max (rx_kill_wait X) (2 * (5000 + d)) \<le> max k (10000 + 2 * d)" using kill by (intro max.mono) simp_all
    with prepare wait_for_piped_child_le [OF assms(1), of X 24000 "now + rx_prepare X",
        unfolded PIPE_DRAIN_GRACE_MS_def TIMEOUT_POLL_INTERVAL_MS_def]
    have "wait_for_piped_child X late 24000 (now + rx_prepare X) \<le> now + r + 24050 + d + max k (10000 + 2 * d)" by linarith
    moreover have "now + rx_prepare X \<le> now + r + 24050 + d + max k (10000 + 2 * d)" using prepare by linarith
    ultimately show ?thesis by (simp only: reaped_def reap_returns_at_def run_reap_returns_at_def Some Let_def option.case reap_deadline simp_thms split: if_split)
  qed (simp add: reaped_def reap_returns_at_def)
  moreover have "mid \<le> reaped + STOP_DEADLINE_MS + STOP_POLL_MS + d"
    using await_exit_le [OF assms(1), of reaped "reaped + STOP_DEADLINE_MS"] by (auto simp: mid_def split: option.split)
  moreover have "stop_returns_at reap child readers late now = await_readers readers late (mid + READER_GRACE_MS) mid"
    by (simp only: stop_returns_at_def mid_def reaped_def Let_def)
  moreover have "await_readers readers late (mid + READER_GRACE_MS) mid \<le> max mid (mid + READER_GRACE_MS + READER_POLL_MS + d)"
    by (rule await_readers_le [OF assms(1)])
  ultimately show ?thesis
    by (simp add: STOP_DEADLINE_MS_def STOP_POLL_MS_def READER_GRACE_MS_def READER_POLL_MS_def)
qed

section \<open>What is written\<close>

text \<open>Reading back an object of the \<open>json!\<close> macro.\<close>

lemma map_of_json_object: "map_of (foldl (\<lambda>m (k, v). bt_insert k v m) m0 fs) k = (case map_of (rev fs) k of Some v \<Rightarrow> Some v | None \<Rightarrow> map_of m0 k)"
proof (induction fs arbitrary: m0)
  case (Cons kv fs)
  obtain j v where kv: "kv = (j, v)" by fastforce
  show ?case using Cons [of "bt_insert j v m0"] by (auto simp: kv bt_insert_map_of map_add_def split: option.split)
qed simp

lemma jat_json_object: "jat (json_object fs) k = (case map_of (rev fs) k of Some v \<Rightarrow> v | None \<Rightarrow> JNull)"
  by (simp add: jat_def json_get_def json_object_def map_of_json_object split: option.split)

lemmas written_parts = jat_json_object control_response_json_def allow_decision_def build_user_message_def build_interrupt_payload_def
  build_set_model_request_def control_request_json_def build_tool_permission_response_def response_parts_def

definition is_set_model :: "effect \<Rightarrow> bool" where
  "is_set_model e = (case e of Wrote v \<Rightarrow> as_str (jat (jat v ''request'') ''subtype'') = Some SUBTYPE_SET_MODEL | _ \<Rightarrow> False)"

definition set_models :: "effect list \<Rightarrow> nat" where
  "set_models effs = length (filter is_set_model effs)"

lemma set_models_append [simp]: "set_models (xs @ ys) = set_models xs + set_models ys"
  by (simp add: set_models_def)

lemma set_models_Nil [simp]: "set_models [] = 0"
  by (simp add: set_models_def)

lemma jat_JNull [simp]: "jat JNull k = JNull"
  by (simp add: jat_def json_get_def)

lemma as_str_JNull [simp]: "as_str JNull = None"
  by (simp add: as_str_def)

lemma not_set_model [simp]:
  "\<not> is_set_model (emit_sanitized_chunk R c)" "\<not> is_set_model (Notified ev)"
  "\<not> is_set_model (Wrote (control_response_json rid d))" "\<not> is_set_model (Wrote (build_user_message bs))"
  "\<not> is_set_model (Wrote (build_interrupt_payload rid))"
  by (simp_all add: is_set_model_def emit_sanitized_chunk_def written_parts as_str_def SUBTYPE_SET_MODEL_def)

lemma set_models_Cons [simp]: "\<not> is_set_model e \<Longrightarrow> set_models (e # es) = set_models es"
  by (simp add: set_models_def)

lemma set_models_map_emit [simp]: "set_models (map (emit_sanitized_chunk R) cs) = 0"
  by (induction cs) simp_all

text \<open>A step imposes a model only on a session that is not settled, and settles it.\<close>

definition imposes_ok :: "chat_session \<Rightarrow> chat_session \<times> effect list \<Rightarrow> bool" where
  "imposes_ok s r \<longleftrightarrow> set_models (snd r) + (if se_settled (fst r) then 0 else 1) \<le> (if se_settled s then 0 else (1::nat))"

lemma imposes_ok_quiet: "set_models effs = 0 \<Longrightarrow> (se_settled s \<Longrightarrow> se_settled s') \<Longrightarrow> imposes_ok s (s', effs)"
  by (simp add: imposes_ok_def)

lemma imposes_ok_trans: "imposes_ok s (s', effs) \<Longrightarrow> imposes_ok s' (s'', effs') \<Longrightarrow> imposes_ok s (s'', effs @ effs')"
  by (simp add: imposes_ok_def split: if_splits)

lemma send_soft_impose_imposes: "imposes_ok s (snd (send_soft_impose model w s))"
  by (auto simp: send_soft_impose_def settle_def imposes_ok_def Let_def set_models_def split: prod.splits option.splits)

lemma soft_impose_imposes: "imposes_ok s (soft_impose_step cfg line cs w s)"
  by (simp add: soft_impose_step_def send_soft_impose_imposes imposes_ok_quiet split: option.split)

lemma refused_settled: "se_settled (snd (refused_model_command line s)) = se_settled s"
  by (auto simp: refused_model_command_def input_started_def take_command_reply_def Let_def split: option.splits prod.splits if_splits)

lemma note_transcript_settled [simp]: "se_settled (note_transcript cs s) = se_settled s"
  by (induction cs arbitrary: s) (auto simp: note_transcript_def split: option.split)

lemma observe_settled [simp]: "se_settled (observe_chunks cs s) = se_settled s"
  by (simp add: observe_chunks_def release_turn_def Let_def)

lemma settle_command_settled [simp]: "se_settled (settle_by_command s)"
  by (simp add: settle_by_command_def settle_def)

lemma drain_imposes: "imposes_ok s (snd (drain_queued_message (emit_sanitized_chunk R) sid w s))"
  by (auto simp: drain_queued_message_def queue_take_def write_and_emit_drained_message_def imposes_ok_def Let_def
      split: option.splits write_result.splits)

lemma reader_output_imposes:
  assumes "reader_output_line R io parsed s = (s', effs, goes_on)"
  shows "imposes_ok s (s', effs)"
proof (rule reader_output_parts [OF assms])
  fix p cs lg s1 e1 refusal s2 d s4 e4
  define s3 where "s3 = note_transcript cs (observe_chunks cs s2)"
  define refused where "refused = (case refusal of Some e \<Rightarrow> [emit_sanitized_chunk R (Error_Chunk e False)] | None \<Rightarrow> [])"
  define ended where "ended = (case unless_next_turn_started (turn_end_event cs) d of Some e \<Rightarrow> [Notified e] | None \<Rightarrow> [])"
  assume 1: "soft_impose_step (re_impose R) parsed cs (io_impose io) (s \<lparr> se_parser := p \<rparr>) = (s1, e1)"
    and 2: "refused_model_command parsed s1 = (refusal, s2)"
    and 4: "(case result_session_id cs of
        Some session_id \<Rightarrow> drain_queued_message (emit_sanitized_chunk R) session_id (io_write io) (note_transcript cs (observe_chunks cs s2))
      | None \<Rightarrow> (False, note_transcript cs (observe_chunks cs s2), [])) = (d, s4, e4)"
    and s': "s' = (if d then message_written s4 else s4)"
    and effs: "effs = e1 @ (case refusal of Some e \<Rightarrow> [emit_sanitized_chunk R (Error_Chunk e False)] | None \<Rightarrow> []) @
      map (emit_sanitized_chunk R) cs @ e4 @
      (case unless_next_turn_started (turn_end_event cs) d of Some e \<Rightarrow> [Notified e] | None \<Rightarrow> [])"
  have a: "imposes_ok s (s1, e1)"
    using soft_impose_imposes [of "s \<lparr> se_parser := p \<rparr>" "re_impose R" parsed cs "io_impose io"] 1 by (simp add: imposes_ok_def)
  have b: "imposes_ok s1 (s3, refused @ map (emit_sanitized_chunk R) cs)"
    using refused_settled [of parsed s1] 2 by (intro imposes_ok_quiet) (simp_all add: refused_def s3_def split: option.split)
  have c: "imposes_ok s3 (s4, e4)"
    using 4 drain_imposes [of s3 R _ "io_write io"] unfolding s3_def [symmetric]
    by (cases "result_session_id cs") (simp_all add: imposes_ok_quiet, metis snd_conv)
  have d: "imposes_ok s4 (s', ended)"
    by (rule imposes_ok_quiet) (simp_all add: ended_def s' message_written_def hold_turn_def split: option.split)
  from imposes_ok_trans [OF imposes_ok_trans [OF imposes_ok_trans [OF a b] c] d]
  show "imposes_ok s (s', effs)" unfolding effs refused_def ended_def by simp
qed

lemma request_imposes: "reader_control_request R w ctrl s = (s', effs, goes_on) \<Longrightarrow> imposes_ok s (s', effs)"
  by (auto simp: reader_control_request_def Let_def release_turn_def imposes_ok_def build_tool_permission_response_def
      split: if_splits write_result.splits)

lemma reader_line_imposes:
  assumes "reader_line R io line s = (s', effs, goes_on)"
  shows "imposes_ok s (s', effs)"
proof (cases line)
  case (Inl raw)
  with assms show ?thesis by (simp add: imposes_ok_def)
next
  case (Inr parsed)
  show ?thesis
  proof (cases "consume_control_response parsed s")
    case (Some t)
    with assms Inr show ?thesis by (auto simp: consume_control_response_def imposes_ok_def split: if_splits)
  next
    case None
    then show ?thesis using assms Inr
      by (cases "try_parse_control_request parsed")
        (auto intro: request_imposes reader_output_imposes imposes_ok_quiet split: if_splits)
  qed
qed

lemma reader_end_imposes: "imposes_ok s (reader_end R s)"
  by (simp add: reader_end_def release_turn_def Let_def imposes_ok_def)

lemma reader_step_imposes: "imposes_ok s (reader_step R io line s)"
proof (cases line)
  case None
  then show ?thesis by (simp add: reader_end_imposes imposes_ok_quiet)
next
  case (Some l)
  obtain s' effs goes_on where l: "reader_line R io l s = (s', effs, goes_on)" by (metis prod_cases3)
  obtain s'' effs' where e: "reader_end R s' = (s'', effs')" by fastforce
  have "imposes_ok s' (s'', effs')" using reader_end_imposes [of s' R] e by simp
  from reader_line_imposes [OF l] imposes_ok_trans [OF reader_line_imposes [OF l] this] e l Some
  show ?thesis by (simp add: imposes_ok_quiet)
qed

lemma send_write_imposes: "imposes_ok s (snd (send_message_write S status w bs s))"
proof -
  obtain r s1 where l: "live_child status s = (r, s1)" by fastforce
  then have s1: "se_settled s1 = se_settled s" by (auto simp: live_child_def split: if_splits child_status.splits)
  have typed: "se_settled s1 \<Longrightarrow> se_settled (settle_typed bs s1)"
    by (cases "\<exists>x. bs = [Text_Block x]") (auto simp: settle_typed_def split: list.split wire_content_block.split)
  then show ?thesis using l s1
    by (cases r; cases w) (simp_all add: send_message_write_def Let_def imposes_ok_quiet hold_turn_def release_turn_def)
qed

lemma submit_completed_effects:
  assumes "submit_completed S w tid i p s = (r, s', effs)"
  shows "effs = [] \<or> (\<exists>response. build_ask_user_response_multi p = Some (Inr response) \<and> effs = [Wrote response])"
  using assms by (auto simp: submit_completed_def Let_def split: option.splits sum.splits if_splits write_result.splits)

lemma submit_completed_settled: "submit_completed S w tid i p s = (r, s', effs) \<Longrightarrow> se_settled s' = se_settled s"
  by (auto simp: submit_completed_def Let_def hold_turn_def release_turn_def restore_partial_def
      split: option.splits sum.splits if_splits write_result.splits)

lemma build_response_form:
  "build_ask_user_response_multi p = Some (Inr response) \<Longrightarrow> \<exists>d. response = control_response_json (cr_request_id (pa_request p)) d"
  by (auto simp: build_ask_user_response_multi_def split: option.splits)

lemma submit_effects:
  assumes "submit_question_answer S status w tid i a s = (r, s', effs)"
  shows "effs = [] \<or> (\<exists>rid d. effs = [Wrote (control_response_json rid d)])"
  using submit_forms [OF assms]
proof (elim disjE exE conjE)
  fix p s2
  assume "submit_completed S w tid i p s2 = (r, s', effs)"
  from submit_completed_effects [OF this] show ?thesis using build_response_form [of p] by blast
qed simp_all

lemma fill_slot_settled: "fill_slot tid i a s = (out, s') \<Longrightarrow> se_settled s' = se_settled s"
  by (auto simp: fill_slot_def Let_def split: option.splits sum.splits if_splits)

lemma live_child_settled: "live_child status s = (out, s') \<Longrightarrow> se_settled s' = se_settled s"
  by (auto simp: live_child_def split: if_splits child_status.splits)

lemma submit_settled: "submit_question_answer S status w tid i a s = (r, s', effs) \<Longrightarrow> se_settled s' = se_settled s"
  unfolding submit_question_answer_def
  by (auto split: if_splits prod.splits sum.splits fill_outcome.splits
      dest!: live_child_settled fill_slot_settled submit_completed_settled)

lemma submit_imposes: "imposes_ok s (snd (submit_question_answer S status w tid i a s))"
proof -
  obtain r s' effs where run: "submit_question_answer S status w tid i a s = (r, s', effs)" by (metis prod_cases3)
  from submit_effects [OF run] submit_settled [OF run] run show ?thesis by (auto intro!: imposes_ok_quiet)
qed

lemma interrupt_imposes: "imposes_ok s (snd (interrupt status w n s))"
proof -
  obtain r s1 where l: "(if se_child s then live_child status s else (Inr (), s)) = (r, s1)" by fastforce
  then have "se_settled s1 = se_settled s" by (auto split: if_splits dest: live_child_settled)
  then show ?thesis by (cases r; cases w) (simp_all add: interrupt_def l Let_def imposes_ok_quiet)
qed

definition is_start :: "session_action \<Rightarrow> bool" where
  "is_start a = (case a of Start _ _ _ _ _ _ \<Rightarrow> True | _ \<Rightarrow> False)"

lemma act_imposes:
  assumes "\<not> is_start a"
  shows "imposes_ok s (session_act R a s)"
proof (cases a)
  case (Send_done bs)
  have "set_models (snd (send_message_done (emit_sanitized_chunk R) bs s)) = 0"
    by (auto simp: send_message_done_def split: list.split wire_content_block.split)
  then show ?thesis
    by (simp add: Send_done imposes_ok_def) (simp add: send_message_done_def message_written_def hold_turn_def)
next
  case (Start rendered e instance_id resume n seeded)
  with assms show ?thesis by (simp add: is_start_def)
next
  case Stop
  then show ?thesis by (simp add: session_stop_def release_turn_def imposes_ok_def)
qed (simp_all add: reader_step_imposes send_write_imposes submit_imposes interrupt_imposes imposes_ok_quiet)

lemma run_imposes:
  "list_all (\<lambda>a. \<not> is_start a) actions \<Longrightarrow> set_models (session_effects R actions s) \<le> (if se_settled s then 0 else 1)"
proof (induction actions arbitrary: s)
  case (Cons a actions)
  then have "imposes_ok s (session_act R a s)"
    "set_models (session_effects R actions (session_step R s a)) \<le> (if se_settled (session_step R s a) then 0 else 1)"
    using act_imposes [of a s R] by simp_all
  then show ?case by (auto simp: imposes_ok_def session_step_def split: if_splits)
qed simp

text \<open>C21. From the start of a session to the next one the app imposes the configured model at most once, in every
  order of reading, sending, answering, interrupting and stopping; and never once the model is settled, as it is
  by the last command of the user that switches the model.\<close>

theorem model_imposed_once:
  "(list_all (\<lambda>a. \<not> is_start a) actions \<longrightarrow>
      set_models (session_effects R actions s) \<le> (if se_settled s then 0 else 1) \<and>
      set_models (session_effects R (Start rendered e instance_id resume n seeded # actions) s) \<le> 1) \<and>
   (settles_model t \<and> fst (send_message_write R status w [Text_Block t] s) = Done \<longrightarrow>
      se_settled (session_step R s (Send_write status w [Text_Block t])))"
proof (intro conjI impI)
  assume "list_all (\<lambda>a. \<not> is_start a) actions"
  then show run: "set_models (session_effects R actions s) \<le> (if se_settled s then 0 else 1)" for s
    by (rule run_imposes)
  have "imposes_ok (session_started instance_id resume n seeded s) (session_act R (Start rendered e instance_id resume n seeded) s)"
    using send_soft_impose_imposes by (simp add: session_start_def imposes_ok_quiet Let_def split: option.split)
  then show "set_models (session_effects R (Start rendered e instance_id resume n seeded # actions) s) \<le> 1"
    using run [of "session_step R s (Start rendered e instance_id resume n seeded)"]
    by (simp add: session_step_def session_started_def imposes_ok_def split: if_splits)
next
  assume "settles_model t \<and> fst (send_message_write R status w [Text_Block t] s) = Done"
  then show "se_settled (session_step R s (Send_write status w [Text_Block t]))"
    by (auto simp: session_step_def send_message_write_def settle_typed_def hold_turn_def Let_def
        split: if_splits sum.splits prod.splits write_result.splits)
qed

text \<open>C16. The reader itself answers nothing but the request for a tool permission in the line it reads, never a
  question to the user: it allows the call with the input as it came, unless Claude's safety check holds the call,
  and then it denies it with the reason of the check.\<close>

theorem reader_answers_permission_only:
  assumes "reader_line R io (Inr parsed) s = (s', effs, goes_on)" and "Wrote v \<in> set effs"
    and "as_str (jat v ''type'') = Some ''control_response''"
  shows "\<exists>ctrl decision. try_parse_control_request parsed = Some ctrl \<and> cr_tool_name ctrl \<noteq> ASK_USER_TOOL_NAME \<and>
    as_str (jat (jat v ''response'') ''request_id'') = Some (cr_request_id ctrl) \<and>
    decision = jat (jat v ''response'') ''response'' \<and>
    (case cr_safety_check ctrl of
       None \<Rightarrow> jat decision ''behavior'' = JStr ''allow'' \<and> jat decision ''updatedInput'' = cr_input ctrl
     | Some reason \<Rightarrow> jat decision ''behavior'' = JStr ''deny'' \<and>
         jat decision ''message'' = JStr (SAFETY_CHECK_DECLINED @ ''. Claude Code's reason: '' @ reason))"
proof (cases "try_parse_control_request parsed")
  case None
  have quiet: "\<exists>bs m rid. v = build_user_message bs \<or> v = build_set_model_request rid m"
    if line: "reader_output_line R io parsed s = (s', effs, goes_on)"
  proof (rule reader_output_parts [OF line])
    fix p cs lg s1 e1 refusal s2 d s4 e4
    assume 1: "soft_impose_step (re_impose R) parsed cs (io_impose io) (s \<lparr> se_parser := p \<rparr>) = (s1, e1)"
      and 4: "(case result_session_id cs of
          Some session_id \<Rightarrow> drain_queued_message (emit_sanitized_chunk R) session_id (io_write io) (note_transcript cs (observe_chunks cs s2))
        | None \<Rightarrow> (False, note_transcript cs (observe_chunks cs s2), [])) = (d, s4, e4)"
      and effs: "effs = e1 @ (case refusal of Some e \<Rightarrow> [emit_sanitized_chunk R (Error_Chunk e False)] | None \<Rightarrow> []) @
        map (emit_sanitized_chunk R) cs @ e4 @
        (case unless_next_turn_started (turn_end_event cs) d of Some e \<Rightarrow> [Notified e] | None \<Rightarrow> [])"
    have "Wrote v \<in> set e1 \<or> Wrote v \<in> set e4"
      using assms(2) unfolding effs by (auto simp: emit_sanitized_chunk_def split: option.splits)
    moreover have "\<exists>rid m. v = build_set_model_request rid m" if "Wrote v \<in> set e1"
      using that 1 by (auto simp: soft_impose_step_def send_soft_impose_def send_set_model_def send_session_change_def Let_def
          split: if_splits option.splits prod.splits sum.splits) blast
    moreover have "\<exists>bs. v = build_user_message bs" if "Wrote v \<in> set e4"
      using that 4 by (auto simp: drain_queued_message_def queue_take_def write_and_emit_drained_message_def emit_sanitized_chunk_def Let_def
          split: option.splits write_result.splits)
    ultimately show ?thesis by blast
  qed
  have "as_str (jat (build_user_message bs) ''type'') \<noteq> Some ''control_response''"
    "as_str (jat (build_set_model_request rid m) ''type'') \<noteq> Some ''control_response''" for bs rid m
    by (simp_all add: written_parts as_str_def MSG_TYPE_CONTROL_REQUEST_def)
  with quiet assms None show ?thesis by (auto split: if_splits option.splits)
next
  case (Some ctrl)
  have "consume_control_response parsed s = None"
    using Some by (auto simp: try_parse_control_request_def consume_control_response_def MSG_TYPE_CONTROL_RESPONSE_def split: if_splits)
  with assms(1) Some have "reader_control_request R (io_write io) ctrl s = (s', effs, goes_on)" by simp
  with assms(2) have "cr_tool_name ctrl \<noteq> ASK_USER_TOOL_NAME" "v = build_tool_permission_response ctrl"
    by (auto simp: reader_control_request_def emit_sanitized_chunk_def Let_def split: if_splits write_result.splits)
  with Some show ?thesis by (auto simp: written_parts as_str_def split: option.split)
qed

section \<open>The queued message\<close>

lemma soft_impose_queue: "se_queue (fst (soft_impose_step cfg line cs w s)) = se_queue s"
  by (auto simp: soft_impose_step_def send_soft_impose_def settle_def Let_def split: option.splits prod.splits)

lemma refused_queue: "se_queue (snd (refused_model_command line s)) = se_queue s"
  by (auto simp: refused_model_command_def input_started_def take_command_reply_def Let_def split: option.splits prod.splits if_splits)

lemma note_transcript_queue [simp]: "se_queue (note_transcript cs s) = se_queue s"
  by (induction cs arbitrary: s) (auto simp: note_transcript_def split: option.split)

lemma observe_queue [simp]: "se_queue (observe_chunks cs s) = se_queue s"
  by (simp add: observe_chunks_def release_turn_def Let_def)

lemma settle_command_queue [simp]: "se_queue (settle_by_command s) = se_queue s"
  by (simp add: settle_by_command_def settle_def)

lemma emit_not_effect [simp]: "Notified ev \<noteq> emit_sanitized_chunk R c" "Wrote v \<noteq> emit_sanitized_chunk R c"
  by (simp_all add: emit_sanitized_chunk_def)

lemma soft_impose_writes:
  "e \<in> set (snd (soft_impose_step cfg line cs w s)) \<Longrightarrow> \<exists>rid m. e = Wrote (build_set_model_request rid m)"
  by (auto simp: soft_impose_step_def send_soft_impose_def send_set_model_def send_session_change_def Let_def
      split: if_splits option.splits prod.splits sum.splits)

lemma user_message_not_set_model: "build_user_message bs \<noteq> build_set_model_request rid k"
proof
  assume "build_user_message bs = build_set_model_request rid k"
  then have "jat (build_user_message bs) ''type'' = jat (build_set_model_request rid k) ''type''" by simp
  then show False by (simp add: written_parts MSG_TYPE_CONTROL_REQUEST_def)
qed

lemma soft_impose_quiet:
  "Notified ev \<notin> set (snd (soft_impose_step cfg line cs w s))"
  "Wrote (build_user_message bs) \<notin> set (snd (soft_impose_step cfg line cs w s))"
  using soft_impose_writes [of _ cfg line cs w s] user_message_not_set_model by fastforce+

text \<open>C33. When a turn ends with a result and a message is queued for its session, the message leaves the queue; if
  it can be written it goes to Claude, the window is told, the next turn counts as running and nobody is told
  that the session is idle. If it cannot be written it is gone: neither is it in the queue any more nor is the
  window told.\<close>

theorem queued_message_at_turn_end:
  assumes "reader_output_line R io parsed s = (s', effs, goes_on)"
    and "result_session_id (fst (snd (parse_line R parsed (se_parser s)))) = Some sid" and "se_queue s sid = Some m"
  shows "se_queue s' = (se_queue s)(sid := None) \<and>
    (case io_write io of
       Written \<Rightarrow> Wrote (build_user_message (text_only (qm_text m))) \<in> set effs \<and>
         emit_sanitized_chunk R (QueueDrained sid (qm_text m)) \<in> set effs \<and> Notified TurnFinished \<notin> set effs \<and>
         se_awaited s' \<and> se_turn_awake s'
     | Write_Error _ \<Rightarrow> \<forall>bs. Wrote (build_user_message bs) \<notin> set effs
     | Flush_Error _ \<Rightarrow> True)"
proof (rule reader_output_parts [OF assms(1)])
  fix p cs lg s1 e1 refusal s2 d s4 e4
  define s3 where "s3 = note_transcript cs (observe_chunks cs s2)"
  assume p: "parse_line R parsed (se_parser s) = (p, cs, lg)"
    and 1: "soft_impose_step (re_impose R) parsed cs (io_impose io) (s \<lparr> se_parser := p \<rparr>) = (s1, e1)"
    and 2: "refused_model_command parsed s1 = (refusal, s2)"
    and 4: "(case result_session_id cs of
        Some session_id \<Rightarrow> drain_queued_message (emit_sanitized_chunk R) session_id (io_write io) (note_transcript cs (observe_chunks cs s2))
      | None \<Rightarrow> (False, note_transcript cs (observe_chunks cs s2), [])) = (d, s4, e4)"
    and s': "s' = (if d then message_written s4 else s4)"
    and effs: "effs = e1 @ (case refusal of Some e \<Rightarrow> [emit_sanitized_chunk R (Error_Chunk e False)] | None \<Rightarrow> []) @
      map (emit_sanitized_chunk R) cs @ e4 @
      (case unless_next_turn_started (turn_end_event cs) d of Some e \<Rightarrow> [Notified e] | None \<Rightarrow> [])"
  have "se_queue s1 = se_queue s" using soft_impose_queue [of "re_impose R" parsed cs "io_impose io" "s \<lparr> se_parser := p \<rparr>"] 1 by simp
  moreover have "se_queue s2 = se_queue s1" using refused_queue [of parsed s1] 2 by simp
  ultimately have q: "se_queue s3 = se_queue s" by (simp add: s3_def)
  have sid: "result_session_id cs = Some sid" using assms(2) p by simp
  have drain: "write_and_emit_drained_message (emit_sanitized_chunk R) sid (qm_text m) (io_write io) (s3 \<lparr> se_queue := (se_queue s)(sid := None) \<rparr>) = (d, s4, e4)"
    using 4 sid assms(3) q by (simp add: drain_queued_message_def queue_take_def s3_def [symmetric])
  have e1: "Notified ev \<notin> set e1" "Wrote (build_user_message bs) \<notin> set e1" for ev bs
    using soft_impose_quiet [of _ "re_impose R" parsed cs "io_impose io" "s \<lparr> se_parser := p \<rparr>"] 1 by (metis snd_conv)+
  have queue: "se_queue s' = (se_queue s)(sid := None)"
    using drain by (auto simp: s' write_and_emit_drained_message_def message_written_def hold_turn_def Let_def
        split: write_result.splits if_splits)
  then show "se_queue s' = (se_queue s)(sid := None) \<and>
    (case io_write io of
       Written \<Rightarrow> Wrote (build_user_message (text_only (qm_text m))) \<in> set effs \<and>
         emit_sanitized_chunk R (QueueDrained sid (qm_text m)) \<in> set effs \<and> Notified TurnFinished \<notin> set effs \<and>
         se_awaited s' \<and> se_turn_awake s'
     | Write_Error _ \<Rightarrow> \<forall>bs. Wrote (build_user_message bs) \<notin> set effs
     | Flush_Error _ \<Rightarrow> True)"
    using drain e1
    by (auto simp: effs s' write_and_emit_drained_message_def message_written_def hold_turn_def unless_next_turn_started_def Let_def
        split: write_result.splits if_splits option.splits)
qed

section \<open>Concrete sessions\<close>

definition demo_reader :: reader_env where
  "demo_reader = chat_env.extend demo_chat
     \<lparr> re_crypto = demo_crypto, re_unicode = ascii_unicode, re_sanitize = id, re_policy = \<lparr> dp_key = None, dp_keywords = [] \<rparr>,
       re_impose = \<lparr> si_kind = Local, si_entry_id = ''ollama'', si_entry_model = Some ''qwen'' \<rparr> \<rparr>"

definition demo_io :: line_io where
  "demo_io = \<lparr> io_write = Written, io_impose = None \<rparr>"

definition demo_tool_request :: "rstr \<Rightarrow> json \<Rightarrow> json" where
  "demo_tool_request tool input = JObj [(''request'', JObj [(''input'', input), (''tool_name'', JStr tool), (''tool_use_id'', JStr ''t'')]),
     (''request_id'', JStr ''r''), (''type'', JStr ''control_request'')]"

definition demo_control :: control_request where
  "demo_control = \<lparr> cr_request_id = ''r'', cr_tool_name = ''Bash'', cr_input = JObj [], cr_tool_use_id = ''t'', cr_safety_check = None \<rparr>"

definition demo_question :: "rstr \<Rightarrow> ask_question" where
  "demo_question q = \<lparr> aq_question = q, aq_header = [], aq_options = [], aq_multi_select = False \<rparr>"

definition demo_asked :: chat_session where
  "demo_asked = session_started ''i'' None 0 parser_new (session_new 0 Map.empty)
     \<lparr> se_pending := [''t'' \<mapsto> partial_new demo_control [demo_question ''a'', demo_question ''b'']] \<rparr>"

lemma demo_permission: "try_parse_control_request (demo_tool_request ''Bash'' (JObj [])) = Some demo_control"
  by code_simp

lemma reader_answers_permission_only_witness:
  "cr_tool_name demo_control \<noteq> ASK_USER_TOOL_NAME \<and>
   jat (jat (jat (build_tool_permission_response demo_control) ''response'') ''response'') ''behavior'' = JStr ''allow''"
proof -
  define s where "s = session_new 0 Map.empty"
  have "reader_line demo_reader demo_io (Inr (demo_tool_request ''Bash'' (JObj []))) s =
      (s, [Wrote (build_tool_permission_response demo_control)], True)"
    using demo_permission by (simp add: consume_control_response_def reader_control_request_def demo_control_def demo_io_def
        demo_tool_request_def jat_def json_get_def as_str_def MSG_TYPE_CONTROL_RESPONSE_def ASK_USER_TOOL_NAME_def Let_def)
  from reader_answers_permission_only [OF this, of "build_tool_permission_response demo_control"]
  show ?thesis using demo_permission
    by (auto simp: written_parts as_str_def) (simp_all add: demo_control_def)
qed

lemma answer_all_or_nothing_witness:
  "fst (submit_question_answer demo_reader Running Written ''t'' 0 ''x''
     (run_steps (session_step demo_reader) (session_new 0 Map.empty)
        [Start None None ''i'' None 0 parser_new, Read demo_io (Some (Inr (demo_tool_request ASK_USER_TOOL_NAME (JObj [(''question'', JStr ''a'')]))))])) \<noteq> Panicked"
proof -
  define s where "s = run_steps (session_step demo_reader) (session_new 0 Map.empty)
        [Start None None ''i'' None 0 parser_new, Read demo_io (Some (Inr (demo_tool_request ASK_USER_TOOL_NAME (JObj [(''question'', JStr ''a'')]))))]"
  obtain r s' effs where "submit_question_answer demo_reader Running Written ''t'' 0 ''x'' s = (r, s', effs)" by (metis prod_cases3)
  with answer_all_or_nothing [OF s_def this] show ?thesis unfolding s_def by auto
qed

lemma answers_in_any_order_witness:
  "\<exists>updated. session_effects demo_reader [Answer Running Written ''t'' 1 ''y'', Answer Running Written ''t'' 0 ''x''] demo_asked
      = [Wrote (response_parts demo_control updated)] \<and>
    as_str (jat (jat updated ''answers'') ''a'') = Some ''x'' \<and> as_str (jat (jat updated ''answers'') ''b'') = Some ''y''"
proof -
  let ?qs = "[demo_question ''a'', demo_question ''b'']"
  have "\<exists>updated. session_effects demo_reader (map (\<lambda>i. Answer Running Written ''t'' i (if i = 0 then ''x'' else ''y'')) [1, 0]) demo_asked
        = [Wrote (response_parts demo_control updated)] \<and>
      (\<forall>i < length ?qs. as_str (jat (jat updated ''answers'') (aq_question (?qs ! i))) = Some (if i = 0 then ''x'' else ''y'')) \<and>
      (\<forall>k. k \<noteq> ''answers'' \<longrightarrow> jat updated k = jat (cr_input demo_control) k)"
    by (rule answers_in_any_order [where fs = "[]"])
      (auto simp: demo_asked_def session_started_def demo_control_def demo_question_def MAX_ASK_USER_ANSWER_LEN_def
        MAX_ASK_USER_WIRE_BYTES_def demo_reader_def demo_chat_def chat_env.defs)
  then obtain updated where
    a: "session_effects demo_reader (map (\<lambda>i. Answer Running Written ''t'' i (if i = 0 then ''x'' else ''y'')) [1, 0]) demo_asked
        = [Wrote (response_parts demo_control updated)]"
    and b: "\<forall>i < length ?qs. as_str (jat (jat updated ''answers'') (aq_question (?qs ! i))) = Some (if i = 0 then ''x'' else ''y'')"
    by blast
  from b [THEN spec, of 0] b [THEN spec, of 1] a show ?thesis
    by (intro exI [of _ updated]) (simp add: demo_question_def)
qed

definition demo_reap :: reap_exec where
  "demo_reap = \<lparr> rx_prepare = 40, rx_spawned = True, rx_poll = (\<lambda>_. Still_running), rx_kill_wait = 7,
     rx_stdout_closed = None, rx_stderr_closed = None \<rparr>"

lemma stop_returns_witness:
  "stop_returns_at (Some demo_reap) (Some (\<lambda>_. Still_running)) [\<lambda>_. False, \<lambda>_. False] (\<lambda>_. 3) 0 \<le> 39365"
  using stop_returns [of "\<lambda>_. 3" 3 "Some demo_reap" 40 7 "Some (\<lambda>_. Still_running)" "[\<lambda>_. False, \<lambda>_. False]" 0]
  by (simp add: demo_reap_def)

definition demo_init_line :: json where
  "demo_init_line = JObj [(''model'', JStr ''other''), (''session_id'', JStr ''s''), (''subtype'', JStr ''init''), (''type'', JStr ''system'')]"

lemma demo_start_imposes:
  "set_models (session_effects demo_reader [Start (Some ''other'') None ''i'' None 0 parser_new] (session_new 0 Map.empty)) = 1"
  by code_simp

lemma model_imposed_once_witness:
  "set_models (session_effects demo_reader (Start (Some ''other'') None ''i'' None 0 parser_new
      # [Read demo_io (Some (Inr demo_init_line)), Read demo_io (Some (Inr demo_init_line)), Stop]) (session_new 0 Map.empty)) = 1"
proof -
  let ?start = "Start (Some ''other'') None ''i'' None 0 parser_new"
    and ?more = "[Read demo_io (Some (Inr demo_init_line)), Read demo_io (Some (Inr demo_init_line)), Stop]"
  have "set_models (session_effects demo_reader (?start # ?more) (session_new 0 Map.empty)) \<le> 1"
    using model_imposed_once [where actions = ?more and R = demo_reader and s = "session_new 0 Map.empty"]
    by (simp add: is_start_def)
  moreover have "1 \<le> set_models (session_effects demo_reader (?start # ?more) (session_new 0 Map.empty))"
    using demo_start_imposes by simp
  ultimately show ?thesis by simp
qed

definition demo_queued :: chat_session where
  "demo_queued = session_started ''i'' None 0 parser_new (session_new 0 [''s'' \<mapsto> \<lparr> qm_text = ''hi'', qm_queued_at = 0 \<rparr>])"

lemma demo_result_session:
  "result_session_id (fst (snd (parse_line demo_reader (demo_result False ''1'' ''10'') parser_new))) = Some ''s''"
  by code_simp

lemma queued_message_at_turn_end_witness:
  "Wrote (build_user_message (text_only ''hi'')) \<in> set (fst (snd (reader_output_line demo_reader demo_io (demo_result False ''1'' ''10'') demo_queued)))"
proof -
  obtain s' effs goes_on where line: "reader_output_line demo_reader demo_io (demo_result False ''1'' ''10'') demo_queued = (s', effs, goes_on)"
    by (metis prod_cases3)
  have "se_parser demo_queued = parser_new" "se_queue demo_queued ''s'' = Some \<lparr> qm_text = ''hi'', qm_queued_at = 0 \<rparr>"
    by (simp_all add: demo_queued_def session_started_def session_new_def)
  with queued_message_at_turn_end [OF line, of "''s''" "\<lparr> qm_text = ''hi'', qm_queued_at = 0 \<rparr>"] demo_result_session line
  show ?thesis by (simp add: demo_io_def)
qed

text \<open>A turn whose result the reader sees before the sender has noted its message: the turn is reported as
  finished, and the sleep prevention taken for it stays and its result counts as awaited.\<close>

lemma turn_hold_outlives_result:
  "let sent = session_step demo_reader demo_asked (Send_write Running Written [Text_Block ''hi'']);
       answered = session_act demo_reader (Read demo_io (Some (Inr (demo_result False ''1'' ''10'')))) sent;
       idle = session_step demo_reader (fst answered) (Send_done [Text_Block ''hi''])
   in snd answered \<noteq> [] \<and> last (snd answered) = Notified TurnFinished \<and> se_turn_awake idle \<and> se_awaited idle"
  by code_simp

end
