(* ===== verification/Chat_Tabs.thy ===== *)
theory Chat_Tabs
  imports Chat_Session
begin

text \<open>
  The registry of chat tabs (desktop/src-tauri/src/chat_registry.rs): at most ten tabs, each with its project,
  its session and the transcript it shows, and the ids of tabs and transcripts (validate_session_id of
  history.rs). A session is a number here, the identity of the shared object; the registry makes new ones and
  hands them out. The transcript of a tab is shared with the reader of its session, which may replace it.
\<close>

section \<open>Identifiers\<close>

definition is_lower_hex :: "byte \<Rightarrow> bool" where
  "is_lower_hex b \<longleftrightarrow> (CHR ''0'' \<le> b \<and> b \<le> CHR ''9'') \<or> (CHR ''a'' \<le> b \<and> b \<le> CHR ''f'')"

fun check_segments :: "(rstr \<times> nat) list \<Rightarrow> rstr + unit" where
  "check_segments [] = Inr ()"
| "check_segments ((part, expected_len) # rest) =
     (if length part \<noteq> expected_len then Inl ''invalid session id: wrong segment length''
      else if \<not> list_all is_lower_hex part then Inl ''invalid session id: non-hex or uppercase character''
      else check_segments rest)"

definition validate_session_id :: "rstr \<Rightarrow> rstr + unit" where
  "validate_session_id sid =
     (let parts = split_byte (CHR ''-'') sid in
      if length parts \<noteq> 5 then Inl ''invalid session id: expected UUID format''
      else check_segments (zip parts [8, 4, 4, 4, 12]))"

section \<open>The registry\<close>

definition MAX_CHAT_TABS :: nat where "MAX_CHAT_TABS = 10"

definition MSG_TAB_LIMIT_REACHED :: rstr where "MSG_TAB_LIMIT_REACHED = ''tab limit reached''"

definition MSG_TRANSCRIPT_OPEN_IN_OTHER_TAB :: rstr where
  "MSG_TRANSCRIPT_OPEN_IN_OTHER_TAB = ''conversation is already open in another tab''"

type_synonym session_ref = nat

record tab_entry =
  te_session :: session_ref
  te_project :: rstr
  te_transcript :: "rstr option"
  te_seq :: u64

text \<open>The table, in the order of its keys, the next sequence number and the next new session.\<close>

record chat_sessions =
  cs_tabs :: "(rstr \<times> tab_entry) list"
  cs_next_seq :: u64
  cs_next_session :: session_ref

definition registry_empty :: chat_sessions where
  "registry_empty = \<lparr> cs_tabs = [], cs_next_seq = 0, cs_next_session = 0 \<rparr>"

definition tab_lookup :: "rstr \<Rightarrow> chat_sessions \<Rightarrow> tab_entry option" where
  "tab_lookup tab_id reg = map_of (cs_tabs reg) tab_id"

text \<open>Preparing a tab: the entry and the session that is replaced, and then to be stopped, if any.\<close>

definition prepare :: "rstr \<Rightarrow> rstr \<Rightarrow> chat_sessions \<Rightarrow> (rstr + tab_entry \<times> session_ref option) \<times> chat_sessions" where
  "prepare tab_id project reg =
     (if tab_lookup tab_id reg = None \<and> length (cs_tabs reg) \<ge> MAX_CHAT_TABS then (Inl MSG_TAB_LIMIT_REACHED, reg)
      else
        (let seq = cs_next_seq reg; reg' = reg \<lparr> cs_next_seq := seq + 1 \<rparr>;
             fresh = \<lparr> te_session = cs_next_session reg, te_project = project, te_transcript = None, te_seq = seq \<rparr>;
             inserted = reg' \<lparr> cs_tabs := bt_insert tab_id fresh (cs_tabs reg), cs_next_session := cs_next_session reg + 1 \<rparr> in
         case tab_lookup tab_id reg of
           None \<Rightarrow> (Inr (fresh, None), inserted)
         | Some e \<Rightarrow>
             (if te_project e = project
              then (Inr (e \<lparr> te_seq := seq \<rparr>, None), reg' \<lparr> cs_tabs := bt_insert tab_id (e \<lparr> te_seq := seq \<rparr>) (cs_tabs reg) \<rparr>)
              else (Inr (fresh, Some (te_session e)), inserted))))"

definition remove_tab :: "rstr \<Rightarrow> chat_sessions \<Rightarrow> session_ref option \<times> chat_sessions" where
  "remove_tab tab_id reg = (map_option te_session (tab_lookup tab_id reg), reg \<lparr> cs_tabs := bt_remove tab_id (cs_tabs reg) \<rparr>)"

definition drain_all :: "chat_sessions \<Rightarrow> tab_entry list \<times> chat_sessions" where
  "drain_all reg = (map snd (cs_tabs reg), reg \<lparr> cs_tabs := [] \<rparr>)"

text \<open>The tab of a project that was prepared last; the sequence numbers differ, so the order of the table, which is
  not specified, does not matter.\<close>

definition entry_for_project :: "rstr \<Rightarrow> chat_sessions \<Rightarrow> tab_entry option" where
  "entry_for_project project reg = max_by_last te_seq (filter (\<lambda>e. te_project e = project) (map snd (cs_tabs reg)))"

definition holds_transcript :: "tab_entry \<Rightarrow> rstr \<Rightarrow> bool" where
  "holds_transcript e transcript \<longleftrightarrow> te_transcript e = Some transcript"

definition ensure_transcript_free :: "(rstr \<times> tab_entry) list \<Rightarrow> rstr \<Rightarrow> rstr option \<Rightarrow> rstr + unit" where
  "ensure_transcript_free tabs tab_id transcript =
     (case transcript of
        None \<Rightarrow> Inr ()
      | Some sid \<Rightarrow>
          (if list_ex (\<lambda>(i, e). i \<noteq> tab_id \<and> holds_transcript e sid) tabs then Inl MSG_TRANSCRIPT_OPEN_IN_OTHER_TAB else Inr ()))"

definition check_transcript_free :: "rstr \<Rightarrow> rstr option \<Rightarrow> chat_sessions \<Rightarrow> rstr + unit" where
  "check_transcript_free tab_id transcript reg = ensure_transcript_free (cs_tabs reg) tab_id transcript"

definition claim_transcript :: "rstr \<Rightarrow> rstr option \<Rightarrow> chat_sessions \<Rightarrow> (rstr + unit) \<times> chat_sessions" where
  "claim_transcript tab_id transcript reg =
     (case ensure_transcript_free (cs_tabs reg) tab_id transcript of
        Inl e \<Rightarrow> (Inl e, reg)
      | Inr _ \<Rightarrow>
          (Inr (), case tab_lookup tab_id reg of
             None \<Rightarrow> reg
           | Some e \<Rightarrow> reg \<lparr> cs_tabs := bt_insert tab_id (e \<lparr> te_transcript := transcript \<rparr>) (cs_tabs reg) \<rparr>))"

definition tab_owning_transcript :: "rstr \<Rightarrow> chat_sessions \<Rightarrow> rstr option" where
  "tab_owning_transcript transcript reg = map_option fst (find (\<lambda>(_, e). holds_transcript e transcript) (cs_tabs reg))"

definition other_entry_for_project :: "rstr \<Rightarrow> rstr \<Rightarrow> chat_sessions \<Rightarrow> bool" where
  "other_entry_for_project project tab_id reg \<longleftrightarrow> list_ex (\<lambda>(i, e). i \<noteq> tab_id \<and> te_project e = project) (cs_tabs reg)"

section \<open>What the registry keeps\<close>

text \<open>The commands, and the reader of a session that learns the id of the transcript it writes.\<close>

datatype registry_event =
    Prepare rstr rstr
  | Claim rstr "rstr option"
  | Remove rstr
  | Drain
  | Learned session_ref rstr

fun registry_step :: "chat_sessions \<Rightarrow> registry_event \<Rightarrow> chat_sessions" where
  "registry_step reg (Prepare tab_id project) = snd (prepare tab_id project reg)"
| "registry_step reg (Claim tab_id transcript) = snd (claim_transcript tab_id transcript reg)"
| "registry_step reg (Remove tab_id) = snd (remove_tab tab_id reg)"
| "registry_step reg Drain = snd (drain_all reg)"
| "registry_step reg (Learned r sid) =
     reg \<lparr> cs_tabs := map (\<lambda>(i, e). (i, if te_session e = r then e \<lparr> te_transcript := Some sid \<rparr> else e)) (cs_tabs reg) \<rparr>"

definition sessions_apart :: "(rstr \<rightharpoonup> tab_entry) \<Rightarrow> session_ref \<Rightarrow> bool" where
  "sessions_apart m n \<longleftrightarrow>
     (\<forall>i e. m i = Some e \<longrightarrow> te_session e < n) \<and>
     (\<forall>i j e f. m i = Some e \<and> m j = Some f \<and> te_session e = te_session f \<longrightarrow> i = j)"

definition registry_ok :: "chat_sessions \<Rightarrow> bool" where
  "registry_ok reg \<longleftrightarrow>
     bt_sorted (cs_tabs reg) \<and> length (cs_tabs reg) \<le> MAX_CHAT_TABS \<and>
     sessions_apart (map_of (cs_tabs reg)) (cs_next_session reg)"

lemma sessions_apart_bound: "sessions_apart m n \<Longrightarrow> m i = Some e \<Longrightarrow> te_session e < n"
  by (simp add: sessions_apart_def)

lemma sessions_apart_inj: "sessions_apart m n \<Longrightarrow> m i = Some e \<Longrightarrow> m j = Some f \<Longrightarrow> te_session e = te_session f \<Longrightarrow> i = j"
  by (auto simp: sessions_apart_def)

lemma sessions_apart_fresh:
  assumes "sessions_apart m n" "te_session e = n"
  shows "sessions_apart (m(k \<mapsto> e)) (Suc n)"
proof -
  have below: "te_session f < n" "te_session f \<noteq> te_session e" if "m i = Some f" for i f
    using sessions_apart_bound [OF assms(1) that] assms(2) by simp_all
  show ?thesis
    unfolding sessions_apart_def using below assms(2) sessions_apart_inj [OF assms(1)]
    by (auto simp: less_Suc_eq dest: below(2) split: if_splits)
qed

lemma sessions_apart_same:
  assumes "sessions_apart m n" "m k = Some e" "te_session e' = te_session e"
  shows "sessions_apart (m(k \<mapsto> e')) n"
  using assms unfolding sessions_apart_def by (auto split: if_splits)

lemma sessions_apart_remove: "sessions_apart m n \<Longrightarrow> sessions_apart (m(k := None)) n"
  unfolding sessions_apart_def by (auto split: if_splits)

lemma sessions_apart_map: "sessions_apart m n \<Longrightarrow> (\<And>e. te_session (f e) = te_session e) \<Longrightarrow> sessions_apart (\<lambda>i. map_option f (m i)) n"
  unfolding sessions_apart_def by auto

lemma bt_insert_length_old: "bt_sorted m \<Longrightarrow> map_of m k \<noteq> None \<Longrightarrow> length (bt_insert k v m) = length m"
proof (induction k v m rule: bt_insert.induct)
  case (2 k v j w m)
  have "map_of m k = None" if "k < j"
  proof -
    have "\<forall>x \<in> fst ` set m. j < x" using "2.prems"(1) by (simp add: bt_sorted_def)
    with that show ?thesis by (auto simp: map_of_eq_None_iff dest: order.strict_trans)
  qed
  with 2 show ?case by (auto simp: bt_sorted_def)
qed simp

lemma bt_remove_length: "length (bt_remove k m) \<le> length m"
  by (simp add: bt_remove_def)

lemmas registry_defs = tab_lookup_def bt_insert_map_of bt_insert_sorted bt_remove_sorted bt_remove_lookup

lemma prepare_ok: "registry_ok reg \<Longrightarrow> registry_ok (snd (prepare tab_id project reg))"
proof -
  assume ok: "registry_ok reg"
  have len: "length (bt_insert tab_id v (cs_tabs reg)) \<le> MAX_CHAT_TABS"
    if "\<not> (tab_lookup tab_id reg = None \<and> length (cs_tabs reg) \<ge> MAX_CHAT_TABS)" for v
    using that ok bt_insert_length_old [of "cs_tabs reg" tab_id v] bt_insert_length [of "cs_tabs reg" tab_id v]
    by (cases "map_of (cs_tabs reg) tab_id") (auto simp: registry_ok_def tab_lookup_def)
  show ?thesis
  proof (cases "tab_lookup tab_id reg")
    case None
    with ok len show ?thesis
      by (simp add: prepare_def Let_def registry_ok_def bt_insert_map_of bt_insert_sorted sessions_apart_fresh)
  next
    case (Some e)
    with ok len show ?thesis
      by (cases "te_project e = project")
        (simp_all add: prepare_def Let_def registry_ok_def bt_insert_map_of bt_insert_sorted sessions_apart_fresh
          tab_lookup_def sessions_apart_same)
  qed
qed

lemma claim_shape:
  "\<exists>reg'. claim_transcript tab_id transcript reg = (r, reg') \<and>
     (reg' = reg \<or> (\<exists>e. tab_lookup tab_id reg = Some e \<and> r = Inr () \<and> ensure_transcript_free (cs_tabs reg) tab_id transcript = Inr () \<and>
        reg' = reg \<lparr> cs_tabs := bt_insert tab_id (e \<lparr> te_transcript := transcript \<rparr>) (cs_tabs reg) \<rparr>))"
  if "r = fst (claim_transcript tab_id transcript reg)"
  using that by (auto simp: claim_transcript_def split: sum.splits option.splits)

lemma update_entry_ok:
  assumes "registry_ok reg" "tab_lookup tab_id reg = Some e"
  shows "registry_ok (reg \<lparr> cs_tabs := bt_insert tab_id (e \<lparr> te_transcript := t \<rparr>) (cs_tabs reg) \<rparr>)"
  using assms by (simp add: registry_ok_def registry_defs bt_insert_length_old sessions_apart_same)

lemma map_entries_lookup: "map_of (map (\<lambda>(i, e). (i, f e)) m) k = map_option f (map_of m k)"
  by (induction m) auto

lemma map_entries_keys: "map fst (map (\<lambda>(i, e). (i, f e)) m) = map fst m"
  by (induction m) auto

lemma learned_ok:
  assumes "registry_ok reg"
  shows "registry_ok (registry_step reg (Learned r sid))"
proof -
  define f where "f e = (if te_session e = r then e \<lparr> te_transcript := Some sid \<rparr> else e)" for e :: tab_entry
  have tabs: "cs_tabs (registry_step reg (Learned r sid)) = map (\<lambda>(i, e). (i, f e)) (cs_tabs reg)" by (simp add: f_def [abs_def])
  have look: "map_of (map (\<lambda>(i, e). (i, f e)) (cs_tabs reg)) = (\<lambda>i. map_option f (map_of (cs_tabs reg) i))"
    by (rule ext) (rule map_entries_lookup)
  have "te_session (f e) = te_session e" for e by (simp add: f_def)
  with assms show ?thesis
    unfolding registry_ok_def tabs look bt_sorted_def map_entries_keys by (auto intro: sessions_apart_map)
qed

lemma remove_ok: "registry_ok reg \<Longrightarrow> registry_ok (snd (remove_tab tab_id reg))"
  using bt_remove_length [of tab_id "cs_tabs reg"]
  by (simp add: registry_ok_def remove_tab_def registry_defs sessions_apart_remove)

lemma registry_ok_step: "registry_ok reg \<Longrightarrow> registry_ok (registry_step reg e)"
proof (cases e)
  case (Claim tab_id transcript)
  assume ok: "registry_ok reg"
  from claim_shape [OF refl, of tab_id transcript reg] obtain reg' where
    "claim_transcript tab_id transcript reg = (fst (claim_transcript tab_id transcript reg), reg')"
    and "reg' = reg \<or> (\<exists>e. tab_lookup tab_id reg = Some e \<and>
        reg' = reg \<lparr> cs_tabs := bt_insert tab_id (e \<lparr> te_transcript := transcript \<rparr>) (cs_tabs reg) \<rparr>)" by blast
  with Claim ok update_entry_ok [OF ok] show ?thesis by (metis registry_step.simps(2) snd_conv)
qed (simp_all add: prepare_ok remove_ok learned_ok [unfolded registry_step.simps],
  simp add: registry_ok_def drain_all_def bt_sorted_def sessions_apart_def)

interpretation registry: invariant_machine registry_empty registry_step registry_ok
  by unfold_locales (simp add: registry_ok_def registry_empty_def bt_sorted_def sessions_apart_def, rule registry_ok_step)

text \<open>C35. Through every sequence of commands there are at most ten tabs, with different ids, and no two of them have
  the same session.\<close>

theorem tabs_bounded_and_separate:
  "case cs_tabs (run_steps registry_step registry_empty events) of tabs \<Rightarrow>
     length tabs \<le> 10 \<and> distinct (map fst tabs) \<and> distinct (map te_session (map snd tabs))"
proof -
  define reg where "reg = run_steps registry_step registry_empty events"
  have ok: "registry_ok reg" unfolding reg_def by (rule registry.inv_run)
  then have keys: "distinct (map fst (cs_tabs reg))" by (simp add: registry_ok_def bt_sorted_def strict_sorted_iff)
  have look: "tab_lookup i reg = Some e" if "(i, e) \<in> set (cs_tabs reg)" for i e
    unfolding tab_lookup_def using keys that by simp
  have "inj_on te_session (snd ` set (cs_tabs reg))"
  proof (rule inj_onI)
    fix e f assume "e \<in> snd ` set (cs_tabs reg)" "f \<in> snd ` set (cs_tabs reg)" and same: "te_session e = te_session f"
    then obtain i j where "tab_lookup i reg = Some e" "tab_lookup j reg = Some f" using look by force
    with ok same show "e = f" unfolding registry_ok_def tab_lookup_def by (metis option.inject sessions_apart_inj)
  qed
  moreover have "distinct (map snd (cs_tabs reg))"
  proof (subst distinct_map, intro conjI inj_onI)
    show "distinct (cs_tabs reg)" using keys by (simp add: distinct_map)
    fix x y assume x: "x \<in> set (cs_tabs reg)" and y: "y \<in> set (cs_tabs reg)" and "snd x = snd y"
    from look [of "fst x" "snd x"] look [of "fst y" "snd y"] x y
    have "map_of (cs_tabs reg) (fst x) = Some (snd x)" "map_of (cs_tabs reg) (fst y) = Some (snd y)" by (simp_all add: tab_lookup_def)
    with ok \<open>snd x = snd y\<close> have "fst x = fst y" unfolding registry_ok_def by (metis sessions_apart_inj)
    with \<open>snd x = snd y\<close> show "x = y" by (simp add: prod_eq_iff)
  qed
  ultimately show ?thesis using ok keys unfolding reg_def [symmetric] by (simp add: distinct_map registry_ok_def MAX_CHAT_TABS_def comp_inj_on)
qed

text \<open>Transcripts of different tabs differ.\<close>

definition transcripts_apart :: "chat_sessions \<Rightarrow> bool" where
  "transcripts_apart reg \<longleftrightarrow>
     (\<forall>i j e f sid. tab_lookup i reg = Some e \<and> tab_lookup j reg = Some f \<and> te_transcript e = Some sid \<and> te_transcript f = Some sid \<longrightarrow> i = j)"

fun learns :: "registry_event \<Rightarrow> bool" where
  "learns (Learned _ _) = True"
| "learns _ = False"

lemma transcripts_apart_step:
  assumes ok: "registry_ok reg" and apart: "transcripts_apart reg" and "\<not> learns ev"
  shows "transcripts_apart (registry_step reg ev)"
proof (cases ev)
  case (Prepare tab_id project)
  with apart show ?thesis
    by (auto simp: prepare_def Let_def transcripts_apart_def registry_defs split: option.splits if_splits)
next
  case (Claim tab_id transcript)
  from claim_shape [OF refl, of tab_id transcript reg] obtain reg' where
    c: "claim_transcript tab_id transcript reg = (fst (claim_transcript tab_id transcript reg), reg')"
    and shape: "reg' = reg \<or> (\<exists>e. tab_lookup tab_id reg = Some e \<and> ensure_transcript_free (cs_tabs reg) tab_id transcript = Inr () \<and>
        reg' = reg \<lparr> cs_tabs := bt_insert tab_id (e \<lparr> te_transcript := transcript \<rparr>) (cs_tabs reg) \<rparr>)" by blast
  have free: "te_transcript f \<noteq> Some sid"
    if "ensure_transcript_free (cs_tabs reg) tab_id (Some sid) = Inr ()" "tab_lookup j reg = Some f" "j \<noteq> tab_id" for j f sid
    using that map_of_SomeD [of "cs_tabs reg" j f]
    by (auto simp: ensure_transcript_free_def tab_lookup_def holds_transcript_def list_ex_iff split: if_splits)
  have "transcripts_apart reg'"
    using shape
  proof (elim disjE exE conjE)
    fix e assume "ensure_transcript_free (cs_tabs reg) tab_id transcript = Inr ()"
      and reg': "reg' = reg \<lparr> cs_tabs := bt_insert tab_id (e \<lparr> te_transcript := transcript \<rparr>) (cs_tabs reg) \<rparr>"
    with apart free show ?thesis
      by (cases transcript) (auto simp: transcripts_apart_def registry_defs reg')
  qed (simp add: apart)
  then show ?thesis using Claim c by (metis registry_step.simps(2) snd_conv)
next
  case (Remove tab_id)
  with apart show ?thesis by (auto simp: transcripts_apart_def remove_tab_def registry_defs split: if_splits)
next
  case Drain
  then show ?thesis by (simp add: transcripts_apart_def drain_all_def tab_lookup_def)
qed (use assms(3) in simp)

text \<open>As long as no session changes to another transcript by itself, no two tabs ever show the same transcript:
  a claim of one that another tab holds is refused and changes nothing.\<close>

theorem no_transcript_in_two_tabs:
  assumes "list_all (\<lambda>ev. \<not> learns ev) events"
  shows "transcripts_apart (run_steps registry_step registry_empty events) \<and>
    (tab_lookup j reg = Some f \<and> j \<noteq> i \<and> te_transcript f = Some sid \<longrightarrow>
       claim_transcript i (Some sid) reg = (Inl MSG_TRANSCRIPT_OPEN_IN_OTHER_TAB, reg))"
proof
  have "registry_ok reg \<Longrightarrow> transcripts_apart reg \<Longrightarrow> list_all (\<lambda>ev. \<not> learns ev) evs \<Longrightarrow>
      transcripts_apart (run_steps registry_step reg evs)" for reg evs
    by (induction evs arbitrary: reg) (auto simp: registry_ok_step transcripts_apart_step)
  then show "transcripts_apart (run_steps registry_step registry_empty events)"
    using registry.inv_init assms by (simp add: transcripts_apart_def registry_empty_def tab_lookup_def)
  show "tab_lookup j reg = Some f \<and> j \<noteq> i \<and> te_transcript f = Some sid \<longrightarrow>
       claim_transcript i (Some sid) reg = (Inl MSG_TRANSCRIPT_OPEN_IN_OTHER_TAB, reg)"
    by (auto simp: claim_transcript_def ensure_transcript_free_def list_ex_iff holds_transcript_def tab_lookup_def
        dest!: map_of_SomeD split: sum.splits)
qed

lemma no_transcript_in_two_tabs_witness:
  "transcripts_apart (run_steps registry_step registry_empty [Prepare ''a'' ''p'', Prepare ''b'' ''p'', Claim ''a'' (Some ''s''), Claim ''b'' (Some ''s'')])"
  using no_transcript_in_two_tabs [of "[Prepare ''a'' ''p'', Prepare ''b'' ''p'', Claim ''a'' (Some ''s''), Claim ''b'' (Some ''s'')]"]
  by simp

end
