(* ===== verification/Ner_Pipeline.thy ===== *)
theory Ner_Pipeline
  imports Proxy_Ner
begin

text \<open>
  The host-side detector (\<open>crates/pii-ner/src\<close>): labels and tags (\<open>label.rs\<close>), spans and options
  (\<open>span.rs\<close>) and the pipeline around the classifier (\<open>pipeline/\<close>): validated token offsets,
  overlapping windows, batches, the decoding of tags into spans, removal of duplicates, merging and
  snapping to whole words. The tokenizer, the classifier and the Unicode class of alphanumeric chars
  are parameters.
\<close>

section \<open>Floats\<close>

text \<open>An \<open>f32\<close> with its special values; the two zeros are one value. Comparisons with NaN are false.\<close>

datatype float32 = NaN | NegInf | Finite f32 | PosInf

fun f32_less :: "float32 \<Rightarrow> float32 \<Rightarrow> bool" where
  "f32_less NaN b = False"
| "f32_less a NaN = False"
| "f32_less PosInf b = False"
| "f32_less a NegInf = False"
| "f32_less (Finite a) (Finite b) = (a < b)"
| "f32_less a b = True"

definition f32_ge :: "float32 \<Rightarrow> float32 \<Rightarrow> bool" where
  "f32_ge a b \<longleftrightarrow> a \<noteq> NaN \<and> b \<noteq> NaN \<and> \<not> f32_less a b"

text \<open>\<open>f32::max\<close> and \<open>f32::min\<close>: a NaN gives way to the other argument.\<close>

definition f32_max :: "float32 \<Rightarrow> float32 \<Rightarrow> float32" where
  "f32_max a b = (if a = NaN then b else if f32_less a b then b else a)"

definition f32_min :: "float32 \<Rightarrow> float32 \<Rightarrow> float32" where
  "f32_min a b = (if a = NaN then b else if f32_less b a then b else a)"

definition F32_ONE :: f32 where "F32_ONE = 2 ^ 149"

section \<open>Labels and tags\<close>

datatype (plugins only: code) label =
  Ssn | CreditCard | Email | Url | IpAddress | GivenName | Surname | Phone | TaxId | BankAccount
  | RoutingNumber | GovernmentId | Passport | DriversLicense | BuildingNumber | StreetName
  | SecondaryAddress | City | State | ZipCode | Imei | Org

definition LABELS :: "(label \<times> rstr) list" where
  "LABELS =
     [(Ssn, ''SSN''), (CreditCard, ''CREDIT_CARD''), (Email, ''EMAIL''), (Url, ''URL''),
      (IpAddress, ''IP_ADDRESS''), (GivenName, ''GIVEN_NAME''), (Surname, ''SURNAME''), (Phone, ''PHONE''),
      (TaxId, ''TAX_ID''), (BankAccount, ''BANK_ACCOUNT''), (RoutingNumber, ''ROUTING_NUMBER''),
      (GovernmentId, ''GOVERNMENT_ID''), (Passport, ''PASSPORT''), (DriversLicense, ''DRIVERS_LICENSE''),
      (BuildingNumber, ''BUILDING_NUMBER''), (StreetName, ''STREET_NAME''),
      (SecondaryAddress, ''SECONDARY_ADDRESS''), (City, ''CITY''), (State, ''STATE''), (ZipCode, ''ZIP_CODE''),
      (Imei, ''IMEI''), (Org, ''ORG'')]"

definition label_as_str :: "label \<Rightarrow> rstr" where
  "label_as_str l = (case find (\<lambda>(label, _). label = l) LABELS of Some (_, name) \<Rightarrow> name | None \<Rightarrow> ''ORG'')"

text \<open>The error of the two parsers is the string they do not know.\<close>

definition label_from_str :: "rstr \<Rightarrow> rstr + label" where
  "label_from_str s = ok_or s (map_option fst (find (\<lambda>(_, name). name = s) LABELS))"

datatype tag = Outside | Begin label | Inside label | End label | Single label

definition tag_from_str :: "rstr \<Rightarrow> rstr + tag" where
  "tag_from_str s =
     (if s = ''O'' then Inr Outside
      else case split_once ''-'' s of
          None \<Rightarrow> Inl s
        | Some (pre, name) \<Rightarrow>
            res_bind (label_from_str name) (\<lambda>label.
              if pre = ''B'' then Inr (Begin label)
              else if pre = ''I'' then Inr (Inside label)
              else if pre = ''E'' then Inr (End label)
              else if pre = ''S'' then Inr (Single label)
              else Inl s))"

datatype label_set_error = ClassZero | UnknownLabel rstr | LabelCount nat nat

definition label_set_from_names :: "rstr list \<Rightarrow> label_set_error + tag list" where
  "label_set_from_names names =
     (if names = [] \<or> hd names \<noteq> ''O'' then Inl ClassZero
      else case res_traverse tag_from_str names of Inl e \<Rightarrow> Inl (UnknownLabel e) | Inr tags \<Rightarrow> Inr tags)"

definition label_set_tag :: "tag list \<Rightarrow> nat \<Rightarrow> tag option" where
  "label_set_tag tags class = (if class < length tags then Some (tags ! class) else None)"

section \<open>Spans and options\<close>

definition SEQ_LEN :: nat where "SEQ_LEN = 256"
definition MAX_CONTENT :: nat where "MAX_CONTENT = SEQ_LEN - 2"
definition STRIDE :: nat where "STRIDE = 64"
definition WINDOW_STEP :: nat where "WINDOW_STEP = MAX_CONTENT - STRIDE"
definition DEFAULT_MIN_SCORE :: float32 where "DEFAULT_MIN_SCORE = Finite (10066330 * 2 ^ 125)"

record entity =
  en_start :: nat
  en_end :: nat
  en_label :: label
  en_confidence :: float32

text \<open>\<open>NonZeroUsize\<close> is a natural number that is not zero, see \<open>detect_options_ok\<close>.\<close>

record detect_options =
  do_min_score :: float32
  do_batch_windows :: nat

definition detect_options_ok :: "detect_options \<Rightarrow> bool" where
  "detect_options_ok opts \<longleftrightarrow> 0 < do_batch_windows opts"

definition effective_min_score :: "detect_options \<Rightarrow> float32" where
  "effective_min_score opts =
     (case do_min_score opts of
        Finite x \<Rightarrow> Finite (if x < 0 then 0 else if F32_ONE < x then F32_ONE else x)
      | _ \<Rightarrow> DEFAULT_MIN_SCORE)"

definition default_detect_options :: detect_options where
  "default_detect_options = \<lparr> do_min_score = DEFAULT_MIN_SCORE, do_batch_windows = 1 + 15 \<rparr>"

section \<open>Errors of a detection\<close>

datatype detect_error = TokenizerFailed rstr | ModelFailed rstr | BadOffsets nat nat nat

definition range_str :: "nat \<times> nat \<Rightarrow> rstr" where
  "range_str r = nat_str (fst r) @ ''..'' @ nat_str (snd r)"

section \<open>Tokens\<close>

record token =
  tk_id :: u32
  tk_start :: nat
  tk_end :: nat

text \<open>The tokenizer gives the ids and the offsets of its encoding.\<close>

type_synonym tokenizer = "rstr \<Rightarrow> rstr + u32 list \<times> (nat \<times> nat) list"

definition encode_token :: "rstr \<Rightarrow> nat \<times> u32 \<times> nat \<times> nat \<Rightarrow> detect_error + token" where
  "encode_token text = (\<lambda>(i, id, start, end').
     if start \<le> end' \<and> end' \<le> length text \<and> is_char_boundary text start \<and> is_char_boundary text end'
     then Inr \<lparr> tk_id = id, tk_start = start, tk_end = end' \<rparr>
     else Inl (BadOffsets i start end'))"

definition encode_tokens :: "tokenizer \<Rightarrow> rstr \<Rightarrow> detect_error + token list" where
  "encode_tokens tok text =
     (case tok text of
        Inl e \<Rightarrow> Inl (TokenizerFailed e)
      | Inr (ids, offs) \<Rightarrow> res_traverse (encode_token text) (enumerate 0 (zip ids offs)))"

section \<open>Windows\<close>

function window_loop :: "nat \<Rightarrow> nat \<Rightarrow> (nat \<times> nat) list" where
  "window_loop n_tokens start =
     (let end' = min (start + MAX_CONTENT) n_tokens in
      (start, end') # (if end' = n_tokens then [] else window_loop n_tokens (start + WINDOW_STEP)))"
  by pat_completeness auto
termination
  by (relation "measure (\<lambda>(n, start). n - start)")
     (auto simp: MAX_CONTENT_def WINDOW_STEP_def SEQ_LEN_def STRIDE_def min_def split: if_splits)

declare window_loop.simps [simp del]

definition window_ranges :: "nat \<Rightarrow> (nat \<times> nat) list" where
  "window_ranges n_tokens = (if n_tokens = 0 then [] else window_loop n_tokens 0)"

type_synonym i32 = "32 word"

text \<open>Floats that only the network uses are opaque: their bits.\<close>

record bert_config =
  bc_hidden :: nat
  bc_heads :: nat
  bc_head_dim :: nat
  bc_layers :: nat
  bc_intermediate :: nat
  bc_vocab :: nat
  bc_seq_len :: nat
  bc_num_labels :: nat
  bc_layer_norm_eps :: u64
  bc_attention_scale :: u32
  bc_gelu_approximate :: bool
  bc_pad_id :: i32
  bc_cls_id :: i32
  bc_sep_id :: i32

record window =
  wi_ids :: "i32 list"
  wi_mask :: "i32 list"
  wi_real_len :: nat

definition vec_resize :: "nat \<Rightarrow> 'a \<Rightarrow> 'a list \<Rightarrow> 'a list" where
  "vec_resize n x xs = take n xs @ replicate (n - length xs) x"

definition i32_try_from :: "u32 \<Rightarrow> i32 option" where
  "i32_try_from x = (if uint x < 2 ^ 31 then Some x else None)"

definition encode_window :: "token list \<Rightarrow> bert_config \<Rightarrow> window" where
  "encode_window chunk cfg =
     (let real_len = length chunk + 2;
          ids = [bc_cls_id cfg]
                @ map (\<lambda>t. case i32_try_from (tk_id t) of Some i \<Rightarrow> i | None \<Rightarrow> bc_pad_id cfg) chunk
                @ [bc_sep_id cfg]
      in \<lparr> wi_ids = vec_resize SEQ_LEN (bc_pad_id cfg) ids, wi_mask = vec_resize SEQ_LEN 0 (replicate real_len 1),
           wi_real_len = real_len \<rparr>)"

section \<open>From tags to spans\<close>

record raw_span =
  rs_start :: nat
  rs_end :: nat
  rs_label :: label

type_synonym bioes_state = "raw_span option \<times> raw_span list"

definition bioes_close :: "bioes_state \<Rightarrow> bioes_state" where
  "bioes_close st =
     (case fst st of
        None \<Rightarrow> st
      | Some sp \<Rightarrow> (None, if rs_end sp > rs_start sp then snd st @ [sp] else snd st))"

definition bioes_step :: "tag \<times> nat \<times> nat \<Rightarrow> bioes_state \<Rightarrow> bioes_state" where
  "bioes_step item st =
     (case item of (t, start, end') \<Rightarrow>
        if end' \<le> start then st
        else case t of
            Outside \<Rightarrow> bioes_close st
          | Single l \<Rightarrow> (None, snd (bioes_close st) @ [\<lparr> rs_start = start, rs_end = end', rs_label = l \<rparr>])
          | Begin l \<Rightarrow> (Some \<lparr> rs_start = start, rs_end = end', rs_label = l \<rparr>, snd (bioes_close st))
          | Inside l \<Rightarrow>
              (case fst st of
                 Some sp \<Rightarrow>
                   if rs_label sp = l then (Some (sp \<lparr> rs_end := end' \<rparr>), snd st)
                   else (Some \<lparr> rs_start = start, rs_end = end', rs_label = l \<rparr>, snd (bioes_close st))
               | None \<Rightarrow> (Some \<lparr> rs_start = start, rs_end = end', rs_label = l \<rparr>, snd (bioes_close st)))
          | End l \<Rightarrow>
              (case fst st of
                 Some sp \<Rightarrow>
                   if rs_label sp = l then bioes_close (Some (sp \<lparr> rs_end := end' \<rparr>), snd st)
                   else (None, snd (bioes_close st) @ [\<lparr> rs_start = start, rs_end = end', rs_label = l \<rparr>])
               | None \<Rightarrow> (None, snd (bioes_close st) @ [\<lparr> rs_start = start, rs_end = end', rs_label = l \<rparr>])))"

definition bioes_to_spans :: "tag list \<Rightarrow> (nat \<times> nat) list \<Rightarrow> raw_span list" where
  "bioes_to_spans tags offs = snd (bioes_close (fold bioes_step (zip tags offs) (None, [])))"

section \<open>Duplicates and overlaps\<close>

type_synonym scored = "raw_span \<times> float32"

definition dedupe_step :: "scored \<Rightarrow> (raw_span \<rightharpoonup> nat) \<times> scored list \<Rightarrow> (raw_span \<rightharpoonup> nat) \<times> scored list" where
  "dedupe_step item st =
     (case (item, st) of ((sp, score), (index, out)) \<Rightarrow>
        (case index sp of
           Some at \<Rightarrow>
             (index, if f32_less (snd (out ! at)) score then out[at := (fst (out ! at), score)] else out)
         | None \<Rightarrow> (index(sp \<mapsto> length out), out @ [(sp, score)])))"

definition dedupe_best :: "scored list \<Rightarrow> scored list" where
  "dedupe_best spans = snd (fold dedupe_step spans (Map.empty, []))"

definition merge_order :: "entity \<Rightarrow> nat \<times> int \<times> rstr" where
  "merge_order s = (en_start s, - int (en_end s - en_start s), label_as_str (en_label s))"

definition merge_step :: "entity \<Rightarrow> entity list \<Rightarrow> entity list" where
  "merge_step s out =
     (if out = [] then [s]
      else let l = last out in
        if en_label l = en_label s \<and> en_start s \<le> en_end l then
          butlast out @ [l \<lparr> en_end := max (en_end l) (en_end s),
                            en_confidence := f32_max (en_confidence l) (en_confidence s) \<rparr>]
        else if en_start s < en_end l then out
        else out @ [s])"

definition merge_same_label :: "entity list \<Rightarrow> entity list" where
  "merge_same_label spans = fold merge_step (sort_key merge_order spans) []"

section \<open>Snapping to words\<close>

definition CONNECTORS :: "rchar list" where
  "CONNECTORS = [''-'', [CHR 39], [CHR 0xE2, CHR 0x80, CHR 0x99]]"

definition char_before :: "rstr \<Rightarrow> nat \<Rightarrow> rchar option" where
  "char_before text pos = (let cs = chars (take pos text) in if cs = [] then None else Some (last cs))"

definition char_at :: "rstr \<Rightarrow> nat \<Rightarrow> rchar option" where
  "char_at text pos = (case chars (drop pos text) of [] \<Rightarrow> None | c # _ \<Rightarrow> Some c)"

fun floor_boundary :: "rstr \<Rightarrow> nat \<Rightarrow> nat" where
  "floor_boundary text 0 = 0"
| "floor_boundary text (Suc s) = (if is_char_boundary text (Suc s) then Suc s else floor_boundary text s)"

text \<open>The position is at most the length, which is a boundary.\<close>

function ceil_boundary :: "rstr \<Rightarrow> nat \<Rightarrow> nat" where
  "ceil_boundary text e = (if length text \<le> e \<or> is_char_boundary text e then e else ceil_boundary text (e + 1))"
  by pat_completeness auto
termination
  by (relation "measure (\<lambda>(text, e). length text - e)") auto

declare ceil_boundary.simps [simp del]

lemma chars_no_empty: "[] \<notin> set (chars s)"
proof (induction s rule: utf8_chars.induct)
  case (1 s)
  show ?case
  proof (cases "s = [] \<or> utf8_head s = None")
    case True
    then show ?thesis by (auto simp: chars_def utf8_chars.simps [of s])
  next
    case False
    then obtain x n where h: "utf8_head s = Some (x, n)" by auto
    have n: "0 < n" "n \<le> length s" using utf8_head_bounds [OF h] by auto
    have "[] \<notin> set (chars (drop n s))" using "1.IH" [of "(x, n)" x n] False h by simp
    then show ?thesis
      using n False by (auto simp: chars_def utf8_chars_step [OF h] split: option.splits)
  qed
qed

lemma chars_Nil [simp]: "chars [] = []"
  by (simp add: chars_def)

lemma char_before_pos: "char_before text pos = Some c \<Longrightarrow> 0 < pos \<and> 0 < length c"
proof -
  assume c: "char_before text pos = Some c"
  then have ne: "chars (take pos text) \<noteq> []" and c': "c = last (chars (take pos text))"
    by (auto simp: char_before_def Let_def split: if_splits)
  then have "c \<in> set (chars (take pos text))" by simp
  moreover have "pos \<noteq> 0" using ne by (auto intro: ccontr)
  ultimately show ?thesis using chars_no_empty [of "take pos text"] by auto
qed

lemma char_at_pos: "char_at text pos = Some c \<Longrightarrow> pos < length text \<and> 0 < length c"
proof -
  assume "char_at text pos = Some c"
  then obtain cs where cs: "chars (drop pos text) = c # cs" by (auto simp: char_at_def split: list.splits)
  then have "pos < length text" by (intro notI leI ccontr [of "pos < length text"]) auto
  moreover have "c \<noteq> []" using chars_no_empty [of "drop pos text"] cs by auto
  ultimately show ?thesis by simp
qed

lemma char_at_less: "char_at text e = Some c \<Longrightarrow> length text - (e + length c) < length text - e"
  using char_at_pos [of "text" e c] by linarith

function snap_left :: "(rchar \<Rightarrow> bool) \<Rightarrow> rstr \<Rightarrow> nat \<Rightarrow> nat" where
  "snap_left word text s =
     (case char_before text s of
        None \<Rightarrow> s
      | Some c \<Rightarrow>
          if word c then snap_left word text (s - length c)
          else if c \<in> set CONNECTORS then
            (case char_before text (s - length c) of
               None \<Rightarrow> s
             | Some p \<Rightarrow> if word p then snap_left word text (s - length c) else s)
          else s)"
  by pat_completeness auto
termination
  by (relation "measure (\<lambda>(word, text, s). s)") (auto dest: char_before_pos)

function snap_right :: "(rchar \<Rightarrow> bool) \<Rightarrow> rstr \<Rightarrow> nat \<Rightarrow> nat" where
  "snap_right word text e =
     (case char_at text e of
        None \<Rightarrow> e
      | Some c \<Rightarrow>
          if word c then snap_right word text (e + length c)
          else if c \<in> set CONNECTORS then
            (case char_at text (e + length c) of
               None \<Rightarrow> e
             | Some p \<Rightarrow> if word p then snap_right word text (e + length c) else e)
          else e)"
  by pat_completeness auto
termination
  by (relation "measure (\<lambda>(word, text, e). length text - e)") (auto intro: char_at_less)

declare snap_left.simps [simp del] snap_right.simps [simp del]

definition snap_one :: "(rchar \<Rightarrow> bool) \<Rightarrow> rstr \<Rightarrow> nat \<Rightarrow> nat \<Rightarrow> nat \<times> nat" where
  "snap_one word text start end' =
     (let n = length text in
      (snap_left word text (floor_boundary text (min start n)),
       snap_right word text (ceil_boundary text (min end' n))))"

definition snap_entity :: "(rchar \<Rightarrow> bool) \<Rightarrow> rstr \<Rightarrow> entity \<Rightarrow> entity" where
  "snap_entity word text s =
     (case snap_one word text (en_start s) (en_end s) of (start, end') \<Rightarrow> s \<lparr> en_start := start, en_end := end' \<rparr>)"

definition snap_to_words :: "(rchar \<Rightarrow> bool) \<Rightarrow> rstr \<Rightarrow> entity list \<Rightarrow> entity list" where
  "snap_to_words word text spans = merge_same_label (map (snap_entity word text) spans)"

section \<open>The detector\<close>

text \<open>
  The classifier gets the ids and the padding mask of a whole batch, row after row, and gives a
  class and a probability per position.
\<close>

type_synonym classifier = "i32 list \<Rightarrow> bool list \<Rightarrow> int list \<times> float32 list"

record detector =
  de_predict :: classifier
  de_tokenizer :: tokenizer
  de_labels :: "tag list"
  de_config :: bert_config
  de_low_score :: float32
  de_word_char :: "rchar \<Rightarrow> bool"

record window_prediction =
  wp_range :: "nat \<times> nat"
  wp_real_len :: nat
  wp_classes :: "nat list"
  wp_probs :: "float32 list"

record job =
  jb_text :: nat
  jb_range :: "nat \<times> nat"
  jb_window :: window

definition token_slice :: "token list \<Rightarrow> nat \<times> nat \<Rightarrow> token list" where
  "token_slice tokens r = drop (fst r) (take (snd r) tokens)"

definition jobs_for :: "detector \<Rightarrow> nat \<Rightarrow> token list \<Rightarrow> job list" where
  "jobs_for D text tokens =
     map (\<lambda>r. \<lparr> jb_text = text, jb_range = r, jb_window = encode_window (token_slice tokens r) (de_config D) \<rparr>)
       (window_ranges (length tokens))"

definition usize_try_from :: "int \<Rightarrow> nat option" where
  "usize_try_from c = (if c < 0 then None else Some (nat c))"

definition run_batch :: "detector \<Rightarrow> job list \<Rightarrow> detect_error + nat list \<times> float32 list" where
  "run_batch D batch =
     (let n = length batch;
          ids = concat (map (wi_ids \<circ> jb_window) batch);
          mask = concat (map (wi_mask \<circ> jb_window) batch)
      in case de_predict D ids (map (\<lambda>m. m = 0) mask) of (cls, probs) \<Rightarrow>
        let classes = map (\<lambda>c. case usize_try_from c of Some k \<Rightarrow> k | None \<Rightarrow> 0) cls in
        if length classes \<noteq> n * SEQ_LEN \<or> length probs \<noteq> n * SEQ_LEN
        then Inl (ModelFailed (''expected '' @ nat_str (n * SEQ_LEN) @ '' predictions, got ''
                    @ nat_str (length classes) @ '' classes and '' @ nat_str (length probs) @ '' probabilities''))
        else Inr (classes, probs))"

definition prediction_at :: "nat list \<times> float32 list \<Rightarrow> nat \<times> job \<Rightarrow> window_prediction" where
  "prediction_at output item =
     (case item of (i, job) \<Rightarrow>
        let base = i * SEQ_LEN; real_len = wi_real_len (jb_window job) in
        \<lparr> wp_range = jb_range job, wp_real_len = real_len,
          wp_classes = take real_len (drop base (fst output)), wp_probs = take real_len (drop base (snd output)) \<rparr>)"

text \<open>\<open>slice::chunks\<close>\<close>

function chunks_of :: "nat \<Rightarrow> 'a list \<Rightarrow> 'a list list" where
  "chunks_of n xs = (if n = 0 \<or> xs = [] then [] else take n xs # chunks_of n (drop n xs))"
  by pat_completeness auto
termination
  by (relation "measure (\<lambda>(n, xs). length xs)") auto

declare chunks_of.simps [simp del]

definition predict_jobs :: "detector \<Rightarrow> job list \<Rightarrow> detect_options \<Rightarrow> detect_error + window_prediction list" where
  "predict_jobs D jobs opts =
     res_map concat
       (res_traverse (\<lambda>batch. res_map (\<lambda>output. map (prediction_at output) (enumerate 0 batch)) (run_batch D batch))
         (chunks_of (do_batch_windows opts) jobs))"

text \<open>\<open>slice::get\<close> with a range\<close>

definition window_offsets :: "token list \<Rightarrow> window_prediction \<Rightarrow> detect_error + (nat \<times> nat) list" where
  "window_offsets tokens w =
     (let r = wp_range w in
      if fst r > snd r \<or> snd r > length tokens
      then Inl (ModelFailed (''window '' @ range_str r @ '' lies outside the '' @ nat_str (length tokens)
                  @ '' tokens of the text''))
      else
        let chunk = token_slice tokens r; real_len = length chunk + 2 in
        if wp_real_len w \<noteq> real_len \<or> length (wp_classes w) \<noteq> real_len \<or> length (wp_probs w) \<noteq> real_len
        then Inl (ModelFailed (''window '' @ range_str r @ '' carries '' @ nat_str (length (wp_classes w))
                    @ '' classes and '' @ nat_str (length (wp_probs w)) @ '' probabilities for ''
                    @ nat_str real_len @ '' positions''))
        else Inr ((0, 0) # map (\<lambda>t. (tk_start t, tk_end t)) chunk @ [(0, 0)]))"

definition decode_tag :: "tag list \<Rightarrow> float32 \<Rightarrow> nat \<times> float32 \<Rightarrow> tag" where
  "decode_tag labels low item =
     (case item of (class, prob) \<Rightarrow>
        if f32_ge prob low then (case label_set_tag labels class of Some t \<Rightarrow> t | None \<Rightarrow> Outside) else Outside)"

definition span_score :: "(nat \<times> nat) list \<Rightarrow> float32 list \<Rightarrow> raw_span \<Rightarrow> float32" where
  "span_score offs probs sp =
     fold (\<lambda>p acc. f32_max acc p)
       (map snd (filter (\<lambda>((s, e), _). e > s \<and> s < rs_end sp \<and> rs_start sp < e) (zip offs probs)))
       (Finite 0)"

definition decode_window :: "detector \<Rightarrow> (nat \<times> nat) list \<Rightarrow> window_prediction \<Rightarrow> float32 \<Rightarrow> scored list" where
  "decode_window D offs w low =
     map (\<lambda>sp. (sp, span_score offs (wp_probs w) sp))
       (bioes_to_spans (map (decode_tag (de_labels D) low) (zip (wp_classes w) (wp_probs w))) offs)"

definition entity_of :: "scored \<Rightarrow> entity" where
  "entity_of item =
     (case item of (raw, score) \<Rightarrow>
        \<lparr> en_start = rs_start raw, en_end = rs_end raw, en_label = rs_label raw, en_confidence = score \<rparr>)"

definition kept_entities :: "float32 \<Rightarrow> scored list \<Rightarrow> entity list" where
  "kept_entities min_score sc = map entity_of (filter (\<lambda>(_, score). f32_ge score min_score) (dedupe_best sc))"

definition report_order :: "entity \<Rightarrow> nat \<times> nat \<times> rstr" where
  "report_order s = (en_start s, en_end s, label_as_str (en_label s))"

definition postprocess ::
  "detector \<Rightarrow> rstr \<Rightarrow> token list \<Rightarrow> window_prediction list \<Rightarrow> detect_options \<Rightarrow> detect_error + entity list" where
  "postprocess D text tokens windows opts =
     (let min_score = effective_min_score opts;
          low = f32_min (de_low_score D) min_score
      in res_bind
           (res_traverse (\<lambda>w. res_map (\<lambda>offs. decode_window D offs w low) (window_offsets tokens w)) windows)
           (\<lambda>sc. Inr (sort_key report_order
                    (snap_to_words (de_word_char D) text (merge_same_label (kept_entities min_score (concat sc)))))))"

definition push_window :: "job \<times> window_prediction \<Rightarrow> window_prediction list list \<Rightarrow> window_prediction list list" where
  "push_window item ws = (case item of (j, p) \<Rightarrow> ws[jb_text j := ws ! jb_text j @ [p]])"

definition detect_all :: "detector \<Rightarrow> rstr list \<Rightarrow> detect_options \<Rightarrow> detect_error + entity list list" where
  "detect_all D texts opts =
     res_bind (res_traverse (encode_tokens (de_tokenizer D)) texts) (\<lambda>tokens.
       let jobs = concat (map (\<lambda>(i, ts). jobs_for D i ts) (enumerate 0 tokens)) in
       res_bind (predict_jobs D jobs opts) (\<lambda>predictions.
         let windows = fold push_window (zip jobs predictions) (replicate (length texts) []) in
         res_traverse (\<lambda>((text, ts), ws). postprocess D text ts ws opts) (zip (zip texts tokens) windows)))"

section \<open>Windows cover the tokens\<close>

lemma window_consts [simp]:
  "MAX_CONTENT = 254" "WINDOW_STEP = 190" "SEQ_LEN = 256" "STRIDE = 64"
  by (simp_all add: MAX_CONTENT_def WINDOW_STEP_def SEQ_LEN_def STRIDE_def)

lemma window_loop_ranges:
  "start < n \<Longrightarrow> r \<in> set (window_loop n start) \<Longrightarrow>
     start \<le> fst r \<and> fst r < snd r \<and> snd r \<le> n \<and> snd r - fst r \<le> MAX_CONTENT"
proof (induction n start rule: window_loop.induct)
  case (1 n start)
  show ?case
  proof (cases "r = (start, min (start + 254) n)")
    case True
    with "1.prems" show ?thesis by auto
  next
    case False
    then have rest: "r \<in> set (window_loop n (start + 190))" and "min (start + 254) n \<noteq> n"
      using "1.prems"(2) by (simp_all add: window_loop.simps [of n start] Let_def split: if_splits)
    then have "start + 190 < n" by auto
    have "min (start + MAX_CONTENT) n \<noteq> n" using \<open>min (start + 254) n \<noteq> n\<close> by simp
    from "1.IH" [OF refl this] rest \<open>start + 190 < n\<close> have "start + 190 \<le> fst r \<and> fst r < snd r \<and> snd r \<le> n \<and> snd r - fst r \<le> MAX_CONTENT"
      by simp
    then show ?thesis by simp
  qed
qed

lemma window_loop_hd: "window_loop n start \<noteq> [] \<and> hd (window_loop n start) = (start, min (start + 254) n)"
  by (simp add: window_loop.simps [of n start] Let_def)

lemma window_loop_cover:
  "start \<le> i \<Longrightarrow> i < n \<Longrightarrow> \<exists>r \<in> set (window_loop n start). fst r \<le> i \<and> i < snd r"
proof (induction n start rule: window_loop.induct)
  case (1 n start)
  show ?case
  proof (cases "i < min (start + 254) n")
    case True
    with "1.prems" show ?thesis by (auto simp: window_loop.simps [of n start] Let_def)
  next
    case False
    with "1.prems" have "min (start + 254) n \<noteq> n" "start + 190 \<le> i" by auto
    with "1.IH" [OF refl] "1.prems" show ?thesis
      by (simp add: window_loop.simps [of n start] Let_def)
  qed
qed

lemma window_loop_overlap:
  "start < n \<Longrightarrow> Suc k < length (window_loop n start) \<Longrightarrow>
     snd (window_loop n start ! k) = fst (window_loop n start ! Suc k) + STRIDE"
proof (induction n start arbitrary: k rule: window_loop.induct)
  case (1 n start)
  from "1.prems"(2) have ne: "min (start + 254) n \<noteq> n"
    by (auto simp: window_loop.simps [of n start] Let_def split: if_splits)
  then have loop: "window_loop n start = (start, start + 254) # window_loop n (start + 190)"
    by (auto simp: window_loop.simps [of n start] Let_def min_def split: if_splits)
  show ?case
  proof (cases k)
    case 0
    have "window_loop n (start + 190) ! 0 = (start + 190, min (start + 190 + 254) n)"
      using window_loop_hd [of n "start + 190"] by (cases "window_loop n (start + 190)") simp_all
    with 0 show ?thesis by (simp add: loop)
  next
    case (Suc m)
    have "start + 190 < n" using ne by auto
    with "1.IH" [OF refl, of m] "1.prems"(2) ne Suc show ?thesis by (simp add: loop)
  qed
qed

lemma window_content_fits:
  assumes "r \<in> set (window_ranges (length tokens))"
  shows "length (token_slice tokens r) = snd r - fst r" and "snd r - fst r \<le> MAX_CONTENT"
    and "fst r < snd r" and "snd r \<le> length tokens"
proof -
  have "0 < length tokens" and r: "r \<in> set (window_loop (length tokens) 0)"
    using assms by (auto simp: window_ranges_def split: if_splits)
  from window_loop_ranges [OF this] show "snd r - fst r \<le> MAX_CONTENT" "fst r < snd r" "snd r \<le> length tokens"
    "length (token_slice tokens r) = snd r - fst r"
    by (auto simp: token_slice_def)
qed

section \<open>Floats compared\<close>

lemma f32_less_trans: "f32_less a b \<Longrightarrow> f32_less b c \<Longrightarrow> f32_less a c"
  by (cases a; cases b; cases c) auto

lemma f32_less_irrefl [simp]: "\<not> f32_less a a"
  by (cases a) auto

lemma f32_less_num: "f32_less a b \<Longrightarrow> a \<noteq> NaN \<and> b \<noteq> NaN"
  by (cases a; cases b) auto

lemma f32_not_less_trans: "\<not> f32_less a b \<Longrightarrow> \<not> f32_less b c \<Longrightarrow> b \<noteq> NaN \<Longrightarrow> \<not> f32_less a c"
  by (cases a; cases b; cases c) auto

lemma f32_max_num: "a \<noteq> NaN \<Longrightarrow> f32_max a b \<noteq> NaN"
  using f32_less_num by (auto simp: f32_max_def)

lemma f32_max_ge: "a \<noteq> NaN \<Longrightarrow> \<not> f32_less (f32_max a b) a \<and> \<not> f32_less (f32_max a b) b"
  by (cases a; cases b) (auto simp: f32_max_def)

lemma f32_ge_max: "f32_ge a t \<Longrightarrow> f32_ge (f32_max a b) t"
  by (cases a; cases b; cases t) (auto simp: f32_max_def f32_ge_def)

section \<open>Spans of a window\<close>

text \<open>\<open>P\<close> holds of the ends of every token that is not empty, hence of the ends of every span.\<close>

definition raw_ok :: "(nat \<Rightarrow> bool) \<Rightarrow> raw_span \<Rightarrow> bool" where
  "raw_ok P sp \<longleftrightarrow> rs_start sp < rs_end sp \<and> P (rs_start sp) \<and> P (rs_end sp)"

definition bioes_ok :: "(nat \<Rightarrow> bool) \<Rightarrow> bioes_state \<Rightarrow> bool" where
  "bioes_ok P st \<longleftrightarrow>
     (\<forall>sp \<in> set (snd st). raw_ok P sp) \<and> (\<forall>sp. fst st = Some sp \<longrightarrow> P (rs_start sp) \<and> P (rs_end sp))"

lemma bioes_close_ok: "bioes_ok P st \<Longrightarrow> bioes_ok P (bioes_close st) \<and> fst (bioes_close st) = None"
  by (cases st; cases "fst st") (auto simp: bioes_ok_def bioes_close_def raw_ok_def)

lemma bioes_step_ok:
  assumes "bioes_ok P st" and "s < e \<Longrightarrow> P s \<and> P e"
  shows "bioes_ok P (bioes_step (t, s, e) st)"
proof (cases "s < e")
  case False
  with assms(1) show ?thesis by (simp add: bioes_step_def)
next
  case True
  have C: "bioes_ok P (bioes_close st)" "fst (bioes_close st) = None"
    using bioes_close_ok [OF assms(1)] by simp_all
  let ?fresh = "\<lambda>l. \<lparr> rs_start = s, rs_end = e, rs_label = l \<rparr>"
  have emit: "bioes_ok P (None, snd (bioes_close st) @ [?fresh l])" for l
    using C assms(2) True by (simp add: bioes_ok_def raw_ok_def)
  have start: "bioes_ok P (Some (?fresh l), snd (bioes_close st))" for l
    using C assms(2) True by (simp add: bioes_ok_def)
  have extend: "bioes_ok P (Some (sp \<lparr> rs_end := e \<rparr>), snd st)" if "fst st = Some sp" for sp
    using assms that True by (simp add: bioes_ok_def)
  show ?thesis
  proof (cases t)
    case Outside
    with True C show ?thesis by (simp add: bioes_step_def)
  next
    case (Begin l)
    with True start show ?thesis by (simp add: bioes_step_def)
  next
    case (Inside l)
    with True start extend show ?thesis by (simp add: bioes_step_def split: option.split)
  next
    case (End l)
    with True emit extend bioes_close_ok show ?thesis by (simp add: bioes_step_def split: option.split)
  next
    case (Single l)
    with True emit show ?thesis by (simp add: bioes_step_def)
  qed
qed

lemma bioes_fold_ok:
  "bioes_ok P st \<Longrightarrow> (\<And>t s e. (t, s, e) \<in> set items \<Longrightarrow> s < e \<Longrightarrow> P s \<and> P e) \<Longrightarrow>
     bioes_ok P (fold bioes_step items st)"
proof (induction items arbitrary: st)
  case Nil
  then show ?case by simp
next
  case (Cons x items)
  obtain t s e where x: "x = (t, s, e)" by (cases x)
  have "bioes_ok P (bioes_step (t, s, e) st)"
    by (rule bioes_step_ok [OF Cons.prems(1)]) (rule Cons.prems(2) [of t], simp_all add: x)
  then show ?case unfolding x fold_simps o_apply
    by (rule Cons.IH) (use Cons.prems(2) in auto)
qed

lemma bioes_to_spans_ok:
  assumes "\<And>s e. (s, e) \<in> set offs \<Longrightarrow> s < e \<Longrightarrow> P s \<and> P e" and "sp \<in> set (bioes_to_spans tags offs)"
  shows "raw_ok P sp"
proof -
  have "bioes_ok P (None, [])" by (simp add: bioes_ok_def)
  then have "bioes_ok P (fold bioes_step (zip tags offs) (None, []))"
    by (rule bioes_fold_ok) (rule assms(1), erule set_zip_rightD)
  from bioes_close_ok [OF this] assms(2) show ?thesis
    by (simp add: bioes_to_spans_def bioes_ok_def)
qed

lemma span_score_num: "span_score offs probs sp \<noteq> NaN"
proof -
  have "fold (\<lambda>p acc. f32_max acc p) ps a \<noteq> NaN" if "a \<noteq> NaN" for ps a
    using that by (induction ps arbitrary: a) (auto simp: f32_max_num)
  then show ?thesis by (simp add: span_score_def)
qed

section \<open>Duplicates\<close>

definition dedupe_ok :: "scored set \<Rightarrow> (raw_span \<rightharpoonup> nat) \<times> scored list \<Rightarrow> bool" where
  "dedupe_ok seen st \<longleftrightarrow>
     distinct (map fst (snd st)) \<and> set (snd st) \<subseteq> seen
     \<and> (\<forall>sp i. fst st sp = Some i \<longleftrightarrow> i < length (snd st) \<and> fst (snd st ! i) = sp)
     \<and> (\<forall>(sp, c) \<in> seen. \<exists>c'. (sp, c') \<in> set (snd st) \<and> \<not> f32_less c' c)"

lemma dedupe_step_ok:
  assumes "dedupe_ok seen st" and "\<forall>(_, c) \<in> seen. c \<noteq> NaN" and "score \<noteq> NaN"
  shows "dedupe_ok (insert (sp, score) seen) (dedupe_step (sp, score) st)"
proof -
  obtain index out where st: "st = (index, out)" by force
  have d: "distinct (map fst out)" and sub: "set out \<subseteq> seen"
    and ix: "\<And>s i. index s = Some i \<longleftrightarrow> i < length out \<and> fst (out ! i) = s"
    and best: "\<And>s c. (s, c) \<in> seen \<Longrightarrow> \<exists>c'. (s, c') \<in> set out \<and> \<not> f32_less c' c"
    using assms(1) by (auto simp: dedupe_ok_def st)
  show ?thesis
  proof (cases "index sp")
    case None
    then have new: "\<And>i. i < length out \<Longrightarrow> fst (out ! i) \<noteq> sp" using ix [of sp] by auto
    then have "sp \<notin> fst ` set out" by (force simp: in_set_conv_nth)
    moreover have "(index(sp \<mapsto> length out)) s = Some i
        \<longleftrightarrow> i < length (out @ [(sp, score)]) \<and> fst ((out @ [(sp, score)]) ! i) = s" for s i
      using ix [of s i] new [of i] by (auto simp: nth_append less_Suc_eq)
    moreover have "\<exists>c'. (s, c') \<in> set (out @ [(sp, score)]) \<and> \<not> f32_less c' c" if "(s, c) \<in> insert (sp, score) seen" for s c
      using that best [of s c] by auto
    moreover have "dedupe_step (sp, score) st = (index(sp \<mapsto> length out), out @ [(sp, score)])"
      using None by (simp add: dedupe_step_def st)
    ultimately show ?thesis
      unfolding dedupe_ok_def using d sub by (auto simp del: fun_upd_apply)
  next
    case (Some i)
    then have i: "i < length out" "fst (out ! i) = sp" using ix by auto
    obtain old where old: "out ! i = (sp, old)" using i by (cases "out ! i") auto
    then have mem: "(sp, old) \<in> set out" using i nth_mem by metis
    show ?thesis
    proof (cases "f32_less old score")
      case False
      then have "\<exists>c'. (s, c') \<in> set out \<and> \<not> f32_less c' c" if "(s, c) \<in> insert (sp, score) seen" for s c
        using that best [of s c] mem by auto
      moreover have "dedupe_step (sp, score) st = (index, out)"
        using Some False old by (simp add: dedupe_step_def st)
      ultimately show ?thesis
        unfolding dedupe_ok_def using d sub ix by auto
    next
      case True
      let ?out = "out[i := (sp, score)]"
      have "map fst ?out = map fst out" using i old by (simp add: map_update list_update_same_conv)
      moreover have "set ?out \<subseteq> insert (sp, score) seen" using sub set_update_subset_insert by fast
      moreover have "index s = Some j \<longleftrightarrow> j < length ?out \<and> fst (?out ! j) = s" for s j
        using ix [of s j] i by (auto simp: nth_list_update)
      moreover have "\<exists>c'. (s, c') \<in> set ?out \<and> \<not> f32_less c' c" if "(s, c) \<in> insert (sp, score) seen" for s c
      proof (cases "s = sp")
        case True
        have "(sp, score) \<in> set ?out" using i set_update_memI by metis
        moreover have "\<not> f32_less score c"
        proof (cases "c = score")
          case False
          then have "(sp, c) \<in> seen" using that True by simp
          from best [OF this] obtain c' where c': "(sp, c') \<in> set out" "\<not> f32_less c' c" by blast
          with d mem have "c' = old" by (metis eq_key_imp_eq_value)
          with c'(2) \<open>f32_less old score\<close> show ?thesis using f32_less_trans by blast
        qed simp
        ultimately show ?thesis using True by blast
      next
        case False
        then have "(s, c) \<in> seen" using that by simp
        from best [OF this] obtain c' where c': "(s, c') \<in> set out" "\<not> f32_less c' c" by blast
        then obtain j where j: "j < length out" "out ! j = (s, c')" by (auto simp: in_set_conv_nth)
        with False old have "?out ! j = (s, c')" by (cases "j = i") auto
        with j c'(2) show ?thesis by (metis length_list_update nth_mem)
      qed
      moreover have "dedupe_step (sp, score) st = (index, ?out)"
        using Some True old by (simp add: dedupe_step_def st)
      ultimately show ?thesis
        unfolding dedupe_ok_def using d by auto
    qed
  qed
qed

lemma dedupe_best_ok:
  assumes "\<forall>(_, c) \<in> set spans. c \<noteq> NaN"
  shows "distinct (map fst (dedupe_best spans))" and "set (dedupe_best spans) \<subseteq> set spans"
    and "(sp, c) \<in> set spans \<Longrightarrow> \<exists>c'. (sp, c') \<in> set (dedupe_best spans) \<and> \<not> f32_less c' c"
proof -
  have "dedupe_ok (seen \<union> set spans) (fold dedupe_step spans st)"
    if "dedupe_ok seen st" "\<forall>(_, c) \<in> seen. c \<noteq> NaN" for seen st
    using assms that
  proof (induction spans arbitrary: seen st)
    case Nil
    then show ?case by simp
  next
    case (Cons x spans)
    obtain sp c where x: "x = (sp, c)" by force
    have "dedupe_ok (insert x seen) (dedupe_step x st)"
      unfolding x using Cons.prems x by (intro dedupe_step_ok) auto
    from Cons.IH [OF _ this] Cons.prems show ?case by simp
  qed
  from this [of "{}" "(Map.empty, [])"] have "dedupe_ok (set spans) (fold dedupe_step spans (Map.empty, []))"
    by (simp add: dedupe_ok_def)
  then show "distinct (map fst (dedupe_best spans))" "set (dedupe_best spans) \<subseteq> set spans"
    "(sp, c) \<in> set spans \<Longrightarrow> \<exists>c'. (sp, c') \<in> set (dedupe_best spans) \<and> \<not> f32_less c' c"
    by (auto simp: dedupe_ok_def dedupe_best_def)
qed

section \<open>Overlaps\<close>

definition entity_ok :: "(nat \<Rightarrow> bool) \<Rightarrow> float32 \<Rightarrow> entity \<Rightarrow> bool" where
  "entity_ok P min_score s \<longleftrightarrow>
     en_start s < en_end s \<and> P (en_start s) \<and> P (en_end s) \<and> f32_ge (en_confidence s) min_score"

definition separate :: "entity list \<Rightarrow> bool" where
  "separate spans \<longleftrightarrow> sorted_wrt (\<lambda>a b. en_end a \<le> en_start b) spans"

definition covers :: "entity \<Rightarrow> entity \<Rightarrow> bool" where
  "covers r s \<longleftrightarrow> en_start r \<le> en_start s \<and> en_end s \<le> en_end r \<and> en_label r = en_label s"

definition collide :: "entity \<Rightarrow> entity \<Rightarrow> bool" where
  "collide a b \<longleftrightarrow> en_label a \<noteq> en_label b \<and> en_start a < en_end b \<and> en_start b < en_end a"

text \<open>What is true of the output while the sorted spans \<open>seen\<close> have been handled.\<close>

definition merge_inv :: "(nat \<Rightarrow> bool) \<Rightarrow> float32 \<Rightarrow> entity set \<Rightarrow> entity list \<Rightarrow> bool" where
  "merge_inv P m seen out \<longleftrightarrow>
     separate out \<and> (\<forall>r \<in> set out. entity_ok P m r)
     \<and> (\<forall>r \<in> set out. \<exists>p \<in> seen. en_start p = en_start r)
     \<and> (\<forall>r \<in> set out. \<exists>p \<in> seen. en_label p = en_label r \<and> en_end p = en_end r)
     \<and> (\<forall>s \<in> seen. (\<exists>r \<in> set out. covers r s) \<or> (\<exists>p \<in> seen. collide p s))"

lemma merge_step_forms:
  obtains (push) "merge_step s out = out @ [s]" "out = [] \<or> en_end (last out) \<le> en_start s"
  | (skip) "merge_step s out = out" "out \<noteq> []" "en_label (last out) \<noteq> en_label s"
      "en_start s < en_end (last out)"
  | (merge) before l where "out = before @ [l]" "en_label l = en_label s" "en_start s \<le> en_end l"
      "merge_step s out = before @ [l \<lparr> en_end := max (en_end l) (en_end s),
         en_confidence := f32_max (en_confidence l) (en_confidence s) \<rparr>]"
proof (cases "out = []")
  case True
  then show ?thesis by (intro push) (simp_all add: merge_step_def)
next
  case False
  then obtain before l where out: "out = before @ [l]" by (metis append_butlast_last_id)
  show ?thesis
  proof (cases "en_label l = en_label s \<and> en_start s \<le> en_end l")
    case True
    then show ?thesis by (intro merge [OF out]) (simp_all add: merge_step_def out)
  next
    case other: False
    show ?thesis
    proof (cases "en_start s < en_end l")
      case True
      with other show ?thesis by (intro skip) (auto simp: merge_step_def out)
    next
      case False
      with other show ?thesis by (intro push) (auto simp: merge_step_def out)
    qed
  qed
qed

lemma separate_last:
  assumes "separate out" and "\<forall>r \<in> set out. entity_ok P m r" and "r \<in> set out"
  shows "en_end r \<le> en_end (last out)"
  using assms
  by (cases out rule: rev_cases)
     (auto simp: separate_def sorted_wrt_append entity_ok_def dest!: bspec intro: order.trans less_imp_le)

lemma merge_step_inv:
  assumes I: "merge_inv P m seen out" and s: "entity_ok P m s" and order: "\<forall>p \<in> seen. en_start p \<le> en_start s"
  shows "merge_inv P m (insert s seen) (merge_step s out)"
proof -
  have sep: "separate out" and ok: "\<forall>r \<in> set out. entity_ok P m r"
    and starts: "\<forall>r \<in> set out. \<exists>p \<in> seen. en_start p = en_start r"
    and ends: "\<forall>r \<in> set out. \<exists>p \<in> seen. en_label p = en_label r \<and> en_end p = en_end r"
    and cov: "\<forall>s \<in> seen. (\<exists>r \<in> set out. covers r s) \<or> (\<exists>p \<in> seen. collide p s)"
    using I by (simp_all add: merge_inv_def)
  show ?thesis
  proof (cases rule: merge_step_forms [where s = s and out = out])
    case push
    have "\<forall>r \<in> set out. en_end r \<le> en_start s"
      using separate_last [OF sep] ok push(2) by fastforce
    then have "separate (out @ [s])" using sep by (auto simp: separate_def sorted_wrt_append)
    moreover have "covers s s" by (simp add: covers_def)
    ultimately show ?thesis
      unfolding push(1) merge_inv_def using ok s starts ends cov by auto
  next
    case skip
    have l: "last out \<in> set out" using skip(2) by simp
    then obtain p where p: "p \<in> seen" "en_label p = en_label (last out)" "en_end p = en_end (last out)"
      using ends by blast
    have "collide p s"
      using p skip order s by (auto simp: collide_def entity_ok_def dest: bspec)
    then show ?thesis
      unfolding skip(1) merge_inv_def using p(1) sep ok starts ends cov by blast
  next
    case (merge before l)
    define l' where "l' = l \<lparr> en_end := max (en_end l) (en_end s),
      en_confidence := f32_max (en_confidence l) (en_confidence s) \<rparr>"
    have step: "merge_step s out = before @ [l']" by (simp add: merge(4) l'_def)
    have l: "l \<in> set out" and before: "set before \<subseteq> set out" by (auto simp: merge(1))
    obtain p where p: "p \<in> seen" "en_start p = en_start l" using starts l by blast
    obtain q where q: "q \<in> seen" "en_label q = en_label l" "en_end q = en_end l" using ends l by blast
    have A: "separate (before @ [l'])" using sep by (simp add: separate_def sorted_wrt_append merge(1) l'_def)
    have B: "entity_ok P m l'" using ok l s by (auto simp: entity_ok_def f32_ge_max max_def l'_def)
    have C: "\<exists>p \<in> insert s seen. en_start p = en_start l'" using p by (auto simp: l'_def)
    have D: "\<exists>p \<in> insert s seen. en_label p = en_label l' \<and> en_end p = en_end l'"
      using q merge(2) by (cases "en_end l \<le> en_end s") (auto simp: max_def l'_def)
    have "en_start l \<le> en_start s" using order p by (metis (no_types))
    then have E: "covers l' s" using merge(2) by (simp add: covers_def l'_def)
    have F: "\<exists>r \<in> set (before @ [l']). covers r x" if "r \<in> set out" "covers r x" for r x
      using that by (auto simp: merge(1) covers_def l'_def)
    show ?thesis
      unfolding step merge_inv_def
    proof (intro conjI ballI)
      show "separate (before @ [l'])" by (rule A)
      fix r assume "r \<in> set (before @ [l'])"
      then have r: "r = l' \<or> r \<in> set out" using before by auto
      show "entity_ok P m r" using r B ok by blast
      show "\<exists>p \<in> insert s seen. en_start p = en_start r" using r C starts by blast
      show "\<exists>p \<in> insert s seen. en_label p = en_label r \<and> en_end p = en_end r" using r D ends by blast
    next
      fix x assume "x \<in> insert s seen"
      then show "(\<exists>r \<in> set (before @ [l']). covers r x) \<or> (\<exists>p \<in> insert s seen. collide p x)"
        using E F cov by (cases "x = s") (auto, blast)
    qed
  qed
qed

lemma merge_fold_inv:
  "merge_inv P m seen out \<Longrightarrow> \<forall>s \<in> set spans. entity_ok P m s \<Longrightarrow>
     \<forall>p \<in> seen. \<forall>s \<in> set spans. en_start p \<le> en_start s \<Longrightarrow>
     sorted_wrt (\<lambda>a b. en_start a \<le> en_start b) spans \<Longrightarrow>
     merge_inv P m (seen \<union> set spans) (fold merge_step spans out)"
proof (induction spans arbitrary: seen out)
  case Nil
  then show ?case by simp
next
  case (Cons s spans)
  have "merge_inv P m (insert s seen) (merge_step s out)"
    using Cons.prems by (intro merge_step_inv) auto
  from Cons.IH [OF this] Cons.prems show ?case by auto
qed

lemma sorted_by_start: "sorted_wrt (\<lambda>a b. en_start a \<le> en_start b) (sort_key merge_order spans)"
proof -
  have "sorted (map merge_order (sort_key merge_order spans))" by simp
  then show ?thesis
    unfolding sorted_map by (rule sorted_wrt_mono_rel [rotated]) (auto simp: merge_order_def less_eq_prod_def)
qed

lemma merge_same_label_inv:
  assumes "\<forall>s \<in> set spans. entity_ok P m s"
  shows "merge_inv P m (set spans) (merge_same_label spans)"
proof -
  have "merge_inv P m {} []" by (simp add: merge_inv_def separate_def)
  from merge_fold_inv [OF this, of "sort_key merge_order spans"] assms show ?thesis
    by (simp add: merge_same_label_def sorted_by_start)
qed

lemma merge_same_label_separate:
  "\<forall>s \<in> set spans. entity_ok P m s \<Longrightarrow> separate (merge_same_label spans)"
  using merge_same_label_inv by (auto simp: merge_inv_def)

lemma merge_same_label_ok:
  "\<forall>s \<in> set spans. entity_ok P m s \<Longrightarrow> \<forall>r \<in> set (merge_same_label spans). entity_ok P m r"
  using merge_same_label_inv by (auto simp: merge_inv_def)

lemma merge_same_label_covers:
  "\<forall>s \<in> set spans. entity_ok P m s \<Longrightarrow> k \<in> set spans \<Longrightarrow>
     (\<exists>r \<in> set (merge_same_label spans). covers r k) \<or> (\<exists>p \<in> set spans. collide p k)"
  using merge_same_label_inv by (auto simp: merge_inv_def)

section \<open>Word boundaries\<close>

lemma boundary_le: "is_char_boundary s n \<Longrightarrow> n \<le> length s"
  by (auto simp: is_char_boundary_def)

lemma chars_valid: "is_utf8 s \<Longrightarrow> c \<in> set (chars s) \<Longrightarrow> is_utf8 c"
proof (induction s rule: utf8_induct)
  case Nil
  then show ?case by simp
next
  case (step s x n)
  obtain cs where cs: "utf8_chars (drop n s) = Some cs" using step.hyps(2) by (auto simp: is_utf8_def)
  have n: "0 < n" "n \<le> length s" using utf8_head_bounds [OF step.hyps(1)] by auto
  have "utf8_head (take n s @ []) = Some (x, n)" by (rule utf8_head_prefix [OF step.hyps(1)])
  from is_utf8_step [OF this] have "is_utf8 (take n s)" using n by simp
  moreover have "chars s = take n s # chars (drop n s)"
    by (simp add: chars_def utf8_chars_step [OF step.hyps(1)] cs)
  ultimately show ?case using step by auto
qed

lemma concat_valid: "\<forall>c \<in> set cs. is_utf8 c \<Longrightarrow> is_utf8 (concat cs)"
  by (induction cs) (auto simp: is_utf8_append)

lemma boundary_append: "is_utf8 a \<Longrightarrow> is_utf8 b \<Longrightarrow> is_char_boundary (a @ b) (length a)"
proof -
  assume "is_utf8 a" "is_utf8 b"
  show ?thesis
  proof (cases b)
    case (Cons x r)
    with is_utf8_head [OF \<open>is_utf8 b\<close>] obtain c n where "utf8_head (x # r) = Some (c, n)" by auto
    then have "\<not> is_cont x" by (rule utf8_head_not_cont)
    with Cons show ?thesis by (simp add: is_char_boundary_def)
  qed simp
qed

lemma char_before_split:
  assumes "is_utf8 text" and "is_char_boundary text s" and "char_before text s = Some c"
  shows "length c \<le> s" and "is_char_boundary text (s - length c)"
proof -
  have valid: "is_utf8 (take s text)" "is_utf8 (drop s text)" using is_utf8_split [OF assms(1,2)] by simp_all
  from assms(3) have "chars (take s text) \<noteq> []" "c = last (chars (take s text))"
    by (auto simp: char_before_def Let_def split: if_splits)
  then obtain cs where cs: "chars (take s text) = cs @ [c]" by (metis append_butlast_last_id)
  have whole: "take s text = concat cs @ c" using concat_chars [OF valid(1)] cs by simp
  have "is_utf8 (concat cs)" "is_utf8 c" using chars_valid [OF valid(1)] cs by (auto intro: concat_valid)
  then have "is_char_boundary (concat cs @ (c @ drop s text)) (length (concat cs))"
    using valid(2) by (intro boundary_append) (simp_all add: is_utf8_append)
  moreover have "concat cs @ (c @ drop s text) = text" using whole append_take_drop_id [of s "text"] by simp
  moreover have len: "s = length (concat cs) + length c"
    using arg_cong [OF whole, of length] boundary_le [OF assms(2)] by simp
  ultimately show "is_char_boundary text (s - length c)" by simp
  show "length c \<le> s" using len by simp
qed

lemma char_at_split:
  assumes "is_utf8 text" and "is_char_boundary text e" and "char_at text e = Some c"
  shows "is_char_boundary text (e + length c)"
proof -
  have valid: "is_utf8 (take e text)" "is_utf8 (drop e text)" using is_utf8_split [OF assms(1,2)] by simp_all
  from assms(3) obtain cs where cs: "chars (drop e text) = c # cs" by (auto simp: char_at_def split: list.splits)
  have rest: "drop e text = c @ concat cs" using concat_chars [OF valid(2)] cs by simp
  have "is_utf8 c" "is_utf8 (concat cs)" using chars_valid [OF valid(2)] cs by (auto intro: concat_valid)
  then have "is_char_boundary ((take e text @ c) @ concat cs) (length (take e text @ c))"
    using valid(1) by (intro boundary_append) (simp_all add: is_utf8_append)
  moreover have "(take e text @ c) @ concat cs = text" using rest append_take_drop_id [of e "text"] by simp
  moreover have "length (take e text @ c) = e + length c" using boundary_le [OF assms(2)] by simp
  ultimately show ?thesis by simp
qed

text \<open>The position is not inside a word: it cannot be moved by another char.\<close>

definition at_word_start :: "(rchar \<Rightarrow> bool) \<Rightarrow> rstr \<Rightarrow> nat \<Rightarrow> bool" where
  "at_word_start word text s =
     (case char_before text s of
        None \<Rightarrow> True
      | Some c \<Rightarrow>
          \<not> word c
          \<and> (c \<in> set CONNECTORS \<longrightarrow>
               (case char_before text (s - length c) of None \<Rightarrow> True | Some p \<Rightarrow> \<not> word p)))"

definition at_word_end :: "(rchar \<Rightarrow> bool) \<Rightarrow> rstr \<Rightarrow> nat \<Rightarrow> bool" where
  "at_word_end word text e =
     (case char_at text e of
        None \<Rightarrow> True
      | Some c \<Rightarrow>
          \<not> word c
          \<and> (c \<in> set CONNECTORS \<longrightarrow>
               (case char_at text (e + length c) of None \<Rightarrow> True | Some p \<Rightarrow> \<not> word p)))"

lemma snap_left_ok:
  "is_utf8 text \<Longrightarrow> is_char_boundary text s \<Longrightarrow>
     is_char_boundary text (snap_left word text s) \<and> snap_left word text s \<le> s
     \<and> at_word_start word text (snap_left word text s)"
proof (induction word "text" s rule: snap_left.induct)
  case (1 word "text" s)
  let ?moves = "\<lambda>c. word c \<or> (c \<in> set CONNECTORS \<and> (\<exists>p. char_before text (s - length c) = Some p \<and> word p))"
  show ?case
  proof (cases "\<exists>c. char_before text s = Some c \<and> ?moves c")
    case True
    then obtain c where c: "char_before text s = Some c" and m: "?moves c" by blast
    then have eq: "snap_left word text s = snap_left word text (s - length c)"
      by (auto simp: snap_left.simps [of word "text" s])
    note b = char_before_split [OF "1.prems" c]
    have "is_char_boundary text (snap_left word text (s - length c))
        \<and> snap_left word text (s - length c) \<le> s - length c
        \<and> at_word_start word text (snap_left word text (s - length c))"
      using m "1.IH"(1) [OF c _ "1.prems"(1) b(2)] "1.IH"(2) [OF c _ _ _ _ "1.prems"(1) b(2)] by blast
    then show ?thesis unfolding eq by auto
  next
    case False
    then have "snap_left word text s = s" "at_word_start word text s"
      by (auto simp: snap_left.simps [of word "text" s] at_word_start_def split: option.splits)
    with "1.prems" show ?thesis by simp
  qed
qed

lemma snap_right_ok:
  "is_utf8 text \<Longrightarrow> is_char_boundary text e \<Longrightarrow>
     is_char_boundary text (snap_right word text e) \<and> e \<le> snap_right word text e
     \<and> at_word_end word text (snap_right word text e)"
proof (induction word "text" e rule: snap_right.induct)
  case (1 word "text" e)
  let ?moves = "\<lambda>c. word c \<or> (c \<in> set CONNECTORS \<and> (\<exists>p. char_at text (e + length c) = Some p \<and> word p))"
  show ?case
  proof (cases "\<exists>c. char_at text e = Some c \<and> ?moves c")
    case True
    then obtain c where c: "char_at text e = Some c" and m: "?moves c" by blast
    then have eq: "snap_right word text e = snap_right word text (e + length c)"
      by (auto simp: snap_right.simps [of word "text" e])
    note b = char_at_split [OF "1.prems" c]
    have "is_char_boundary text (snap_right word text (e + length c))
        \<and> e + length c \<le> snap_right word text (e + length c)
        \<and> at_word_end word text (snap_right word text (e + length c))"
      using m "1.IH"(1) [OF c _ "1.prems"(1) b] "1.IH"(2) [OF c _ _ _ _ "1.prems"(1) b] by blast
    then show ?thesis unfolding eq by auto
  next
    case False
    then have "snap_right word text e = e" "at_word_end word text e"
      by (auto simp: snap_right.simps [of word "text" e] at_word_end_def split: option.splits)
    with "1.prems" show ?thesis by simp
  qed
qed

lemma floor_boundary_ok: "is_char_boundary text (floor_boundary text s) \<and> floor_boundary text s \<le> s"
  by (induction s) auto

lemma ceil_boundary_ok: "e \<le> length text \<Longrightarrow> is_char_boundary text (ceil_boundary text e) \<and> e \<le> ceil_boundary text e"
proof (induction "text" e rule: ceil_boundary.induct)
  case (1 "text" e)
  show ?case
  proof (cases "length text \<le> e \<or> is_char_boundary text e")
    case True
    with "1.prems" show ?thesis by (auto simp: ceil_boundary.simps [of "text" e])
  next
    case False
    with "1.IH" [OF False] show ?thesis by (simp add: ceil_boundary.simps [of "text" e])
  qed
qed

lemma snap_one_parts:
  assumes "is_utf8 text" and "snap_one word text start stop = (s, e)"
  shows "is_char_boundary text s \<and> is_char_boundary text e \<and> s \<le> min start (length text)
    \<and> min stop (length text) \<le> e \<and> at_word_start word text s \<and> at_word_end word text e"
proof -
  have s: "s = snap_left word text (floor_boundary text (min start (length text)))"
    and e: "e = snap_right word text (ceil_boundary text (min stop (length text)))"
    using assms(2) by (simp_all add: snap_one_def Let_def)
  have f: "is_char_boundary text (floor_boundary text (min start (length text)))
      \<and> floor_boundary text (min start (length text)) \<le> min start (length text)" by (rule floor_boundary_ok)
  have c: "is_char_boundary text (ceil_boundary text (min stop (length text)))
      \<and> min stop (length text) \<le> ceil_boundary text (min stop (length text))" by (rule ceil_boundary_ok) simp
  from snap_left_ok [OF assms(1), of _ word] snap_right_ok [OF assms(1), of _ word] f c
  show ?thesis unfolding s e by (meson order.trans)
qed

lemma snap_entity_ok:
  assumes "is_utf8 text" and "entity_ok (is_char_boundary text) m s"
  shows "entity_ok (is_char_boundary text) m (snap_entity word text s)"
proof -
  obtain a b where ab: "snap_one word text (en_start s) (en_end s) = (a, b)" by force
  have "en_start s < en_end s" "en_end s \<le> length text"
    using assms(2) boundary_le by (auto simp: entity_ok_def)
  with snap_one_parts [OF assms(1) ab] assms(2) show ?thesis
    by (simp add: entity_ok_def snap_entity_def ab)
qed

lemma snap_to_words_ok:
  assumes "is_utf8 text" and "\<forall>s \<in> set spans. entity_ok (is_char_boundary text) m s"
  shows "separate (snap_to_words word text spans)"
    and "\<forall>r \<in> set (snap_to_words word text spans). entity_ok (is_char_boundary text) m r"
proof -
  have "\<forall>s \<in> set (map (snap_entity word text) spans). entity_ok (is_char_boundary text) m s"
    using assms snap_entity_ok by auto
  from merge_same_label_separate [OF this] merge_same_label_ok [OF this]
  show "separate (snap_to_words word text spans)"
    "\<forall>r \<in> set (snap_to_words word text spans). entity_ok (is_char_boundary text) m r"
    by (simp_all add: snap_to_words_def)
qed

section \<open>The reported spans\<close>

definition tokens_ok :: "rstr \<Rightarrow> token list \<Rightarrow> bool" where
  "tokens_ok text ts \<longleftrightarrow>
     (\<forall>t \<in> set ts. tk_start t \<le> tk_end t \<and> is_char_boundary text (tk_start t) \<and> is_char_boundary text (tk_end t))"

lemma res_traverse_mem: "res_traverse f xs = Inr ys \<Longrightarrow> y \<in> set ys \<Longrightarrow> \<exists>x \<in> set xs. f x = Inr y"
  by (induction xs arbitrary: ys) (auto split: sum.splits)

lemma encode_tokens_ok:
  assumes "encode_tokens tok text = Inr ts"
  shows "tokens_ok text ts"
proof -
  obtain ids offs where tr: "res_traverse (encode_token text) (enumerate 0 (zip ids offs)) = Inr ts"
    using assms by (auto simp: encode_tokens_def split: sum.splits)
  show ?thesis
    unfolding tokens_ok_def
  proof
    fix t assume "t \<in> set ts"
    from res_traverse_mem [OF tr this] obtain x where "encode_token text x = Inr t" by blast
    then show "tk_start t \<le> tk_end t \<and> is_char_boundary text (tk_start t) \<and> is_char_boundary text (tk_end t)"
      by (cases x) (auto simp: encode_token_def split: if_splits)
  qed
qed

lemma token_slice_set: "set (token_slice ts r) \<subseteq> set ts"
  unfolding token_slice_def by (meson in_set_dropD in_set_takeD subsetI)

lemma window_offsets_ok:
  assumes "window_offsets ts w = Inr offs" and "(s, e) \<in> set offs" and "s < e" and "tokens_ok text ts"
  shows "is_char_boundary text s \<and> is_char_boundary text e"
proof -
  have "offs = (0, 0) # map (\<lambda>t. (tk_start t, tk_end t)) (token_slice ts (wp_range w)) @ [(0, 0)]"
    using assms(1) unfolding window_offsets_def Let_def by (simp split: if_splits)
  with assms(2,3) obtain t where "t \<in> set (token_slice ts (wp_range w))" "s = tk_start t" "e = tk_end t" by auto
  moreover from this have "t \<in> set ts" using token_slice_set by blast
  ultimately show ?thesis using assms(4) by (simp add: tokens_ok_def)
qed

text \<open>What the decoding of the windows of a text hands on.\<close>

definition scored_ok :: "rstr \<Rightarrow> scored list \<Rightarrow> bool" where
  "scored_ok text sc \<longleftrightarrow> (\<forall>(raw, c) \<in> set sc. raw_ok (is_char_boundary text) raw \<and> c \<noteq> NaN)"

lemma decode_window_ok:
  assumes "window_offsets ts w = Inr offs" and "tokens_ok text ts"
  shows "scored_ok text (decode_window D offs w low)"
  using bioes_to_spans_ok [of offs "is_char_boundary text"] window_offsets_ok [OF assms(1) _ _ assms(2)]
  by (auto simp: scored_ok_def decode_window_def span_score_num)

lemma scored_windows_ok:
  assumes "res_traverse (\<lambda>w. res_map (\<lambda>offs. decode_window D offs w low) (window_offsets ts w)) ws = Inr sc"
    and "tokens_ok text ts"
  shows "scored_ok text (concat sc)"
proof -
  have "scored_ok text x" if "x \<in> set sc" for x
  proof -
    from res_traverse_mem [OF assms(1) that] obtain w offs
      where "window_offsets ts w = Inr offs" "x = decode_window D offs w low" by (auto simp: res_map_eq_Inr)
    then show ?thesis using decode_window_ok [OF _ assms(2)] by simp
  qed
  then show ?thesis unfolding scored_ok_def set_concat by blast
qed

lemma kept_entities_ok:
  assumes "scored_ok text sc"
  shows "\<forall>s \<in> set (kept_entities m sc). entity_ok (is_char_boundary text) m s"
proof -
  have "\<forall>(_, c) \<in> set sc. c \<noteq> NaN" using assms unfolding scored_ok_def by blast
  from dedupe_best_ok(2) [OF this]
  have "raw_ok (is_char_boundary text) raw" if "(raw, c) \<in> set (dedupe_best sc)" for raw c
    using that assms unfolding scored_ok_def by blast
  then have ok: "entity_ok (is_char_boundary text) m (entity_of (raw, c))"
    if "(raw, c) \<in> set (dedupe_best sc)" "f32_ge c m" for raw c
    using that by (simp add: entity_of_def entity_ok_def raw_ok_def)
  show ?thesis
  proof
    fix s assume "s \<in> set (kept_entities m sc)"
    then obtain raw c where "(raw, c) \<in> set (dedupe_best sc)" "f32_ge c m" "s = entity_of (raw, c)"
      unfolding kept_entities_def by auto
    with ok show "entity_ok (is_char_boundary text) m s" by simp
  qed
qed

lemma separate_report_sorted:
  assumes "separate spans" and "\<forall>s \<in> set spans. entity_ok P m s"
  shows "sort_key report_order spans = spans"
proof -
  have "sorted_wrt (\<lambda>a b. report_order a \<le> report_order b) spans"
  proof (rule sorted_wrt_mono_rel)
    show "sorted_wrt (\<lambda>a b. en_end a \<le> en_start b) spans" using assms(1) by (simp add: separate_def)
    fix a b assume ab: "a \<in> set spans" "b \<in> set spans" "en_end a \<le> en_start b"
    have "en_start a < en_end a" using assms(2) ab(1) by (simp add: entity_ok_def)
    with ab(3) show "report_order a \<le> report_order b" by (simp add: report_order_def less_eq_prod_def)
  qed
  then show ?thesis by (intro sort_key_id_if_sorted) (simp add: sorted_map)
qed

lemma postprocess_ok:
  assumes "postprocess D text ts ws opts = Inr spans" and "is_utf8 text" and "tokens_ok text ts"
  shows "separate spans \<and> (\<forall>s \<in> set spans. entity_ok (is_char_boundary text) (effective_min_score opts) s)"
proof -
  let ?m = "effective_min_score opts"
  obtain sc where
    sc: "res_traverse (\<lambda>w. res_map (\<lambda>offs. decode_window D offs w (f32_min (de_low_score D) ?m)) (window_offsets ts w)) ws
      = Inr sc"
    and spans: "spans = sort_key report_order
      (snap_to_words (de_word_char D) text (merge_same_label (kept_entities ?m (concat sc))))"
    using assms(1) by (auto simp: postprocess_def Let_def res_bind_eq_Inr)
  note kept = kept_entities_ok [OF scored_windows_ok [OF sc assms(3)], of ?m]
  note snapped = snap_to_words_ok [OF assms(2) merge_same_label_ok [OF kept], of "de_word_char D"]
  show ?thesis unfolding spans separate_report_sorted [OF snapped] using snapped by blast
qed

lemma push_windows_length: "length (fold push_window items ws) = length ws"
  by (induction items arbitrary: ws) (auto simp: push_window_def)

lemma detect_all_parts:
  assumes "detect_all D texts opts = Inr res"
  obtains tokens ws where "res_traverse (encode_tokens (de_tokenizer D)) texts = Inr tokens"
    and "length ws = length texts"
    and "res_traverse (\<lambda>((text, ts), ws). postprocess D text ts ws opts) (zip (zip texts tokens) ws) = Inr res"
proof -
  obtain tokens where tokens: "res_traverse (encode_tokens (de_tokenizer D)) texts = Inr tokens"
    using assms by (auto simp: detect_all_def res_bind_eq_Inr)
  let ?jobs = "concat (map (\<lambda>(i, ts). jobs_for D i ts) (enumerate 0 tokens))"
  obtain ps where "predict_jobs D ?jobs opts = Inr ps"
    using assms tokens by (auto simp: detect_all_def res_bind_eq_Inr Let_def)
  with assms tokens have "res_traverse (\<lambda>((text, ts), ws). postprocess D text ts ws opts)
      (zip (zip texts tokens) (fold push_window (zip ?jobs ps) (replicate (length texts) []))) = Inr res"
    by (simp add: detect_all_def Let_def)
  from that [OF tokens _ this] show ?thesis by (simp add: push_windows_length)
qed

end
