(* ===== verification/Ner_Detect.thy ===== *)
theory Ner_Detect
  imports Ner_Pipeline
begin

text \<open>
  What the detector of \<open>Ner_Pipeline\<close> guarantees: its windows cover every token, a tagged token is
  in a span, the reported spans are disjoint pieces of the text with enough confidence, batching does
  not change them, and the proxy uses every one of them.
\<close>

section \<open>Labels and tags\<close>

definition tag_name :: "tag \<Rightarrow> rstr" where
  "tag_name t =
     (case t of
        Outside \<Rightarrow> ''O''
      | Begin l \<Rightarrow> ''B-'' @ label_as_str l
      | Inside l \<Rightarrow> ''I-'' @ label_as_str l
      | End l \<Rightarrow> ''E-'' @ label_as_str l
      | Single l \<Rightarrow> ''S-'' @ label_as_str l)"

lemma label_round_trip: "label_from_str (label_as_str l) = Inr l"
  by (induction l) code_simp+

lemma tag_round_trip: "tag_from_str (tag_name t) = Inr t"
proof -
  have cut: "split_once ''-'' (c # CHR ''-'' # s) = Some ([c], s)" if "c \<noteq> CHR ''-''" for c s
    using that by (simp add: split_once_def starts_with_def)
  show ?thesis
    by (cases t) (simp_all add: tag_name_def tag_from_str_def cut label_round_trip)
qed

lemma label_rule_id: "is_valid_rule_id (label_as_str l)"
  by (induction l) code_simp+

text \<open>The names the model's manifest lists parse to the tags they name, class by class.\<close>

lemma label_set_round_trip:
  assumes "tags \<noteq> []" and "hd tags = Outside"
  shows "label_set_from_names (map tag_name tags) = Inr tags"
proof -
  have "res_traverse tag_from_str (map tag_name tags) = Inr tags"
    by (simp add: res_traverse_eq_Inr list_all2_map1 list_all2_same tag_round_trip)
  moreover have "hd (map tag_name tags) = ''O''" using assms by (simp add: hd_map tag_name_def)
  ultimately show ?thesis using assms(1) by (simp add: label_set_from_names_def)
qed

section \<open>Windows\<close>

lemma vec_resize_length [simp]: "length (vec_resize n x xs) = n"
  by (simp add: vec_resize_def)

definition window_ok :: "window \<Rightarrow> bool" where
  "window_ok w \<longleftrightarrow> length (wi_ids w) = SEQ_LEN \<and> length (wi_mask w) = SEQ_LEN \<and> wi_real_len w \<le> SEQ_LEN"

lemma encode_window_ok: "length chunk \<le> MAX_CONTENT \<Longrightarrow> window_ok (encode_window chunk cfg)"
  by (simp add: window_ok_def encode_window_def Let_def)

lemma jobs_for_ok: "j \<in> set (jobs_for D i ts) \<Longrightarrow> window_ok (jb_window j) \<and> jb_text j = i"
  using window_content_fits [of _ ts] by (auto simp: jobs_for_def intro!: encode_window_ok)

lemma window_loop_shape:
  "start < n \<Longrightarrow>
     (\<forall>i. start \<le> i \<and> i < n \<longrightarrow> (\<exists>r \<in> set (window_loop n start). fst r \<le> i \<and> i < snd r))
     \<and> (\<forall>k. Suc k < length (window_loop n start) \<longrightarrow>
          snd (window_loop n start ! k) = fst (window_loop n start ! Suc k) + STRIDE)"
  using window_loop_cover window_loop_overlap by blast

text \<open>The windows cover every token of a text: each is a non-empty range of at most 254 tokens inside the
  text, whose encoding has 256 ids and 256 mask bits; consecutive windows share exactly 64 tokens; and
  every token is in a window.
\<close>

theorem windows_cover:
  "(\<forall>i < length tokens. \<exists>r \<in> set (window_ranges (length tokens)). fst r \<le> i \<and> i < snd r)
   \<and> (\<forall>r \<in> set (window_ranges (length tokens)).
        fst r < snd r \<and> snd r \<le> length tokens \<and> snd r - fst r \<le> MAX_CONTENT
        \<and> window_ok (encode_window (token_slice tokens r) cfg))
   \<and> (\<forall>k. Suc k < length (window_ranges (length tokens)) \<longrightarrow>
        snd (window_ranges (length tokens) ! k) = fst (window_ranges (length tokens) ! Suc k) + STRIDE)"
proof (cases "tokens = []")
  case True
  then show ?thesis by (simp add: window_ranges_def)
next
  case False
  then have n: "0 < length tokens" and loop: "window_ranges (length tokens) = window_loop (length tokens) 0"
    by (simp_all add: window_ranges_def)
  have "\<forall>r \<in> set (window_ranges (length tokens)).
      fst r < snd r \<and> snd r \<le> length tokens \<and> snd r - fst r \<le> MAX_CONTENT
      \<and> window_ok (encode_window (token_slice tokens r) cfg)"
    using window_content_fits [of _ tokens] encode_window_ok by metis
  with window_loop_shape [OF n] show ?thesis unfolding loop by simp
qed

theorem windows_cover_witness:
  "\<exists>r \<in> set (window_ranges 300). fst r \<le> 299 \<and> 299 < snd r"
  using windows_cover [of "replicate 300 \<lparr> tk_id = 7, tk_start = 0, tk_end = 1 \<rparr>"] by simp

section \<open>No tagged token is lost\<close>

fun tag_label :: "tag \<Rightarrow> label option" where
  "tag_label Outside = None"
| "tag_label (Begin l) = Some l"
| "tag_label (Inside l) = Some l"
| "tag_label (End l) = Some l"
| "tag_label (Single l) = Some l"

definition raw_covers :: "raw_span \<Rightarrow> raw_span \<Rightarrow> bool" where
  "raw_covers a b \<longleftrightarrow> rs_start a \<le> rs_start b \<and> rs_end b \<le> rs_end a \<and> rs_label a = rs_label b"

lemma raw_covers_refl [simp]: "raw_covers a a"
  by (simp add: raw_covers_def)

lemma raw_covers_self: "x \<in> A \<Longrightarrow> \<exists>y \<in> A. raw_covers y x"
  using raw_covers_refl by blast

lemma raw_covers_trans: "raw_covers a b \<Longrightarrow> raw_covers b c \<Longrightarrow> raw_covers a c"
  by (simp add: raw_covers_def)

definition bioes_spans :: "bioes_state \<Rightarrow> raw_span set" where
  "bioes_spans st = set (snd st) \<union> set_option (fst st)"

definition open_until :: "nat \<Rightarrow> bioes_state \<Rightarrow> bool" where
  "open_until b st \<longleftrightarrow> (\<forall>sp. fst st = Some sp \<longrightarrow> rs_start sp < rs_end sp \<and> rs_end sp \<le> b)"

lemma bioes_close_spans:
  "open_until b st \<Longrightarrow> fst (bioes_close st) = None \<and> set (snd (bioes_close st)) = bioes_spans st"
  by (cases st; cases "fst st") (auto simp: open_until_def bioes_spans_def bioes_close_def)

abbreviation token_span :: "nat \<Rightarrow> nat \<Rightarrow> label \<Rightarrow> raw_span" where
  "token_span s e l \<equiv> \<lparr> rs_start = s, rs_end = e, rs_label = l \<rparr>"

lemma bioes_close_extended:
  "s < e \<Longrightarrow> rs_start sp \<le> s \<Longrightarrow>
     bioes_close (Some (sp \<lparr> rs_end := e \<rparr>), out) = (None, out @ [sp \<lparr> rs_end := e \<rparr>])"
  by (simp add: bioes_close_def)

text \<open>A tagged token either adds a span of its own or extends the open span to its end.\<close>

lemma bioes_step_spans:
  assumes "open_until b st" and "b \<le> s" and "s < e" and "tag_label t = Some l"
  shows "open_until e (bioes_step (t, s, e) st)
    \<and> (bioes_spans (bioes_step (t, s, e) st) = insert (token_span s e l) (bioes_spans st)
       \<or> (\<exists>sp. fst st = Some sp \<and> rs_label sp = l
            \<and> bioes_spans (bioes_step (t, s, e) st) = insert (sp \<lparr> rs_end := e \<rparr>) (set (snd st))))"
proof -
  note closed = bioes_close_spans [OF assms(1)]
  have start: "rs_start sp < s" if "fst st = Some sp" for sp
    using assms that by (auto simp: open_until_def)
  have emit: "open_until e (None, snd (bioes_close st) @ [token_span s e l])"
    "bioes_spans (None, snd (bioes_close st) @ [token_span s e l]) = insert (token_span s e l) (bioes_spans st)"
    and fresh: "open_until e (Some (token_span s e l), snd (bioes_close st))"
    "bioes_spans (Some (token_span s e l), snd (bioes_close st)) = insert (token_span s e l) (bioes_spans st)"
    using closed assms(3) by (auto simp: open_until_def bioes_spans_def)
  have ext: "open_until e (Some (sp \<lparr> rs_end := e \<rparr>), snd st)"
    "bioes_spans (Some (sp \<lparr> rs_end := e \<rparr>), snd st) = insert (sp \<lparr> rs_end := e \<rparr>) (set (snd st))"
    "open_until e (bioes_close (Some (sp \<lparr> rs_end := e \<rparr>), snd st))"
    "bioes_spans (bioes_close (Some (sp \<lparr> rs_end := e \<rparr>), snd st)) = insert (sp \<lparr> rs_end := e \<rparr>) (set (snd st))"
    if "fst st = Some sp" for sp
    using start [OF that] assms(3) by (auto simp: open_until_def bioes_spans_def bioes_close_extended)
  show ?thesis
  proof (cases t)
    case Outside
    with assms(4) show ?thesis by simp
  next
    case (Begin k)
    with assms fresh show ?thesis by (simp add: bioes_step_def)
  next
    case (Single k)
    with assms emit show ?thesis by (simp add: bioes_step_def)
  next
    case (Inside k)
    with assms fresh ext show ?thesis by (cases "fst st") (simp_all add: bioes_step_def)
  next
    case (End k)
    with assms emit ext show ?thesis by (cases "fst st") (simp_all add: bioes_step_def)
  qed
qed

lemma bioes_step_keeps:
  assumes "open_until b st" and "s < e \<Longrightarrow> b \<le> s"
  shows "open_until (if s < e then e else b) (bioes_step (t, s, e) st)
      \<and> (\<forall>x \<in> bioes_spans st. \<exists>y \<in> bioes_spans (bioes_step (t, s, e) st). raw_covers y x)
      \<and> (\<forall>l. s < e \<longrightarrow> tag_label t = Some l \<longrightarrow>
           (\<exists>y \<in> bioes_spans (bioes_step (t, s, e) st). raw_covers y (token_span s e l)))"
proof (cases "s < e")
  case False
  then have "bioes_step (t, s, e) st = st" by (simp add: bioes_step_def)
  with assms(1) False show ?thesis by (auto intro: raw_covers_self)
next
  case True
  show ?thesis
  proof (cases "tag_label t")
    case None
    with True have "bioes_step (t, s, e) st = bioes_close st" by (cases t) (simp_all add: bioes_step_def)
    with bioes_close_spans [OF assms(1)] None show ?thesis
      by (auto simp: open_until_def bioes_spans_def intro: raw_covers_self)
  next
    case (Some l)
    let ?st' = "bioes_step (t, s, e) st"
    note step = bioes_step_spans [OF assms(1) assms(2) [OF True] True Some]
    from step have "(\<forall>x \<in> bioes_spans st. \<exists>y \<in> bioes_spans ?st'. raw_covers y x)
        \<and> (\<exists>y \<in> bioes_spans ?st'. raw_covers y (token_span s e l))"
    proof (elim conjE disjE exE)
      assume "bioes_spans ?st' = insert (token_span s e l) (bioes_spans st)"
      then show ?thesis by (auto intro: raw_covers_self)
    next
      fix sp assume sp: "fst st = Some sp" "rs_label sp = l"
        and new: "bioes_spans ?st' = insert (sp \<lparr> rs_end := e \<rparr>) (set (snd st))"
      have "rs_start sp < rs_end sp" "rs_end sp \<le> s" using assms(1) assms(2) [OF True] sp(1) by (auto simp: open_until_def)
      then have c: "raw_covers (sp \<lparr> rs_end := e \<rparr>) sp" "raw_covers (sp \<lparr> rs_end := e \<rparr>) (token_span s e l)"
        using True sp(2) by (simp_all add: raw_covers_def)
      have old: "bioes_spans st = insert sp (set (snd st))" using sp(1) by (simp add: bioes_spans_def)
      show ?thesis unfolding new old using c by (auto intro: raw_covers_self)
    qed
    with step Some True show ?thesis by auto
  qed
qed

definition ordered_offsets :: "(nat \<times> nat) list \<Rightarrow> bool" where
  "ordered_offsets offs \<longleftrightarrow> sorted_wrt (\<lambda>p q. snd p \<le> fst q) (filter (\<lambda>p. fst p < snd p) offs)"

lemma bioes_fold_covers:
  assumes "open_until b st" and "\<forall>(t, s, e) \<in> set items. s < e \<longrightarrow> b \<le> s"
    and "sorted_wrt (\<lambda>p q. snd p \<le> fst q) (filter (\<lambda>p. fst p < snd p) (map snd items))"
  shows "(\<forall>x \<in> bioes_spans st. \<exists>y \<in> bioes_spans (fold bioes_step items st). raw_covers y x)
    \<and> (\<forall>(t, s, e) \<in> set items. \<forall>l. s < e \<longrightarrow> tag_label t = Some l \<longrightarrow>
         (\<exists>y \<in> bioes_spans (fold bioes_step items st). raw_covers y (token_span s e l)))
    \<and> (\<exists>b'. open_until b' (fold bioes_step items st))"
  using assms
proof (induction items arbitrary: b st)
  case Nil
  then show ?case by (auto intro: raw_covers_self)
next
  case (Cons x items)
  obtain t s e where x: "x = (t, s, e)" by (cases x)
  let ?st = "bioes_step (t, s, e) st" and ?fin = "fold bioes_step items (bioes_step (t, s, e) st)"
  let ?b = "if s < e then e else b"
  have "s < e \<Longrightarrow> b \<le> s" using Cons.prems(2) by (auto simp: x)
  note step = bioes_step_keeps [OF Cons.prems(1) this, where t = t]
  have after: "e \<le> s'" if "(t', s', e') \<in> set items" "s' < e'" "s < e" for t' s' e'
  proof -
    have "(s', e') \<in> set (filter (\<lambda>p. fst p < snd p) (map snd items))" using that by force
    with Cons.prems(3) that(3) show ?thesis by (auto simp: x)
  qed
  have "sorted_wrt (\<lambda>p q. snd p \<le> fst q) (filter (\<lambda>p. fst p < snd p) (map snd items))"
    and "\<forall>(t', s', e') \<in> set items. s' < e' \<longrightarrow> ?b \<le> s'"
    using Cons.prems(2,3) after by (auto simp: x split: if_splits)
  from Cons.IH [OF conjunct1 [OF step] this(2,1)]
  have keep: "\<forall>x \<in> bioes_spans ?st. \<exists>y \<in> bioes_spans ?fin. raw_covers y x"
    and more: "\<forall>(t, s, e) \<in> set items. \<forall>l. s < e \<longrightarrow> tag_label t = Some l \<longrightarrow>
         (\<exists>y \<in> bioes_spans ?fin. raw_covers y (token_span s e l))"
    and last: "\<exists>b'. open_until b' ?fin"
    by blast+
  have through: "\<exists>y \<in> bioes_spans ?fin. raw_covers y z" if "\<exists>y \<in> bioes_spans ?st. raw_covers y z" for z
    using that keep raw_covers_trans by meson
  have "\<forall>z \<in> bioes_spans st. \<exists>y \<in> bioes_spans ?fin. raw_covers y z"
    "\<forall>l. s < e \<longrightarrow> tag_label t = Some l \<longrightarrow> (\<exists>y \<in> bioes_spans ?fin. raw_covers y (token_span s e l))"
    using step through by blast+
  with more last show ?case by (simp add: x)
qed

lemma bioes_covers_tokens:
  assumes "ordered_offsets offs" and "length tags = length offs" and "i < length offs"
    and "fst (offs ! i) < snd (offs ! i)" and "tag_label (tags ! i) = Some l"
  shows "\<exists>sp \<in> set (bioes_to_spans tags offs). raw_covers sp (token_span (fst (offs ! i)) (snd (offs ! i)) l)"
proof -
  let ?items = "zip tags offs"
  let ?fin = "fold bioes_step ?items (None, [])"
  have "map snd ?items = offs" using assms(2) by simp
  moreover have "open_until 0 (None, [])" by (simp add: open_until_def)
  ultimately have all: "\<forall>(t, s, e) \<in> set ?items. \<forall>l. s < e \<longrightarrow> tag_label t = Some l \<longrightarrow>
      (\<exists>y \<in> bioes_spans ?fin. raw_covers y (token_span s e l))" and "\<exists>b. open_until b ?fin"
    using bioes_fold_covers [of 0 "(None, [])" ?items] assms(1) by (simp_all add: ordered_offsets_def)
  then obtain b where "open_until b ?fin" by blast
  from bioes_close_spans [OF this] have "set (bioes_to_spans tags offs) = bioes_spans ?fin"
    by (simp add: bioes_to_spans_def)
  moreover have "(tags ! i, fst (offs ! i), snd (offs ! i)) \<in> set ?items"
    using assms(2,3) by (auto simp: set_zip intro!: exI [of _ i])
  ultimately show ?thesis using all assms(4,5) by fastforce
qed

lemma fold_max_ge:
  "a \<noteq> NaN \<Longrightarrow> \<not> f32_less (fold (\<lambda>p acc. f32_max acc p) ps a) a
     \<and> (\<forall>p \<in> set ps. \<not> f32_less (fold (\<lambda>p acc. f32_max acc p) ps a) p)"
proof (induction ps arbitrary: a)
  case Nil
  then show ?case by simp
next
  case (Cons p ps)
  have num: "f32_max a p \<noteq> NaN" by (rule f32_max_num [OF Cons.prems])
  let ?r = "fold (\<lambda>p acc. f32_max acc p) ps (f32_max a p)"
  from Cons.IH [OF num] f32_max_ge [OF Cons.prems, of p] f32_not_less_trans [of ?r "f32_max a p"] num
  show ?case by auto
qed

lemma decode_window_covers:
  assumes "ordered_offsets offs" and "length (wp_classes w) = length offs" and "length (wp_probs w) = length offs"
    and "i < length offs" and "fst (offs ! i) < snd (offs ! i)"
    and "f32_ge (wp_probs w ! i) low"
    and "label_set_tag (de_labels D) (wp_classes w ! i) = Some t" and "tag_label t = Some l"
  obtains sp score where "(sp, score) \<in> set (decode_window D offs w low)"
    and "raw_covers sp (token_span (fst (offs ! i)) (snd (offs ! i)) l)"
    and "\<not> f32_less score (wp_probs w ! i)"
proof -
  let ?tags = "map (decode_tag (de_labels D) low) (zip (wp_classes w) (wp_probs w))"
  have "?tags ! i = t" using assms by (simp add: decode_tag_def)
  with bioes_covers_tokens [OF assms(1) _ assms(4,5), of ?tags l] assms obtain sp
    where sp: "sp \<in> set (bioes_to_spans ?tags offs)"
      "raw_covers sp (token_span (fst (offs ! i)) (snd (offs ! i)) l)" by auto
  let ?hits = "filter (\<lambda>((s, e), _). e > s \<and> s < rs_end sp \<and> rs_start sp < e) (zip offs (wp_probs w))"
  have "(offs ! i, wp_probs w ! i) \<in> set (zip offs (wp_probs w))"
    using assms(3,4) by (auto simp: set_zip intro!: exI [of _ i])
  then have "(offs ! i, wp_probs w ! i) \<in> set ?hits"
    using sp(2) assms(5) by (cases "offs ! i") (auto simp: raw_covers_def)
  then have "wp_probs w ! i \<in> set (map snd ?hits)" by force
  from conjunct2 [OF fold_max_ge, rule_format, OF _ this]
  have "\<not> f32_less (span_score offs (wp_probs w) sp) (wp_probs w ! i)" unfolding span_score_def by simp
  with sp that show ?thesis by (auto simp: decode_window_def)
qed

section \<open>A confident token is reported\<close>

definition scored_of :: "detector \<Rightarrow> token list \<Rightarrow> window_prediction list \<Rightarrow> detect_options \<Rightarrow> detect_error + scored list list" where
  "scored_of D ts ws opts =
     res_traverse (\<lambda>w. res_map (\<lambda>offs. decode_window D offs w (f32_min (de_low_score D) (effective_min_score opts)))
                    (window_offsets ts w)) ws"

definition kept_of :: "detector \<Rightarrow> token list \<Rightarrow> window_prediction list \<Rightarrow> detect_options \<Rightarrow> entity list" where
  "kept_of D ts ws opts =
     (case scored_of D ts ws opts of
        Inl _ \<Rightarrow> []
      | Inr sc \<Rightarrow> kept_entities (effective_min_score opts) (concat sc))"

lemma postprocess_eq:
  "postprocess D text ts ws opts = Inr spans \<longleftrightarrow>
     (\<exists>sc. scored_of D ts ws opts = Inr sc)
     \<and> spans = sort_key report_order (snap_to_words (de_word_char D) text (merge_same_label (kept_of D ts ws opts)))"
  by (auto simp: postprocess_def scored_of_def kept_of_def Let_def res_bind_eq_Inr)

text \<open>No two spans with different labels overlap, neither as detected nor once they are whole words.\<close>

definition no_collision :: "detector \<Rightarrow> rstr \<Rightarrow> token list \<Rightarrow> window_prediction list \<Rightarrow> detect_options \<Rightarrow> bool" where
  "no_collision D text ts ws opts \<longleftrightarrow>
     (\<forall>a \<in> set (kept_of D ts ws opts). \<forall>b \<in> set (kept_of D ts ws opts). \<not> collide a b)
     \<and> (\<forall>a \<in> set (merge_same_label (kept_of D ts ws opts)). \<forall>b \<in> set (merge_same_label (kept_of D ts ws opts)).
          \<not> collide (snap_entity (de_word_char D) text a) (snap_entity (de_word_char D) text b))"

lemma kept_of_ok:
  assumes "tokens_ok text ts"
  shows "\<forall>s \<in> set (kept_of D ts ws opts). entity_ok (is_char_boundary text) (effective_min_score opts) s"
proof (cases "scored_of D ts ws opts")
  case (Inl e)
  then show ?thesis by (simp add: kept_of_def)
next
  case (Inr sc)
  then show ?thesis
    using kept_entities_ok [OF scored_windows_ok [OF _ assms]] by (simp add: kept_of_def scored_of_def)
qed

lemma covers_trans: "covers a b \<Longrightarrow> covers b c \<Longrightarrow> covers a c"
  by (simp add: covers_def)

lemma snap_covers:
  assumes "is_utf8 text" and "entity_ok (is_char_boundary text) m s"
  shows "covers (snap_entity word text s) s"
proof -
  obtain a b where ab: "snap_one word text (en_start s) (en_end s) = (a, b)" by force
  have "en_start s < en_end s" "en_end s \<le> length text" using assms(2) boundary_le by (auto simp: entity_ok_def)
  with snap_one_parts [OF assms(1) ab] show ?thesis by (simp add: covers_def snap_entity_def ab)
qed

lemma snap_to_words_covers:
  assumes "is_utf8 text" and "\<forall>s \<in> set spans. entity_ok (is_char_boundary text) m s" and "k \<in> set spans"
  shows "(\<exists>r \<in> set (snap_to_words word text spans). covers r k)
    \<or> (\<exists>p \<in> set spans. collide (snap_entity word text p) (snap_entity word text k))"
proof -
  have "\<forall>s \<in> set (map (snap_entity word text) spans). entity_ok (is_char_boundary text) m s"
    using assms snap_entity_ok by auto
  from merge_same_label_covers [OF this, of "snap_entity word text k"] assms(3)
  have "(\<exists>r \<in> set (snap_to_words word text spans). covers r (snap_entity word text k))
    \<or> (\<exists>p \<in> set spans. collide (snap_entity word text p) (snap_entity word text k))"
    by (auto simp: snap_to_words_def)
  moreover have "covers (snap_entity word text k) k" using snap_covers [OF assms(1)] assms(2,3) by blast
  ultimately show ?thesis using covers_trans by blast
qed

lemma f32_ge_min: "f32_ge p m \<Longrightarrow> f32_ge p (f32_min a m)"
  by (cases p; cases m; cases a) (auto simp: f32_ge_def f32_min_def)

lemma f32_ge_raise: "f32_ge p m \<Longrightarrow> c \<noteq> NaN \<Longrightarrow> \<not> f32_less c p \<Longrightarrow> f32_ge c m"
  by (cases p; cases m; cases c) (auto simp: f32_ge_def)

lemma kept_of_covers:
  assumes "scored_of D ts ws opts = Inr sc" and "tokens_ok text ts" and "(raw, c) \<in> set (concat sc)"
    and "f32_ge c (effective_min_score opts)"
  shows "\<exists>k \<in> set (kept_of D ts ws opts). en_start k = rs_start raw \<and> en_end k = rs_end raw \<and> en_label k = rs_label raw"
proof -
  have "scored_ok text (concat sc)" using scored_windows_ok [OF _ assms(2)] assms(1) by (simp add: scored_of_def)
  then have num: "\<forall>(_, c) \<in> set (concat sc). c \<noteq> NaN" unfolding scored_ok_def by blast
  from dedupe_best_ok(3) [OF num assms(3)] obtain c'
    where c': "(raw, c') \<in> set (dedupe_best (concat sc))" "\<not> f32_less c' c" by blast
  then have "c' \<noteq> NaN" using dedupe_best_ok(2) [OF num] num by blast
  with f32_ge_raise assms(4) c'(2) have "f32_ge c' (effective_min_score opts)" by blast
  with c'(1) have "entity_of (raw, c') \<in> set (kept_of D ts ws opts)"
    by (auto simp: kept_of_def kept_entities_def assms(1) image_iff)
  then show ?thesis by (intro bexI [of _ "entity_of (raw, c')"]) (simp_all add: entity_of_def)
qed

lemma scored_window_mem:
  assumes "scored_of D ts ws opts = Inr sc" and "w \<in> set ws" and "window_offsets ts w = Inr offs"
  shows "decode_window D offs w (f32_min (de_low_score D) (effective_min_score opts)) \<in> set sc"
proof -
  obtain n where n: "n < length ws" "ws ! n = w" using assms(2) by (auto simp: in_set_conv_nth)
  have "length sc = length ws" using res_traverse_length assms(1) by (auto simp: scored_of_def)
  moreover have "res_map (\<lambda>offs. decode_window D offs w (f32_min (de_low_score D) (effective_min_score opts)))
      (window_offsets ts w) = Inr (sc ! n)"
    using assms(1) n by (auto simp: scored_of_def res_traverse_eq_Inr list_all2_conv_all_nth)
  ultimately show ?thesis using n assms(3) by (metis (no_types, lifting) nth_mem res_map_simps(2) sum.inject(2))
qed

text \<open>C7. A token the classifier is confident of is reported: when its probability reaches the threshold and its
  class is a tag of some label, a reported span of that label contains all of its bytes. The tokenizer's
  offsets are in the order of the text, and no two spans with different labels overlap, before or after they
  are extended to whole words.
\<close>

theorem confident_token_reported:
  assumes "postprocess D text ts ws opts = Inr spans" and "is_utf8 text" and "tokens_ok text ts"
    and "w \<in> set ws" and "window_offsets ts w = Inr offs" and "ordered_offsets offs" and "i < length offs"
    and "fst (offs ! i) < snd (offs ! i)" and "f32_ge (wp_probs w ! i) (effective_min_score opts)"
    and "label_set_tag (de_labels D) (wp_classes w ! i) = Some t" and "tag_label t = Some l"
    and "no_collision D text ts ws opts"
  shows "\<exists>s \<in> set spans. en_start s \<le> fst (offs ! i) \<and> snd (offs ! i) \<le> en_end s \<and> en_label s = l"
proof -
  let ?m = "effective_min_score opts" and ?word = "de_word_char D"
  let ?kept = "kept_of D ts ws opts"
  let ?low = "f32_min (de_low_score D) ?m"
  obtain sc where sc: "scored_of D ts ws opts = Inr sc"
    and spans: "spans = sort_key report_order (snap_to_words ?word text (merge_same_label ?kept))"
    using assms(1) by (auto simp: postprocess_eq)
  have len: "length (wp_classes w) = length offs" "length (wp_probs w) = length offs"
    using assms(5) by (auto simp: window_offsets_def Let_def split: if_splits)
  from decode_window_covers [OF assms(6) len assms(7,8) f32_ge_min [OF assms(9)] assms(10,11)]
  obtain sp score where hit: "(sp, score) \<in> set (decode_window D offs w ?low)"
    and cov: "raw_covers sp (token_span (fst (offs ! i)) (snd (offs ! i)) l)"
    and score: "\<not> f32_less score (wp_probs w ! i)" by blast
  have in_sc: "(sp, score) \<in> set (concat sc)"
    using scored_window_mem [OF sc assms(4,5)] hit by auto
  have "score \<noteq> NaN" using decode_window_ok [OF assms(5,3)] hit unfolding scored_ok_def by blast
  from f32_ge_raise [OF assms(9) this score] kept_of_covers [OF sc assms(3) in_sc]
  obtain k where k: "k \<in> set ?kept" "en_start k = rs_start sp" "en_end k = rs_end sp" "en_label k = rs_label sp"
    by blast
  note ok = kept_of_ok [OF assms(3), of D ws opts]
  from merge_same_label_covers [OF ok k(1)] k(1) assms(12)
  obtain r where r: "r \<in> set (merge_same_label ?kept)" "covers r k" by (auto simp: no_collision_def)
  from snap_to_words_covers [OF assms(2) merge_same_label_ok [OF ok] r(1), of ?word] r(1) assms(12)
  obtain s where "s \<in> set (snap_to_words ?word text (merge_same_label ?kept))" "covers s r"
    by (auto simp: no_collision_def)
  with r(2) k cov show ?thesis by (auto simp: spans covers_def raw_covers_def intro!: bexI [of _ s])
qed

section \<open>The reported spans are pieces of the text\<close>

definition span_reportable :: "rstr \<Rightarrow> float32 \<Rightarrow> entity \<Rightarrow> bool" where
  "span_reportable text m s \<longleftrightarrow>
     en_start s < en_end s \<and> en_end s \<le> length text \<and> is_char_boundary text (en_start s)
     \<and> is_char_boundary text (en_end s) \<and> f32_ge (en_confidence s) m"

lemma entity_ok_reportable: "entity_ok (is_char_boundary text) m s \<Longrightarrow> span_reportable text m s"
  using boundary_le by (auto simp: entity_ok_def span_reportable_def)

lemma detect_all_spans:
  assumes "detect_all D texts opts = Inr res" and "\<forall>text \<in> set texts. is_utf8 text"
  shows "length res = length texts
    \<and> (\<forall>i < length texts. separate (res ! i)
         \<and> (\<forall>s \<in> set (res ! i). entity_ok (is_char_boundary (texts ! i)) (effective_min_score opts) s))"
proof -
  obtain tokens ws where tokens: "res_traverse (encode_tokens (de_tokenizer D)) texts = Inr tokens"
    and ws: "length ws = length texts"
    and post: "res_traverse (\<lambda>((text, ts), ws). postprocess D text ts ws opts) (zip (zip texts tokens) ws) = Inr res"
    using detect_all_parts [OF assms(1)] by blast
  have len: "length tokens = length texts" by (rule res_traverse_length [OF tokens])
  have "length res = length texts" using res_traverse_length [OF post] len ws by simp
  moreover have "separate (res ! i)
      \<and> (\<forall>s \<in> set (res ! i). entity_ok (is_char_boundary (texts ! i)) (effective_min_score opts) s)"
    if "i < length texts" for i
  proof (rule postprocess_ok)
    show "postprocess D (texts ! i) (tokens ! i) (ws ! i) opts = Inr (res ! i)"
      using post that len ws by (auto simp: res_traverse_eq_Inr list_all2_conv_all_nth)
    show "is_utf8 (texts ! i)" using assms(2) that by simp
    show "tokens_ok (texts ! i) (tokens ! i)"
      using tokens that len encode_tokens_ok by (auto simp: res_traverse_eq_Inr list_all2_conv_all_nth)
  qed
  ultimately show ?thesis by blast
qed

text \<open>C14. Whatever the tokenizer and the classifier answer, a detection that succeeds gives one list per text, in
  the order of the texts, and its spans are in order, disjoint, not empty, inside the text, cut at char
  boundaries, and of a confidence that is a number and reaches the threshold.
\<close>

theorem reported_spans_disjoint:
  assumes "detect_all D texts opts = Inr res" and "\<forall>text \<in> set texts. is_utf8 text"
  shows "length res = length texts
    \<and> (\<forall>i < length texts.
         sorted_wrt (\<lambda>a b. en_end a \<le> en_start b) (res ! i)
         \<and> (\<forall>s \<in> set (res ! i). span_reportable (texts ! i) (effective_min_score opts) s))"
  using detect_all_spans [OF assms] entity_ok_reportable unfolding separate_def by blast

section \<open>The proxy uses every reported span\<close>

text \<open>The spans of an answer as its JSON carries them: the serialised fields of \<open>Span\<close>.\<close>

definition wire_matches :: "entity \<Rightarrow> wire_span \<Rightarrow> bool" where
  "wire_matches s w \<longleftrightarrow>
     ws_start w = en_start s \<and> ws_end w = en_end s \<and> ws_label w = label_as_str (en_label s)
     \<and> en_confidence s = Finite (ws_confidence w)"

lemma chained_separate:
  "sorted_wrt (\<lambda>a b. en a \<le> st b) xs \<Longrightarrow> \<forall>x \<in> set xs. n \<le> st x \<Longrightarrow> chained st en n xs"
  by (induction xs arbitrary: n) auto

lemma keep_disjoint_chained_id: "chained st en n xs \<Longrightarrow> keep_disjoint st en n xs = xs"
  by (induction xs arbitrary: n) auto

lemma normalize_external_id:
  assumes "sorted_wrt (\<lambda>a b. ext_end a \<le> ext_start b) xs" and "\<forall>x \<in> set xs. external_valid s x"
  shows "normalize_external s xs = xs"
proof -
  have "sorted_wrt (\<lambda>a b. (int (ext_start a), - int (ext_end a)) \<le> (int (ext_start b), - int (ext_end b))) xs"
  proof (rule sorted_wrt_mono_rel [OF _ assms(1)])
    fix a b assume "a \<in> set xs" "ext_end a \<le> ext_start b"
    with assms(2) show "(int (ext_start a), - int (ext_end a)) \<le> (int (ext_start b), - int (ext_end b))"
      by (auto simp: external_valid_def less_eq_prod_def)
  qed
  then have "sort_key (\<lambda>sp. (int (ext_start sp), - int (ext_end sp))) xs = xs"
    by (intro sort_key_id_if_sorted) (simp add: sorted_map)
  moreover have "filter (external_valid s) xs = xs" using assms(2) by simp
  moreover have "keep_disjoint ext_start ext_end 0 xs = xs"
    by (intro keep_disjoint_chained_id chained_separate assms(1)) simp
  ultimately show ?thesis by (simp add: normalize_external_def)
qed

text \<open>C15. The spans of a detection survive the way to the scan of the proxy: those its client keeps, after its
  own threshold and its choice of labels, are all valid and disjoint for the scan, which drops none.
\<close>

theorem scan_keeps_detected_spans:
  assumes "detect_all D texts opts = Inr res" and "\<forall>text \<in> set texts. is_utf8 text" and "i < length texts"
    and "list_all2 wire_matches (res ! i) wire"
  shows "normalize_external (texts ! i) (filter_spans N wire) = filter_spans N wire"
proof -
  have sep: "separate (res ! i)" and ok: "\<forall>s \<in> set (res ! i). span_reportable (texts ! i) (effective_min_score opts) s"
    using detect_all_spans [OF assms(1,2)] assms(3) entity_ok_reportable by blast+
  have "sorted_wrt (\<lambda>a b. ws_end a \<le> ws_start b) wire"
    using sep assms(4) by (simp add: separate_def sorted_wrt_iff_nth_less list_all2_conv_all_nth wire_matches_def)
  then have order: "sorted_wrt (\<lambda>a b. ext_end a \<le> ext_start b) (filter_spans N wire)"
    by (simp add: filter_spans_def sorted_wrt_map sorted_wrt_filter)
  have "external_valid (texts ! i) \<lparr> ext_start = ws_start w, ext_end = ws_end w, ext_category = ws_label w \<rparr>"
    if "w \<in> set wire" for w
  proof -
    obtain n where n: "n < length wire" "wire ! n = w" using \<open>w \<in> set wire\<close> by (auto simp: in_set_conv_nth)
    let ?s = "res ! i ! n"
    have m: "wire_matches ?s w" using list_all2_nthD2 [OF assms(4) n(1)] n(2) by simp
    have "?s \<in> set (res ! i)" using n(1) list_all2_lengthD [OF assms(4)] by simp
    with ok have "span_reportable (texts ! i) (effective_min_score opts) ?s" by blast
    with m show ?thesis by (simp add: span_reportable_def wire_matches_def external_valid_def label_rule_id)
  qed
  then have "\<forall>x \<in> set (filter_spans N wire). external_valid (texts ! i) x" by (auto simp: filter_spans_def)
  from normalize_external_id [OF order this] show ?thesis .
qed

section \<open>Batching\<close>

text \<open>The classifier handles every row by itself, and answers 256 classes and probabilities for each.\<close>

definition row_wise :: "classifier \<Rightarrow> (i32 list \<Rightarrow> bool list \<Rightarrow> int list \<times> float32 list) \<Rightarrow> bool" where
  "row_wise predict row \<longleftrightarrow>
     (\<forall>rows. (\<forall>(ids, mask) \<in> set rows. length ids = SEQ_LEN \<and> length mask = SEQ_LEN) \<longrightarrow>
        predict (concat (map fst rows)) (concat (map snd rows))
          = (concat (map (\<lambda>(ids, mask). fst (row ids mask)) rows), concat (map (\<lambda>(ids, mask). snd (row ids mask)) rows)))
     \<and> (\<forall>ids mask. length ids = SEQ_LEN \<longrightarrow> length mask = SEQ_LEN \<longrightarrow>
          length (fst (row ids mask)) = SEQ_LEN \<and> length (snd (row ids mask)) = SEQ_LEN)"

definition job_row :: "(i32 list \<Rightarrow> bool list \<Rightarrow> int list \<times> float32 list) \<Rightarrow> window \<Rightarrow> nat list \<times> float32 list" where
  "job_row row w =
     (case row (wi_ids w) (map (\<lambda>m. m = 0) (wi_mask w)) of (cls, probs) \<Rightarrow>
        (map (\<lambda>c. case usize_try_from c of Some k \<Rightarrow> k | None \<Rightarrow> 0) cls, probs))"

definition row_prediction :: "(i32 list \<Rightarrow> bool list \<Rightarrow> int list \<times> float32 list) \<Rightarrow> job \<Rightarrow> window_prediction" where
  "row_prediction row j = prediction_at (job_row row (jb_window j)) (0, j)"

lemma length_concat_const: "\<forall>x \<in> set xs. length x = n \<Longrightarrow> length (concat xs) = length xs * n"
  by (induction xs) auto

lemma drop_concat_const: "\<forall>x \<in> set xs. length x = n \<Longrightarrow> drop (i * n) (concat xs) = concat (drop i xs)"
proof (induction xs arbitrary: i)
  case Nil
  then show ?case by simp
next
  case (Cons x xs)
  then show ?case by (cases i) (auto simp: add.commute)
qed

lemma concat_chunks_of: "0 < n \<Longrightarrow> concat (chunks_of n xs) = xs"
  by (induction n xs rule: chunks_of.induct) (subst chunks_of.simps, simp)

lemma chunks_of_set: "x \<in> set (chunks_of n xs) \<Longrightarrow> set x \<subseteq> set xs"
proof (cases "n = 0")
  case True
  moreover assume "x \<in> set (chunks_of n xs)"
  ultimately show ?thesis by (simp add: chunks_of.simps)
next
  case False
  moreover assume "x \<in> set (chunks_of n xs)"
  ultimately show ?thesis using concat_chunks_of [of n xs] by (metis Sup_upper image_eqI neq0_conv set_concat)
qed

lemma job_row_lengths:
  assumes "row_wise predict row" and "window_ok w"
  shows "length (fst (job_row row w)) = SEQ_LEN" and "length (snd (job_row row w)) = SEQ_LEN"
proof -
  have "length (fst (row (wi_ids w) (map (\<lambda>m. m = 0) (wi_mask w)))) = SEQ_LEN
      \<and> length (snd (row (wi_ids w) (map (\<lambda>m. m = 0) (wi_mask w)))) = SEQ_LEN"
    using assms unfolding row_wise_def window_ok_def by (metis length_map)
  then show "length (fst (job_row row w)) = SEQ_LEN" "length (snd (job_row row w)) = SEQ_LEN"
    by (simp_all add: job_row_def split_beta)
qed

lemma run_batch_rows:
  assumes "row_wise (de_predict D) row" and "\<forall>j \<in> set batch. window_ok (jb_window j)"
  shows "run_batch D batch = Inr (concat (map (fst \<circ> job_row row \<circ> jb_window) batch),
    concat (map (snd \<circ> job_row row \<circ> jb_window) batch))"
proof -
  let ?rows = "map (\<lambda>j. (wi_ids (jb_window j), map (\<lambda>m. m = 0) (wi_mask (jb_window j)))) batch"
  have "\<forall>(ids, mask) \<in> set ?rows. length ids = SEQ_LEN \<and> length mask = SEQ_LEN"
    using assms(2) by (auto simp: window_ok_def)
  with assms(1) have "de_predict D (concat (map fst ?rows)) (concat (map snd ?rows))
      = (concat (map (\<lambda>(ids, mask). fst (row ids mask)) ?rows), concat (map (\<lambda>(ids, mask). snd (row ids mask)) ?rows))"
    unfolding row_wise_def by blast
  then have predict: "de_predict D (concat (map (wi_ids \<circ> jb_window) batch))
        (map (\<lambda>m. m = 0) (concat (map (wi_mask \<circ> jb_window) batch)))
      = (concat (map (\<lambda>(ids, mask). fst (row ids mask)) ?rows), concat (map (\<lambda>(ids, mask). snd (row ids mask)) ?rows))"
    by (simp add: o_def map_concat)
  have classes: "map (\<lambda>c. case usize_try_from c of Some k \<Rightarrow> k | None \<Rightarrow> 0)
        (concat (map (\<lambda>(ids, mask). fst (row ids mask)) ?rows))
      = concat (map (fst \<circ> job_row row \<circ> jb_window) batch)"
    by (simp add: map_concat o_def job_row_def split_beta)
  have probs: "concat (map (\<lambda>(ids, mask). snd (row ids mask)) ?rows)
      = concat (map (snd \<circ> job_row row \<circ> jb_window) batch)"
    by (simp add: o_def job_row_def split_beta)
  have "length (concat (map (fst \<circ> job_row row \<circ> jb_window) batch)) = length batch * SEQ_LEN"
    "length (concat (map (snd \<circ> job_row row \<circ> jb_window) batch)) = length batch * SEQ_LEN"
    using length_concat_const [of "map (fst \<circ> job_row row \<circ> jb_window) batch" SEQ_LEN]
      length_concat_const [of "map (snd \<circ> job_row row \<circ> jb_window) batch" SEQ_LEN]
      job_row_lengths [OF assms(1)] assms(2) by auto
  then show ?thesis unfolding run_batch_def Let_def predict prod.case classes probs by simp
qed

lemma take_concat_row:
  assumes "\<forall>x \<in> set xs. length x = n" and "i < length xs" and "k \<le> n"
  shows "take k (drop (i * n) (concat xs)) = take k (xs ! i)"
proof -
  have "drop i xs = xs ! i # drop (Suc i) xs" using assms(2) by (rule Cons_nth_drop_Suc [symmetric])
  then have "drop (i * n) (concat xs) = xs ! i @ concat (drop (Suc i) xs)"
    by (simp add: drop_concat_const [OF assms(1)])
  moreover have "k \<le> length (xs ! i)" using assms by simp
  ultimately show ?thesis by simp
qed

lemma batch_predictions:
  assumes "row_wise predict row" and "\<forall>j \<in> set batch. window_ok (jb_window j)"
  shows "map (prediction_at (concat (map (fst \<circ> job_row row \<circ> jb_window) batch),
      concat (map (snd \<circ> job_row row \<circ> jb_window) batch))) (enumerate 0 batch) = map (row_prediction row) batch"
proof (rule nth_equalityI)
  fix i assume i: "i < length (map (prediction_at (concat (map (fst \<circ> job_row row \<circ> jb_window) batch),
      concat (map (snd \<circ> job_row row \<circ> jb_window) batch))) (enumerate 0 batch))"
  then have b: "i < length batch" by simp
  then have w: "window_ok (jb_window (batch ! i))" using assms(2) by simp
  have rows: "\<forall>x \<in> set (map (fst \<circ> job_row row \<circ> jb_window) batch). length x = SEQ_LEN"
    "\<forall>x \<in> set (map (snd \<circ> job_row row \<circ> jb_window) batch). length x = SEQ_LEN"
    using job_row_lengths [OF assms(1)] assms(2) by auto
  have "wi_real_len (jb_window (batch ! i)) \<le> SEQ_LEN" using w by (simp add: window_ok_def)
  from take_concat_row [OF rows(1) _ this, of i] take_concat_row [OF rows(2) _ this, of i] b
  show "map (prediction_at (concat (map (fst \<circ> job_row row \<circ> jb_window) batch),
      concat (map (snd \<circ> job_row row \<circ> jb_window) batch))) (enumerate 0 batch) ! i = map (row_prediction row) batch ! i"
    by (simp add: nth_enumerate_eq prediction_at_def row_prediction_def)
qed simp

lemma predict_jobs_rows:
  assumes "row_wise (de_predict D) row" and "\<forall>j \<in> set jobs. window_ok (jb_window j)" and "detect_options_ok opts"
  shows "predict_jobs D jobs opts = Inr (map (row_prediction row) jobs)"
proof -
  let ?n = "do_batch_windows opts"
  have "res_map (\<lambda>output. map (prediction_at output) (enumerate 0 batch)) (run_batch D batch)
      = Inr (map (row_prediction row) batch)" if "batch \<in> set (chunks_of ?n jobs)" for batch
  proof -
    have ok: "\<forall>j \<in> set batch. window_ok (jb_window j)" using chunks_of_set [OF that] assms(2) by blast
    show ?thesis unfolding run_batch_rows [OF assms(1) ok] res_map_simps batch_predictions [OF assms(1) ok] ..
  qed
  then have "res_traverse (\<lambda>batch. res_map (\<lambda>output. map (prediction_at output) (enumerate 0 batch)) (run_batch D batch))
      (chunks_of ?n jobs) = Inr (map (map (row_prediction row)) (chunks_of ?n jobs))"
    by (rule res_traverse_all)
  moreover have "concat (map (map (row_prediction row)) (chunks_of ?n jobs)) = map (row_prediction row) jobs"
    using assms(3) by (simp add: detect_options_ok_def concat_chunks_of flip: map_concat)
  ultimately show ?thesis by (simp add: predict_jobs_def)
qed

lemma push_windows_nth:
  "\<forall>(j, p) \<in> set items. jb_text j < length ws \<Longrightarrow> k < length ws \<Longrightarrow>
     fold push_window items ws ! k = ws ! k @ map snd (filter (\<lambda>(j, p). jb_text j = k) items)"
proof (induction items arbitrary: ws)
  case Nil
  then show ?case by simp
next
  case (Cons x items)
  obtain j p where x: "x = (j, p)" by force
  have step: "push_window (j, p) ws = ws[jb_text j := ws ! jb_text j @ [p]]" by (simp add: push_window_def)
  have "fold push_window (x # items) ws ! k
      = push_window x ws ! k @ map snd (filter (\<lambda>(j, p). jb_text j = k) items)"
    using Cons.IH [of "push_window x ws"] Cons.prems by (simp add: step x)
  then show ?case using Cons.prems by (auto simp: step x nth_list_update)
qed

lemma jobs_of_text:
  "filter (\<lambda>j. jb_text j = k) (concat (map (\<lambda>(i, ts). jobs_for D i ts) (enumerate n tokens)))
     = (if n \<le> k \<and> k < n + length tokens then jobs_for D k (tokens ! (k - n)) else [])"
proof (induction tokens arbitrary: n)
  case Nil
  then show ?case by (cases "n \<le> k \<and> k < n") auto
next
  case (Cons ts tokens)
  have same: "filter (\<lambda>j. jb_text j = k) (jobs_for D i ts) = (if i = k then jobs_for D i ts else [])" for i
    by (auto simp: jobs_for_def o_def)
  show ?case
    using Cons.IH [of "Suc n"]
    by (cases "n = k") (auto simp: same nth_Cons' Suc_diff_Suc split: if_splits)
qed

text \<open>The windows a text has by itself.\<close>

definition windows_of ::
  "(i32 list \<Rightarrow> bool list \<Rightarrow> int list \<times> float32 list) \<Rightarrow> detector \<Rightarrow> token list \<Rightarrow> window_prediction list" where
  "windows_of row D ts = map (row_prediction row) (jobs_for D 0 ts)"

lemma row_predictions_any_text: "map (row_prediction row) (jobs_for D i ts) = windows_of row D ts"
  by (simp add: windows_of_def jobs_for_def row_prediction_def prediction_at_def)

lemma filter_zip_map: "map snd (filter (\<lambda>(j, p). Q j) (zip js (map f js))) = map f (filter Q js)"
  by (induction js) auto

lemma detect_all_rows:
  assumes "row_wise (de_predict D) row" and "detect_options_ok opts"
  shows "detect_all D texts opts =
    res_bind (res_traverse (encode_tokens (de_tokenizer D)) texts) (\<lambda>tokens.
      res_traverse (\<lambda>(text, ts). postprocess D text ts (windows_of row D ts) opts) (zip texts tokens))"
proof (cases "res_traverse (encode_tokens (de_tokenizer D)) texts")
  case (Inl e)
  then show ?thesis by (simp add: detect_all_def)
next
  case (Inr tokens)
  have len: "length tokens = length texts" by (rule res_traverse_length [OF Inr])
  let ?jobs = "concat (map (\<lambda>(i, ts). jobs_for D i ts) (enumerate 0 tokens))"
  have job: "window_ok (jb_window j) \<and> jb_text j < length texts" if "j \<in> set ?jobs" for j
    using that jobs_for_ok len by (fastforce simp: in_set_enumerate_eq)
  let ?ws = "fold push_window (zip ?jobs (map (row_prediction row) ?jobs)) (replicate (length texts) [])"
  have "?ws = map (windows_of row D) tokens"
  proof (rule nth_equalityI)
    show "length ?ws = length (map (windows_of row D) tokens)" by (simp add: push_windows_length len)
    fix k assume "k < length ?ws"
    then have k: "k < length texts" by (simp add: push_windows_length)
    have "\<forall>(j, p) \<in> set (zip ?jobs (map (row_prediction row) ?jobs)). jb_text j < length (replicate (length texts) [])"
      using job by (auto dest: set_zip_leftD)
    from push_windows_nth [OF this, of k] k
    have "?ws ! k = map (row_prediction row) (filter (\<lambda>j. jb_text j = k) ?jobs)"
      by (simp add: filter_zip_map)
    also have "\<dots> = windows_of row D (tokens ! k)"
      using k len by (simp add: jobs_of_text row_predictions_any_text)
    finally show "?ws ! k = map (windows_of row D) tokens ! k" using k len by simp
  qed
  moreover have "predict_jobs D ?jobs opts = Inr (map (row_prediction row) ?jobs)"
    using job by (intro predict_jobs_rows assms) blast
  moreover have "res_traverse (\<lambda>((text, ts), ws). postprocess D text ts ws opts) (zip (zip xs ys) (map (windows_of row D) ys))
      = res_traverse (\<lambda>(text, ts). postprocess D text ts (windows_of row D ts) opts) (zip xs ys)" for xs ys
    unfolding split_def by (induction xs ys rule: list_induct2') (simp_all split: sum.split)
  ultimately show ?thesis by (simp add: detect_all_def Inr Let_def)
qed

lemma windows_of_offsets:
  assumes "row_wise (de_predict D) row" and "w \<in> set (windows_of row D ts)"
  shows "\<exists>offs. window_offsets ts w = Inr offs"
proof -
  obtain r where r: "r \<in> set (window_ranges (length ts))"
    and w: "w = row_prediction row \<lparr> jb_text = 0, jb_range = r, jb_window = encode_window (token_slice ts r) (de_config D) \<rparr>"
    using assms(2) by (auto simp: windows_of_def jobs_for_def)
  note fits = window_content_fits [OF r]
  have ok: "window_ok (encode_window (token_slice ts r) (de_config D))" using fits by (intro encode_window_ok) simp
  have "wi_real_len (encode_window (token_slice ts r) (de_config D)) = length (token_slice ts r) + 2"
    by (simp add: encode_window_def Let_def)
  moreover have "length (token_slice ts r) + 2 \<le> SEQ_LEN" using fits by simp
  ultimately have "wp_range w = r" "wp_real_len w = length (token_slice ts r) + 2"
    "length (wp_classes w) = length (token_slice ts r) + 2" "length (wp_probs w) = length (token_slice ts r) + 2"
    using job_row_lengths [OF assms(1) ok] by (simp_all add: w row_prediction_def prediction_at_def Let_def)
  with fits show ?thesis by (simp add: window_offsets_def)
qed

lemma postprocess_total:
  assumes "row_wise (de_predict D) row"
  shows "\<exists>spans. postprocess D text ts (windows_of row D ts) opts = Inr spans"
proof -
  define f where "f = (\<lambda>w. res_map (\<lambda>offs. decode_window D offs w (f32_min (de_low_score D) (effective_min_score opts)))
    (window_offsets ts w))"
  have "f w = Inr (projr (f w))" if "w \<in> set (windows_of row D ts)" for w
    using windows_of_offsets [OF assms that] by (auto simp: f_def)
  then have "res_traverse f (windows_of row D ts) = Inr (map (projr \<circ> f) (windows_of row D ts))"
    by (subst res_traverse_all [of _ f "projr \<circ> f"]) auto
  then show ?thesis by (simp add: postprocess_eq scored_of_def f_def)
qed

definition detect :: "detector \<Rightarrow> rstr \<Rightarrow> detect_options \<Rightarrow> detect_error + entity list" where
  "detect D text opts = res_map (\<lambda>res. if res = [] then [] else last res) (detect_all D [text] opts)"

lemma res_traverse_zip:
  "res_traverse (\<lambda>x. res_map (g x) (f x)) xs = res_map (\<lambda>ys. map (\<lambda>(x, y). g x y) (zip xs ys)) (res_traverse f xs)"
  by (induction xs) (auto split: sum.split)

text \<open>C5. Batching does not matter: for a classifier that handles each row of its input by itself, the spans of
  the texts of a request, and the error when there is one, are those each text has in a request of its own,
  whatever the number of windows per forward pass.
\<close>

theorem batch_as_single_texts:
  assumes "row_wise (de_predict D) row" and "detect_options_ok opts"
  shows "detect_all D texts opts = res_traverse (\<lambda>text. detect D text opts) texts"
proof -
  let ?enc = "encode_tokens (de_tokenizer D)"
  define rep where "rep = (\<lambda>text ts. projr (postprocess D text ts (windows_of row D ts) opts))"
  have post: "postprocess D text ts (windows_of row D ts) opts = Inr (rep text ts)" for "text" ts
    using postprocess_total [OF assms(1), of "text" ts opts] by (auto simp: rep_def)
  have all: "detect_all D xs opts = res_map (\<lambda>tss. map (\<lambda>(x, y). rep x y) (zip xs tss)) (res_traverse ?enc xs)" for xs
  proof (cases "res_traverse ?enc xs")
    case (Inr tss)
    have "res_traverse (\<lambda>(text, ts). postprocess D text ts (windows_of row D ts) opts) (zip xs tss)
        = Inr (map (\<lambda>(x, y). rep x y) (zip xs tss))"
      by (rule res_traverse_all) (auto simp: post)
    with Inr show ?thesis by (simp add: detect_all_rows [OF assms])
  qed (simp add: detect_all_rows [OF assms])
  have "detect D text opts = res_map (rep text) (?enc text)" for "text"
    by (cases "?enc text") (simp_all add: detect_def all)
  then show ?thesis by (simp add: all res_traverse_zip)
qed

section \<open>Whole words\<close>

definition whole_words :: "(rchar \<Rightarrow> bool) \<Rightarrow> rstr \<Rightarrow> entity \<Rightarrow> bool" where
  "whole_words word text s \<longleftrightarrow> at_word_start word text (en_start s) \<and> at_word_end word text (en_end s)"

lemma snap_entity_words: "is_utf8 text \<Longrightarrow> whole_words word text (snap_entity word text s)"
  using snap_one_parts [of "text" word "en_start s" "en_end s"]
  by (cases "snap_one word text (en_start s) (en_end s)") (simp add: whole_words_def snap_entity_def)

lemma snap_to_words_whole:
  assumes "is_utf8 text" and "\<forall>s \<in> set spans. entity_ok (is_char_boundary text) m s"
    and "r \<in> set (snap_to_words word text spans)"
  shows "whole_words word text r"
proof -
  let ?snapped = "map (snap_entity word text) spans"
  have "\<forall>s \<in> set ?snapped. entity_ok (is_char_boundary text) m s"
    using assms(1,2) snap_entity_ok by auto
  note inv = merge_same_label_inv [OF this]
  from inv assms(3) obtain a where a: "a \<in> set ?snapped" "en_start a = en_start r"
    unfolding merge_inv_def snap_to_words_def by blast
  from inv assms(3) obtain b where b: "b \<in> set ?snapped" "en_end b = en_end r"
    unfolding merge_inv_def snap_to_words_def by blast
  have "whole_words word text a" "whole_words word text b"
    using a(1) b(1) snap_entity_words [OF assms(1)] by auto
  with a(2) b(2) show ?thesis by (simp add: whole_words_def)
qed

text \<open>No span cuts a word: before the first char of a reported span there is no alphanumeric char, nor a
  hyphen or apostrophe that follows one, and the same holds after its last char.
\<close>

theorem reported_whole_words:
  assumes "postprocess D text ts ws opts = Inr spans" and "is_utf8 text" and "tokens_ok text ts"
    and "s \<in> set spans"
  shows "whole_words (de_word_char D) text s"
proof -
  have "s \<in> set (snap_to_words (de_word_char D) text (merge_same_label (kept_of D ts ws opts)))"
    using assms(1,4) by (auto simp: postprocess_eq)
  from snap_to_words_whole [OF assms(2) merge_same_label_ok [OF kept_of_ok [OF assms(3)]] this] show ?thesis .
qed

section \<open>Two adjacent detections\<close>

definition ascii_word :: "rchar \<Rightarrow> bool" where
  "ascii_word c \<longleftrightarrow> length c = 1 \<and> list_all is_ascii_alphanumeric c"

definition city_and_phone :: "entity list" where
  "city_and_phone =
     [\<lparr> en_start = 0, en_end = 8, en_label = City, en_confidence = Finite 9 \<rparr>,
      \<lparr> en_start = 8, en_end = 17, en_label = Phone, en_confidence = Finite 9 \<rparr>]"

text \<open>
  The doc comment of \<open>snap_to_words\<close> says that spans which overlap after snapping are merged. A span with
  another label is dropped instead: the two spans below do not overlap as detected, but the second one
  grows to the left into the last word of the first, and then the whole phone number goes unreported.
\<close>

lemma snapping_drops_adjacent_span:
  "merge_same_label city_and_phone = city_and_phone
   \<and> snap_to_words ascii_word ''New York(212) 555'' city_and_phone = [hd city_and_phone]"
  by code_simp

section \<open>A small detector\<close>

definition ner_demo_config :: bert_config where
  "ner_demo_config = \<lparr> bc_hidden = 4, bc_heads = 2, bc_head_dim = 2, bc_layers = 1, bc_intermediate = 4, bc_vocab = 8,
     bc_seq_len = 256, bc_num_labels = 2, bc_layer_norm_eps = 0, bc_attention_scale = 0,
     bc_gelu_approximate = False, bc_pad_id = 1, bc_cls_id = 0, bc_sep_id = 2 \<rparr>"

definition demo_row :: "i32 list \<Rightarrow> bool list \<Rightarrow> int list \<times> float32 list" where
  "demo_row ids pad = (map (\<lambda>i. if i = 5 then 1 else 0) ids, map (\<lambda>_. Finite 9) ids)"

definition ner_demo_detector :: detector where
  "ner_demo_detector = \<lparr> de_predict = demo_row,
     de_tokenizer = (\<lambda>s. Inr ([4, 5], [(0, 2), (3, 6)])),
     de_labels = [Outside, Single GivenName], de_config = ner_demo_config, de_low_score = Finite 3,
     de_word_char = ascii_word \<rparr>"

definition demo_detect_options :: detect_options where
  "demo_detect_options = \<lparr> do_min_score = Finite 6, do_batch_windows = 2 \<rparr>"

definition demo_tokens :: "token list" where
  "demo_tokens = [\<lparr> tk_id = 4, tk_start = 0, tk_end = 2 \<rparr>, \<lparr> tk_id = 5, tk_start = 3, tk_end = 6 \<rparr>]"

definition demo_windows :: "window_prediction list" where
  "demo_windows = [\<lparr> wp_range = (0, 2), wp_real_len = 4, wp_classes = [0, 0, 1, 0],
     wp_probs = [Finite 9, Finite 9, Finite 9, Finite 9] \<rparr>]"

definition demo_spans :: "entity list" where
  "demo_spans = [\<lparr> en_start = 3, en_end = 8, en_label = GivenName, en_confidence = Finite 9 \<rparr>]"

lemma demo_postprocess:
  "postprocess ner_demo_detector ''Hi Annas'' demo_tokens demo_windows demo_detect_options = Inr demo_spans"
  by code_simp

lemma concat_rows: "concat (map (\<lambda>(ids, pad). map f ids) rows) = map f (concat (map fst rows))"
  by (induction rows) auto

lemma demo_row_wise: "row_wise demo_row demo_row"
  by (simp add: row_wise_def demo_row_def concat_rows)

lemma demo_detect_all: "detect_all ner_demo_detector [''Hi Annas''] demo_detect_options = Inr [demo_spans]"
proof -
  have ok: "detect_options_ok demo_detect_options" by code_simp
  have row: "row_wise (de_predict ner_demo_detector) demo_row" using demo_row_wise by (simp add: ner_demo_detector_def)
  have "encode_tokens (de_tokenizer ner_demo_detector) ''Hi Annas'' = Inr demo_tokens" by code_simp
  moreover have "windows_of demo_row ner_demo_detector demo_tokens = demo_windows" by code_simp
  ultimately show ?thesis
    using demo_postprocess by (simp add: detect_all_rows [OF row ok])
qed

lemma ner_demo_utf8: "is_utf8 ''Hi Annas''"
  by code_simp

lemma demo_tokens_ok: "tokens_ok ''Hi Annas'' demo_tokens"
  by code_simp

theorem confident_token_reported_witness:
  "\<exists>s \<in> set demo_spans. en_start s \<le> 3 \<and> 6 \<le> en_end s \<and> en_label s = GivenName"
proof -
  let ?offs = "[(0, 0), (0, 2), (3, 6), (0, 0)]"
  have w: "hd demo_windows \<in> set demo_windows" by (simp add: demo_windows_def)
  have "window_offsets demo_tokens (hd demo_windows) = Inr ?offs" by code_simp
  moreover have "ordered_offsets ?offs" by code_simp
  moreover have "f32_ge (wp_probs (hd demo_windows) ! 2) (effective_min_score demo_detect_options)" by code_simp
  moreover have "label_set_tag (de_labels ner_demo_detector) (wp_classes (hd demo_windows) ! 2) = Some (Single GivenName)"
    by code_simp
  moreover have "no_collision ner_demo_detector ''Hi Annas'' demo_tokens demo_windows demo_detect_options" by code_simp
  ultimately show ?thesis
    using confident_token_reported [OF demo_postprocess ner_demo_utf8 demo_tokens_ok w, of ?offs 2 "Single GivenName" GivenName]
    by simp
qed

theorem reported_spans_disjoint_witness:
  "length [demo_spans] = 1 \<and> span_reportable ''Hi Annas'' (effective_min_score demo_detect_options) (hd demo_spans)"
  using reported_spans_disjoint [OF demo_detect_all] ner_demo_utf8 by (simp add: demo_spans_def)

definition demo_wire :: "wire_span list" where
  "demo_wire = [\<lparr> ws_start = 3, ws_end = 8, ws_label = ''GIVEN_NAME'', ws_confidence = 9 \<rparr>]"

definition demo_ner_client :: ner_client where
  "demo_ner_client = \<lparr> nc_endpoint = [], nc_token = [], nc_min_confidence = 5, nc_labels = [], nc_timeout = 1,
     nc_hash_a = (\<lambda>_. 0), nc_hash_b = (\<lambda>_. 0) \<rparr>"

theorem scan_keeps_detected_spans_witness:
  "normalize_external ''Hi Annas'' (filter_spans demo_ner_client demo_wire)
     = [\<lparr> ext_start = 3, ext_end = 8, ext_category = ''GIVEN_NAME'' \<rparr>]"
proof -
  have "list_all2 wire_matches ([demo_spans] ! 0) demo_wire" by code_simp
  from scan_keeps_detected_spans [OF demo_detect_all _ _ this, of demo_ner_client] ner_demo_utf8
  have "normalize_external ''Hi Annas'' (filter_spans demo_ner_client demo_wire) = filter_spans demo_ner_client demo_wire"
    by simp
  also have "\<dots> = [\<lparr> ext_start = 3, ext_end = 8, ext_category = ''GIVEN_NAME'' \<rparr>]" by code_simp
  finally show ?thesis .
qed

theorem batch_as_single_texts_witness:
  "res_traverse (\<lambda>text. detect ner_demo_detector text demo_detect_options) [''Hi Annas''] = Inr [demo_spans]"
proof -
  have row: "row_wise (de_predict ner_demo_detector) demo_row" using demo_row_wise by (simp add: ner_demo_detector_def)
  have ok: "detect_options_ok demo_detect_options" by code_simp
  show ?thesis using batch_as_single_texts [OF row ok, of "[''Hi Annas'']"] demo_detect_all by simp
qed

theorem reported_whole_words_witness:
  "whole_words ascii_word ''Hi Annas'' (hd demo_spans)"
  using reported_whole_words [OF demo_postprocess ner_demo_utf8 demo_tokens_ok, of "hd demo_spans"]
  by (simp add: demo_spans_def ner_demo_detector_def)

end
