(* ===== verification/Ner_Service.thy ===== *)
theory Ner_Service
  imports Ner_Detect
begin

text \<open>
  Loading the model artifact (\<open>crates/pii-ner/src/artifact\<close>, \<open>model/mod.rs\<close>, \<open>backend.rs\<close> and
  \<open>Detector::load\<close>) and serving the detector to the proxy
  (\<open>desktop/src-tauri/src/pii_ner_service.rs\<close>): the checks of a request, the queue, the one turn of
  inference, and what happens when the model loads, a client goes away or the service stops.
\<close>

unbundle bit_operations_syntax

definition map_err :: "('e \<Rightarrow> 'f) \<Rightarrow> 'e + 'a \<Rightarrow> 'f + 'a" where
  "map_err f r = (case r of Inl e \<Rightarrow> Inl (f e) | Inr x \<Rightarrow> Inr x)"

lemma map_err_simps [simp]: "map_err f (Inl e) = Inl (f e)" "map_err f (Inr x) = Inr x"
  by (simp_all add: map_err_def)

lemma map_err_eq_Inr: "map_err f r = Inr x \<longleftrightarrow> r = Inr x"
  by (cases r) auto

section \<open>The artifact\<close>

record model_info =
  mi_name :: rstr
  mi_revision :: rstr
  mi_version :: rstr
  mi_source_tflite_sha256 :: rstr
  mi_param_count :: u64

record artifact_files =
  af_weights :: rstr
  af_weights_sha256 :: rstr
  af_tokenizer :: rstr
  af_tokenizer_sha256 :: rstr

text \<open>Floats that only the network uses are opaque: their bits.\<close>

record model_config =
  mc_vocab_size :: nat
  mc_hidden_size :: nat
  mc_num_hidden_layers :: nat
  mc_num_attention_heads :: nat
  mc_head_dim :: nat
  mc_intermediate_size :: nat
  mc_max_seq_len :: nat
  mc_layer_norm_eps :: u64
  mc_attention_scale :: u32
  mc_gelu_approximate :: bool
  mc_num_labels :: nat
  mc_pad_token_id :: i32
  mc_cls_token_id :: i32
  mc_sep_token_id :: i32

record pipeline_defaults =
  pd_max_content :: nat
  pd_stride :: nat
  pd_min_score :: float32
  pd_low_score :: float32

record manifest =
  mf_artifact_format_version :: u32
  mf_model :: model_info
  mf_files :: artifact_files
  mf_config :: model_config
  mf_labels :: "rstr list"
  mf_pipeline :: pipeline_defaults

datatype load_error =
  LoadIo rstr rstr
  | ManifestInvalid rstr
  | UnsupportedFormatVersion u32 u32
  | Checksum rstr rstr rstr
  | TokenizerInvalid rstr
  | Labels label_set_error
  | ConfigInvalid rstr
  | ModelInvalid rstr
  | NoGpu

definition in_unit_range :: "float32 \<Rightarrow> bool" where
  "in_unit_range x \<longleftrightarrow> f32_ge x (Finite 0) \<and> f32_ge (Finite F32_ONE) x"

text \<open>The product of the heads is that of a release build, which wraps.\<close>

definition manifest_validate :: "manifest \<Rightarrow> load_error + unit" where
  "manifest_validate m =
     (let cfg = mf_config m; pipe = mf_pipeline m in
      if (mc_num_attention_heads cfg * mc_head_dim cfg) mod 2 ^ 64 \<noteq> mc_hidden_size cfg then
        Inl (ConfigInvalid (nat_str (mc_num_attention_heads cfg) @ '' heads x '' @ nat_str (mc_head_dim cfg)
          @ '' does not equal hidden size '' @ nat_str (mc_hidden_size cfg)))
      else if mc_max_seq_len cfg \<noteq> SEQ_LEN then
        Inl (ConfigInvalid (''max_seq_len '' @ nat_str (mc_max_seq_len cfg) @ '' differs from the compiled window ''
          @ nat_str SEQ_LEN))
      else if length (mf_labels m) \<noteq> mc_num_labels cfg then
        Inl (Labels (LabelCount (length (mf_labels m)) (mc_num_labels cfg)))
      else if pd_max_content pipe \<noteq> MAX_CONTENT \<or> pd_stride pipe \<noteq> STRIDE then
        Inl (ConfigInvalid (''pipeline window '' @ nat_str (pd_max_content pipe) @ ''/'' @ nat_str (pd_stride pipe)
          @ '' differs from the compiled '' @ nat_str MAX_CONTENT @ ''/'' @ nat_str STRIDE))
      else if \<not> in_unit_range (pd_min_score pipe) \<or> \<not> in_unit_range (pd_low_score pipe) then
        Inl (ConfigInvalid ''pipeline thresholds must be in 0..=1'')
      else Inr ())"

text \<open>
  The file system, the JSON parser and the digest, and the third-party parts that turn files into a
  tokenizer and a classifier.
\<close>

datatype device = Cpu | Gpu

record artifact_env =
  ae_read :: "rstr \<Rightarrow> rstr + rstr"
  ae_parse :: "rstr \<Rightarrow> rstr + manifest"
  ae_sha256_hex :: "rstr \<Rightarrow> rstr"
  ae_tokenizer :: "rstr \<Rightarrow> rstr + tokenizer"
  ae_build_model :: "device \<Rightarrow> rstr \<Rightarrow> bert_config \<Rightarrow> rstr + classifier"
  ae_word_char :: "rchar \<Rightarrow> bool"

definition manifest_parse :: "artifact_env \<Rightarrow> rstr \<Rightarrow> load_error + manifest" where
  "manifest_parse E text =
     (case ae_parse E text of
        Inl e \<Rightarrow> Inl (ManifestInvalid e)
      | Inr m \<Rightarrow> res_map (\<lambda>_. m) (manifest_validate m))"

text \<open>\<open>fs::read_to_string\<close> also fails on bytes that are not UTF-8.\<close>

definition manifest_load :: "artifact_env \<Rightarrow> rstr \<Rightarrow> load_error + manifest" where
  "manifest_load E path =
     (case ae_read E path of
        Inl e \<Rightarrow> Inl (LoadIo path e)
      | Inr bytes \<Rightarrow>
          if is_utf8 bytes then manifest_parse E bytes
          else Inl (LoadIo path ''stream did not contain valid UTF-8''))"

definition ARTIFACT_FORMAT_VERSION :: u32 where "ARTIFACT_FORMAT_VERSION = 1"

definition SOURCE_TFLITE_SHA256 :: rstr where
  "SOURCE_TFLITE_SHA256 = ''ee36727f07e3237569e71427bfe661463a82e526f7e97e92b0fa583cad16ed27''"

record artifact =
  ar_manifest :: manifest
  ar_tokenizer_path :: rstr
  ar_weights :: rstr

definition dir_join :: "rstr \<Rightarrow> rstr \<Rightarrow> rstr" where
  "dir_join dir file =
     (if starts_with ''/'' file then file
      else if dir = [] \<or> ends_with ''/'' dir then dir @ file
      else dir @ ''/'' @ file)"

definition read_file :: "artifact_env \<Rightarrow> rstr \<Rightarrow> load_error + rstr" where
  "read_file E path = map_err (LoadIo path) (ae_read E path)"

definition verify_sha256 :: "artifact_env \<Rightarrow> rstr \<Rightarrow> rstr \<Rightarrow> rstr \<Rightarrow> load_error + unit" where
  "verify_sha256 E file bytes expected =
     (let actual = ae_sha256_hex E bytes in
      if actual \<noteq> expected then Inl (Checksum file expected actual) else Inr ())"

definition artifact_open :: "artifact_env \<Rightarrow> rstr \<Rightarrow> load_error + artifact" where
  "artifact_open E dir =
     res_bind (manifest_load E (dir_join dir ''manifest.json'')) (\<lambda>m.
       if mf_artifact_format_version m \<noteq> ARTIFACT_FORMAT_VERSION then
         Inl (UnsupportedFormatVersion (mf_artifact_format_version m) ARTIFACT_FORMAT_VERSION)
       else if mi_source_tflite_sha256 (mf_model m) \<noteq> SOURCE_TFLITE_SHA256 then
         Inl (ManifestInvalid (''artifact was converted from an unexpected model (''
           @ mi_source_tflite_sha256 (mf_model m) @ '')''))
       else
         let files = mf_files m in
         res_bind (read_file E (dir_join dir (af_weights files))) (\<lambda>weights.
         res_bind (verify_sha256 E (af_weights files) weights (af_weights_sha256 files)) (\<lambda>_.
         let tokenizer_path = dir_join dir (af_tokenizer files) in
         res_bind (read_file E tokenizer_path) (\<lambda>tok.
         res_bind (verify_sha256 E (af_tokenizer files) tok (af_tokenizer_sha256 files)) (\<lambda>_.
           Inr \<lparr> ar_manifest = m, ar_tokenizer_path = tokenizer_path, ar_weights = weights \<rparr>)))))"

definition bert_config_from_manifest :: "model_config \<Rightarrow> load_error + bert_config" where
  "bert_config_from_manifest cfg =
     (if mc_num_hidden_layers cfg = 0 \<or> mc_hidden_size cfg = 0 \<or> mc_num_labels cfg = 0
      then Inl (ConfigInvalid ''layers, hidden size and labels must be non-zero'')
      else Inr \<lparr> bc_hidden = mc_hidden_size cfg, bc_heads = mc_num_attention_heads cfg,
                 bc_head_dim = mc_head_dim cfg, bc_layers = mc_num_hidden_layers cfg,
                 bc_intermediate = mc_intermediate_size cfg, bc_vocab = mc_vocab_size cfg,
                 bc_seq_len = mc_max_seq_len cfg, bc_num_labels = mc_num_labels cfg,
                 bc_layer_norm_eps = mc_layer_norm_eps cfg, bc_attention_scale = mc_attention_scale cfg,
                 bc_gelu_approximate = mc_gelu_approximate cfg,
                 bc_pad_id = mc_pad_token_id cfg, bc_cls_id = mc_cls_token_id cfg,
                 bc_sep_id = mc_sep_token_id cfg \<rparr>)"

definition detector_load :: "artifact_env \<Rightarrow> rstr \<Rightarrow> device \<Rightarrow> load_error + detector" where
  "detector_load E dir dev =
     res_bind (artifact_open E dir) (\<lambda>artifact.
     let m = ar_manifest artifact in
     res_bind (bert_config_from_manifest (mf_config m)) (\<lambda>config.
     res_bind (map_err Labels (label_set_from_names (mf_labels m))) (\<lambda>labels.
       if length labels \<noteq> bc_num_labels config then Inl (Labels (LabelCount (length labels) (bc_num_labels config)))
       else
         res_bind (map_err ModelInvalid (ae_build_model E dev (ar_weights artifact) config)) (\<lambda>predict.
         res_bind (map_err TokenizerInvalid (ae_tokenizer E (ar_tokenizer_path artifact))) (\<lambda>tok.
           Inr \<lparr> de_predict = predict, de_tokenizer = tok, de_labels = labels, de_config = config,
                 de_low_score = pd_low_score (mf_pipeline m), de_word_char = ae_word_char E \<rparr>)))))"

datatype device_preference = PreferAuto | PreferCpu | PreferGpu

definition load_auto :: "artifact_env \<Rightarrow> bool \<Rightarrow> rstr \<Rightarrow> device_preference \<Rightarrow> load_error + detector \<times> device" where
  "load_auto E gpu_found dir preference =
     (let on = (\<lambda>dev. res_map (\<lambda>D. (D, dev)) (detector_load E dir dev)) in
      case preference of
        PreferCpu \<Rightarrow> on Cpu
      | PreferGpu \<Rightarrow> if gpu_found then on Gpu else Inl NoGpu
      | PreferAuto \<Rightarrow> if gpu_found then on Gpu else on Cpu)"

lemma manifest_validate_ok:
  assumes "manifest_validate m = Inr u"
  shows "length (mf_labels m) = mc_num_labels (mf_config m)" and "mc_max_seq_len (mf_config m) = SEQ_LEN"
    and "(mc_num_attention_heads (mf_config m) * mc_head_dim (mf_config m)) mod 2 ^ 64 = mc_hidden_size (mf_config m)"
    and "in_unit_range (pd_low_score (mf_pipeline m))"
  using assms by (simp_all add: manifest_validate_def Let_def split: if_splits)

lemma manifest_load_ok: "manifest_load E path = Inr m \<Longrightarrow> manifest_validate m = Inr ()"
  by (auto simp: manifest_load_def manifest_parse_def res_map_eq_Inr split: sum.splits if_splits)

lemma artifact_open_ok:
  assumes "artifact_open E dir = Inr a"
  obtains tok where "manifest_validate (ar_manifest a) = Inr ()"
    and "mf_artifact_format_version (ar_manifest a) = ARTIFACT_FORMAT_VERSION"
    and "mi_source_tflite_sha256 (mf_model (ar_manifest a)) = SOURCE_TFLITE_SHA256"
    and "ae_sha256_hex E (ar_weights a) = af_weights_sha256 (mf_files (ar_manifest a))"
    and "ae_read E (ar_tokenizer_path a) = Inr tok"
    and "ae_sha256_hex E tok = af_tokenizer_sha256 (mf_files (ar_manifest a))"
proof -
  obtain m where m: "manifest_load E (dir_join dir ''manifest.json'') = Inr m"
    using assms by (auto simp: artifact_open_def res_bind_eq_Inr)
  from assms manifest_load_ok [OF m]
  have "\<exists>tok. manifest_validate (ar_manifest a) = Inr ()
      \<and> mf_artifact_format_version (ar_manifest a) = ARTIFACT_FORMAT_VERSION
      \<and> mi_source_tflite_sha256 (mf_model (ar_manifest a)) = SOURCE_TFLITE_SHA256
      \<and> ae_sha256_hex E (ar_weights a) = af_weights_sha256 (mf_files (ar_manifest a))
      \<and> ae_read E (ar_tokenizer_path a) = Inr tok
      \<and> ae_sha256_hex E tok = af_tokenizer_sha256 (mf_files (ar_manifest a))"
    by (auto simp: artifact_open_def m res_bind_eq_Inr map_err_eq_Inr Let_def verify_sha256_def read_file_def
        split: if_splits)
  with that show ?thesis by blast
qed

lemma label_set_outside: "label_set_from_names names = Inr tags \<Longrightarrow> length tags = length names \<and> tags ! 0 = Outside"
proof -
  assume a: "label_set_from_names names = Inr tags"
  then have ne: "names \<noteq> []" "hd names = ''O''" and tr: "res_traverse tag_from_str names = Inr tags"
    by (auto simp: label_set_from_names_def split: if_splits sum.splits)
  then have "list_all2 (\<lambda>x t. tag_from_str x = Inr t) names tags" by (simp add: res_traverse_eq_Inr)
  then have "tag_from_str (names ! 0) = Inr (tags ! 0)" using ne(1) by (rule_tac list_all2_nthD) simp_all
  with ne have "tags ! 0 = Outside" by (simp add: hd_conv_nth tag_from_str_def)
  with res_traverse_length [OF tr] show ?thesis by simp
qed

lemma bert_config_ok:
  "bert_config_from_manifest cfg = Inr c \<Longrightarrow>
     bc_seq_len c = mc_max_seq_len cfg \<and> bc_num_labels c = mc_num_labels cfg \<and> mc_num_labels cfg \<noteq> 0"
  by (auto simp: bert_config_from_manifest_def split: if_splits)

text \<open>C30. A detector that loads was checked: its artifact has the supported format and comes from the pinned
  model, its weights and its tokenizer file have the digests of the manifest, its window is the compiled
  one, it has a label per class with class 0 outside, and its lower threshold is a number from 0 to 1.
\<close>

theorem loaded_detector_checked:
  assumes "detector_load E dir dev = Inr D"
  shows "\<exists>a tok. artifact_open E dir = Inr a
    \<and> mf_artifact_format_version (ar_manifest a) = ARTIFACT_FORMAT_VERSION
    \<and> mi_source_tflite_sha256 (mf_model (ar_manifest a)) = SOURCE_TFLITE_SHA256
    \<and> ae_sha256_hex E (ar_weights a) = af_weights_sha256 (mf_files (ar_manifest a))
    \<and> ae_read E (ar_tokenizer_path a) = Inr tok
    \<and> ae_sha256_hex E tok = af_tokenizer_sha256 (mf_files (ar_manifest a))
    \<and> bc_seq_len (de_config D) = SEQ_LEN
    \<and> length (de_labels D) = bc_num_labels (de_config D) \<and> label_set_tag (de_labels D) 0 = Some Outside
    \<and> in_unit_range (de_low_score D)"
proof -
  obtain a where a: "artifact_open E dir = Inr a"
    using assms by (auto simp: detector_load_def res_bind_eq_Inr)
  let ?m = "ar_manifest a"
  obtain tok where ok: "manifest_validate ?m = Inr ()"
    "mf_artifact_format_version ?m = ARTIFACT_FORMAT_VERSION"
    "mi_source_tflite_sha256 (mf_model ?m) = SOURCE_TFLITE_SHA256"
    "ae_sha256_hex E (ar_weights a) = af_weights_sha256 (mf_files ?m)"
    "ae_read E (ar_tokenizer_path a) = Inr tok"
    "ae_sha256_hex E tok = af_tokenizer_sha256 (mf_files ?m)"
    by (rule artifact_open_ok [OF a])
  note valid = manifest_validate_ok [OF ok(1)]
  have labels: "label_set_from_names (mf_labels ?m) = Inr (de_labels D)"
    and config: "bert_config_from_manifest (mf_config ?m) = Inr (de_config D)"
    and count: "length (de_labels D) = bc_num_labels (de_config D)"
    and low: "de_low_score D = pd_low_score (mf_pipeline ?m)"
    using assms by (auto simp: detector_load_def a Let_def res_bind_eq_Inr map_err_eq_Inr split: if_splits)
  have "bc_seq_len (de_config D) = SEQ_LEN" "bc_num_labels (de_config D) \<noteq> 0"
    using bert_config_ok [OF config] valid by simp_all
  moreover from this count label_set_outside [OF labels] have "label_set_tag (de_labels D) 0 = Some Outside"
    by (simp add: label_set_tag_def)
  ultimately show ?thesis using a ok count low valid(4) by (metis (no_types, lifting))
qed

section \<open>The service\<close>

text \<open>\<open>SpanDetector::detect_batch\<close>; a panic of the blocking task is an event of its own.\<close>

type_synonym span_detector = "rstr list \<Rightarrow> rstr + entity list list"

definition model_detector :: "detector \<Rightarrow> (detect_error \<Rightarrow> rstr) \<Rightarrow> span_detector" where
  "model_detector D show_error texts =
     (case detect_all D texts default_detect_options of Inl e \<Rightarrow> Inl (show_error e) | Inr spans \<Rightarrow> Inr spans)"

datatype detector_state = Loading | Ready span_detector | Failed

datatype detect_reply =
  Unauthorized
  | BadBody
  | ServiceUnavailable rstr
  | Detected "entity list list"
  | DetectionFailed

definition MAX_QUEUED_REQUESTS :: nat where "MAX_QUEUED_REQUESTS = 32"

text \<open>A request past its checks: its number, its texts and the detector it holds.\<close>

type_synonym detect_job = "nat \<times> rstr list \<times> span_detector"

text \<open>
  The state all requests share: the permits left in \<open>queue\<close>, the request that has the permit of
  \<open>inference\<close> and those that wait for it in order, whether it is closed, and the blocking tasks that run.
  \<open>sv_next\<close> numbers the requests, \<open>sv_replies\<close> are the answers sent.
\<close>

record ner_service =
  sv_detector :: detector_state
  sv_token :: rstr
  sv_queue :: nat
  sv_turn :: "nat option"
  sv_line :: "detect_job list"
  sv_closed :: bool
  sv_tasks :: "detect_job list"
  sv_next :: nat
  sv_replies :: "(nat \<times> detect_reply) list"

definition service_new :: "detector_state \<Rightarrow> rstr \<Rightarrow> ner_service" where
  "service_new d token = \<lparr> sv_detector = d, sv_token = token, sv_queue = MAX_QUEUED_REQUESTS, sv_turn = None,
     sv_line = [], sv_closed = False, sv_tasks = [], sv_next = 0, sv_replies = [] \<rparr>"

definition token_eq :: "rstr \<Rightarrow> rstr \<Rightarrow> bool" where
  "token_eq a b =
     (if length a \<noteq> length b then False
      else fold (\<lambda>(x, y) diff. diff OR (x XOR y)) (zip (map (of_nat \<circ> of_char) a) (map (of_nat \<circ> of_char) b)) (0 :: u8) = 0)"

definition service_ready :: "detector_state \<Rightarrow> rstr + span_detector" where
  "service_ready d =
     (case d of
        Ready f \<Rightarrow> Inr f
      | Loading \<Rightarrow> Inl ''PII detector is still loading''
      | Failed \<Rightarrow> Inl ''PII detector failed to load'')"

definition reply_to :: "nat \<Rightarrow> detect_reply \<Rightarrow> ner_service \<Rightarrow> ner_service" where
  "reply_to i r s = s \<lparr> sv_replies := sv_replies s @ [(i, r)] \<rparr>"

text \<open>The header as a string, when there is one; the texts of the body, when it parses.\<close>

definition service_request :: "rstr option \<Rightarrow> rstr list option \<Rightarrow> ner_service \<Rightarrow> ner_service" where
  "service_request header body s0 =
     (let i = sv_next s0; s = s0 \<lparr> sv_next := i + 1 \<rparr> in
      if \<not> token_eq (case header of Some h \<Rightarrow> h | None \<Rightarrow> []) (sv_token s) then reply_to i Unauthorized s
      else case body of
          None \<Rightarrow> reply_to i BadBody s
        | Some texts \<Rightarrow>
            (case service_ready (sv_detector s) of
               Inl reason \<Rightarrow> reply_to i (ServiceUnavailable reason) s
             | Inr f \<Rightarrow>
                 if sv_queue s = 0 then reply_to i (ServiceUnavailable ''PII detector queue is full'') s
                 else if sv_closed s then reply_to i (ServiceUnavailable ''PII detector is shutting down'') s
                 else if sv_turn s = None then
                   s \<lparr> sv_queue := sv_queue s - 1, sv_turn := Some i, sv_tasks := sv_tasks s @ [(i, texts, f)] \<rparr>
                 else s \<lparr> sv_queue := sv_queue s - 1, sv_line := sv_line s @ [(i, texts, f)] \<rparr>))"

text \<open>The two permits of a request are dropped; the first in the line gets the turn and starts its task.\<close>

definition pass_turn :: "ner_service \<Rightarrow> ner_service" where
  "pass_turn s =
     (case sv_line s of
        [] \<Rightarrow> s \<lparr> sv_queue := sv_queue s + 1, sv_turn := None \<rparr>
      | j # rest \<Rightarrow> s \<lparr> sv_queue := sv_queue s + 1, sv_turn := Some (fst j), sv_line := rest,
                       sv_tasks := sv_tasks s @ [j] \<rparr>)"

definition task_reply :: "bool \<Rightarrow> detect_job \<Rightarrow> detect_reply" where
  "task_reply panicked j =
     (case j of (i, texts, f) \<Rightarrow>
        if panicked then DetectionFailed
        else case f texts of Inr spans \<Rightarrow> Detected spans | Inl e \<Rightarrow> DetectionFailed)"

text \<open>A blocking task ends; its result is used when its handler still waits for it.\<close>

definition task_ends :: "nat \<Rightarrow> bool \<Rightarrow> ner_service \<Rightarrow> ner_service" where
  "task_ends i panicked s =
     (case find (\<lambda>j. fst j = i) (sv_tasks s) of
        None \<Rightarrow> s
      | Some j \<Rightarrow>
          let s' = s \<lparr> sv_tasks := filter (\<lambda>j. fst j \<noteq> i) (sv_tasks s) \<rparr> in
          if sv_turn s = Some i then pass_turn (reply_to i (task_reply panicked j) s') else s')"

text \<open>
  The client of a request closes its connection: the server drops the future of the handler and the
  permits it holds. A blocking task is not stopped.
\<close>

definition client_leaves :: "nat \<Rightarrow> ner_service \<Rightarrow> ner_service" where
  "client_leaves i s =
     (if sv_turn s = Some i then pass_turn s
      else if i \<in> set (map fst (sv_line s)) then
        s \<lparr> sv_queue := sv_queue s + 1, sv_line := filter (\<lambda>j. fst j \<noteq> i) (sv_line s) \<rparr>
      else s)"

text \<open>\<open>stop\<close> closes \<open>inference\<close>: those that wait for it are answered.\<close>

definition service_close :: "ner_service \<Rightarrow> ner_service" where
  "service_close s =
     s \<lparr> sv_closed := True, sv_queue := sv_queue s + length (sv_line s), sv_line := [],
         sv_replies := sv_replies s
           @ map (\<lambda>j. (fst j, ServiceUnavailable ''PII detector is shutting down'')) (sv_line s) \<rparr>"

definition model_loaded :: "rstr + span_detector \<Rightarrow> ner_service \<Rightarrow> ner_service" where
  "model_loaded r s = s \<lparr> sv_detector := (case r of Inr f \<Rightarrow> Ready f | Inl e \<Rightarrow> Failed) \<rparr>"

datatype service_event =
  Requested "rstr option" "rstr list option"
  | TaskEnds nat bool
  | ClientLeaves nat
  | ModelLoaded "rstr + span_detector"
  | Closes

fun service_step :: "ner_service \<Rightarrow> service_event \<Rightarrow> ner_service" where
  "service_step s (Requested header body) = service_request header body s"
| "service_step s (TaskEnds i panicked) = task_ends i panicked s"
| "service_step s (ClientLeaves i) = client_leaves i s"
| "service_step s (ModelLoaded r) = model_loaded r s"
| "service_step s Closes = service_close s"

section \<open>Permits and answers\<close>

lemma byte_xor_zero: "(x :: u8) XOR y = 0 \<longleftrightarrow> x = y"
proof
  assume "x XOR y = 0"
  then have "(x XOR y) XOR y = y" by simp
  then show "x = y" by (simp add: xor.assoc)
qed simp

lemma zip_equal: "length xs = length ys \<Longrightarrow> (\<forall>(x, y) \<in> set (zip xs ys). x = y) \<longleftrightarrow> xs = ys"
  by (induction rule: list_induct2) auto

lemma token_eq_iff: "token_eq a b \<longleftrightarrow> a = b"
proof -
  have or_zero: "fold (\<lambda>(x, y) diff. diff OR (x XOR y)) ps d = (0 :: u8) \<longleftrightarrow> d = 0 \<and> (\<forall>(x, y) \<in> set ps. x = y)" for ps d
    by (induction ps arbitrary: d) (auto simp: or_eq_0_iff byte_xor_zero)
  have byte: "(of_nat (of_char x) :: u8) = of_nat (of_char y) \<longleftrightarrow> x = y" for x y :: char
  proof -
    have "of_char x < (256 :: nat)" "of_char y < (256 :: nat)" by simp_all
    then show ?thesis by (simp add: word_of_nat_eq_iff take_bit_eq_mod)
  qed
  have inj: "inj (of_nat \<circ> of_char :: char \<Rightarrow> u8)" by (rule injI) (simp add: byte)
  show ?thesis
  proof (cases "length a = length b")
    case True
    then show ?thesis
      using inj_map_eq_map [OF inj, of a b] by (simp add: token_eq_def or_zero zip_equal)
  qed (auto simp: token_eq_def)
qed

definition turn_ids :: "ner_service \<Rightarrow> nat set" where
  "turn_ids s = set_option (sv_turn s)"

definition line_ids :: "ner_service \<Rightarrow> nat list" where
  "line_ids s = map fst (sv_line s)"

definition task_ids :: "ner_service \<Rightarrow> nat list" where
  "task_ids s = map fst (sv_tasks s)"

definition reply_ids :: "ner_service \<Rightarrow> nat list" where
  "reply_ids s = map fst (sv_replies s)"

definition service_ok :: "ner_service \<Rightarrow> bool" where
  "service_ok s \<longleftrightarrow>
     sv_queue s + length (sv_line s) + card (turn_ids s) = MAX_QUEUED_REQUESTS
     \<and> (sv_turn s = None \<longrightarrow> sv_line s = [])
     \<and> turn_ids s \<subseteq> set (task_ids s)
     \<and> distinct (line_ids s @ task_ids s) \<and> distinct (line_ids s @ reply_ids s)
     \<and> turn_ids s \<inter> set (reply_ids s) = {}
     \<and> (\<forall>i \<in> set (line_ids s) \<union> set (task_ids s) \<union> set (reply_ids s). i < sv_next s)"

lemmas service_ids = turn_ids_def line_ids_def task_ids_def reply_ids_def

lemma service_new_ok: "service_ok (service_new d token)"
  by (simp add: service_ok_def service_new_def service_ids)

lemma pass_turn_ok:
  assumes "sv_queue s + length (sv_line s) + 1 = MAX_QUEUED_REQUESTS"
    and "distinct (line_ids s @ task_ids s)" and "distinct (line_ids s @ reply_ids s)"
    and "\<forall>i \<in> set (line_ids s) \<union> set (task_ids s) \<union> set (reply_ids s). i < sv_next s"
  shows "service_ok (pass_turn s)"
  using assms by (cases "sv_line s") (auto simp: service_ok_def pass_turn_def service_ids)

lemma service_request_ok:
  assumes "service_ok s"
  shows "service_ok (service_request h b s)"
proof -
  let ?s = "s \<lparr> sv_next := sv_next s + 1 \<rparr>" and ?i = "sv_next s"
  have fresh: "?i \<notin> set (line_ids s)" "?i \<notin> set (task_ids s)" "?i \<notin> set (reply_ids s)" "?i \<notin> turn_ids s"
    using assms unfolding service_ok_def by (auto 0 3)
  have reply: "service_ok (reply_to ?i r ?s)" for r
    using assms fresh by (auto simp: service_ok_def reply_to_def service_ids less_Suc_eq)
  have start: "service_ok (?s \<lparr> sv_queue := sv_queue s - 1, sv_turn := Some ?i, sv_tasks := sv_tasks s @ [(?i, x, f)] \<rparr>)"
    if "sv_queue s \<noteq> 0" "sv_turn s = None" for x f
    using assms fresh that by (auto simp: service_ok_def service_ids less_Suc_eq)
  have wait: "service_ok (?s \<lparr> sv_queue := sv_queue s - 1, sv_line := sv_line s @ [(?i, x, f)] \<rparr>)"
    if "sv_queue s \<noteq> 0" "sv_turn s \<noteq> None" for x f
    using assms fresh that by (auto simp: service_ok_def service_ids less_Suc_eq)
  show ?thesis
    unfolding service_request_def Let_def using reply start wait by (simp split: option.split sum.split)
qed

definition drop_task :: "nat \<Rightarrow> ner_service \<Rightarrow> ner_service" where
  "drop_task i s = s \<lparr> sv_tasks := filter (\<lambda>j. fst j \<noteq> i) (sv_tasks s) \<rparr>"

lemma drop_task_fields [simp]:
  "sv_queue (drop_task i s) = sv_queue s" "sv_line (drop_task i s) = sv_line s" "sv_turn (drop_task i s) = sv_turn s"
  "turn_ids (drop_task i s) = turn_ids s" "line_ids (drop_task i s) = line_ids s"
  "reply_ids (drop_task i s) = reply_ids s" "sv_next (drop_task i s) = sv_next s"
  "set (task_ids (drop_task i s)) = set (task_ids s) - {i}"
  by (auto simp: drop_task_def service_ids)

lemma drop_task_distinct: "distinct (task_ids s) \<Longrightarrow> distinct (task_ids (drop_task i s))"
  unfolding drop_task_def task_ids_def by (simp add: distinct_map_filter)

lemma reply_to_fields [simp]:
  "sv_queue (reply_to i r s) = sv_queue s" "sv_line (reply_to i r s) = sv_line s" "sv_turn (reply_to i r s) = sv_turn s"
  "turn_ids (reply_to i r s) = turn_ids s" "line_ids (reply_to i r s) = line_ids s"
  "reply_ids (reply_to i r s) = reply_ids s @ [i]" "sv_next (reply_to i r s) = sv_next s"
  "task_ids (reply_to i r s) = task_ids s"
  by (simp_all add: reply_to_def service_ids)

lemma task_ends_cases:
  obtains (none) "task_ends i panicked s = s"
  | (gone) "i \<in> set (task_ids s)" "sv_turn s \<noteq> Some i" "task_ends i panicked s = drop_task i s"
  | (turn) j where "j \<in> set (sv_tasks s)" "fst j = i" "sv_turn s = Some i"
      "task_ends i panicked s = pass_turn (reply_to i (task_reply panicked j) (drop_task i s))"
proof (cases "find (\<lambda>j. fst j = i) (sv_tasks s)")
  case None
  then show ?thesis by (intro none) (simp add: task_ends_def)
next
  case (Some j)
  then have j: "j \<in> set (sv_tasks s)" "fst j = i" by (auto simp: find_Some_iff)
  then have i: "i \<in> set (task_ids s)" by (auto simp: task_ids_def)
  show ?thesis
  proof (cases "sv_turn s = Some i")
    case True
    with Some j show ?thesis by (intro turn) (simp_all add: task_ends_def drop_task_def Let_def)
  next
    case False
    with Some i show ?thesis by (intro gone) (simp_all add: task_ends_def drop_task_def Let_def)
  qed
qed

lemma task_ends_ok:
  assumes "service_ok s"
  shows "service_ok (task_ends i panicked s)"
proof (cases rule: task_ends_cases [where i = i and panicked = panicked and s = s])
  case none
  with assms show ?thesis by simp
next
  case gone
  then have "i \<notin> turn_ids s" by (simp add: turn_ids_def)
  with assms drop_task_distinct have "service_ok (drop_task i s)"
    unfolding service_ok_def by auto
  with gone show ?thesis by simp
next
  case (turn j)
  have i: "i \<in> set (task_ids s)" "turn_ids s = {i}"
    using turn by (auto simp: task_ids_def turn_ids_def)
  show ?thesis
    unfolding turn(4)
  proof (rule pass_turn_ok)
    show "sv_queue (reply_to i (task_reply panicked j) (drop_task i s))
        + length (sv_line (reply_to i (task_reply panicked j) (drop_task i s))) + 1 = MAX_QUEUED_REQUESTS"
      using assms i by (simp add: service_ok_def)
    show "distinct (line_ids (reply_to i (task_reply panicked j) (drop_task i s))
        @ task_ids (reply_to i (task_reply panicked j) (drop_task i s)))"
      using assms drop_task_distinct by (auto simp: service_ok_def)
    show "distinct (line_ids (reply_to i (task_reply panicked j) (drop_task i s))
        @ reply_ids (reply_to i (task_reply panicked j) (drop_task i s)))"
      using assms i by (auto simp: service_ok_def)
    show "\<forall>k \<in> set (line_ids (reply_to i (task_reply panicked j) (drop_task i s)))
        \<union> set (task_ids (reply_to i (task_reply panicked j) (drop_task i s)))
        \<union> set (reply_ids (reply_to i (task_reply panicked j) (drop_task i s))).
        k < sv_next (reply_to i (task_reply panicked j) (drop_task i s))"
      using assms i by (auto simp: service_ok_def)
  qed
qed

lemma length_filter_out:
  "distinct (map fst xs) \<Longrightarrow> i \<in> set (map fst xs) \<Longrightarrow> length xs = Suc (length (filter (\<lambda>j. fst j \<noteq> i) xs))"
proof (induction xs)
  case Nil
  then show ?case by simp
next
  case (Cons x xs)
  show ?case
  proof (cases "fst x = i")
    case True
    with Cons.prems(1) have notin: "i \<notin> fst ` set xs" by simp
    have "fst j \<noteq> i" if "j \<in> set xs" for j using notin imageI [OF that, of fst] by blast
    then have "filter (\<lambda>j. fst j \<noteq> i) xs = xs" by simp
    with True show ?thesis by simp
  next
    case False
    with Cons show ?thesis by simp
  qed
qed

lemma client_leaves_ok:
  assumes "service_ok s"
  shows "service_ok (client_leaves i s)"
proof -
  have turn: "service_ok (pass_turn s)" if "sv_turn s = Some i"
    by (rule pass_turn_ok) (use assms that in \<open>auto simp: service_ok_def turn_ids_def\<close>)
  let ?s = "s \<lparr> sv_queue := sv_queue s + 1, sv_line := filter (\<lambda>j. fst j \<noteq> i) (sv_line s) \<rparr>"
  have waiting: "service_ok ?s" if i: "i \<in> set (line_ids s)"
  proof -
    have "distinct (line_ids s)" using assms by (simp add: service_ok_def)
    then have d: "distinct (line_ids ?s)" "length (sv_line s) = Suc (length (sv_line ?s))"
      using length_filter_out [of "sv_line s" i] i by (simp_all add: line_ids_def distinct_map_filter)
    have f: "set (line_ids ?s) \<subseteq> set (line_ids s)" "task_ids ?s = task_ids s" "reply_ids ?s = reply_ids s"
      "turn_ids ?s = turn_ids s" "sv_next ?s = sv_next s" "sv_queue ?s = Suc (sv_queue s)" "sv_turn ?s = sv_turn s"
      "sv_line s = [] \<Longrightarrow> sv_line ?s = []"
      by (auto simp: service_ids)
    have "sv_queue ?s + length (sv_line ?s) + card (turn_ids ?s) = MAX_QUEUED_REQUESTS"
      using assms d(2) unfolding f by (simp add: service_ok_def)
    moreover have "distinct (line_ids ?s @ task_ids ?s)" "distinct (line_ids ?s @ reply_ids ?s)"
      using assms d(1) f(1) unfolding f(2,3) service_ok_def by auto
    moreover have "sv_turn ?s = None \<longrightarrow> sv_line ?s = []" using assms f(8) unfolding f(7) service_ok_def by blast
    ultimately show ?thesis
      using assms f(1) unfolding service_ok_def f(2-5) by auto
  qed
  show ?thesis
    using assms turn waiting unfolding client_leaves_def line_ids_def by simp
qed

lemma service_close_ok: "service_ok s \<Longrightarrow> service_ok (service_close s)"
  by (auto simp: service_ok_def service_close_def service_ids o_def)

lemma model_loaded_ok: "service_ok s \<Longrightarrow> service_ok (model_loaded r s)"
  by (simp add: service_ok_def model_loaded_def service_ids)

lemma service_step_ok: "service_ok s \<Longrightarrow> service_ok (service_step s e)"
  by (cases e) (simp_all add: service_request_ok task_ends_ok client_leaves_ok model_loaded_ok service_close_ok)

interpretation ner_service: invariant_machine "service_new d token" service_step service_ok for d token
  by unfold_locales (auto intro: service_new_ok service_step_ok)

text \<open>In every run of the service at most 32 requests are past the queue, waiting or at their turn, the
  permits that are left are the rest, nobody waits while the turn is free, and no request is answered twice
  or answered while it is still waiting.
\<close>

theorem service_bounded:
  "let s = run_steps service_step (service_new d token) events in
     length (sv_line s) + card (turn_ids s) \<le> MAX_QUEUED_REQUESTS
     \<and> sv_queue s = MAX_QUEUED_REQUESTS - (length (sv_line s) + card (turn_ids s))
     \<and> (sv_line s \<noteq> [] \<longrightarrow> sv_turn s \<noteq> None)
     \<and> distinct (reply_ids s) \<and> (set (line_ids s) \<union> turn_ids s) \<inter> set (reply_ids s) = {}"
  using ner_service.inv_run [of d token events] unfolding service_ok_def Let_def by auto

section \<open>One inference at a time\<close>

definition one_task :: "ner_service \<Rightarrow> bool" where
  "one_task s \<longleftrightarrow> set (task_ids s) = turn_ids s"

fun stays :: "service_event \<Rightarrow> bool" where
  "stays (ClientLeaves i) = False"
| "stays e = True"

lemma one_task_request:
  assumes "one_task s"
  shows "one_task (service_request h b s)"
proof -
  have "set (task_ids s) = {} \<and> sv_turn s = None \<or> sv_turn s \<noteq> None"
    using assms by (auto simp: one_task_def turn_ids_def)
  with assms show ?thesis
    by (auto simp: service_request_def Let_def one_task_def reply_to_def service_ids split: option.split sum.split)
qed

lemma one_task_release: "task_ids s = [] \<Longrightarrow> one_task (pass_turn s)"
  by (cases "sv_line s") (auto simp: pass_turn_def one_task_def service_ids)

lemma one_task_ends:
  assumes "one_task s"
  shows "one_task (task_ends i panicked s)"
proof (cases rule: task_ends_cases [where i = i and panicked = panicked and s = s])
  case none
  with assms show ?thesis by simp
next
  case gone
  with assms show ?thesis by (auto simp: one_task_def turn_ids_def)
next
  case (turn j)
  have "set (task_ids (drop_task i s)) = {}" using assms turn(3) by (auto simp: one_task_def turn_ids_def)
  then have "task_ids (drop_task i s) = []" by (simp only: set_empty)
  then show ?thesis unfolding turn(4) by (intro one_task_release) simp
qed

lemma one_task_step:
  assumes "one_task s" and "stays e"
  shows "one_task (service_step s e)"
  using assms
  by (cases e) (simp_all add: one_task_request one_task_ends, simp_all add: one_task_def service_close_def
      model_loaded_def service_ids)

lemma one_task_run:
  "one_task s \<Longrightarrow> \<forall>e \<in> set events. stays e \<Longrightarrow> one_task (run_steps service_step s events)"
  by (induction events arbitrary: s) (auto intro: one_task_step)

text \<open>As long as no client gives up, the model runs for at most one request at a time, the one that has
  the turn.
\<close>

theorem one_inference_at_a_time:
  assumes "\<forall>e \<in> set events. stays e"
  shows "length (sv_tasks (run_steps service_step (service_new d token) events)) \<le> 1
    \<and> set (task_ids (run_steps service_step (service_new d token) events))
        = turn_ids (run_steps service_step (service_new d token) events)"
proof -
  let ?s = "run_steps service_step (service_new d token) events"
  have one: "one_task ?s"
    by (rule one_task_run [OF _ assms]) (simp add: one_task_def service_new_def service_ids)
  have "distinct (task_ids ?s)" using ner_service.inv_run [of d token events] by (simp add: service_ok_def)
  then have "length (sv_tasks ?s) = card (turn_ids ?s)"
    using one distinct_card by (fastforce simp: one_task_def task_ids_def)
  also have "\<dots> \<le> 1" by (cases "sv_turn ?s") (simp_all add: turn_ids_def)
  finally show ?thesis using one by (simp add: one_task_def)
qed

definition demo_span_detector :: span_detector where
  "demo_span_detector texts = Inr (map (\<lambda>_. []) texts)"

definition demo_service_events :: "service_event list" where
  "demo_service_events = [ModelLoaded (Inr demo_span_detector), Requested (Some ''t'') (Some [''a'']),
     Requested (Some ''t'') (Some [''b''])]"

theorem one_inference_at_a_time_witness:
  "length (sv_tasks (run_steps service_step (service_new Loading ''t'') demo_service_events)) \<le> 1"
  using one_inference_at_a_time [of demo_service_events Loading "''t''"] by (simp add: demo_service_events_def)

text \<open>
  The bound is lost when a client gives up: dropping its handler returns the permit of \<open>inference\<close>, while its
  blocking task goes on, so the next request starts a second inference beside it.
\<close>

lemma disconnect_starts_second_inference:
  "length (sv_tasks (run_steps service_step (service_new Loading ''t'') (demo_service_events @ [ClientLeaves 0]))) = 2"
  by code_simp

section \<open>Answers\<close>

definition requests_of :: "service_event list \<Rightarrow> (rstr option \<times> rstr list option) list" where
  "requests_of events = concat (map (\<lambda>e. case e of Requested h b \<Rightarrow> [(h, b)] | _ \<Rightarrow> []) events)"

definition detectors_of :: "detector_state \<Rightarrow> service_event list \<Rightarrow> span_detector set" where
  "detectors_of d events = {f. d = Ready f \<or> ModelLoaded (Inr f) \<in> set events}"

text \<open>Request \<open>i\<close> presented the token and asked for \<open>texts\<close>.\<close>

definition asked :: "rstr \<Rightarrow> service_event list \<Rightarrow> nat \<Rightarrow> rstr list \<Rightarrow> bool" where
  "asked token events i texts \<longleftrightarrow>
     i < length (requests_of events)
     \<and> (case requests_of events ! i of (h, b) \<Rightarrow> (case h of Some x \<Rightarrow> x | None \<Rightarrow> []) = token \<and> b = Some texts)"

lemma asked_more: "asked token events i texts \<Longrightarrow> asked token (events @ [e]) i texts"
  by (simp add: asked_def requests_of_def nth_append)

lemma detectors_more: "f \<in> detectors_of d events \<Longrightarrow> f \<in> detectors_of d (events @ [e])"
  by (auto simp: detectors_of_def)

definition answers_inv :: "detector_state \<Rightarrow> rstr \<Rightarrow> service_event list \<Rightarrow> ner_service \<Rightarrow> bool" where
  "answers_inv d token events s \<longleftrightarrow>
     sv_token s = token \<and> sv_next s = length (requests_of events)
     \<and> (\<forall>f. sv_detector s = Ready f \<longrightarrow> f \<in> detectors_of d events)
     \<and> (\<forall>i texts f. (i, texts, f) \<in> set (sv_line s) \<union> set (sv_tasks s) \<longrightarrow>
          asked token events i texts \<and> f \<in> detectors_of d events)
     \<and> (\<forall>i spans. (i, Detected spans) \<in> set (sv_replies s) \<longrightarrow>
          (\<exists>texts f. asked token events i texts \<and> f \<in> detectors_of d events \<and> f texts = Inr spans))"

lemma answers_more:
  assumes "answers_inv d token events s"
  shows "\<forall>i texts f. (i, texts, f) \<in> set (sv_line s) \<union> set (sv_tasks s) \<longrightarrow>
      asked token (events @ [e]) i texts \<and> f \<in> detectors_of d (events @ [e])"
    and "\<forall>i spans. (i, Detected spans) \<in> set (sv_replies s) \<longrightarrow>
      (\<exists>texts f. asked token (events @ [e]) i texts \<and> f \<in> detectors_of d (events @ [e]) \<and> f texts = Inr spans)"
    and "\<forall>f. sv_detector s = Ready f \<longrightarrow> f \<in> detectors_of d (events @ [e])"
  using assms asked_more detectors_more unfolding answers_inv_def by (blast, blast, blast)

lemma answers_release:
  assumes "\<forall>i texts f. (i, texts, f) \<in> set (sv_line s) \<union> set (sv_tasks s) \<longrightarrow> Q i texts f"
  shows "\<forall>i texts f. (i, texts, f) \<in> set (sv_line (pass_turn s)) \<union> set (sv_tasks (pass_turn s)) \<longrightarrow> Q i texts f"
    and "sv_replies (pass_turn s) = sv_replies s" and "sv_detector (pass_turn s) = sv_detector s"
    and "sv_token (pass_turn s) = sv_token s" and "sv_next (pass_turn s) = sv_next s"
  using assms by (cases "sv_line s"; auto simp: pass_turn_def)+

lemma requests_snoc: "requests_of (events @ [Requested h b]) = requests_of events @ [(h, b)]"
  by (simp add: requests_of_def)

lemma answers_request:
  assumes I: "answers_inv d token events s"
  shows "answers_inv d token (events @ [Requested h b]) (service_request h b s)"
proof -
  let ?es = "events @ [Requested h b]" and ?i = "sv_next s"
  have base: "sv_token s = token" "?i = length (requests_of events)" using I by (simp_all add: answers_inv_def)
  note more = answers_more [OF I, of "Requested h b"]
  have new: "asked token ?es ?i x" if "token_eq (case h of Some y \<Rightarrow> y | None \<Rightarrow> []) (sv_token s)" "b = Some x" for x
    using that base by (simp add: asked_def requests_snoc token_eq_iff)
  have f: "f \<in> detectors_of d ?es" if "service_ready (sv_detector s) = Inr f" for f
    using that more(3) by (auto simp: service_ready_def split: detector_state.splits)
  show ?thesis
    using base more new f
    by (auto simp: answers_inv_def service_request_def Let_def reply_to_def requests_snoc split: option.splits sum.splits)
qed

lemma answers_step:
  assumes I: "answers_inv d token events s"
  shows "answers_inv d token (events @ [e]) (service_step s e)"
proof (cases e)
  case (Requested h b)
  with answers_request [OF I] show ?thesis by simp
next
  case (TaskEnds i panicked)
  note more = answers_more [OF I, of e]
  have same: "requests_of (events @ [e]) = requests_of events" by (simp add: requests_of_def TaskEnds)
  have base: "sv_token s = token" "sv_next s = length (requests_of (events @ [e]))"
    using I by (simp_all add: answers_inv_def same)
  show ?thesis
    unfolding TaskEnds service_step.simps
  proof (cases rule: task_ends_cases [where i = i and panicked = panicked and s = s])
    case none
    with base more show "answers_inv d token (events @ [TaskEnds i panicked]) (task_ends i panicked s)"
      by (simp add: answers_inv_def TaskEnds)
  next
    case gone
    with base more show "answers_inv d token (events @ [TaskEnds i panicked]) (task_ends i panicked s)"
      by (auto simp: answers_inv_def TaskEnds drop_task_def)
  next
    case (turn j)
    let ?s = "reply_to i (task_reply panicked j) (drop_task i s)"
    obtain texts f where j: "j = (i, texts, f)" using turn(2) by (cases j) auto
    have mine: "asked token (events @ [e]) i texts" "f \<in> detectors_of d (events @ [e])"
      using more(1) turn(1) j by auto
    have "\<forall>i texts f. (i, texts, f) \<in> set (sv_line ?s) \<union> set (sv_tasks ?s) \<longrightarrow>
        asked token (events @ [e]) i texts \<and> f \<in> detectors_of d (events @ [e])"
      using more(1) by (auto simp: reply_to_def drop_task_def)
    note rel = answers_release [OF this]
    have "\<exists>texts f. asked token (events @ [e]) k texts \<and> f \<in> detectors_of d (events @ [e]) \<and> f texts = Inr spans"
      if "(k, Detected spans) \<in> set (sv_replies ?s)" for k spans
    proof (cases "(k, Detected spans) \<in> set (sv_replies s)")
      case True
      with more(2) show ?thesis by blast
    next
      case False
      with that have "k = i" "task_reply panicked j = Detected spans" by (auto simp: reply_to_def drop_task_def)
      with mine show ?thesis by (auto simp: task_reply_def j split: if_splits sum.splits)
    qed
    with rel base more(3) show "answers_inv d token (events @ [TaskEnds i panicked]) (task_ends i panicked s)"
      unfolding turn(4) TaskEnds [symmetric] answers_inv_def
      by (simp add: reply_to_def drop_task_def)
  qed
next
  case (ClientLeaves i)
  note more = answers_more [OF I, of e]
  have same: "requests_of (events @ [e]) = requests_of events" by (simp add: requests_of_def ClientLeaves)
  have base: "sv_token s = token" "sv_next s = length (requests_of (events @ [e]))"
    using I by (simp_all add: answers_inv_def same)
  note rel = answers_release [OF more(1)]
  show ?thesis
    using base more rel unfolding answers_inv_def ClientLeaves [symmetric]
    by (auto simp: client_leaves_def ClientLeaves)
next
  case (ModelLoaded r)
  note more = answers_more [OF I, of e]
  have "requests_of (events @ [e]) = requests_of events" by (simp add: requests_of_def ModelLoaded)
  with I more show ?thesis
    by (auto simp: answers_inv_def ModelLoaded model_loaded_def detectors_of_def split: sum.splits)
next
  case Closes
  note more = answers_more [OF I, of e]
  have "requests_of (events @ [e]) = requests_of events" by (simp add: requests_of_def Closes)
  with I more show ?thesis
    by (auto simp: answers_inv_def Closes service_close_def)
qed

lemma answers_run: "answers_inv d token events (run_steps service_step (service_new d token) events)"
proof (induction events rule: rev_induct)
  case Nil
  then show ?case by (auto simp: answers_inv_def service_new_def requests_of_def detectors_of_def)
next
  case (snoc e events)
  then show ?case by (simp add: run_steps_append answers_step)
qed

text \<open>C11. Spans are only sent to a request that presented the token, and they are what a loaded detector
  answered for the texts of that same request; nor does the model run for any other request.
\<close>

theorem spans_answer_authorized_request:
  assumes "(i, Detected spans) \<in> set (sv_replies (run_steps service_step (service_new d token) events))"
  shows "\<exists>texts f. asked token events i texts \<and> f \<in> detectors_of d events \<and> f texts = Inr spans"
  using answers_run [of d token events] assms unfolding answers_inv_def by blast

theorem spans_answer_authorized_request_witness:
  "\<exists>texts f. asked ''t'' (demo_service_events @ [TaskEnds 0 False]) 0 texts
     \<and> f \<in> detectors_of Loading (demo_service_events @ [TaskEnds 0 False]) \<and> f texts = Inr [[]]"
proof (rule spans_answer_authorized_request)
  show "(0, Detected [[]])
      \<in> set (sv_replies (run_steps service_step (service_new Loading ''t'') (demo_service_events @ [TaskEnds 0 False])))"
    by code_simp
qed

section \<open>Everyone in the line is answered\<close>

text \<open>The place of a request: 0 at its turn, then the line from its front.\<close>

fun at_place :: "nat \<Rightarrow> nat \<Rightarrow> ner_service \<Rightarrow> bool" where
  "at_place i 0 s = (sv_turn s = Some i)"
| "at_place i (Suc m) s = (m < length (sv_line s) \<and> line_ids s ! m = i)"

text \<open>An event that ends the turn: the task of the request that has it ends, panicked or not, or its client
  leaves; and how often that happens.\<close>

definition ends_turn :: "ner_service \<Rightarrow> service_event \<Rightarrow> bool" where
  "ends_turn s e \<longleftrightarrow> (case e of TaskEnds i panicked \<Rightarrow> sv_turn s = Some i | ClientLeaves i \<Rightarrow> sv_turn s = Some i | _ \<Rightarrow> False)"

fun turns_over :: "ner_service \<Rightarrow> service_event list \<Rightarrow> nat" where
  "turns_over s [] = 0"
| "turns_over s (e # es) = (if ends_turn s e then 1 else 0) + turns_over (service_step s e) es"

lemma pass_turn_replies: "reply_ids (pass_turn s) = reply_ids s"
  by (cases "sv_line s") (simp_all add: pass_turn_def reply_ids_def)

lemma at_place_line: "at_place i (Suc m) s \<longleftrightarrow> (\<exists>f b. sv_line s = f @ b \<and> length f = m \<and> b \<noteq> [] \<and> fst (hd b) = i)"
proof
  assume "at_place i (Suc m) s"
  then show "\<exists>f b. sv_line s = f @ b \<and> length f = m \<and> b \<noteq> [] \<and> fst (hd b) = i"
    by (rule_tac x = "take m (sv_line s)" in exI, rule_tac x = "drop m (sv_line s)" in exI) (auto simp: line_ids_def hd_drop_conv_nth)
next
  assume "\<exists>f b. sv_line s = f @ b \<and> length f = m \<and> b \<noteq> [] \<and> fst (hd b) = i"
  then show "at_place i (Suc m) s" by (auto simp: line_ids_def nth_append hd_conv_nth)
qed

lemma place_has_turn: "service_ok s \<Longrightarrow> at_place i m s \<Longrightarrow> \<exists>j. sv_turn s = Some j"
  by (cases m) (auto simp: service_ok_def)

lemma pass_turn_place: "at_place i (Suc m) s \<Longrightarrow> at_place i m (pass_turn s)"
  by (cases "sv_line s"; cases m) (auto simp: pass_turn_def line_ids_def)

lemma place_same: "sv_turn s' = sv_turn s \<Longrightarrow> sv_line s' = sv_line s @ new \<Longrightarrow> at_place i m s \<Longrightarrow> at_place i m s'"
  by (cases m) (auto simp: line_ids_def nth_append)

lemma place_filter:
  assumes "at_place i m s" and "j \<noteq> i"
  shows "\<exists>m' \<le> m. at_place i m' (s \<lparr> sv_queue := q, sv_line := filter (\<lambda>x. fst x \<noteq> j) (sv_line s) \<rparr>)"
proof (cases m)
  case (Suc n)
  with assms(1) obtain f b where fb: "sv_line s = f @ b" "length f = n" "b \<noteq> []" "fst (hd b) = i"
    by (auto simp: at_place_line simp del: at_place.simps)
  then obtain x r where b: "b = x # r" by (cases b) auto
  let ?f = "filter (\<lambda>x. fst x \<noteq> j) f" and ?s = "s \<lparr> sv_queue := q, sv_line := filter (\<lambda>x. fst x \<noteq> j) (sv_line s) \<rparr>"
  have "sv_line ?s = ?f @ x # filter (\<lambda>x. fst x \<noteq> j) r" using fb b assms(2) by simp
  with fb b have "at_place i (Suc (length ?f)) ?s" unfolding at_place_line by fastforce
  moreover have "Suc (length ?f) \<le> m" using fb(2) Suc length_filter_le [of "\<lambda>x. fst x \<noteq> j" f] by simp
  ultimately show ?thesis by blast
qed (use assms in auto)

lemma replies_kept: "set (reply_ids s) \<subseteq> set (reply_ids (service_step s e))"
proof (cases e)
  case (Requested h b)
  then show ?thesis by (auto simp: service_request_def Let_def reply_to_def reply_ids_def split: option.split sum.split)
next
  case (TaskEnds i p)
  show ?thesis unfolding TaskEnds service_step.simps
    by (cases rule: task_ends_cases [where i = i and panicked = p and s = s]) (auto simp: pass_turn_replies)
next
  case (ClientLeaves i)
  then show ?thesis by (auto simp: client_leaves_def pass_turn_replies) (auto simp: reply_ids_def)
qed (auto simp: model_loaded_def service_close_def reply_ids_def)

lemma place_step:
  assumes "service_ok s" and "at_place i m s" and "e \<noteq> ClientLeaves i"
  shows "i \<in> set (reply_ids (service_step s e))
    \<or> (\<exists>m'. m' + (if ends_turn s e then 1 else 0) \<le> m \<and> at_place i m' (service_step s e))"
proof (cases e)
  case (Requested h b)
  obtain j where "sv_turn s = Some j" using place_has_turn [OF assms(1,2)] by blast
  then have "\<exists>new. sv_turn (service_step s e) = sv_turn s \<and> sv_line (service_step s e) = sv_line s @ new"
    by (auto simp: Requested service_request_def Let_def reply_to_def split: option.split sum.split)
  with place_same assms(2) show ?thesis by (auto simp: ends_turn_def Requested)
next
  case (TaskEnds j p)
  show ?thesis
  proof (cases rule: task_ends_cases [where i = j and panicked = p and s = s])
    case none
    have "sv_turn s \<noteq> Some j"
    proof
      assume t: "sv_turn s = Some j"
      then have "j \<in> set (task_ids s)" using assms(1) by (auto simp: service_ok_def turn_ids_def)
      then obtain x where "find (\<lambda>x. fst x = j) (sv_tasks s) = Some x"
        by (cases "find (\<lambda>x. fst x = j) (sv_tasks s)") (auto simp: find_None_iff task_ids_def)
      with t none have "s = pass_turn (reply_to j (task_reply p x) (drop_task j s))"
        by (simp add: task_ends_def Let_def drop_task_def)
      then have "reply_ids s = reply_ids s @ [j]" by (metis drop_task_fields(6) pass_turn_replies reply_to_fields(6))
      then show False by simp
    qed
    with none assms(2) show ?thesis by (auto simp: TaskEnds ends_turn_def)
  next
    case gone
    with assms(2) place_same [of "drop_task j s" s "[]" i m] show ?thesis by (auto simp: TaskEnds ends_turn_def)
  next
    case (turn x)
    show ?thesis
    proof (cases m)
      case 0
      with assms(2) turn show ?thesis by (simp add: TaskEnds pass_turn_replies)
    next
      case (Suc n)
      have "at_place i (Suc n) (reply_to j (task_reply p x) (drop_task j s))"
        using place_same [of "reply_to j (task_reply p x) (drop_task j s)" s "[]" i m] assms(2) Suc by simp
      from pass_turn_place [OF this] turn Suc show ?thesis by (auto simp: TaskEnds ends_turn_def)
    qed
  qed
next
  case (ClientLeaves j)
  with assms(3) have j: "j \<noteq> i" by simp
  show ?thesis
  proof (cases "sv_turn s = Some j")
    case True
    with assms(2) j obtain n where "m = Suc n" by (cases m) auto
    with pass_turn_place assms(2) True show ?thesis by (auto simp: ClientLeaves client_leaves_def ends_turn_def)
  next
    case False
    with place_filter [OF assms(2) j] assms(2) show ?thesis by (auto simp: ClientLeaves client_leaves_def ends_turn_def)
  qed
next
  case (ModelLoaded r)
  with place_same [of "service_step s e" s "[]" i m] assms(2) show ?thesis by (auto simp: model_loaded_def ends_turn_def)
next
  case Closes
  show ?thesis
  proof (cases m)
    case 0
    with assms(2) Closes show ?thesis by (auto simp: service_close_def ends_turn_def intro: exI [of _ 0])
  next
    case (Suc n)
    with assms(2) have "i \<in> set (line_ids s)" by (auto simp: line_ids_def)
    with Closes show ?thesis by (auto simp: service_close_def reply_ids_def line_ids_def)
  qed
qed

lemma replies_kept_run: "i \<in> set (reply_ids s) \<Longrightarrow> i \<in> set (reply_ids (run_steps service_step s es))"
  by (induction es arbitrary: s) (use replies_kept in auto)

lemma place_run:
  assumes "service_ok s" and "at_place i m s" and "ClientLeaves i \<notin> set es"
  shows "i \<in> set (reply_ids (run_steps service_step s es))
    \<or> (\<exists>m'. m' + turns_over s es \<le> m \<and> at_place i m' (run_steps service_step s es))"
  using assms
proof (induction es arbitrary: s m)
  case (Cons e es)
  from place_step [OF Cons.prems(1,2), of e] Cons.prems(3) consider "i \<in> set (reply_ids (service_step s e))"
    | m' where "m' + (if ends_turn s e then 1 else 0) \<le> m" "at_place i m' (service_step s e)" by auto
  then show ?case
  proof cases
    case 1
    with replies_kept_run show ?thesis by simp
  next
    case 2
    have "ClientLeaves i \<notin> set es" using Cons.prems(3) by simp
    from Cons.IH [OF service_step_ok [OF Cons.prems(1)] 2(2) this] show ?thesis
    proof
      assume "\<exists>l. l + turns_over (service_step s e) es \<le> m' \<and> at_place i l (run_steps service_step (service_step s e) es)"
      then obtain l where l: "l + turns_over (service_step s e) es \<le> m'"
        "at_place i l (run_steps service_step s (e # es))" by (elim exE conjE) simp
      from l(1) 2(1) have "l + turns_over s (e # es) \<le> m" by simp
      with l(2) show ?thesis by blast
    qed simp
  qed
qed auto

text \<open>C24. Nobody starves in the queue and nobody overtakes: take the request at position k of the line after any run, and
  any further events, in any order, in which its client does not leave. Once the turn has ended k + 2 times, by the
  end of a task, panicked or not, or by a client that leaves, the request has its answer; and until it is answered
  it is at its turn or in the line, with at most k requests before it, one less for each end of the turn,
  whatever requests arrive, leave, load or close meanwhile.\<close>

theorem queued_request_answered:
  assumes "k < length (line_ids (run_steps service_step (service_new d token) events))"
    and "i = line_ids (run_steps service_step (service_new d token) events) ! k" and "ClientLeaves i \<notin> set later"
  shows "let s = run_steps service_step (service_new d token) events; s' = run_steps service_step s later in
      (k + 2 \<le> turns_over s later \<longrightarrow> i \<in> set (reply_ids s'))
    \<and> (i \<in> set (reply_ids s') \<or> (\<exists>m. m + turns_over s later \<le> k + 1 \<and> at_place i m s'))"
proof -
  have "at_place i (Suc k) (run_steps service_step (service_new d token) events)"
    using assms(1,2) by (simp add: line_ids_def)
  from place_run [OF ner_service.inv_run this assms(3)] show ?thesis by (auto simp: Let_def)
qed

definition demo_later_events :: "service_event list" where
  "demo_later_events = [Requested (Some ''t'') (Some [''c'']), TaskEnds 0 True, ClientLeaves 2, TaskEnds 1 False]"

theorem queued_request_answered_witness:
  "1 \<in> set (reply_ids (run_steps service_step (run_steps service_step (service_new Loading ''t'') demo_service_events) demo_later_events))"
proof -
  have "0 < length (line_ids (run_steps service_step (service_new Loading ''t'') demo_service_events))"
    "1 = line_ids (run_steps service_step (service_new Loading ''t'') demo_service_events) ! 0"
    "ClientLeaves 1 \<notin> set demo_later_events"
    "0 + 2 \<le> turns_over (run_steps service_step (service_new Loading ''t'') demo_service_events) demo_later_events"
    by (code_simp, code_simp, simp add: demo_later_events_def, code_simp)
  with queued_request_answered [of 0 Loading "''t''" demo_service_events 1 demo_later_events] show ?thesis by (simp add: Let_def)
qed

section \<open>Starting and stopping with the project\<close>

datatype transition = StartIfWanted | StopUnlessWanted | Sync

text \<open>The slot of the running service; \<open>started\<close> is what starting one gives.\<close>

definition apply_state :: "transition \<Rightarrow> bool \<Rightarrow> 'a option \<Rightarrow> 'a option \<Rightarrow> 'a option" where
  "apply_state tr wanted started slot =
     (case slot of
        None \<Rightarrow> if tr \<in> {StartIfWanted, Sync} \<and> wanted then started else None
      | Some v \<Rightarrow> if tr \<in> {StopUnlessWanted, Sync} \<and> \<not> wanted then None else Some v)"

text \<open>Before and after a switch: a service that is still wanted is neither stopped nor started twice.\<close>

lemma switch_keeps_wanted_service:
  "apply_state StopUnlessWanted True b (apply_state StartIfWanted True a (Some v)) = Some v"
  by (simp add: apply_state_def)

lemma sync_is_start_then_stop:
  "apply_state Sync wanted a slot = apply_state StopUnlessWanted wanted b (apply_state StartIfWanted wanted a slot)"
  by (cases slot) (auto simp: apply_state_def split: option.splits)

section \<open>A small artifact\<close>

definition demo_manifest :: manifest where
  "demo_manifest = \<lparr> mf_artifact_format_version = 1,
     mf_model = \<lparr> mi_name = ''m'', mi_revision = ''r'', mi_version = ''1'',
       mi_source_tflite_sha256 = SOURCE_TFLITE_SHA256, mi_param_count = 3 \<rparr>,
     mf_files = \<lparr> af_weights = ''w'', af_weights_sha256 = ''d'', af_tokenizer = ''t'', af_tokenizer_sha256 = ''d'' \<rparr>,
     mf_config = \<lparr> mc_vocab_size = 8, mc_hidden_size = 4, mc_num_hidden_layers = 1, mc_num_attention_heads = 2,
       mc_head_dim = 2, mc_intermediate_size = 4, mc_max_seq_len = 256, mc_layer_norm_eps = 0, mc_attention_scale = 0,
       mc_gelu_approximate = False, mc_num_labels = 2, mc_pad_token_id = 1, mc_cls_token_id = 0, mc_sep_token_id = 2 \<rparr>,
     mf_labels = [''O'', ''S-GIVEN_NAME''],
     mf_pipeline = \<lparr> pd_max_content = 254, pd_stride = 64, pd_min_score = Finite 6, pd_low_score = Finite 3 \<rparr> \<rparr>"

definition demo_artifact_env :: artifact_env where
  "demo_artifact_env = \<lparr> ae_read = (\<lambda>_. Inr ''x''), ae_parse = (\<lambda>_. Inr demo_manifest), ae_sha256_hex = (\<lambda>_. ''d''),
     ae_tokenizer = (\<lambda>_. Inr (de_tokenizer ner_demo_detector)), ae_build_model = (\<lambda>_ _ _. Inr demo_row),
     ae_word_char = ascii_word \<rparr>"

theorem loaded_detector_checked_witness:
  "\<exists>a tok. artifact_open demo_artifact_env ''a'' = Inr a \<and> ae_read demo_artifact_env (ar_tokenizer_path a) = Inr tok
     \<and> ae_sha256_hex demo_artifact_env tok = af_tokenizer_sha256 (mf_files (ar_manifest a))"
proof -
  have v: "manifest_validate demo_manifest = Inr ()"
    by (simp add: manifest_validate_def demo_manifest_def in_unit_range_def f32_ge_def F32_ONE_def)
  have u: "is_utf8 ''x''" by code_simp
  have labels: "label_set_from_names [''O'', ''S-GIVEN_NAME''] = Inr [Outside, Single GivenName]" by code_simp
  have "\<exists>D. detector_load demo_artifact_env ''a'' Cpu = Inr D"
    using v u labels
    by (simp add: detector_load_def artifact_open_def manifest_load_def manifest_parse_def demo_artifact_env_def
        read_file_def verify_sha256_def Let_def bert_config_from_manifest_def,
      simp add: demo_manifest_def ARTIFACT_FORMAT_VERSION_def)
  then obtain D where "detector_load demo_artifact_env ''a'' Cpu = Inr D" by blast
  from loaded_detector_checked [OF this] show ?thesis by blast
qed

end
