(* ===== verification/Spec2Isabelle.thy ===== *)
theory Spec2Isabelle
  imports Proxy_Forward Security_Gate Keep_Awake Chat_Tabs Ner_Service
begin

text \<open>
  A verification development for Speedwave, a desktop application that runs Claude Code in containers.

  \<^bold>\<open>The program.\<close> Claude Code runs in a container without internet access. Its requests to a model go through a
  proxy, which seals personal data and secrets in them before they leave the computer, routes them to a provider
  with the right credential, and puts the sealed values back into the stream of the answer; git traffic goes
  through the same proxy, restricted to an allowlist of repositories. A gate checks the compose document of a
  project before its containers start. The desktop application starts a Claude session per chat tab, parses its
  output, answers its requests for permission and its questions to the user, and keeps the computer awake while
  work is under way.

  \<^bold>\<open>The engine\<close> (crates/pii-engine/src). \<open>Validators\<close> models validators.rs and patterns.rs: each checksum is proved
  equal to its textbook definition. \<open>Siv\<close> models siv.rs over AES-SIV and base64 as parameters. \<open>Policy\<close> models
  policy.rs: what a compiled policy is guaranteed to satisfy. \<open>Token_Span\<close>, \<open>Scan\<close> and \<open>Json\<close> model scan.rs: the
  grammar of tokens and its incremental recogniser, sealing and resolving, scans of texts and of JSON documents
  with their round trips. \<open>Alias\<close> models its keyword aliases.

  \<^bold>\<open>The proxy\<close> (containers/proxy/src). \<open>Proxy_Pii\<close> models pii.rs, \<open>Proxy_Rewrite\<close> rewrite.rs (the incremental
  rewriter of event streams: chunking does not matter, texts of blocks are rewritten as a whole, buffers are
  bounded), \<open>Proxy_Git\<close> router.rs, keys.rs, main.rs, git.rs and audit.rs, \<open>Git_Allowlist\<close> the allowlist side in
  crates/speedwave-runtime/src/git_allowlist.rs, \<open>Proxy_Ner\<close> ner.rs with its cache and batching, \<open>Proxy_Forward\<close>
  forward.rs, count_tokens.rs and usage.rs. A request runs through them in this order: authentication and routing,
  collecting leaves, detector, scan, outbound headers, relay through the rewriter, accounting.

  \<^bold>\<open>The detector\<close> (crates/pii-ner/src and desktop/src-tauri/src/pii_ner_service.rs), which the proxy asks for
  personal data no pattern finds. \<open>Ner_Pipeline\<close> models the pipeline around the classifier: labels and tags,
  validated offsets, windows, batches, the decoding of tags, duplicates, merging and snapping to words.
  \<open>Ner_Detect\<close> proves that windows cover every token, that a confident token is reported unless labels collide,
  that reported spans are disjoint pieces of the text which the scan of the proxy uses unchanged, and that batching
  does not matter. \<open>Ner_Service\<close> models the checks of the artifact and the service: its requests, queue, turn of
  inference, blocking tasks and clients that leave, one event each.

  \<^bold>\<open>The compose gate\<close> (crates/speedwave-runtime/src/compose/security_check.rs and what it reads of compose, plugin,
  fs_security, consts). \<open>Compose_Yaml\<close> holds the document and its small parsers, \<open>Security_Rules\<close> the rules and the
  mount rules of one service, \<open>Security_Check\<close> every check in the order of \<open>run\<close>, \<open>Security_Gate\<close> what an empty
  list of violations guarantees.

  \<^bold>\<open>The desktop application\<close> (desktop/src-tauri/src). \<open>Keep_Awake\<close> models keep_awake.rs as functions on the state
  behind its mutex and a labelled transition system of holds, timer threads and the clock around them.
  \<open>Chat_Stream\<close> models the stream parser of chat.rs with session_model.rs and pii_display.rs. \<open>Chat_Control\<close> models
  control_channel.rs, the model ids of model_id.rs and the commands of slash.rs. \<open>Chat_Session\<close> models the rest of a
  session in chat.rs and the one-slot queue of session/queue.rs: the state the reader thread and the commands share,
  with one function per critical section, so that an interleaving is a sequence of steps; sending a message is two
  steps, because the reader may run between them. When it is stopped is also modelled in time, with the container exec
  of session/instance.rs and binary.rs. The switch of the model by the user (\<open>ModelSwitch::apply\<close>) is not among the
  steps. \<open>Chat_Tabs\<close> models chat_registry.rs.

  \<^bold>\<open>Conventions.\<close> A Rust string is the list of its UTF-8 bytes; u8, u32, u64 and usize are machine words where their
  arithmetic can wrap or saturate, and lengths are natural numbers. A result is a sum with the error on the left;
  a panic is a missing result or a reply of its own. Maps that the code iterates in key order are sorted
  association lists, other maps are partial functions. Effects on the outside are returned as lists. Third-party
  code and the operating system are fields of environment records (the crypto, the JSON printer and parser, the
  Unicode case mapping, the YAML parser, the HTTP client, the detector): definitions that use them take the record,
  and a theorem that relies on their documented behaviour has it as a named hypothesis and a witness that satisfies
  it. \<open>Prelude\<close> and \<open>Rust_Str\<close> hold the shared vocabulary. \<open>Prelude\<close> also holds two interfaces, the locales
  \<open>invariant_machine\<close> for components that are a function of their events and \<open>relational_machine\<close> for those where
  threads choose; the stateful components interpret them (\<open>rw\<close>, \<open>keeper\<close>, \<open>channel\<close>, \<open>session\<close>, \<open>registry\<close>,
  \<open>ner_service\<close>) and their
  properties rest on the facts of the interpretation. The token codec of \<open>Token_Span\<close> and the cache of \<open>Proxy_Ner\<close> have
  interfaces of their own, \<open>token_codec\<close> and \<open>memo_cache\<close>, interpreted on the code's encryption and generations.

  \<^bold>\<open>Termination and bounds.\<close> Every loop is a total function; none is modelled with fuel. Recursions that are not
  structural have a measure: the length of the rest of a buffer or text, the tokens left for windows, or the time
  that is left before a deadline, as for the waits of \<open>stop\<close>: the exec that reaps the instance within its deadline
  of 24 seconds and the grace for its outputs, then 5260 milliseconds for the child and the readers, each plus what
  sleeps oversleep, the preparation of the exec and the wait after a kill. Limits of the code (sizes of messages, numbers of rules, tabs, questions) are the constants of the
  source.

  \<^bold>\<open>Not modelled.\<close> Log lines, poisoned locks and thread start-up. Of the desktop application: its user interface
  in TypeScript, the commands that only pass their arguments on, chat history, transcription, updater and tray.
  Of the runtime library: rendering compose documents, provisioning virtual machines and calling container
  engines, plugins beyond what the gate reads, OAuth processes, configuration files. These are for the most part
  file, process and network input and output. Of the detector: the neural network and the
  reading of its tensors, which are a parameter that turns ids into classes and probabilities. The WebAssembly
  bindings of crates/pii-engine-wasm and
  the command line of crates/speedwave-cli are glue over the modelled code.
\<close>

end
